(* ===== verification/Redis_Prelude.thy ===== *)
theory Redis_Prelude
  imports Main "HOL-Library.Word" "HOL-Library.Monad_Syntax"
begin

text \<open>
  Shared vocabulary of the development: the C integer types, the tail queues of Varnish's
  \<open>vqueue.h\<close> as lists with the three operations the code uses on them (insert at the tail,
  remove, and the pair "remove and insert at the tail" that rotates an element to the end), the
  collections the proofs of the components share, and generic lemmas on lists and words.
\<close>

unbundle bit_operations_syntax

type_synonym byte = "8 word"
type_synonym uint16 = "16 word"
type_synonym uint32 = "32 word"
type_synonym uint64 = "64 word"
type_synonym uint = "32 word"

named_theorems frame_simps \<open>fields that an operation leaves alone\<close>
named_theorems inv_intros \<open>preservation of the components' invariants\<close>

section \<open>Tail queues\<close>

text \<open>
  A \<open>VTAILQ\<close> is the list of its elements from head to tail. \<open>VTAILQ_REMOVE\<close> unlinks one
  element, which occurs at most once in a queue.
\<close>

definition tailq_insert_tail :: "'a list \<Rightarrow> 'a \<Rightarrow> 'a list" where
  "tailq_insert_tail q x = q @ [x]"

definition tailq_remove :: "'a list \<Rightarrow> 'a \<Rightarrow> 'a list" where
  "tailq_remove q x = remove1 x q"

definition tailq_rotate :: "'a list \<Rightarrow> 'a \<Rightarrow> 'a list" where
  "tailq_rotate q x = tailq_insert_tail (tailq_remove q x) x"

lemma set_insert_tail [simp]: "set (tailq_insert_tail q x) = insert x (set q)"
  by (auto simp: tailq_insert_tail_def)

lemma length_insert_tail [simp]: "length (tailq_insert_tail q x) = Suc (length q)"
  by (simp add: tailq_insert_tail_def)

lemma distinct_insert_tail [simp]:
  "distinct (tailq_insert_tail q x) \<longleftrightarrow> distinct q \<and> x \<notin> set q"
  by (auto simp: tailq_insert_tail_def)

lemma insert_tail_not_Nil [simp]: "tailq_insert_tail q x \<noteq> []"
  by (simp add: tailq_insert_tail_def)

lemma set_remove [simp]: "distinct q \<Longrightarrow> set (tailq_remove q x) = set q - {x}"
  by (simp add: tailq_remove_def)

lemma set_remove_subset: "set (tailq_remove q x) \<subseteq> set q"
  by (simp add: tailq_remove_def set_remove1_subset)

lemma distinct_remove [simp]: "distinct q \<Longrightarrow> distinct (tailq_remove q x)"
  by (simp add: tailq_remove_def)

lemma length_remove [simp]: "x \<in> set q \<Longrightarrow> length (tailq_remove q x) = length q - 1"
  by (simp add: tailq_remove_def length_remove1)

lemma remove_idle [simp]: "x \<notin> set q \<Longrightarrow> tailq_remove q x = q"
  by (simp add: tailq_remove_def remove1_idem)

lemma set_rotate: "distinct q \<Longrightarrow> x \<in> set q \<Longrightarrow> set (tailq_rotate q x) = set q"
  by (auto simp: tailq_rotate_def)

lemma distinct_rotate: "distinct q \<Longrightarrow> distinct (tailq_rotate q x)"
  by (simp add: tailq_rotate_def)

lemma length_rotate: "x \<in> set q \<Longrightarrow> length (tailq_rotate q x) = length q"
  by (cases q) (auto simp: tailq_rotate_def)

section \<open>Words\<close>

lemma unat_less_pow: "unat (x :: 'a::len word) < 2 ^ LENGTH('a)"
  by (rule unsigned_less)

lemma word_and_mask_le: "unat ((x :: 'a::len word) AND y) \<le> unat y"
  using word_and_le1 [of x y] by (simp add: word_le_nat_alt)

end
