(* ===== verification/Libc.thy ===== *)
theory Libc
  imports Redis_Prelude
begin

text \<open>
  The functions of the C library that the program calls on strings. A C string is the list of its
  characters up to the terminating NUL. A pointer into a string that a search function returns is
  the suffix it points to (\<open>strchr\<close>, \<open>strstr\<close>) or the index (\<open>strrchr\<close>, whose callers subtract
  pointers). \<open>strtol\<close> saturates at the range of \<open>long\<close> (64 bits), and \<open>atoi\<close> is its value
  truncated to an \<open>int\<close>, as in glibc. Characters are classified as in the C locale.
\<close>

section \<open>Characters\<close>

definition code :: "char \<Rightarrow> nat" where
  "code c = of_char c"

definition is_digit :: "char \<Rightarrow> bool" where
  "is_digit c \<longleftrightarrow> 48 \<le> code c \<and> code c \<le> 57"

definition is_space :: "char \<Rightarrow> bool" where
  "is_space c \<longleftrightarrow> code c = 32 \<or> (9 \<le> code c \<and> code c \<le> 13)"

definition is_blank :: "char \<Rightarrow> bool" where
  "is_blank c \<longleftrightarrow> code c = 32 \<or> code c = 9"

definition to_lower :: "char \<Rightarrow> char" where
  "to_lower c = (if 65 \<le> code c \<and> code c \<le> 90 then char_of (code c + 32) else c)"

section \<open>Comparing and searching\<close>

text \<open>\<open>strncmp(s, p, strlen(p)) == 0\<close>.\<close>

definition starts_with :: "string \<Rightarrow> string \<Rightarrow> bool" where
  "starts_with s p \<longleftrightarrow> take (length p) s = p"

definition strcasecmp_eq :: "string \<Rightarrow> string \<Rightarrow> bool" where
  "strcasecmp_eq s t \<longleftrightarrow> map to_lower s = map to_lower t"

fun strchr :: "string \<Rightarrow> char \<Rightarrow> string option" where
  "strchr [] c = None"
| "strchr (x # xs) c = (if x = c then Some (x # xs) else strchr xs c)"

fun strrchr :: "string \<Rightarrow> char \<Rightarrow> nat option" where
  "strrchr [] c = None"
| "strrchr (x # xs) c =
     (case strrchr xs c of
        Some i \<Rightarrow> Some (Suc i)
      | None \<Rightarrow> if x = c then Some 0 else None)"

fun strstr :: "string \<Rightarrow> string \<Rightarrow> bool" where
  "strstr [] p \<longleftrightarrow> p = []"
| "strstr (x # xs) p \<longleftrightarrow> starts_with (x # xs) p \<or> strstr xs p"

definition strcasestr :: "string \<Rightarrow> string \<Rightarrow> bool" where
  "strcasestr s p \<longleftrightarrow> strstr (map to_lower s) (map to_lower p)"

section \<open>Numbers\<close>

fun digits_value :: "int \<Rightarrow> string \<Rightarrow> int \<times> string" where
  "digits_value acc [] = (acc, [])"
| "digits_value acc (c # cs) =
     (if is_digit c then digits_value (10 * acc + int (code c - 48)) cs else (acc, c # cs))"

definition LONG_MAX :: int where "LONG_MAX = 2 ^ 63 - 1"
definition LONG_MIN :: int where "LONG_MIN = - (2 ^ 63)"

text \<open>\<open>strtol(s, &end, 10)\<close>: the value and the rest of the string; without digits nothing is read.\<close>

definition strtol :: "string \<Rightarrow> int \<times> string" where
  "strtol s =
     (let t = dropWhile is_space s;
          neg = (case t of c # _ \<Rightarrow> c = CHR ''-'' | [] \<Rightarrow> False);
          u = (case t of c # cs \<Rightarrow> if c = CHR ''-'' \<or> c = CHR ''+'' then cs else t | [] \<Rightarrow> [])
      in case u of
           [] \<Rightarrow> (0, s)
         | c # _ \<Rightarrow>
             if is_digit c
             then (let (v, rest) = digits_value 0 u
                   in (if neg then max LONG_MIN (- v) else min LONG_MAX v, rest))
             else (0, s))"

text \<open>The conversion of a \<open>long\<close> to \<open>int\<close> keeps the low 32 bits.\<close>

definition to_int :: "int \<Rightarrow> int" where
  "to_int x = sint (word_of_int x :: 32 word)"

definition atoi :: "string \<Rightarrow> int" where
  "atoi s = to_int (fst (strtol s))"

text \<open>\<open>"%u"\<close> (also \<open>"%d"\<close> and \<open>"%lld"\<close> of a value that is not negative).\<close>

fun string_of_nat :: "nat \<Rightarrow> string" where
  "string_of_nat n =
     (if n < 10 then [char_of (48 + n)] else string_of_nat (n div 10) @ [char_of (48 + n mod 10)])"

declare string_of_nat.simps [simp del]

definition string_of_int :: "int \<Rightarrow> string" where
  "string_of_int i = (if i < 0 then CHR ''-'' # string_of_nat (nat (- i)) else string_of_nat (nat i))"

section \<open>Facts\<close>

lemma code_char_of: "n < 256 \<Longrightarrow> code (char_of n) = n"
  by (simp add: code_def)

lemma is_digit_char_of: "d < (10::nat) \<Longrightarrow> is_digit (char_of (48 + d))"
  by (simp add: is_digit_def code_char_of)

lemma strrchr_None: "strrchr s c = None \<longleftrightarrow> c \<notin> set s"
  by (induction s) (auto split: option.splits)

lemma strrchr_append: "c \<notin> set t \<Longrightarrow> strrchr (s @ c # t) c = Some (length s)"
proof (induction s)
  case Nil
  then show ?case by (simp add: strrchr_None [THEN iffD2])
next
  case (Cons x s)
  then show ?case by simp
qed

lemma strrchr_Some:
  "strrchr s c = Some i \<Longrightarrow> i < length s \<and> s ! i = c \<and> c \<notin> set (drop (Suc i) s)"
proof (induction s arbitrary: i)
  case Nil
  then show ?case by simp
next
  case (Cons x s)
  then show ?case
    by (cases "strrchr s c") (auto simp: strrchr_None split: if_splits)
qed

lemma digits_string_of_nat: "c \<in> set (string_of_nat n) \<Longrightarrow> is_digit c"
proof (induction n rule: string_of_nat.induct)
  case (1 n)
  then show ?case
    by (subst (asm) (2) string_of_nat.simps)
      (auto simp: is_digit_char_of split: if_splits)
qed

lemma digits_value_string_of_nat:
  "digits_value acc (string_of_nat n @ rest) =
     digits_value (10 ^ length (string_of_nat n) * acc + int n) rest"
proof (induction n arbitrary: acc rest rule: string_of_nat.induct)
  case (1 n)
  show ?case
  proof (cases "n < 10")
    case True
    then show ?thesis
      by (simp add: string_of_nat.simps [of n] is_digit_char_of code_char_of)
  next
    case False
    then have s: "string_of_nat n = string_of_nat (n div 10) @ [char_of (48 + n mod 10)]"
      by (simp add: string_of_nat.simps [of n])
    have "int n = 10 * int (n div 10) + int (n mod 10)" by presburger
    with "1.IH" [OF False, of acc "char_of (48 + n mod 10) # rest"] show ?thesis
      by (simp add: s is_digit_char_of code_char_of algebra_simps)
  qed
qed

lemma string_of_nat_not_Nil [simp]: "string_of_nat n \<noteq> []"
  by (subst string_of_nat.simps) simp

lemma not_space_digit: "is_digit c \<Longrightarrow> \<not> is_space c"
  by (auto simp: is_digit_def is_space_def)

lemma not_sign_digit: "is_digit c \<Longrightarrow> c \<noteq> CHR ''-'' \<and> c \<noteq> CHR ''+''"
  by (auto simp: is_digit_def code_def)

lemma strtol_string_of_nat:
  assumes "int n \<le> LONG_MAX" and "\<And>c cs. rest = c # cs \<Longrightarrow> \<not> is_digit c"
  shows "strtol (string_of_nat n @ rest) = (int n, rest)"
proof -
  obtain c cs where s: "string_of_nat n = c # cs" using string_of_nat_not_Nil [of n] by (cases "string_of_nat n") auto
  have c: "is_digit c" using digits_string_of_nat [of c n] s by simp
  have "digits_value x rest = (x, rest)" for x using assms(2) by (cases rest) auto
  then have "digits_value 0 (c # cs @ rest) = (int n, rest)"
    using digits_value_string_of_nat [of 0 n rest] s by simp
  with c assms(1) not_space_digit [OF c] not_sign_digit [OF c] show ?thesis
    by (simp add: strtol_def s Let_def del: digits_value.simps)
qed

lemma to_int_small: "- (2 ^ 31) \<le> x \<Longrightarrow> x < 2 ^ 31 \<Longrightarrow> to_int x = x"
  unfolding to_int_def by (simp add: int_word_sint)

lemma to_int_range: "- (2 ^ 31) \<le> to_int x \<and> to_int x < 2 ^ 31"
  unfolding to_int_def by (simp add: int_word_sint)

lemma atoi_string_of_nat:
  assumes "n < 2 ^ 31"
  shows "atoi (string_of_nat n) = int n"
proof -
  have "strtol (string_of_nat n) = (int n, [])"
    using strtol_string_of_nat [of n "[]"] assms by (simp add: LONG_MAX_def)
  then show ?thesis
    using to_int_small [of "int n"] assms by (simp add: atoi_def del: of_int_of_nat_eq)
qed

end
