(* ===== verification/Redis_Reply.thy ===== *)
theory Redis_Reply
  imports Libc
begin

text \<open>
  The replies of hiredis (\<open>redisReply\<close>, RESP2 and RESP3) as the program reads them: one constructor
  per \<open>type\<close>, with the fields that type carries. A \<open>NULL\<close> reply pointer is the absence of a
  value (\<open>redisReply option\<close>). Strings are read by the program up to the first NUL.
\<close>

datatype redisReply =
    Reply_Status string
  | Reply_Error string
  | Reply_Integer int
  | Reply_Nil
  | Reply_String string
  | Reply_Double string
  | Reply_Bool bool
  | Reply_Verb string string
  | Reply_Bignum string
  | Reply_Array "redisReply list"
  | Reply_Set "redisReply list"
  | Reply_Push "redisReply list"
  | Reply_Map "redisReply list"
  | Reply_Attr "redisReply list"
  | Reply_Unknown int

text \<open>The type tests of the code.\<close>

fun is_array :: "redisReply \<Rightarrow> bool" where
  "is_array (Reply_Array es) = True"
| "is_array r = False"

fun is_array_or_map :: "redisReply \<Rightarrow> bool" where
  "is_array_or_map (Reply_Array es) = True"
| "is_array_or_map (Reply_Map es) = True"
| "is_array_or_map r = False"

fun is_string :: "redisReply \<Rightarrow> bool" where
  "is_string (Reply_String s) = True"
| "is_string r = False"

text \<open>\<open>reply->element\<close> (with \<open>reply->elements\<close> its length).\<close>

fun elements :: "redisReply \<Rightarrow> redisReply list" where
  "elements (Reply_Array es) = es"
| "elements (Reply_Set es) = es"
| "elements (Reply_Push es) = es"
| "elements (Reply_Map es) = es"
| "elements (Reply_Attr es) = es"
| "elements r = []"

text \<open>A reply of type ERROR whose text starts with a prefix (\<open>strncmp(reply->str, ...)\<close>).\<close>

fun is_error_with :: "string \<Rightarrow> redisReply \<Rightarrow> bool" where
  "is_error_with p (Reply_Error s) = starts_with s p"
| "is_error_with p r = False"

lemma is_array_conv: "is_array r \<longleftrightarrow> (\<exists>es. r = Reply_Array es)"
  by (cases r) auto

lemma is_string_conv: "is_string r \<longleftrightarrow> (\<exists>s. r = Reply_String s)"
  by (cases r) auto

lemma is_error_with_conv: "is_error_with p r \<longleftrightarrow> (\<exists>s. r = Reply_Error s \<and> starts_with s p)"
  by (cases r) auto

end
