(* ===== verification/Redis_Model.thy ===== *)
theory Redis_Model
  imports Redis_Reply
begin

text \<open>
  The data of \<open>src/core.h\<close> and the interface of the code the program calls.

  A server is a heap object that several lists and contexts point to, so servers live in a store
  \<open>srvs\<close> and a pointer is a number; the same holds for databases (\<open>dbs\<close>). A context never changes
  once it is created, so it is a value, with the number that identifies the object. The state of
  everything outside the program (hiredis, its sockets, the workspace of Varnish, the clock) is the
  component \<open>net\<close> of the state, of an arbitrary type, and the calls on it are the record
  \<open>hiredis\<close>, a parameter of every definition that uses it. Mutexes are held or not: locking one that
  is held does not return, and \<open>Lck_AssertHeld\<close> checks it. Operations return an option; \<open>None\<close> is a
  failed assertion (a panic of the worker process), an access out of bounds, or a call that does
  not return.
\<close>

section \<open>Constants and enumerations\<close>

definition NREDIS_SERVER_WEIGHTS :: nat where "NREDIS_SERVER_WEIGHTS = 4"
definition NREDIS_CLUSTER_SLOTS :: nat where "NREDIS_CLUSTER_SLOTS = 16384"

text \<open>The order of the roles matters to the execution plans: slaves, masters, unknown.\<close>

datatype role = SLAVE | MASTER | TBD

fun role_ord :: "role \<Rightarrow> nat" where
  "role_ord SLAVE = 0"
| "role_ord MASTER = 1"
| "role_ord TBD = 2"

lemma role_ord_inj [simp]: "role_ord r = role_ord r' \<longleftrightarrow> r = r'"
  by (cases r; cases r') auto

instantiation role :: linorder
begin

definition less_eq_role :: "role \<Rightarrow> role \<Rightarrow> bool" where
  "less_eq_role r r' \<longleftrightarrow> role_ord r \<le> role_ord r'"

definition less_role :: "role \<Rightarrow> role \<Rightarrow> bool" where
  "less_role r r' \<longleftrightarrow> role_ord r < role_ord r'"

instance
proof
  fix x y z :: role
  show "x < y \<longleftrightarrow> x \<le> y \<and> \<not> y \<le> x" by (auto simp: less_role_def less_eq_role_def)
  show "x \<le> x" by (simp add: less_eq_role_def)
  show "x \<le> y \<Longrightarrow> y \<le> z \<Longrightarrow> x \<le> z" by (simp add: less_eq_role_def)
  show "x \<le> y \<Longrightarrow> y \<le> x \<Longrightarrow> x = y" by (simp add: less_eq_role_def)
  show "x \<le> y \<or> y \<le> x" by (auto simp: less_eq_role_def)
qed

end

definition roles :: "role list" where "roles = [SLAVE, MASTER, TBD]"

text \<open>The nested loops over \<open>servers[iweight][irole]\<close> visit the lists in this order.\<close>

definition cells :: "(nat \<times> role) list" where
  "cells = List.product [0..<NREDIS_SERVER_WEIGHTS] roles"

datatype protocol = PROTO_DEFAULT | PROTO_RESP2 | PROTO_RESP3

fun proto_num :: "protocol \<Rightarrow> nat" where
  "proto_num PROTO_DEFAULT = 0"
| "proto_num PROTO_RESP2 = 2"
| "proto_num PROTO_RESP3 = 3"

datatype location = Host string uint | Socket string

fun is_host :: "location \<Rightarrow> bool" where
  "is_host (Host h p) = True"
| "is_host (Socket p) = False"

record timeval =
  tv_sec :: int
  tv_usec :: int

section \<open>Objects\<close>

type_synonym rcontext = nat
type_synonym server_ptr = nat
type_synonym db_ptr = nat

record redis_context =
  cx_id :: nat
  cx_server :: server_ptr
  cx_rcontext :: rcontext
  cx_version :: uint
  cx_tst :: int

record pool =
  ncontexts :: uint
  free_contexts :: "redis_context list"
  busy_contexts :: "redis_context list"

record redis_server =
  sv_db :: db_ptr
  sv_raw :: string
  sv_loc :: location
  sv_role :: role
  sv_weight :: nat
  sv_pool :: pool
  sv_slots :: "nat \<Rightarrow> bool"
  sick_tst :: int
  sick_exp :: int

record stats =
  st_servers_total :: uint64
  st_servers_failed :: uint64
  st_connections_total :: uint64
  st_connections_failed :: uint64
  st_dropped_error :: uint64
  st_dropped_hung_up :: uint64
  st_dropped_overflow :: uint64
  st_dropped_ttl :: uint64
  st_dropped_version :: uint64
  st_dropped_sick :: uint64
  st_workers_blocked :: uint64
  st_commands_total :: uint64
  st_commands_failed :: uint64
  st_commands_retried :: uint64
  st_commands_error :: uint64
  st_commands_noscript :: uint64
  st_discoveries_total :: uint64
  st_discoveries_failed :: uint64
  st_replies_moved :: uint64
  st_replies_ask :: uint64

record vmod_redis_db =
  db_name :: string
  connection_timeout :: timeval
  connection_ttl :: uint
  command_timeout :: timeval
  max_command_retries :: uint
  shared_connections :: bool
  max_connections :: uint
  db_protocol :: protocol
  tls_ssl_ctx :: "nat option"
  db_user :: "string option"
  db_password :: "string option"
  sickness_ttl :: int
  ignore_slaves :: bool
  db_debug :: bool
  servers :: "nat \<Rightarrow> role \<Rightarrow> server_ptr list"
  cluster_enabled :: bool
  max_hops :: uint
  db_stats :: stats

type_synonym argv = "string option list"

record task_state =
  ts_ncontexts :: uint
  ts_contexts :: "redis_context list"
  ts_db :: "db_ptr option"
  cmd_db :: "db_ptr option"
  cmd_timeout :: timeval
  cmd_max_retries :: uint
  cmd_argv :: argv
  cmd_reply :: "redisReply option"

type_synonym vre = nat

record weight_rule =
  wr_weight :: nat
  wr_vre :: vre

record vcl_state =
  weight_rules :: "weight_rule list"
  vcl_dbs :: "db_ptr list"

datatype mutex = Config_Mutex | Db_Mutex db_ptr

section \<open>The state and the external interface\<close>

record 'e world =
  net :: 'e
  srvs :: "server_ptr \<Rightarrow> redis_server"
  next_srv :: server_ptr
  next_ctx :: nat
  dbs :: "db_ptr \<Rightarrow> vmod_redis_db"
  task :: task_state
  config :: vcl_state
  vmod_version :: uint
  held :: "mutex list"
  vrt_failed :: bool

text \<open>
  \<open>h_connect loc (Some t)\<close> is \<open>redisConnectWithTimeout\<close> or \<open>redisConnectUnixWithTimeout\<close>,
  \<open>h_connect loc None\<close> is \<open>redisConnect\<close> or \<open>redisConnectUnix\<close>; the result \<open>None\<close> is \<open>NULL\<close>.
  \<open>h_err\<close> tells whether \<open>rcontext->err\<close> is set. The formatted commands of \<open>redisCommand\<close> are given
  as their arguments. \<open>h_poll\<close> is the test for a writable socket that is not hung up.
  \<open>h_wait\<close> is what the other threads do while this one waits for the condition of a server.
\<close>

record 'e hiredis =
  h_time :: "'e \<Rightarrow> int \<times> 'e"
  h_connect :: "location \<Rightarrow> timeval option \<Rightarrow> 'e \<Rightarrow> rcontext option \<times> 'e"
  h_err :: "rcontext \<Rightarrow> 'e \<Rightarrow> bool"
  h_set_timeout :: "rcontext \<Rightarrow> timeval \<Rightarrow> 'e \<Rightarrow> bool \<times> 'e"
  h_tls :: "rcontext \<Rightarrow> nat \<Rightarrow> 'e \<Rightarrow> bool \<times> 'e"
  h_command :: "rcontext \<Rightarrow> string list \<Rightarrow> 'e \<Rightarrow> redisReply option \<times> 'e"
  h_append :: "rcontext \<Rightarrow> string list \<Rightarrow> 'e \<Rightarrow> 'e"
  h_get_reply :: "rcontext \<Rightarrow> 'e \<Rightarrow> redisReply option \<times> 'e"
  h_free :: "rcontext \<Rightarrow> 'e \<Rightarrow> 'e"
  h_keepalive :: "rcontext \<Rightarrow> 'e \<Rightarrow> bool \<times> 'e"
  h_poll :: "rcontext \<Rightarrow> 'e \<Rightarrow> bool \<times> 'e"
  h_re_match :: "string \<Rightarrow> vre \<Rightarrow> bool"
  h_ws_alloc :: "nat \<Rightarrow> 'e \<Rightarrow> bool \<times> 'e"
  h_ws_reserve_all :: "'e \<Rightarrow> nat \<times> 'e"
  h_ws_release :: "nat \<Rightarrow> 'e \<Rightarrow> 'e"
  h_wait :: "server_ptr \<Rightarrow> 'e world \<Rightarrow> 'e world"

text \<open>Calls on the outside, updates of the store, and mutexes.\<close>

definition net_call :: "('e \<Rightarrow> 'a \<times> 'e) \<Rightarrow> 'e world \<Rightarrow> 'a \<times> 'e world" where
  "net_call f w = (let (x, e) = f (net w) in (x, w\<lparr>net := e\<rparr>))"

definition net_do :: "('e \<Rightarrow> 'e) \<Rightarrow> 'e world \<Rightarrow> 'e world" where
  "net_do f w = w\<lparr>net := f (net w)\<rparr>"

definition rc_err :: "'e hiredis \<Rightarrow> rcontext \<Rightarrow> 'e world \<Rightarrow> bool" where
  "rc_err h rc w = h_err h rc (net w)"

definition upd_srv :: "server_ptr \<Rightarrow> (redis_server \<Rightarrow> redis_server) \<Rightarrow> 'e world \<Rightarrow> 'e world" where
  "upd_srv s f w = w\<lparr>srvs := (srvs w)(s := f (srvs w s))\<rparr>"

definition upd_db :: "db_ptr \<Rightarrow> (vmod_redis_db \<Rightarrow> vmod_redis_db) \<Rightarrow> 'e world \<Rightarrow> 'e world" where
  "upd_db d f w = w\<lparr>dbs := (dbs w)(d := f (dbs w d))\<rparr>"

definition upd_stats :: "db_ptr \<Rightarrow> (stats \<Rightarrow> stats) \<Rightarrow> 'e world \<Rightarrow> 'e world" where
  "upd_stats d f w = upd_db d (\<lambda>db. db\<lparr>db_stats := f (db_stats db)\<rparr>) w"

definition upd_servers ::
  "db_ptr \<Rightarrow> nat \<Rightarrow> role \<Rightarrow> (server_ptr list \<Rightarrow> server_ptr list) \<Rightarrow> 'e world \<Rightarrow> 'e world" where
  "upd_servers d wt r f w =
     upd_db d (\<lambda>db. db\<lparr>servers := (servers db)(wt := (servers db wt)(r := f (servers db wt r)))\<rparr>) w"

definition Lck_Lock :: "mutex \<Rightarrow> 'e world \<Rightarrow> 'e world option" where
  "Lck_Lock m w = (if m \<in> set (held w) then None else Some (w\<lparr>held := m # held w\<rparr>))"

definition Lck_Unlock :: "mutex \<Rightarrow> 'e world \<Rightarrow> 'e world option" where
  "Lck_Unlock m w = (if m \<in> set (held w) then Some (w\<lparr>held := remove1 m (held w)\<rparr>) else None)"

definition Lck_AssertHeld :: "mutex \<Rightarrow> 'e world \<Rightarrow> unit option" where
  "Lck_AssertHeld m w = (if m \<in> set (held w) then Some () else None)"

definition assert_that :: "bool \<Rightarrow> unit option" where
  "assert_that b = (if b then Some () else None)"

text \<open>\<open>if (!dblocked) Lck_Lock(...); f; if (!dblocked) Lck_Unlock(...)\<close>.\<close>

definition with_db ::
  "bool \<Rightarrow> db_ptr \<Rightarrow> ('e world \<Rightarrow> 'e world) \<Rightarrow> 'e world \<Rightarrow> 'e world option" where
  "with_db dblocked d f w =
     (if dblocked then Some (f w)
      else do { w \<leftarrow> Lck_Lock (Db_Mutex d) w; Lck_Unlock (Db_Mutex d) (f w) })"

text \<open>\<open>REDIS_FAIL\<close>: \<open>VRT_fail\<close> marks the task as failed.\<close>

definition VRT_fail :: "'e world \<Rightarrow> 'e world" where
  "VRT_fail w = w\<lparr>vrt_failed := True\<rparr>"

section \<open>Facts on the state\<close>

lemma cells_eq:
  "cells = [(0, SLAVE), (0, MASTER), (0, TBD), (1, SLAVE), (1, MASTER), (1, TBD),
            (2, SLAVE), (2, MASTER), (2, TBD), (3, SLAVE), (3, MASTER), (3, TBD)]"
  by (simp add: cells_def roles_def NREDIS_SERVER_WEIGHTS_def upt_rec)

lemma set_roles [simp]: "r \<in> set roles"
  by (cases r) (simp_all add: roles_def)

lemma set_cells: "(wt, r) \<in> set cells \<longleftrightarrow> wt < NREDIS_SERVER_WEIGHTS"
  by (auto simp: cells_def)

lemma distinct_cells: "distinct cells"
  by (simp add: cells_eq)

lemma net_call_Pair: "net_call f w = (x, w') \<Longrightarrow> w' = w\<lparr>net := net w'\<rparr>"
  by (auto simp: net_call_def split: prod.splits)

lemma net_call_world [simp]: "snd (net_call f w) = w\<lparr>net := snd (f (net w))\<rparr>"
  by (simp add: net_call_def split: prod.splits)

lemma net_call_value [simp]: "fst (net_call f w) = fst (f (net w))"
  by (simp add: net_call_def split: prod.splits)

lemma upd_srv_fields [frame_simps]:
  "net (upd_srv s f w) = net w" "next_srv (upd_srv s f w) = next_srv w"
  "next_ctx (upd_srv s f w) = next_ctx w" "dbs (upd_srv s f w) = dbs w"
  "task (upd_srv s f w) = task w" "config (upd_srv s f w) = config w"
  "vmod_version (upd_srv s f w) = vmod_version w" "held (upd_srv s f w) = held w"
  "vrt_failed (upd_srv s f w) = vrt_failed w"
  "srvs (upd_srv s f w) = (srvs w)(s := f (srvs w s))"
  by (simp_all add: upd_srv_def)

lemma upd_db_fields [frame_simps]:
  "net (upd_db d g w) = net w" "next_srv (upd_db d g w) = next_srv w"
  "next_ctx (upd_db d g w) = next_ctx w" "srvs (upd_db d g w) = srvs w"
  "task (upd_db d g w) = task w" "config (upd_db d g w) = config w"
  "vmod_version (upd_db d g w) = vmod_version w" "held (upd_db d g w) = held w"
  "vrt_failed (upd_db d g w) = vrt_failed w"
  "dbs (upd_db d g w) = (dbs w)(d := g (dbs w d))"
  by (simp_all add: upd_db_def)

lemma Lck_Lock_Some: "Lck_Lock m w = Some w' \<longleftrightarrow> m \<notin> set (held w) \<and> w' = w\<lparr>held := m # held w\<rparr>"
  by (auto simp: Lck_Lock_def)

lemma Lck_Unlock_Some:
  "Lck_Unlock m w = Some w' \<longleftrightarrow> m \<in> set (held w) \<and> w' = w\<lparr>held := remove1 m (held w)\<rparr>"
  by (auto simp: Lck_Unlock_def)

lemma Lck_AssertHeld_Some: "Lck_AssertHeld m w = Some u \<longleftrightarrow> m \<in> set (held w)"
  by (auto simp: Lck_AssertHeld_def)

lemma assert_that_Some: "assert_that b = Some u \<longleftrightarrow> b"
  by (auto simp: assert_that_def)

lemmas lock_simps = Lck_Lock_Some Lck_Unlock_Some Lck_AssertHeld_Some assert_that_Some

text \<open>An update that does not look at the mutexes runs under a lock as it does without.\<close>

definition lock_free :: "('e world \<Rightarrow> 'e world) \<Rightarrow> bool" where
  "lock_free f \<longleftrightarrow> (\<forall>w l. f (w\<lparr>held := l\<rparr>) = (f w)\<lparr>held := l\<rparr>)"

lemma lock_free_upd [intro]:
  "lock_free (upd_srv s f)" "lock_free (upd_db d g)" "lock_free (upd_stats d k)"
  by (simp_all add: lock_free_def upd_srv_def upd_db_def upd_stats_def)

lemma lock_free_comp [intro]: "lock_free f \<Longrightarrow> lock_free g \<Longrightarrow> lock_free (\<lambda>w. f (g w))"
  by (simp add: lock_free_def)

lemma lock_free_if [intro]: "lock_free f \<Longrightarrow> lock_free g \<Longrightarrow> lock_free (\<lambda>w. if b then f w else g w)"
  by (simp add: lock_free_def)

lemma lock_free_id [intro]: "lock_free (\<lambda>w. w)"
  by (simp add: lock_free_def)

lemma lock_free_held: "lock_free f \<Longrightarrow> held (f w) = held w"
  by (metis lock_free_def world.select_convs(9) world.surjective world.update_convs(9))

lemma with_db_eq:
  assumes "lock_free f"
  shows "with_db b d f w = (if b \<or> Db_Mutex d \<notin> set (held w) then Some (f w) else None)"
proof -
  have "f (w\<lparr>held := l\<rparr>) = (f w)\<lparr>held := l\<rparr>" for l using assms by (simp add: lock_free_def)
  moreover have "(f w)\<lparr>held := held w\<rparr> = f w" using lock_free_held [OF assms, of w] by simp
  ultimately show ?thesis by (simp add: with_db_def Lck_Lock_def Lck_Unlock_def)
qed

end
