(* ===== verification/Connection.thy ===== *)
theory Connection
  imports Redis_Model
begin

text \<open>
  Connections of \<open>src/core.c\<close>: \<open>new_rcontext\<close> (with the macro \<open>REDIS_BLESS_CONTEXT\<close> of
  \<open>src/core.h\<close>), \<open>unsafe_discover_redis_server_role\<close>, \<open>new_redis_context\<close>,
  \<open>free_redis_context\<close> and \<open>is_valid_redis_context\<close>. They touch the outside, the sickness
  timestamps of a server and the counters of its database, and nothing else: the relation
  \<open>same_core\<close> states that.
\<close>

section \<open>The code\<close>

definition REDIS_TLS :: "'e hiredis \<Rightarrow> vmod_redis_db \<Rightarrow> rcontext \<Rightarrow> 'e world \<Rightarrow> rcontext option \<times> 'e world" where
  "REDIS_TLS h db rc w =
     (case tls_ssl_ctx db of
        None \<Rightarrow> (Some rc, w)
      | Some ssl \<Rightarrow>
          (let (ok, w) = net_call (h_tls h rc ssl) w
           in if ok then (Some rc, w) else (None, net_do (h_free h rc) w)))"

fun is_status_OK :: "redisReply \<Rightarrow> bool" where
  "is_status_OK (Reply_Status s) = (s = ''OK'')"
| "is_status_OK r = False"

definition hello_command :: "vmod_redis_db \<Rightarrow> string list" where
  "hello_command db =
     (case db_password db of
        Some p \<Rightarrow>
          [''HELLO'', string_of_nat (proto_num (db_protocol db)), ''AUTH'',
           (case db_user db of Some u \<Rightarrow> u | None \<Rightarrow> ''default''), p]
      | None \<Rightarrow> [''HELLO'', string_of_nat (proto_num (db_protocol db))])"

definition auth_command :: "vmod_redis_db \<Rightarrow> string \<Rightarrow> string list" where
  "auth_command db p =
     (case db_user db of Some u \<Rightarrow> [''AUTH'', u, p] | None \<Rightarrow> [''AUTH'', p])"

definition REDIS_BLESS_CONTEXT ::
  "'e hiredis \<Rightarrow> vmod_redis_db \<Rightarrow> rcontext \<Rightarrow> 'e world \<Rightarrow> rcontext option \<times> 'e world" where
  "REDIS_BLESS_CONTEXT h db rc w =
     (case REDIS_TLS h db rc w of
        (None, w) \<Rightarrow> (None, w)
      | (Some rc, w) \<Rightarrow>
          (if db_protocol db = PROTO_DEFAULT then
             (case db_password db of
                None \<Rightarrow> (Some rc, w)
              | Some p \<Rightarrow>
                  (let (reply, w) = net_call (h_command h rc (auth_command db p)) w
                   in if rc_err h rc w \<or> reply = None \<or> \<not> is_status_OK (the reply)
                      then (None, net_do (h_free h rc) w)
                      else (Some rc, w)))
           else
             (let (reply, w) = net_call (h_command h rc (hello_command db)) w
              in if rc_err h rc w \<or> reply = None \<or> \<not> is_array_or_map (the reply)
                 then (None, net_do (h_free h rc) w)
                 else (Some rc, w))))"

definition timeout_set :: "timeval \<Rightarrow> timeval option" where
  "timeout_set t = (if tv_sec t > 0 \<or> tv_usec t > 0 then Some t else None)"

text \<open>\<open>Update stats & sickness flag\<close> of \<open>new_rcontext\<close>.\<close>

definition connection_stats ::
  "server_ptr \<Rightarrow> int \<Rightarrow> bool \<Rightarrow> bool \<Rightarrow> 'e world \<Rightarrow> 'e world" where
  "connection_stats s now ephemeral ok w =
     (let d = sv_db (srvs w s) in
      if ok then
        (let w = (if sick_exp (srvs w s) > now then upd_srv s (\<lambda>sv. sv\<lparr>sick_exp := now\<rparr>) w else w)
         in if \<not> ephemeral
            then upd_stats d (\<lambda>st. st\<lparr>st_connections_total := st_connections_total st + 1\<rparr>) w
            else w)
      else
        (let w = (if sickness_ttl (dbs w d) > 0
                  then upd_srv s (\<lambda>sv. sv\<lparr>sick_tst := now, sick_exp := now + sickness_ttl (dbs w d)\<rparr>) w
                  else w)
         in if \<not> ephemeral
            then upd_stats d (\<lambda>st. st\<lparr>st_connections_failed := st_connections_failed st + 1\<rparr>) w
            else w))"

text \<open>The first part of \<open>new_rcontext\<close>: create, check, set the timeout, TLS and AUTH or HELLO.\<close>

definition connect_rcontext ::
  "'e hiredis \<Rightarrow> server_ptr \<Rightarrow> 'e world \<Rightarrow> (rcontext option \<times> 'e world) option" where
  "connect_rcontext h s w =
     (let db = dbs w (sv_db (srvs w s))
      in case net_call (h_connect h (sv_loc (srvs w s)) (timeout_set (connection_timeout db))) w of
           (None, w) \<Rightarrow> None
         | (Some rc, w) \<Rightarrow>
             if rc_err h rc w then Some (None, net_do (h_free h rc) w)
             else (let (tr, w) = net_call (h_set_timeout h rc (command_timeout db)) w
                   in Some (REDIS_BLESS_CONTEXT h db rc w)))"

definition enable_keepalive ::
  "'e hiredis \<Rightarrow> server_ptr \<Rightarrow> rcontext option \<Rightarrow> 'e world \<Rightarrow> 'e world" where
  "enable_keepalive h s result w =
     (case result of
        None \<Rightarrow> w
      | Some rc \<Rightarrow> if is_host (sv_loc (srvs w s)) then snd (net_call (h_keepalive h rc) w) else w)"

definition new_rcontext ::
  "'e hiredis \<Rightarrow> server_ptr \<Rightarrow> int \<Rightarrow> bool \<Rightarrow> bool \<Rightarrow> 'e world \<Rightarrow> (rcontext option \<times> 'e world) option" where
  "new_rcontext h s now ephemeral dblocked w = do {
     _ \<leftarrow> (if dblocked then Lck_AssertHeld (Db_Mutex (sv_db (srvs w s))) w else Some ());
     (result, w) \<leftarrow> connect_rcontext h s w;
     w \<leftarrow> with_db dblocked (sv_db (srvs w s)) (connection_stats s now ephemeral (result \<noteq> None)) w;
     Some (result, enable_keepalive h s result w)
   }"

text \<open>The role in the first element of the reply to \<open>ROLE\<close>.\<close>

definition role_of_reply :: "redisReply option \<Rightarrow> role" where
  "role_of_reply reply =
     (case reply of
        Some (Reply_Array (Reply_String s # es)) \<Rightarrow>
          (if s = ''master'' then MASTER else if s = ''slave'' then SLAVE else TBD)
      | _ \<Rightarrow> TBD)"

definition unsafe_discover_redis_server_role ::
  "'e hiredis \<Rightarrow> server_ptr \<Rightarrow> 'e world \<Rightarrow> (role \<times> 'e world) option" where
  "unsafe_discover_redis_server_role h s w = do {
     _ \<leftarrow> Lck_AssertHeld (Db_Mutex (sv_db (srvs w s))) w;
     let (now, w) = net_call (h_time h) w;
     (rcontext, w) \<leftarrow> new_rcontext h s now True True w;
     Some (case rcontext of
             None \<Rightarrow> (TBD, w)
           | Some rc \<Rightarrow>
               (if \<not> rc_err h rc w then
                  (let (reply, w) = net_call (h_command h rc [''ROLE'']) w;
                       result = (if rc_err h rc w then TBD else role_of_reply reply)
                   in (result, net_do (h_free h rc) w))
                else (TBD, net_do (h_free h rc) w)))
   }"

definition new_redis_context ::
  "server_ptr \<Rightarrow> rcontext \<Rightarrow> int \<Rightarrow> 'e world \<Rightarrow> redis_context \<times> 'e world" where
  "new_redis_context s rc tst w =
     (\<lparr>cx_id = next_ctx w, cx_server = s, cx_rcontext = rc, cx_version = vmod_version w, cx_tst = tst\<rparr>,
      w\<lparr>next_ctx := Suc (next_ctx w)\<rparr>)"

definition free_redis_context :: "'e hiredis \<Rightarrow> redis_context \<Rightarrow> 'e world \<Rightarrow> 'e world" where
  "free_redis_context h c w = net_do (h_free h (cx_rcontext c)) w"

definition is_valid_redis_context ::
  "'e hiredis \<Rightarrow> redis_context \<Rightarrow> int \<Rightarrow> bool \<Rightarrow> 'e world \<Rightarrow> (bool \<times> 'e world) option" where
  "is_valid_redis_context h c now dblocked w = do {
     let s = cx_server c;
     let d = sv_db (srvs w s);
     let db = dbs w d;
     let drop = (\<lambda>f w. do { w \<leftarrow> with_db dblocked d (upd_stats d f) w; Some (False, w) });
     _ \<leftarrow> (if dblocked then Lck_AssertHeld (Db_Mutex d) w else Some ());
     if rc_err h (cx_rcontext c) w then
       drop (\<lambda>st. st\<lparr>st_dropped_error := st_dropped_error st + 1\<rparr>) w
     else if cx_version c \<noteq> vmod_version w then
       drop (\<lambda>st. st\<lparr>st_dropped_version := st_dropped_version st + 1\<rparr>) w
     else if connection_ttl db > 0 \<and> now - cx_tst c > uint (connection_ttl db) then
       drop (\<lambda>st. st\<lparr>st_dropped_ttl := st_dropped_ttl st + 1\<rparr>) w
     else do {
       _ \<leftarrow> (if sickness_ttl db > 0 \<and> \<not> dblocked \<and> Db_Mutex d \<in> set (held w) then None else Some ());
       if sickness_ttl db > 0 \<and> cx_tst c \<le> sick_tst (srvs w s) then
         drop (\<lambda>st. st\<lparr>st_dropped_sick := st_dropped_sick st + 1\<rparr>) w
       else do {
         let (alive, w) = net_call (h_poll h (cx_rcontext c)) w;
         if \<not> alive then
           drop (\<lambda>st. st\<lparr>st_dropped_hung_up := st_dropped_hung_up st + 1\<rparr>) w
         else Some (True, w)
       }
     }
   }"

section \<open>What a connection may change\<close>

definition srv_core :: "redis_server \<Rightarrow> redis_server" where
  "srv_core sv = sv\<lparr>sick_tst := 0, sick_exp := 0\<rparr>"

definition db_core :: "vmod_redis_db \<Rightarrow> vmod_redis_db" where
  "db_core db = db\<lparr>db_stats := undefined\<rparr>"

definition same_core :: "'e world \<Rightarrow> 'e world \<Rightarrow> bool" where
  "same_core w w' \<longleftrightarrow>
     (\<forall>s. srv_core (srvs w' s) = srv_core (srvs w s)) \<and>
     (\<forall>d. db_core (dbs w' d) = db_core (dbs w d)) \<and>
     next_srv w' = next_srv w \<and> next_ctx w' = next_ctx w \<and> task w' = task w \<and>
     config w' = config w \<and> vmod_version w' = vmod_version w \<and> held w' = held w \<and>
     vrt_failed w' = vrt_failed w"

lemma same_core_refl [simp, intro]: "same_core w w"
  by (simp add: same_core_def)

lemma same_core_trans [trans]: "same_core w w' \<Longrightarrow> same_core w' w'' \<Longrightarrow> same_core w w''"
  by (simp add: same_core_def)

lemma srv_core_fields:
  assumes "srv_core a = srv_core b"
  shows "sv_db a = sv_db b" "sv_raw a = sv_raw b" "sv_loc a = sv_loc b" "sv_role a = sv_role b"
    "sv_weight a = sv_weight b" "sv_pool a = sv_pool b" "sv_slots a = sv_slots b"
  using assms by (simp_all add: srv_core_def) (metis redis_server.select_convs redis_server.surjective redis_server.update_convs)+

lemma db_core_fields:
  assumes "db_core a = db_core b"
  shows "servers a = servers b" "cluster_enabled a = cluster_enabled b"
    "shared_connections a = shared_connections b" "max_connections a = max_connections b"
    "sickness_ttl a = sickness_ttl b" "connection_ttl a = connection_ttl b" "max_hops a = max_hops b"
    "tls_ssl_ctx a = tls_ssl_ctx b"
  using assms unfolding db_core_def
  by (cases a, cases b, simp)+

lemma same_core_srv:
  assumes "same_core w w'"
  shows "sv_db (srvs w' s) = sv_db (srvs w s)" "sv_raw (srvs w' s) = sv_raw (srvs w s)"
    "sv_loc (srvs w' s) = sv_loc (srvs w s)" "sv_role (srvs w' s) = sv_role (srvs w s)"
    "sv_weight (srvs w' s) = sv_weight (srvs w s)" "sv_pool (srvs w' s) = sv_pool (srvs w s)"
    "sv_slots (srvs w' s) = sv_slots (srvs w s)"
proof -
  have "srv_core (srvs w' s) = srv_core (srvs w s)" using assms by (simp add: same_core_def)
  from srv_core_fields [OF this] show
    "sv_db (srvs w' s) = sv_db (srvs w s)" "sv_raw (srvs w' s) = sv_raw (srvs w s)"
    "sv_loc (srvs w' s) = sv_loc (srvs w s)" "sv_role (srvs w' s) = sv_role (srvs w s)"
    "sv_weight (srvs w' s) = sv_weight (srvs w s)" "sv_pool (srvs w' s) = sv_pool (srvs w s)"
    "sv_slots (srvs w' s) = sv_slots (srvs w s)" by simp_all
qed

lemma same_core_db:
  assumes "same_core w w'"
  shows "servers (dbs w' d) = servers (dbs w d)"
    "cluster_enabled (dbs w' d) = cluster_enabled (dbs w d)"
    "shared_connections (dbs w' d) = shared_connections (dbs w d)"
    "max_connections (dbs w' d) = max_connections (dbs w d)"
    "sickness_ttl (dbs w' d) = sickness_ttl (dbs w d)"
    "connection_ttl (dbs w' d) = connection_ttl (dbs w d)"
    "max_hops (dbs w' d) = max_hops (dbs w d)"
    "tls_ssl_ctx (dbs w' d) = tls_ssl_ctx (dbs w d)"
proof -
  have "db_core (dbs w' d) = db_core (dbs w d)" using assms by (simp add: same_core_def)
  note db_core_fields [OF this]
  then show "servers (dbs w' d) = servers (dbs w d)"
    "cluster_enabled (dbs w' d) = cluster_enabled (dbs w d)"
    "shared_connections (dbs w' d) = shared_connections (dbs w d)"
    "max_connections (dbs w' d) = max_connections (dbs w d)"
    "sickness_ttl (dbs w' d) = sickness_ttl (dbs w d)"
    "connection_ttl (dbs w' d) = connection_ttl (dbs w d)"
    "max_hops (dbs w' d) = max_hops (dbs w d)"
    "tls_ssl_ctx (dbs w' d) = tls_ssl_ctx (dbs w d)" by simp_all
qed

lemma same_core_world:
  assumes "same_core w w'"
  shows "next_srv w' = next_srv w" "next_ctx w' = next_ctx w" "task w' = task w"
    "config w' = config w" "vmod_version w' = vmod_version w" "held w' = held w"
    "vrt_failed w' = vrt_failed w"
  using assms by (simp_all add: same_core_def)

lemmas same_core_simps = same_core_srv same_core_db same_core_world

text \<open>What \<open>same_core\<close> does not look at.\<close>

lemma same_core_net [simp]:
  "same_core w (w'\<lparr>net := e\<rparr>) \<longleftrightarrow> same_core w w'"
  "same_core (w\<lparr>net := e\<rparr>) w' \<longleftrightarrow> same_core w w'"
  "same_core w (net_do f w') \<longleftrightarrow> same_core w w'"
  "same_core (net_do f w) w' \<longleftrightarrow> same_core w w'"
  by (simp_all add: same_core_def net_do_def)

lemma same_core_stats [simp]:
  "same_core w (upd_stats d f w') \<longleftrightarrow> same_core w w'"
  "same_core (upd_stats d f w) w' \<longleftrightarrow> same_core w w'"
proof -
  have "db_core (db\<lparr>db_stats := x\<rparr>) = db_core db" for db x by (simp add: db_core_def)
  then have "db_core (dbs (upd_stats d f v) e) = db_core (dbs v e)" for v :: "'a world" and e
    by (simp add: upd_stats_def upd_db_def)
  then show "same_core w (upd_stats d f w') \<longleftrightarrow> same_core w w'"
    "same_core (upd_stats d f w) w' \<longleftrightarrow> same_core w w'"
    by (simp_all add: same_core_def) (simp_all add: upd_stats_def upd_db_def)
qed

lemma same_core_sick:
  assumes "\<And>sv. srv_core (f sv) = srv_core sv"
  shows "same_core w (upd_srv s f w') \<longleftrightarrow> same_core w w'"
    "same_core (upd_srv s f w) w' \<longleftrightarrow> same_core w w'"
  using assms by (auto simp: same_core_def upd_srv_def)

lemma srv_core_sick [simp]:
  "srv_core (sv\<lparr>sick_exp := a\<rparr>) = srv_core sv"
  "srv_core (sv\<lparr>sick_tst := b\<rparr>) = srv_core sv"
  by (simp_all add: srv_core_def)

lemma same_core_call: "net_call f w' = (x, w'') \<Longrightarrow> same_core w w'' \<longleftrightarrow> same_core w w'"
  by (auto simp: net_call_def split: prod.splits)

section \<open>Facts\<close>

lemma REDIS_TLS_core: "REDIS_TLS h db rc w = (r, w') \<Longrightarrow> same_core w w'"
  by (auto simp: REDIS_TLS_def net_call_def split: option.splits prod.splits if_splits)

lemma REDIS_TLS_rc: "REDIS_TLS h db rc w = (Some rc', w') \<Longrightarrow> rc' = rc"
  by (auto simp: REDIS_TLS_def Let_def split: option.splits prod.splits if_splits)

lemma REDIS_BLESS_core:
  assumes "REDIS_BLESS_CONTEXT h db rc w = (r, w')"
  shows "same_core w w'"
proof -
  obtain r1 w1 where t: "REDIS_TLS h db rc w = (r1, w1)" by fastforce
  note c = REDIS_TLS_core [OF t]
  show ?thesis
    using assms t c
    by (auto simp: REDIS_BLESS_CONTEXT_def net_call_def Let_def
        split: option.splits prod.splits if_splits)
qed

lemma lock_free_connection_stats: "lock_free (connection_stats s now eph ok)"
  by (simp add: lock_free_def connection_stats_def Let_def upd_srv_def upd_db_def upd_stats_def)

lemma connection_stats_core [simp]:
  "same_core w (connection_stats s now eph ok w') \<longleftrightarrow> same_core w w'"
  "same_core (connection_stats s now eph ok w) w' \<longleftrightarrow> same_core w w'"
  by (simp_all add: connection_stats_def Let_def same_core_sick)

lemma bind_Some: "Option.bind m f = Some y \<longleftrightarrow> (\<exists>x. m = Some x \<and> f x = Some y)"
  by (cases m) auto

lemma is_valid_core:
  assumes "is_valid_redis_context h c now dbl w = Some (v, w')"
  shows "same_core w w'"
  using assms unfolding is_valid_redis_context_def Let_def
  by (auto simp: bind_Some with_db_eq [OF lock_free_upd(3)] net_call_def
      split: if_splits prod.splits)

section \<open>What a connection attempt does, exactly\<close>

definition only_net :: "'e world \<Rightarrow> 'e world \<Rightarrow> bool" where
  "only_net w w' \<longleftrightarrow> w' = w\<lparr>net := net w'\<rparr>"

lemma only_net_refl [simp, intro]: "only_net w w"
  by (simp add: only_net_def)

lemma only_net_trans [trans]: "only_net w w' \<Longrightarrow> only_net w' w'' \<Longrightarrow> only_net w w''"
  unfolding only_net_def by (metis world.update_convs(1) world.surjective world.ext_inject)

lemma only_net_simps [simp]:
  "only_net w (w\<lparr>net := e\<rparr>)" "only_net w (net_do f w)"
  by (simp_all add: only_net_def net_do_def)

lemma only_net_left [simp]:
  "only_net (w\<lparr>net := e\<rparr>) w' \<longleftrightarrow> only_net w w'" "only_net (net_do f w) w' \<longleftrightarrow> only_net w w'"
  by (simp_all add: only_net_def net_do_def)

lemma only_net_right [simp]:
  "only_net w (w'\<lparr>net := e\<rparr>) \<longleftrightarrow> only_net w w'" "only_net w (net_do f w') \<longleftrightarrow> only_net w w'"
  by (cases w, cases w', simp add: only_net_def net_do_def)+

lemma REDIS_TLS_net: "REDIS_TLS h db rc w = (r, w') \<Longrightarrow> only_net w w'"
  by (auto simp: REDIS_TLS_def net_call_def split: option.splits prod.splits if_splits)

lemma REDIS_BLESS_net:
  assumes "REDIS_BLESS_CONTEXT h db rc w = (r, w')"
  shows "only_net w w'"
proof -
  obtain r1 w1 where t: "REDIS_TLS h db rc w = (r1, w1)" by fastforce
  note c = REDIS_TLS_net [OF t]
  show ?thesis
    using assms t c
    by (auto simp: REDIS_BLESS_CONTEXT_def net_call_def Let_def
        split: option.splits prod.splits if_splits)
qed

lemma connection_stats_only_net:
  "only_net w w' \<Longrightarrow> only_net (connection_stats s now eph ok w) (connection_stats s now eph ok w')"
proof -
  assume "only_net w w'"
  then obtain e where "w' = w\<lparr>net := e\<rparr>" by (auto simp: only_net_def)
  then show ?thesis
    by (simp add: only_net_def connection_stats_def Let_def upd_srv_def upd_db_def upd_stats_def)
qed

lemma only_net_core: "only_net w w' \<Longrightarrow> same_core w w'"
  by (metis only_net_def same_core_net(1) same_core_refl)

lemma only_net_fields:
  assumes "only_net w w'"
  shows "srvs w' = srvs w" "dbs w' = dbs w" "held w' = held w" "task w' = task w"
    "next_srv w' = next_srv w" "next_ctx w' = next_ctx w" "config w' = config w"
    "vmod_version w' = vmod_version w" "vrt_failed w' = vrt_failed w"
proof -
  obtain e where "w' = w\<lparr>net := e\<rparr>" using assms by (auto simp: only_net_def)
  then show "srvs w' = srvs w" "dbs w' = dbs w" "held w' = held w" "task w' = task w"
    "next_srv w' = next_srv w" "next_ctx w' = next_ctx w" "config w' = config w"
    "vmod_version w' = vmod_version w" "vrt_failed w' = vrt_failed w" by simp_all
qed

lemma connect_rcontext_net: "connect_rcontext h s w = Some (r, w') \<Longrightarrow> only_net w w'"
  by (auto simp: connect_rcontext_def net_call_def Let_def split: prod.splits option.splits if_splits
      dest: REDIS_BLESS_net)

lemma enable_keepalive_net [simp]:
  "only_net w (enable_keepalive h s r w') \<longleftrightarrow> only_net w w'"
  by (auto simp: enable_keepalive_def split: option.splits)

lemma new_rcontext_effect:
  assumes "new_rcontext h s now eph dbl w = Some (r, w')"
  shows "only_net (connection_stats s now eph (r \<noteq> None) w) w'"
  using assms unfolding new_rcontext_def
  by (auto simp: bind_Some with_db_eq [OF lock_free_connection_stats]
      split: if_splits dest!: connect_rcontext_net intro!: connection_stats_only_net)

lemma new_rcontext_core:
  assumes "new_rcontext h s now eph dbl w = Some (r, w')"
  shows "same_core w w'"
  using only_net_core [OF new_rcontext_effect [OF assms]] by simp

lemma discover_role_core:
  assumes "unsafe_discover_redis_server_role h s w = Some (r, w')"
  shows "same_core w w'"
  using assms unfolding unsafe_discover_redis_server_role_def Let_def
  by (auto simp: bind_Some net_call_def split: if_splits prod.splits option.splits
      dest: new_rcontext_core)

text \<open>hiredis returns no context only when it is out of memory, which the code asserts away.\<close>

definition connects :: "'e hiredis \<Rightarrow> bool" where
  "connects h \<longleftrightarrow> (\<forall>loc t e. fst (h_connect h loc t e) \<noteq> None)"

text \<open>A function that takes the lock unless told that it is held.\<close>

definition db_lock_ok :: "bool \<Rightarrow> db_ptr \<Rightarrow> 'e world \<Rightarrow> bool" where
  "db_lock_ok dblocked d w \<longleftrightarrow> (dblocked \<longleftrightarrow> Db_Mutex d \<in> set (held w))"

lemma connect_rcontext_total: "connects h \<Longrightarrow> \<exists>r w'. connect_rcontext h s w = Some (r, w')"
  by (auto simp: connect_rcontext_def connects_def net_call_def Let_def
      split: prod.splits option.splits if_splits) (metis fst_conv option.distinct(1))+

lemma new_rcontext_total:
  assumes "connects h" and "db_lock_ok dbl (sv_db (srvs w s)) w"
  obtains r w' where "new_rcontext h s now eph dbl w = Some (r, w')"
proof -
  obtain r w1 where c: "connect_rcontext h s w = Some (r, w1)"
    using connect_rcontext_total [OF assms(1)] by blast
  note f = only_net_fields [OF connect_rcontext_net [OF c]]
  show thesis
    using assms(2) that
    by (auto simp: new_rcontext_def c f with_db_eq [OF lock_free_connection_stats] db_lock_ok_def
        Lck_AssertHeld_def split: if_splits)
qed

lemma connection_stats_ephemeral: "dbs (connection_stats s now True ok w) = dbs w"
  by (simp add: connection_stats_def Let_def frame_simps)

lemma discover_role_dbs:
  assumes "unsafe_discover_redis_server_role h s w = Some (r, w')"
  shows "dbs w' = dbs w"
proof -
  have *: "dbs v' = dbs v" if "new_rcontext h s now True b v = Some (x, v')" for now b v x v'
    using only_net_fields(2) [OF new_rcontext_effect [OF that]] by (simp add: connection_stats_ephemeral)
  show ?thesis
    using assms unfolding unsafe_discover_redis_server_role_def Let_def
    by (auto simp: bind_Some net_call_def net_do_def split: if_splits prod.splits option.splits dest: *)
qed

lemma discover_role_total:
  assumes "connects h" and "Db_Mutex (sv_db (srvs w s)) \<in> set (held w)"
  obtains r w' where "unsafe_discover_redis_server_role h s w = Some (r, w')"
proof -
  obtain now w1 where t: "net_call (h_time h) w = (now, w1)" by fastforce
  then have w1: "only_net w w1" by (auto simp: net_call_def split: prod.splits)
  then have "db_lock_ok True (sv_db (srvs w1 s)) w1"
    using assms(2) by (simp add: db_lock_ok_def only_net_fields)
  then obtain x w2 where "new_rcontext h s now True True w1 = Some (x, w2)"
    by (rule new_rcontext_total [OF assms(1)])
  then have "\<exists>p. unsafe_discover_redis_server_role h s w = Some p"
    using assms(2) t
    by (simp add: unsafe_discover_redis_server_role_def Lck_AssertHeld_def Let_def)
  then show thesis using that by auto
qed

end
