(* ===== verification/Scenario.thy ===== *)
theory Scenario
  imports Redis_Model
begin

text \<open>
  A concrete environment and concrete states, at which the witnesses of the other theories apply
  their theorems. The outside is a clock that never moves; every connection succeeds, commands are
  answered by a given function, and the workspace always has the same room.
\<close>

definition lab :: "(string list \<Rightarrow> redisReply option) \<Rightarrow> nat \<Rightarrow> int hiredis" where
  "lab answer room =
     \<lparr>h_time = (\<lambda>t. (t, t)),
      h_connect = (\<lambda>loc t e. (Some 7, e)),
      h_err = (\<lambda>rc e. False),
      h_set_timeout = (\<lambda>rc t e. (True, e)),
      h_tls = (\<lambda>rc ssl e. (True, e)),
      h_command = (\<lambda>rc args e. (answer args, e)),
      h_append = (\<lambda>rc args e. e),
      h_get_reply = (\<lambda>rc e. (answer [], e)),
      h_free = (\<lambda>rc e. e),
      h_keepalive = (\<lambda>rc e. (True, e)),
      h_poll = (\<lambda>rc e. (True, e)),
      h_re_match = (\<lambda>raw vre. vre = length raw),
      h_ws_alloc = (\<lambda>n e. (n \<le> room, e)),
      h_ws_reserve_all = (\<lambda>e. (room, e)),
      h_ws_release = (\<lambda>n e. e),
      h_wait = (\<lambda>s w. w)\<rparr>"

definition no_stats :: stats where
  "no_stats =
     \<lparr>st_servers_total = 0, st_servers_failed = 0, st_connections_total = 0,
      st_connections_failed = 0, st_dropped_error = 0, st_dropped_hung_up = 0,
      st_dropped_overflow = 0, st_dropped_ttl = 0, st_dropped_version = 0, st_dropped_sick = 0,
      st_workers_blocked = 0, st_commands_total = 0, st_commands_failed = 0,
      st_commands_retried = 0, st_commands_error = 0, st_commands_noscript = 0,
      st_discoveries_total = 0, st_discoveries_failed = 0, st_replies_moved = 0, st_replies_ask = 0\<rparr>"

definition lab_db :: "bool \<Rightarrow> bool \<Rightarrow> vmod_redis_db" where
  "lab_db shared clustered =
     \<lparr>db_name = ''db'', connection_timeout = \<lparr>tv_sec = 1, tv_usec = 0\<rparr>, connection_ttl = 60,
      command_timeout = \<lparr>tv_sec = 0, tv_usec = 500000\<rparr>, max_command_retries = 2,
      shared_connections = shared, max_connections = 2, db_protocol = PROTO_DEFAULT,
      tls_ssl_ctx = None, db_user = None, db_password = None, sickness_ttl = 30,
      ignore_slaves = False, db_debug = False, servers = (\<lambda>wt r. []),
      cluster_enabled = clustered, max_hops = 3, db_stats = no_stats\<rparr>"

definition lab_server :: "string \<Rightarrow> location \<Rightarrow> role \<Rightarrow> redis_server" where
  "lab_server raw loc r =
     \<lparr>sv_db = 0, sv_raw = raw, sv_loc = loc, sv_role = r, sv_weight = 3,
      sv_pool = \<lparr>ncontexts = 0, free_contexts = [], busy_contexts = []\<rparr>,
      sv_slots = (\<lambda>i. False), sick_tst = 0, sick_exp = 0\<rparr>"

definition lab_task :: task_state where
  "lab_task =
     \<lparr>ts_ncontexts = 0, ts_contexts = [], ts_db = None, cmd_db = None,
      cmd_timeout = \<lparr>tv_sec = 0, tv_usec = 0\<rparr>, cmd_max_retries = 0, cmd_argv = [], cmd_reply = None\<rparr>"

text \<open>The state with an empty registry, at time 100.\<close>

definition lab_empty :: "bool \<Rightarrow> bool \<Rightarrow> int world" where
  "lab_empty shared clustered =
     \<lparr>net = 100, srvs = (\<lambda>s. lab_server '''' (Socket '''') TBD), next_srv = 0, next_ctx = 0,
      dbs = (\<lambda>d. lab_db shared clustered), task = lab_task,
      config = \<lparr>weight_rules = [\<lparr>wr_weight = 1, wr_vre = 9\<rparr>], vcl_dbs = [0]\<rparr>,
      vmod_version = 1, held = [], vrt_failed = False\<rparr>"

text \<open>The state with one master, server 0, at location \<open>a:1\<close>.\<close>

definition lab_one :: "bool \<Rightarrow> bool \<Rightarrow> int world" where
  "lab_one shared clustered =
     (lab_empty shared clustered)
       \<lparr>srvs := (\<lambda>s. lab_server ''a:1'' (Host ''a'' 1) MASTER), next_srv := 1,
        dbs := (\<lambda>d. (lab_db shared clustered)
          \<lparr>servers := (\<lambda>wt r. if wt = 3 \<and> r = MASTER then [0] else [])\<rparr>)\<rparr>"

lemmas lab_defs = lab_def no_stats_def lab_db_def lab_server_def lab_task_def lab_empty_def lab_one_def

end
