(* ===== verification/Registry.thy ===== *)
theory Registry
  imports Connection Scenario
begin

text \<open>
  The registry of servers of a database (\<open>src/core.c\<close>): \<open>new_redis_server\<close> parses a location,
  \<open>unsafe_add_redis_server\<close> finds, creates or updates a server and files it in the list of its
  weight and role. The invariant \<open>reg_ok\<close> says that a server is in exactly that list, once, that
  locations are unique, and that a clustered database has no server on a socket.
\<close>

section \<open>The code\<close>

definition parse_location :: "string \<Rightarrow> location" where
  "parse_location location =
     (case strrchr location CHR '':'' of
        Some i \<Rightarrow> Host (take i location) (word_of_int (atoi (drop (i + 1) location)))
      | None \<Rightarrow> Socket location)"

definition empty_pool :: pool where
  "empty_pool = \<lparr>ncontexts = 0, free_contexts = [], busy_contexts = []\<rparr>"

definition new_redis_server ::
  "db_ptr \<Rightarrow> string \<Rightarrow> role \<Rightarrow> 'e world \<Rightarrow> server_ptr option \<times> 'e world" where
  "new_redis_server d location role w =
     (let loc = parse_location location
      in if cluster_enabled (dbs w d) \<and> \<not> is_host loc then (None, w)
         else (Some (next_srv w),
               w\<lparr>srvs := (srvs w)(next_srv w :=
                   \<lparr>sv_db = d, sv_raw = location, sv_loc = loc, sv_role = role, sv_weight = 0,
                    sv_pool = empty_pool, sv_slots = (\<lambda>i. False), sick_tst = 0, sick_exp = 0\<rparr>),
                 next_srv := Suc (next_srv w)\<rparr>))"

text \<open>The search over all lists, weights first; the weight and role of the list are those it stops at.\<close>

fun find_server ::
  "'e world \<Rightarrow> db_ptr \<Rightarrow> string \<Rightarrow> (nat \<times> role) list \<Rightarrow> ((nat \<times> role) \<times> server_ptr) option" where
  "find_server w d location [] = None"
| "find_server w d location ((iweight, irole) # cs) =
     (case List.find (\<lambda>s. sv_raw (srvs w s) = location) (servers (dbs w d) iweight irole) of
        Some s \<Rightarrow> Some ((iweight, irole), s)
      | None \<Rightarrow> find_server w d location cs)"

fun rule_weight :: "'e hiredis \<Rightarrow> weight_rule list \<Rightarrow> string \<Rightarrow> nat" where
  "rule_weight h [] raw = NREDIS_SERVER_WEIGHTS - 1"
| "rule_weight h (r # rs) raw =
     (if h_re_match h raw (wr_vre r) then wr_weight r else rule_weight h rs raw)"

text \<open>\<open>Create a new server instance\<close>.\<close>

definition register_server ::
  "'e hiredis \<Rightarrow> db_ptr \<Rightarrow> string \<Rightarrow> role \<Rightarrow> 'e world \<Rightarrow> (server_ptr option \<times> 'e world) option" where
  "register_server h d location role w =
     (case new_redis_server d location role w of
        (None, w) \<Rightarrow>
          Some (None, upd_stats d (\<lambda>st. st\<lparr>st_servers_failed := st_servers_failed st + 1\<rparr>) w)
      | (Some s, w) \<Rightarrow> do {
          w \<leftarrow> (if sv_role (srvs w s) = TBD
                then do {
                  (r, w) \<leftarrow> unsafe_discover_redis_server_role h s w;
                  Some (upd_srv s (\<lambda>sv. sv\<lparr>sv_role := r\<rparr>) w)
                }
                else Some w);
          let weight = (if is_host (sv_loc (srvs w s))
                        then rule_weight h (weight_rules (config w)) (sv_raw (srvs w s)) else 0);
          let w = upd_srv s (\<lambda>sv. sv\<lparr>sv_weight := weight\<rparr>) w;
          Some (Some s, upd_stats d (\<lambda>st. st\<lparr>st_servers_total := st_servers_total st + 1\<rparr>) w)
        })"

text \<open>\<open>Update existing server instance\<close>.\<close>

definition flush_sickness :: "'e hiredis \<Rightarrow> server_ptr \<Rightarrow> 'e world \<Rightarrow> 'e world" where
  "flush_sickness h s w =
     (let (now, w) = net_call (h_time h) w
      in if sick_exp (srvs w s) > now then upd_srv s (\<lambda>sv. sv\<lparr>sick_exp := now\<rparr>) w else w)"

definition refresh_server ::
  "'e hiredis \<Rightarrow> server_ptr \<Rightarrow> role \<Rightarrow> 'e world \<Rightarrow> 'e world option" where
  "refresh_server h s role w = do {
     w \<leftarrow> (if role = TBD
           then do {
             (r, w) \<leftarrow> unsafe_discover_redis_server_role h s w;
             Some (if r \<noteq> TBD then upd_srv s (\<lambda>sv. sv\<lparr>sv_role := r\<rparr>) w else w)
           }
           else Some (upd_srv s (\<lambda>sv. sv\<lparr>sv_role := role\<rparr>) w));
     Some (flush_sickness h s w)
   }"

text \<open>The array of lists has \<open>NREDIS_SERVER_WEIGHTS\<close> rows.\<close>

definition file_server :: "db_ptr \<Rightarrow> server_ptr \<Rightarrow> 'e world \<Rightarrow> 'e world option" where
  "file_server d s w =
     (if sv_weight (srvs w s) < NREDIS_SERVER_WEIGHTS
      then Some (upd_servers d (sv_weight (srvs w s)) (sv_role (srvs w s))
                   (\<lambda>l. tailq_insert_tail l s) w)
      else None)"

definition unsafe_add_redis_server ::
  "'e hiredis \<Rightarrow> db_ptr \<Rightarrow> string \<Rightarrow> role \<Rightarrow> 'e world \<Rightarrow> (server_ptr option \<times> 'e world) option" where
  "unsafe_add_redis_server h d location role w = do {
     _ \<leftarrow> Lck_AssertHeld Config_Mutex w;
     _ \<leftarrow> Lck_AssertHeld (Db_Mutex d) w;
     (result, w) \<leftarrow>
       (case find_server w d location cells of
          None \<Rightarrow> register_server h d location role w
        | Some ((iweight, irole), s) \<Rightarrow> do {
            let w = upd_servers d iweight irole (\<lambda>l. tailq_remove l s) w;
            w \<leftarrow> refresh_server h s role w;
            Some (Some s, w)
          });
     (case result of
        None \<Rightarrow> Some (None, w)
      | Some s \<Rightarrow> do { w \<leftarrow> file_server d s w; Some (Some s, w) })
   }"

section \<open>The invariant\<close>

definition registered :: "'e world \<Rightarrow> db_ptr \<Rightarrow> server_ptr set" where
  "registered w d = {s. \<exists>wt r. s \<in> set (servers (dbs w d) wt r)}"

text \<open>A server in a list is allocated, and has the weight and role of the list.\<close>

definition filed_ok :: "'e world \<Rightarrow> db_ptr \<Rightarrow> nat \<Rightarrow> role \<Rightarrow> server_ptr \<Rightarrow> bool" where
  "filed_ok w d wt r s \<longleftrightarrow>
     s < next_srv w \<and> sv_weight (srvs w s) = wt \<and> sv_role (srvs w s) = r \<and> sv_db (srvs w s) = d \<and>
     sv_loc (srvs w s) = parse_location (sv_raw (srvs w s)) \<and> wt < NREDIS_SERVER_WEIGHTS \<and> (cluster_enabled (dbs w d) \<longrightarrow> is_host (parse_location (sv_raw (srvs w s))))"

definition reg_ok :: "db_ptr \<Rightarrow> 'e world \<Rightarrow> bool" where
  "reg_ok d w \<longleftrightarrow>
     (\<forall>wt r. distinct (servers (dbs w d) wt r)) \<and>
     (\<forall>wt r. \<forall>s \<in> set (servers (dbs w d) wt r). filed_ok w d wt r s) \<and>
     (\<forall>s \<in> registered w d. \<forall>s' \<in> registered w d. sv_raw (srvs w s) = sv_raw (srvs w s') \<longrightarrow> s = s')"

definition rules_ok :: "'e world \<Rightarrow> bool" where
  "rules_ok w \<longleftrightarrow> (\<forall>r \<in> set (weight_rules (config w)). wr_weight r < NREDIS_SERVER_WEIGHTS)"

lemma registered_core: "same_core w w' \<Longrightarrow> registered w' d = registered w d"
  by (simp add: registered_def same_core_simps)

lemma reg_ok_core: "same_core w w' \<Longrightarrow> reg_ok d w' \<longleftrightarrow> reg_ok d w"
  by (simp add: reg_ok_def filed_ok_def registered_def same_core_simps)

lemma rules_ok_core: "same_core w w' \<Longrightarrow> rules_ok w' \<longleftrightarrow> rules_ok w"
  by (simp add: rules_ok_def same_core_simps)

lemma rule_weight_bound: "rules_ok w \<Longrightarrow> rule_weight h (weight_rules (config w)) raw < NREDIS_SERVER_WEIGHTS"
proof -
  have "(\<forall>r \<in> set rs. wr_weight r < NREDIS_SERVER_WEIGHTS) \<Longrightarrow> rule_weight h rs raw < NREDIS_SERVER_WEIGHTS" for rs
    by (induction rs) (auto simp: NREDIS_SERVER_WEIGHTS_def)
  then show "rules_ok w \<Longrightarrow> ?thesis" by (simp add: rules_ok_def)
qed

lemma registered_iff:
  assumes "reg_ok d w"
  shows "s \<in> registered w d \<longleftrightarrow> s \<in> set (servers (dbs w d) (sv_weight (srvs w s)) (sv_role (srvs w s)))"
  using assms by (fastforce simp: registered_def reg_ok_def filed_ok_def)

section \<open>Lists and the invariant\<close>

lemma upd_servers_fields [frame_simps]:
  "net (upd_servers d wt r f w) = net w" "next_srv (upd_servers d wt r f w) = next_srv w"
  "next_ctx (upd_servers d wt r f w) = next_ctx w" "srvs (upd_servers d wt r f w) = srvs w"
  "task (upd_servers d wt r f w) = task w" "config (upd_servers d wt r f w) = config w"
  "vmod_version (upd_servers d wt r f w) = vmod_version w" "held (upd_servers d wt r f w) = held w"
  "vrt_failed (upd_servers d wt r f w) = vrt_failed w"
  by (simp_all add: upd_servers_def upd_db_def)

lemma upd_servers_db:
  "servers (dbs (upd_servers d wt r f w) d') wt' r' =
     (if d' = d \<and> wt' = wt \<and> r' = r then f (servers (dbs w d) wt r) else servers (dbs w d') wt' r')"
  "cluster_enabled (dbs (upd_servers d wt r f w) d') = cluster_enabled (dbs w d')"
  "shared_connections (dbs (upd_servers d wt r f w) d') = shared_connections (dbs w d')"
  "max_connections (dbs (upd_servers d wt r f w) d') = max_connections (dbs w d')"
  "sickness_ttl (dbs (upd_servers d wt r f w) d') = sickness_ttl (dbs w d')"
  "db_stats (dbs (upd_servers d wt r f w) d') = db_stats (dbs w d')"
  by (auto simp: upd_servers_def upd_db_def)

lemma registered_insert:
  "registered (upd_servers d wt r (\<lambda>l. tailq_insert_tail l s) w) d = insert s (registered w d)"
  by (auto simp: registered_def upd_servers_db split: if_splits)

lemma reg_ok_distinct: "reg_ok d w \<Longrightarrow> distinct (servers (dbs w d) wt r)"
  by (simp add: reg_ok_def)

lemma reg_ok_filed: "reg_ok d w \<Longrightarrow> s \<in> set (servers (dbs w d) wt r) \<Longrightarrow> filed_ok w d wt r s"
  by (simp add: reg_ok_def)

lemma reg_ok_inj:
  "reg_ok d w \<Longrightarrow> s \<in> registered w d \<Longrightarrow> s' \<in> registered w d \<Longrightarrow>
   sv_raw (srvs w s) = sv_raw (srvs w s') \<Longrightarrow> s = s'"
  unfolding reg_ok_def by blast

lemma reg_okI:
  assumes "\<And>wt r. distinct (servers (dbs w d) wt r)"
    and "\<And>wt r s. s \<in> set (servers (dbs w d) wt r) \<Longrightarrow> filed_ok w d wt r s"
    and "\<And>s s'. s \<in> registered w d \<Longrightarrow> s' \<in> registered w d \<Longrightarrow>
      sv_raw (srvs w s) = sv_raw (srvs w s') \<Longrightarrow> s = s'"
  shows "reg_ok d w"
  using assms by (simp add: reg_ok_def)

lemma reg_ok_cell:
  assumes "reg_ok d w" and "s \<in> set (servers (dbs w d) wt r)" and "s \<in> set (servers (dbs w d) wt' r')"
  shows "wt' = wt \<and> r' = r"
  using reg_ok_filed [OF assms(1,2)] reg_ok_filed [OF assms(1,3)] by (simp add: filed_ok_def)

lemma registered_remove:
  assumes "reg_ok d w" and "s \<in> set (servers (dbs w d) wt r)"
  shows "registered (upd_servers d wt r (\<lambda>l. tailq_remove l s) w) d = registered w d - {s}"
proof -
  have "x \<in> registered (upd_servers d wt r (\<lambda>l. tailq_remove l s) w) d \<longleftrightarrow> x \<in> registered w d \<and> x \<noteq> s" for x
    using reg_ok_distinct [OF assms(1), of wt r] reg_ok_cell [OF assms]
    by (auto simp: registered_def upd_servers_db) metis
  then show ?thesis by auto
qed

lemma reg_ok_remove [inv_intros]:
  assumes "reg_ok d w"
  shows "reg_ok d (upd_servers d wt r (\<lambda>l. tailq_remove l s) w)" (is "reg_ok d ?w")
proof -
  have sub: "x \<in> set (servers (dbs ?w d) wt' r') \<Longrightarrow> x \<in> set (servers (dbs w d) wt' r')" for x wt' r'
    using reg_ok_distinct [OF assms, of wt r] by (auto simp: upd_servers_db split: if_splits)
  have reg: "registered ?w d \<subseteq> registered w d"
    using sub unfolding registered_def by blast
  have "distinct (servers (dbs ?w d) wt' r')" for wt' r'
    using reg_ok_distinct [OF assms] by (simp add: upd_servers_db)
  moreover have "filed_ok ?w d wt' r' x" if "x \<in> set (servers (dbs ?w d) wt' r')" for wt' r' x
    using reg_ok_filed [OF assms sub [OF that]] by (simp add: filed_ok_def upd_servers_db frame_simps)
  moreover have "x = y" if "x \<in> registered ?w d" "y \<in> registered ?w d" "sv_raw (srvs ?w x) = sv_raw (srvs ?w y)" for x y
    using reg_ok_inj [OF assms] that reg by (auto simp: frame_simps)
  ultimately show ?thesis unfolding reg_ok_def by blast
qed

lemma reg_ok_insert [inv_intros]:
  assumes "reg_ok d w" and "s \<notin> registered w d"
    and "filed_ok w d (sv_weight (srvs w s)) (sv_role (srvs w s)) s"
    and "\<forall>s' \<in> registered w d. sv_raw (srvs w s') \<noteq> sv_raw (srvs w s)"
  shows "reg_ok d (upd_servers d (sv_weight (srvs w s)) (sv_role (srvs w s)) (\<lambda>l. tailq_insert_tail l s) w)"
    (is "reg_ok d ?w")
proof -
  have "distinct (servers (dbs ?w d) wt r)" for wt r
    using assms(1,2) by (auto simp: reg_ok_def registered_def upd_servers_db)
  moreover have "filed_ok ?w d wt r x" if "x \<in> set (servers (dbs ?w d) wt r)" for wt r x
    using assms(1,3) that by (auto simp: reg_ok_def filed_ok_def upd_servers_db frame_simps split: if_splits)
  moreover have "x = y" if "x \<in> registered ?w d" "y \<in> registered ?w d" "sv_raw (srvs ?w x) = sv_raw (srvs ?w y)" for x y
    using assms(1,4) that by (auto simp: reg_ok_def registered_insert frame_simps)
  ultimately show ?thesis unfolding reg_ok_def by blast
qed

lemma reg_ok_upd_srv [inv_intros]:
  assumes "reg_ok d w" and "s \<notin> registered w d"
  shows "reg_ok d (upd_srv s f w)"
  using assms by (auto simp: reg_ok_def filed_ok_def registered_def frame_simps)

lemma registered_upd_srv [simp]: "registered (upd_srv s f w) d = registered w d"
  by (simp add: registered_def frame_simps)

section \<open>The steps of \<open>unsafe_add_redis_server\<close>\<close>

lemma find_SomeD: "List.find P xs = Some x \<Longrightarrow> x \<in> set xs \<and> P x"
  by (induction xs) (auto split: if_splits)

lemma find_server_Some:
  "find_server w d location cs = Some ((wt, r), s) \<Longrightarrow>
   s \<in> set (servers (dbs w d) wt r) \<and> sv_raw (srvs w s) = location"
proof (induction cs)
  case Nil
  then show ?case by simp
next
  case (Cons c cs)
  then show ?case
    by (cases c) (auto split: option.splits dest!: find_SomeD)
qed

lemma find_server_None:
  assumes "find_server w d location cs = None" and "(wt, r) \<in> set cs" and "s \<in> set (servers (dbs w d) wt r)"
  shows "sv_raw (srvs w s) \<noteq> location"
  using assms
proof (induction cs)
  case Nil
  then show ?case by simp
next
  case (Cons c cs)
  then show ?case
    by (cases c) (auto split: option.splits simp: find_None_iff)
qed

lemma find_server_cells_None:
  assumes "reg_ok d w" and "find_server w d location cells = None"
  shows "\<forall>s \<in> registered w d. sv_raw (srvs w s) \<noteq> location"
proof
  fix s assume "s \<in> registered w d"
  then have m: "s \<in> set (servers (dbs w d) (sv_weight (srvs w s)) (sv_role (srvs w s)))"
    using registered_iff [OF assms(1)] by blast
  have "sv_weight (srvs w s) < NREDIS_SERVER_WEIGHTS"
    using reg_ok_filed [OF assms(1) m] by (simp add: filed_ok_def)
  then show "sv_raw (srvs w s) \<noteq> location"
    using find_server_None [OF assms(2) _ m] by (simp add: set_cells)
qed

lemma srv_core_role: "srv_core (sv\<lparr>sv_role := r\<rparr>) = (srv_core sv)\<lparr>sv_role := r\<rparr>"
  by (simp add: srv_core_def)

lemma same_core_role:
  "same_core v v' \<Longrightarrow>
   same_core (upd_srv s (\<lambda>sv. sv\<lparr>sv_role := x\<rparr>) v) (upd_srv s (\<lambda>sv. sv\<lparr>sv_role := x\<rparr>) v')"
  by (simp add: same_core_def upd_srv_def srv_core_role)

lemma flush_sickness_core [simp]:
  "same_core v (flush_sickness h s v') \<longleftrightarrow> same_core v v'" "dbs (flush_sickness h s v) = dbs v"
  by (simp_all add: flush_sickness_def net_call_def same_core_sick frame_simps split: prod.splits)

lemma flush_sickness_exp: "\<exists>e. sick_exp (srvs (flush_sickness h s v) s) \<le> fst (h_time h e)"
  by (rule exI [of _ "net v"]) (auto simp: flush_sickness_def net_call_def frame_simps split: prod.splits)

lemma refresh_server_effect:
  assumes "refresh_server h s role w = Some w'"
  obtains r where "same_core (upd_srv s (\<lambda>sv. sv\<lparr>sv_role := r\<rparr>) w) w'" "dbs w' = dbs w"
    "role \<noteq> TBD \<Longrightarrow> r = role" "sv_role (srvs w s) \<noteq> TBD \<Longrightarrow> role = TBD \<Longrightarrow> r \<noteq> TBD"
proof -
  show thesis
  proof (cases "role = TBD")
    case False
    then have "w' = flush_sickness h s (upd_srv s (\<lambda>sv. sv\<lparr>sv_role := role\<rparr>) w)"
      using assms by (simp add: refresh_server_def bind_Some)
    with False that [of role] show thesis by (simp add: flush_sickness_core frame_simps)
  next
    case True
    then obtain r w1 where d: "unsafe_discover_redis_server_role h s w = Some (r, w1)"
      and w': "w' = flush_sickness h s (if r \<noteq> TBD then upd_srv s (\<lambda>sv. sv\<lparr>sv_role := r\<rparr>) w1 else w1)"
      using assms by (auto simp: refresh_server_def bind_Some)
    have triv: "upd_srv s (\<lambda>sv. sv\<lparr>sv_role := sv_role (srvs w s)\<rparr>) w = w"
      by (simp add: upd_srv_def)
    show thesis
    proof (cases "r = TBD")
      case True
      then show thesis
        using that [of "sv_role (srvs w s)"] w' \<open>role = TBD\<close> discover_role_core [OF d] discover_role_dbs [OF d]
        by (simp add: flush_sickness_core triv)
    next
      case False
      then show thesis
        using that [of r] w' \<open>role = TBD\<close> same_core_role [OF discover_role_core [OF d]] discover_role_dbs [OF d]
        by (simp add: flush_sickness_core frame_simps)
    qed
  qed
qed

lemma refresh_server_sick:
  assumes "refresh_server h s role w = Some w'"
  shows "\<exists>e. sick_exp (srvs w' s) \<le> fst (h_time h e)"
  using assms flush_sickness_exp by (auto simp: refresh_server_def bind_Some split: if_splits)

lemma refresh_server_total:
  assumes "connects h" and "Db_Mutex (sv_db (srvs w s)) \<in> set (held w)"
  obtains w' where "refresh_server h s role w = Some w'"
proof (cases "role = TBD")
  case True
  obtain r w1 where "unsafe_discover_redis_server_role h s w = Some (r, w1)"
    using discover_role_total [OF assms] .
  with True that show thesis by (simp add: refresh_server_def)
next
  case False
  with that show thesis by (simp add: refresh_server_def)
qed

text \<open>The server that \<open>register_server\<close> leaves in the store, and the store that holds it.\<close>

definition server_of :: "'e hiredis \<Rightarrow> 'e world \<Rightarrow> db_ptr \<Rightarrow> string \<Rightarrow> role \<Rightarrow> redis_server" where
  "server_of h w d location r =
     \<lparr>sv_db = d, sv_raw = location, sv_loc = parse_location location, sv_role = r,
      sv_weight = (if is_host (parse_location location)
                   then rule_weight h (weight_rules (config w)) location else 0),
      sv_pool = empty_pool, sv_slots = (\<lambda>i. False), sick_tst = 0, sick_exp = 0\<rparr>"

definition alloc_server :: "redis_server \<Rightarrow> 'e world \<Rightarrow> 'e world" where
  "alloc_server sv w = w\<lparr>srvs := (srvs w)(next_srv w := sv), next_srv := Suc (next_srv w)\<rparr>"

lemma alloc_server_fields [frame_simps]:
  "net (alloc_server sv w) = net w" "next_srv (alloc_server sv w) = Suc (next_srv w)"
  "next_ctx (alloc_server sv w) = next_ctx w" "dbs (alloc_server sv w) = dbs w"
  "task (alloc_server sv w) = task w" "config (alloc_server sv w) = config w"
  "vmod_version (alloc_server sv w) = vmod_version w" "held (alloc_server sv w) = held w"
  "vrt_failed (alloc_server sv w) = vrt_failed w"
  "srvs (alloc_server sv w) = (srvs w)(next_srv w := sv)"
  by (simp_all add: alloc_server_def)

lemma same_core_upd_srv:
  assumes "same_core v v'" and "srv_core (f (srvs v' s)) = srv_core (g (srvs v s))"
  shows "same_core (upd_srv s g v) (upd_srv s f v')"
  using assms by (simp add: same_core_def upd_srv_def)

lemma srv_core_weight: "srv_core (sv\<lparr>sv_weight := x\<rparr>) = (srv_core sv)\<lparr>sv_weight := x\<rparr>"
  by (simp add: srv_core_def)

lemma register_server_None:
  "register_server h d location role w = Some (None, w') \<longleftrightarrow>
   cluster_enabled (dbs w d) \<and> \<not> is_host (parse_location location) \<and>
   w' = upd_stats d (\<lambda>st. st\<lparr>st_servers_failed := st_servers_failed st + 1\<rparr>) w"
  by (auto simp: register_server_def new_redis_server_def Let_def bind_Some split: if_splits)

lemma register_server_Some:
  assumes "register_server h d location role w = Some (Some s, w')"
  obtains r where "s = next_srv w" "same_core (alloc_server (server_of h w d location r) w) w'"
    "role \<noteq> TBD \<Longrightarrow> r = role"
    "dbs w' = dbs (upd_stats d (\<lambda>st. st\<lparr>st_servers_total := st_servers_total st + 1\<rparr>) w)"
    "cluster_enabled (dbs w d) \<Longrightarrow> is_host (parse_location location)"
proof -
  define v where "v = alloc_server \<lparr>sv_db = d, sv_raw = location, sv_loc = parse_location location,
    sv_role = role, sv_weight = 0, sv_pool = empty_pool, sv_slots = (\<lambda>i. False),
    sick_tst = 0, sick_exp = 0\<rparr> w"
  have new: "new_redis_server d location role w = (Some (next_srv w), v)"
    and cl: "cluster_enabled (dbs w d) \<Longrightarrow> is_host (parse_location location)"
    using assms by (auto simp: register_server_def new_redis_server_def Let_def v_def alloc_server_def
        bind_Some split: if_splits)
  define wt where "wt = sv_weight (server_of h w d location role)"
  define fin where "fin = (\<lambda>v. upd_stats d (\<lambda>st. st\<lparr>st_servers_total := st_servers_total st + 1\<rparr>)
    (upd_srv (next_srv w) (\<lambda>sv. sv\<lparr>sv_weight := wt\<rparr>) v) :: 'a world)"
  have fin: "same_core (alloc_server (server_of h w d location r) w) (fin (upd_srv (next_srv w) (\<lambda>sv. sv\<lparr>sv_role := r\<rparr>) v'))"
    if "same_core v v'" for r v'
  proof -
    have "alloc_server (server_of h w d location r) w =
        upd_srv (next_srv w) (\<lambda>sv. sv\<lparr>sv_role := r, sv_weight := wt\<rparr>) v"
      by (simp add: v_def alloc_server_def upd_srv_def server_of_def wt_def)
    moreover have "upd_srv x f (upd_srv x g v') = upd_srv x (\<lambda>sv. f (g sv)) v'" for x f g
      by (simp add: upd_srv_def)
    ultimately show ?thesis
      using that by (auto simp: fin_def same_core_def upd_srv_def upd_stats_def upd_db_def db_core_def
          srv_core_role srv_core_weight)
  qed
  show thesis
  proof (cases "role = TBD")
    case False
    have "upd_srv (next_srv w) (\<lambda>sv. sv\<lparr>sv_role := role\<rparr>) v = v"
      by (simp add: v_def upd_srv_def alloc_server_def)
    moreover have "s = next_srv w" "w' = fin v"
      using assms False unfolding register_server_def new
      by (auto simp: bind_Some Let_def fin_def wt_def v_def server_of_def frame_simps)
    moreover have "dbs (fin v) = dbs (upd_stats d (\<lambda>st. st\<lparr>st_servers_total := st_servers_total st + 1\<rparr>) w)"
      by (simp add: fin_def upd_stats_def frame_simps v_def)
    ultimately show thesis using that [of role] fin [of v role] cl by simp
  next
    case True
    have "sv_role (srvs v (next_srv w)) = TBD"
      using True by (simp add: v_def frame_simps)
    then obtain r w1 where d: "unsafe_discover_redis_server_role h (next_srv w) v = Some (r, w1)"
      using assms unfolding register_server_def new by (auto simp: bind_Some)
    note c = same_core_simps [OF discover_role_core [OF d]]
    have eq: "s = next_srv w" "w' = fin (upd_srv (next_srv w) (\<lambda>sv. sv\<lparr>sv_role := r\<rparr>) w1)"
      using assms \<open>sv_role (srvs v (next_srv w)) = TBD\<close> unfolding register_server_def new
      by (simp_all add: d Let_def frame_simps c fin_def wt_def server_of_def cong: if_cong)
        (auto simp: v_def frame_simps cong: if_cong)
    have "dbs w1 = dbs w" using discover_role_dbs [OF d] by (simp add: v_def frame_simps)
    then show thesis
      using that [of r] eq fin [OF discover_role_core [OF d], of r] cl True
      by (simp add: fin_def upd_stats_def frame_simps)
  qed
qed

section \<open>Adding a server keeps the registry and finds the location\<close>

definition locks_held :: "db_ptr \<Rightarrow> 'e world \<Rightarrow> bool" where
  "locks_held d w \<longleftrightarrow> Config_Mutex \<in> set (held w) \<and> Db_Mutex d \<in> set (held w)"

text \<open>The server found, if there is one, is taken out, refreshed and filed again.\<close>

lemma file_server_ok:
  assumes "reg_ok d w" and "s \<notin> registered w d"
    and "filed_ok w d (sv_weight (srvs w s)) (sv_role (srvs w s)) s"
    and "\<forall>s' \<in> registered w d. sv_raw (srvs w s') \<noteq> sv_raw (srvs w s)"
  obtains w' where "file_server d s w = Some w'" "reg_ok d w'"
    "registered w' d = insert s (registered w d)" "srvs w' = srvs w" "next_srv w' = next_srv w"
    "held w' = held w" "config w' = config w" "task w' = task w"
    "db_stats (dbs w' d) = db_stats (dbs w d)" "cluster_enabled (dbs w' d) = cluster_enabled (dbs w d)"
proof -
  let ?w = "upd_servers d (sv_weight (srvs w s)) (sv_role (srvs w s)) (\<lambda>l. tailq_insert_tail l s) w"
  have "file_server d s w = Some ?w"
    using assms(3) by (simp add: file_server_def filed_ok_def)
  moreover have "reg_ok d ?w" using assms by (rule reg_ok_insert)
  ultimately show thesis
    using that [of ?w] by (simp add: registered_insert frame_simps upd_servers_db)
qed

lemma add_existing:
  assumes ok: "reg_ok d w" and h: "connects h" and l: "locks_held d w"
    and s: "s \<in> registered w d" "sv_raw (srvs w s) = location"
  obtains w' where "unsafe_add_redis_server h d location role w = Some (Some s, w')" "reg_ok d w'"
    "registered w' d = registered w d" "sv_raw (srvs w' s) = location"
    "role \<noteq> TBD \<Longrightarrow> sv_role (srvs w' s) = role"
    "sv_role (srvs w s) \<noteq> TBD \<Longrightarrow> sv_role (srvs w' s) \<noteq> TBD"
    "\<exists>e. sick_exp (srvs w' s) \<le> fst (h_time h e)"
    "\<And>x. sv_raw (srvs w' x) = sv_raw (srvs w x) \<and> sv_loc (srvs w' x) = sv_loc (srvs w x) \<and>
          sv_slots (srvs w' x) = sv_slots (srvs w x) \<and> sv_weight (srvs w' x) = sv_weight (srvs w x)"
    "\<And>x. x \<noteq> s \<Longrightarrow> sv_role (srvs w' x) = sv_role (srvs w x)"
    "db_stats (dbs w' d) = db_stats (dbs w d)" "held w' = held w" "config w' = config w"
    "next_srv w' = next_srv w" "cluster_enabled (dbs w' d) = cluster_enabled (dbs w d)"
proof -
  obtain c s' where f: "find_server w d location cells = Some (c, s')"
    using find_server_cells_None [OF ok] s by (cases "find_server w d location cells") auto
  obtain wt r where c: "c = (wt, r)" by fastforce
  note fs = find_server_Some [OF f [unfolded c]]
  then have "s' \<in> registered w d" by (auto simp: registered_def)
  then have [simp]: "s' = s" using reg_ok_inj [OF ok] s fs by metis
  define w1 where "w1 = upd_servers d wt r (\<lambda>l. tailq_remove l s) w"
  have ok1: "reg_ok d w1" unfolding w1_def by (rule reg_ok_remove [OF ok])
  have reg1: "registered w1 d = registered w d - {s}"
    unfolding w1_def using registered_remove [OF ok] fs by simp
  have fo: "filed_ok w d wt r s" using reg_ok_filed [OF ok] fs by simp
  then have "Db_Mutex (sv_db (srvs w1 s)) \<in> set (held w1)"
    using l by (simp add: w1_def frame_simps filed_ok_def locks_held_def)
  then obtain w2 where r2: "refresh_server h s role w1 = Some w2"
    using refresh_server_total [OF h] by blast
  obtain r' where
    core: "same_core (upd_srv s (\<lambda>sv. sv\<lparr>sv_role := r'\<rparr>) w1) w2" and dbs2: "dbs w2 = dbs w1"
    and r': "role \<noteq> TBD \<Longrightarrow> r' = role" "sv_role (srvs w1 s) \<noteq> TBD \<Longrightarrow> role = TBD \<Longrightarrow> r' \<noteq> TBD"
    using refresh_server_effect [OF r2] by blast
  note cs = same_core_simps [OF core]
  have ok2: "reg_ok d w2"
    using reg_ok_core [OF core] reg_ok_upd_srv [OF ok1] reg1 by simp
  have reg2: "registered w2 d = registered w d - {s}"
    using registered_core [OF core] reg1 by simp
  have fo2: "filed_ok w2 d (sv_weight (srvs w2 s)) (sv_role (srvs w2 s)) s"
    using fo by (simp add: filed_ok_def cs frame_simps w1_def upd_servers_db)
  have uniq: "\<forall>x \<in> registered w2 d. sv_raw (srvs w2 x) \<noteq> sv_raw (srvs w2 s)"
    using reg_ok_inj [OF ok] s by (auto simp: reg2 cs frame_simps w1_def)
  obtain w3 where f3: "file_server d s w2 = Some w3" "reg_ok d w3"
    "registered w3 d = insert s (registered w2 d)" "srvs w3 = srvs w2" "next_srv w3 = next_srv w2"
    "held w3 = held w2" "config w3 = config w2" "task w3 = task w2"
    "db_stats (dbs w3 d) = db_stats (dbs w2 d)" "cluster_enabled (dbs w3 d) = cluster_enabled (dbs w2 d)"
    using file_server_ok [OF ok2 _ fo2 uniq] reg2 by auto
  have "unsafe_add_redis_server h d location role w = Some (Some s, w3)"
    using l f c r2 f3(1) by (simp add: unsafe_add_redis_server_def Lck_AssertHeld_def locks_held_def w1_def)
  moreover have "sv_role (srvs w2 s) = r'" by (simp add: cs frame_simps)
  moreover have "sv_raw (srvs w3 x) = sv_raw (srvs w x)" "sv_loc (srvs w3 x) = sv_loc (srvs w x)"
    "sv_slots (srvs w3 x) = sv_slots (srvs w x)" "sv_weight (srvs w3 x) = sv_weight (srvs w x)" for x
    by (simp_all add: f3 cs frame_simps w1_def)
  moreover have "sv_role (srvs w3 x) = sv_role (srvs w x)" if "x \<noteq> s" for x
    using that by (simp add: f3 cs frame_simps w1_def)
  moreover have "\<exists>e. sick_exp (srvs w3 s) \<le> fst (h_time h e)"
    using refresh_server_sick [OF r2] f3 by simp
  moreover have "sv_role (srvs w s) \<noteq> TBD \<Longrightarrow> r' \<noteq> TBD"
    using r' by (cases "role = TBD") (simp_all add: w1_def frame_simps)
  ultimately show thesis
    using that [of w3] f3 s r'(1)
    by (simp add: reg2 cs frame_simps w1_def upd_servers_db dbs2 insert_absorb)
qed

lemma reg_ok_alloc:
  assumes "reg_ok d w"
  shows "reg_ok d (alloc_server sv w)" "registered (alloc_server sv w) d = registered w d"
    "next_srv w \<notin> registered w d"
proof -
  have lt: "s < next_srv w" if "s \<in> set (servers (dbs w d) wt r)" for s wt r
    using reg_ok_filed [OF assms that] by (simp add: filed_ok_def)
  then show "next_srv w \<notin> registered w d" by (auto simp: registered_def)
  show reg: "registered (alloc_server sv w) d = registered w d"
    by (simp add: registered_def frame_simps)
  have "filed_ok (alloc_server sv w) d wt r s" if "s \<in> set (servers (dbs w d) wt r)" for s wt r
    using reg_ok_filed [OF assms that] lt [OF that] by (auto simp: filed_ok_def frame_simps)
  moreover have "x = y" if "x \<in> registered w d" "y \<in> registered w d"
      "sv_raw (srvs (alloc_server sv w) x) = sv_raw (srvs (alloc_server sv w) y)" for x y
    using reg_ok_inj [OF assms that(1,2)] that lt by (auto simp: registered_def frame_simps split: if_splits)
  ultimately show "reg_ok d (alloc_server sv w)"
    using reg_ok_distinct [OF assms] unfolding reg_ok_def reg by (simp add: frame_simps)
qed

lemma register_server_total:
  assumes "connects h" and "Db_Mutex d \<in> set (held w)"
    and "cluster_enabled (dbs w d) \<Longrightarrow> is_host (parse_location location)"
  obtains s w' where "register_server h d location role w = Some (Some s, w')"
proof -
  define v where "v = snd (new_redis_server d location role w)"
  have new: "new_redis_server d location role w = (Some (next_srv w), v)"
    using assms(3) by (auto simp: v_def new_redis_server_def Let_def)
  have v: "sv_db (srvs v (next_srv w)) = d" "held v = held w" "sv_role (srvs v (next_srv w)) = role"
    using assms(3) by (auto simp: v_def new_redis_server_def Let_def)
  have "\<exists>p. register_server h d location role w = Some p \<and> fst p = Some (next_srv w)"
  proof (cases "role = TBD")
    case True
    obtain r w1 where "unsafe_discover_redis_server_role h (next_srv w) v = Some (r, w1)"
      using discover_role_total [OF assms(1), of v "next_srv w"] assms(2) v by auto
    with True v show ?thesis unfolding register_server_def new by (simp add: Let_def)
  next
    case False
    with v show ?thesis by (simp add: register_server_def new Let_def)
  qed
  then show thesis using that by force
qed

lemma server_of_fields [simp]:
  "sv_db (server_of h w d location r) = d" "sv_raw (server_of h w d location r) = location"
  "sv_loc (server_of h w d location r) = parse_location location"
  "sv_role (server_of h w d location r) = r" "sv_pool (server_of h w d location r) = empty_pool"
  "sv_slots (server_of h w d location r) i = False"
  by (simp_all add: server_of_def)

lemma server_of_weight: "rules_ok w \<Longrightarrow> sv_weight (server_of h w d location r) < NREDIS_SERVER_WEIGHTS"
  using rule_weight_bound by (auto simp: server_of_def NREDIS_SERVER_WEIGHTS_def)

lemma add_new:
  assumes ok: "reg_ok d w" and h: "connects h" and l: "locks_held d w" and rules: "rules_ok w"
    and new: "\<forall>s \<in> registered w d. sv_raw (srvs w s) \<noteq> location"
    and valid: "cluster_enabled (dbs w d) \<Longrightarrow> is_host (parse_location location)"
  obtains r w' where
    "unsafe_add_redis_server h d location role w = Some (Some (next_srv w), w')" "reg_ok d w'"
    "registered w' d = insert (next_srv w) (registered w d)"
    "srv_core (srvs w' (next_srv w)) = srv_core (server_of h w d location r)" "role \<noteq> TBD \<Longrightarrow> r = role"
    "\<And>s. s \<noteq> next_srv w \<Longrightarrow> srv_core (srvs w' s) = srv_core (srvs w s)"
    "db_stats (dbs w' d) =
       (db_stats (dbs w d))\<lparr>st_servers_total := st_servers_total (db_stats (dbs w d)) + 1\<rparr>"
    "held w' = held w" "config w' = config w" "next_srv w' = Suc (next_srv w)"
    "cluster_enabled (dbs w' d) = cluster_enabled (dbs w d)"
proof -
  have f: "find_server w d location cells = None"
  proof (rule ccontr)
    assume "\<not> ?thesis"
    then obtain wt r s where "find_server w d location cells = Some ((wt, r), s)" by auto
    from find_server_Some [OF this] new show False by (auto simp: registered_def)
  qed
  obtain s w1 where r1: "register_server h d location role w = Some (Some s, w1)"
    using register_server_total [OF h _ valid] l unfolding locks_held_def by blast
  obtain r where s: "s = next_srv w" and core: "same_core (alloc_server (server_of h w d location r) w) w1"
    and r: "role \<noteq> TBD \<Longrightarrow> r = role"
    and dbs1: "dbs w1 = dbs (upd_stats d (\<lambda>st. st\<lparr>st_servers_total := st_servers_total st + 1\<rparr>) w)"
    using register_server_Some [OF r1] by blast
  note cs = same_core_simps [OF core]
  have ok1: "reg_ok d w1" and reg1: "registered w1 d = registered w d"
    using reg_ok_core [OF core] registered_core [OF core] reg_ok_alloc [OF ok] by simp_all
  have s_new: "s \<notin> registered w1 d" using reg_ok_alloc(3) [OF ok] s reg1 by simp
  have fo: "filed_ok w1 d (sv_weight (srvs w1 s)) (sv_role (srvs w1 s)) s"
    using server_of_weight [OF rules] valid by (simp add: filed_ok_def cs s frame_simps)
  have "sv_raw (srvs w1 x) \<noteq> sv_raw (srvs w1 s)" if "x \<in> registered w1 d" for x
    using that new s_new reg1 s by (auto simp: cs frame_simps)
  then obtain w2 where f2: "file_server d s w1 = Some w2" "reg_ok d w2"
    "registered w2 d = insert s (registered w1 d)" "srvs w2 = srvs w1" "next_srv w2 = next_srv w1"
    "held w2 = held w1" "config w2 = config w1" "task w2 = task w1"
    "db_stats (dbs w2 d) = db_stats (dbs w1 d)" "cluster_enabled (dbs w2 d) = cluster_enabled (dbs w1 d)"
    using file_server_ok [OF ok1 s_new fo] by blast
  have "unsafe_add_redis_server h d location role w = Some (Some s, w2)"
    using l f r1 f2(1) by (simp add: unsafe_add_redis_server_def Lck_AssertHeld_def locks_held_def)
  moreover have "srv_core (srvs w2 x) = srv_core (srvs (alloc_server (server_of h w d location r) w) x)" for x
    using core f2 by (simp add: same_core_def)
  ultimately show thesis
    using that [of w2 r] f2 r
    by (simp add: s reg1 dbs1 cs upd_stats_def frame_simps)
qed

lemma add_invalid:
  assumes ok: "reg_ok d w" and l: "locks_held d w"
    and valid: "cluster_enabled (dbs w d)" "\<not> is_host (parse_location location)"
  shows "unsafe_add_redis_server h d location role w =
    Some (None, upd_stats d (\<lambda>st. st\<lparr>st_servers_failed := st_servers_failed st + 1\<rparr>) w)"
proof -
  have "find_server w d location cells = None"
  proof (rule ccontr)
    assume "\<not> ?thesis"
    then obtain wt r s where "find_server w d location cells = Some ((wt, r), s)" by auto
    from find_server_Some [OF this] have "filed_ok w d wt r s" "sv_raw (srvs w s) = location"
      using reg_ok_filed [OF ok] by auto
    with valid show False by (auto simp: filed_ok_def)
  qed
  moreover have "register_server h d location role w =
      Some (None, upd_stats d (\<lambda>st. st\<lparr>st_servers_failed := st_servers_failed st + 1\<rparr>) w)"
    using valid by (simp add: register_server_None)
  ultimately show ?thesis
    using l by (simp add: unsafe_add_redis_server_def Lck_AssertHeld_def locks_held_def)
qed

section \<open>The registry as a directory\<close>

text \<open>
  What the callers of \<open>unsafe_add_redis_server\<close> rely on: adding a location that is valid for the
  database gives a server at that location, and no server is lost or renamed. It follows that a
  location keeps its server, whatever is added in between.
\<close>

locale server_directory =
  fixes ok :: "'w \<Rightarrow> bool"
    and members :: "'w \<Rightarrow> 'id set"
    and name :: "'w \<Rightarrow> 'id \<Rightarrow> string"
    and valid :: "'w \<Rightarrow> string \<Rightarrow> bool"
    and add :: "string \<Rightarrow> 'w \<Rightarrow> ('id option \<times> 'w) option"
  assumes add_ok: "ok w \<Longrightarrow> \<exists>r w'. add loc w = Some (r, w') \<and> ok w'"
    and add_valid: "ok w \<Longrightarrow> add loc w = Some (r, w') \<Longrightarrow> valid w loc \<Longrightarrow>
      \<exists>s. r = Some s \<and> s \<in> members w' \<and> name w' s = loc"
    and add_keeps: "ok w \<Longrightarrow> add loc w = Some (r, w') \<Longrightarrow> s \<in> members w \<Longrightarrow>
      s \<in> members w' \<and> name w' s = name w s"
    and valid_stable: "ok w \<Longrightarrow> add loc w = Some (r, w') \<Longrightarrow> valid w' = valid w"
    and name_unique: "ok w \<Longrightarrow> s \<in> members w \<Longrightarrow> s' \<in> members w \<Longrightarrow> name w s = name w s' \<Longrightarrow> s = s'"
begin

fun add_all :: "string list \<Rightarrow> 'w \<Rightarrow> 'w option" where
  "add_all [] w = Some w"
| "add_all (l # ls) w = (case add l w of None \<Rightarrow> None | Some (r, w') \<Rightarrow> add_all ls w')"

lemma add_all_ok: "ok w \<Longrightarrow> \<exists>w'. add_all ls w = Some w' \<and> ok w'"
proof (induction ls arbitrary: w)
  case Nil
  then show ?case by simp
next
  case (Cons l ls)
  obtain r w1 where "add l w = Some (r, w1)" "ok w1" using add_ok [OF Cons.prems] by blast
  with Cons.IH [of w1] show ?case by simp
qed

lemma add_all_keeps:
  "ok w \<Longrightarrow> add_all ls w = Some w' \<Longrightarrow>
   ok w' \<and> valid w' = valid w \<and> (\<forall>s \<in> members w. s \<in> members w' \<and> name w' s = name w s)"
proof (induction ls arbitrary: w)
  case Nil
  then show ?case by simp
next
  case (Cons l ls)
  obtain r w1 where a: "add l w = Some (r, w1)" "ok w1" using add_ok [OF Cons.prems(1)] by blast
  with Cons.IH [of w1] Cons.prems show ?case
    by (simp add: add_keeps [OF Cons.prems(1) a(1)] valid_stable [OF Cons.prems(1) a(1)])
qed

lemma add_again:
  assumes "ok w" and "add loc w = Some (Some s, w1)" and "valid w loc"
    and "add_all ls w1 = Some w2" and "add loc w2 = Some (r, w3)"
  shows "r = Some s"
proof -
  have ok1: "ok w1" using add_ok [OF assms(1), of loc] assms(2) by auto
  have s: "s \<in> members w1" "name w1 s = loc" using add_valid [OF assms(1,2,3)] by auto
  note k = add_all_keeps [OF ok1 assms(4)]
  have v: "valid w2 loc" using k valid_stable [OF assms(1,2)] assms(3) by simp
  have ok2: "ok w2" using k by simp
  obtain s' where s': "r = Some s'" "s' \<in> members w3" "name w3 s' = loc"
    using add_valid [OF ok2 assms(5) v] by blast
  have "s \<in> members w3" "name w3 s = loc"
    using k s add_keeps [OF ok2 assms(5), of s] by auto
  moreover have "ok w3" using add_ok [OF ok2, of loc] assms(5) by auto
  ultimately show ?thesis using s' name_unique [of w3 s s'] by simp
qed

end

definition dir_ok :: "'e hiredis \<Rightarrow> db_ptr \<Rightarrow> 'e world \<Rightarrow> bool" where
  "dir_ok h d w \<longleftrightarrow> connects h \<and> reg_ok d w \<and> locks_held d w \<and> rules_ok w"

definition valid_location :: "db_ptr \<Rightarrow> 'e world \<Rightarrow> string \<Rightarrow> bool" where
  "valid_location d w location \<longleftrightarrow> (cluster_enabled (dbs w d) \<longrightarrow> is_host (parse_location location))"

text \<open>The three outcomes, and what all of them keep.\<close>

lemma add_cases:
  assumes "dir_ok h d w"
  obtains (existing) s w' where "s \<in> registered w d" "sv_raw (srvs w s) = location"
      "unsafe_add_redis_server h d location role w = Some (Some s, w')" "dir_ok h d w'"
      "registered w' d = registered w d" "\<And>x. sv_raw (srvs w' x) = sv_raw (srvs w x)"
      "cluster_enabled (dbs w' d) = cluster_enabled (dbs w d)"
  | (new) w' where "\<forall>s \<in> registered w d. sv_raw (srvs w s) \<noteq> location" "valid_location d w location"
      "unsafe_add_redis_server h d location role w = Some (Some (next_srv w), w')" "dir_ok h d w'"
      "registered w' d = insert (next_srv w) (registered w d)" "sv_raw (srvs w' (next_srv w)) = location"
      "\<And>x. x \<noteq> next_srv w \<Longrightarrow> sv_raw (srvs w' x) = sv_raw (srvs w x)"
      "cluster_enabled (dbs w' d) = cluster_enabled (dbs w d)"
  | (invalid) w' where "\<not> valid_location d w location"
      "unsafe_add_redis_server h d location role w = Some (None, w')" "dir_ok h d w'"
      "w' = upd_stats d (\<lambda>st. st\<lparr>st_servers_failed := st_servers_failed st + 1\<rparr>) w"
proof -
  have h: "connects h" and ok: "reg_ok d w" and l: "locks_held d w" and ru: "rules_ok w"
    using assms by (simp_all add: dir_ok_def)
  consider (e) s where "s \<in> registered w d" "sv_raw (srvs w s) = location"
    | (i) "\<not> valid_location d w location"
    | (n) "\<forall>s \<in> registered w d. sv_raw (srvs w s) \<noteq> location" "valid_location d w location"
    by blast
  then show thesis
  proof cases
    case e
    show thesis
    proof (rule add_existing [OF ok h l e, of role])
      fix w'
      assume a: "unsafe_add_redis_server h d location role w = Some (Some s, w')" "reg_ok d w'"
        "registered w' d = registered w d" "held w' = held w" "config w' = config w"
        "\<And>x. sv_raw (srvs w' x) = sv_raw (srvs w x) \<and> sv_loc (srvs w' x) = sv_loc (srvs w x) \<and>
          sv_slots (srvs w' x) = sv_slots (srvs w x) \<and> sv_weight (srvs w' x) = sv_weight (srvs w x)"
        "cluster_enabled (dbs w' d) = cluster_enabled (dbs w d)"
      have "dir_ok h d w'" using assms a by (simp add: dir_ok_def locks_held_def rules_ok_def)
      then show thesis using existing [of s w'] e a by simp
    qed
  next
    case n
    show thesis
    proof (rule add_new [OF ok h l ru n(1), of role])
      show "cluster_enabled (dbs w d) \<Longrightarrow> is_host (parse_location location)"
        using n(2) by (simp add: valid_location_def)
      fix r w'
      assume a: "unsafe_add_redis_server h d location role w = Some (Some (next_srv w), w')" "reg_ok d w'"
        "registered w' d = insert (next_srv w) (registered w d)"
        "srv_core (srvs w' (next_srv w)) = srv_core (server_of h w d location r)"
        "\<And>s. s \<noteq> next_srv w \<Longrightarrow> srv_core (srvs w' s) = srv_core (srvs w s)"
        "held w' = held w" "config w' = config w" "cluster_enabled (dbs w' d) = cluster_enabled (dbs w d)"
      have "dir_ok h d w'" using assms a by (simp add: dir_ok_def locks_held_def rules_ok_def)
      then show thesis
        using new [of w'] n a srv_core_fields(2) [OF a(4)] srv_core_fields(2) [OF a(5)] by simp
    qed
  next
    case i
    let ?w = "upd_stats d (\<lambda>st. st\<lparr>st_servers_failed := st_servers_failed st + 1\<rparr>) w"
    have core: "same_core w ?w" by simp
    have "dir_ok h d ?w"
      using assms by (simp add: dir_ok_def reg_ok_core [OF core] rules_ok_core [OF core]
          locks_held_def same_core_simps [OF core])
    then show thesis
      using invalid [of ?w] i add_invalid [OF ok l] by (simp add: valid_location_def)
  qed
qed

interpretation dir: server_directory "dir_ok h d" "\<lambda>w. registered w d" "\<lambda>w s. sv_raw (srvs w s)"
  "valid_location d" "\<lambda>location. unsafe_add_redis_server h d location role" for h d role
proof
  fix w w' :: "'a world" and loc r s s'
  assume ok: "dir_ok h d w"
  show "\<exists>r w'. unsafe_add_redis_server h d loc role w = Some (r, w') \<and> dir_ok h d w'"
    by (rule add_cases [OF ok, of loc role]) auto
  show "s = s'" if "s \<in> registered w d" "s' \<in> registered w d" "sv_raw (srvs w s) = sv_raw (srvs w s')"
    using ok that reg_ok_inj by (auto simp: dir_ok_def)
  assume add: "unsafe_add_redis_server h d loc role w = Some (r, w')"
  show "\<exists>s. r = Some s \<and> s \<in> registered w' d \<and> sv_raw (srvs w' s) = loc" if "valid_location d w loc"
    by (rule add_cases [OF ok, of loc role]) (use add that in auto)
  have new: "next_srv w \<notin> registered w d" using ok reg_ok_alloc(3) by (auto simp: dir_ok_def)
  note stats = same_core_simps [OF same_core_stats(1) [THEN iffD2, OF same_core_refl]]
    registered_core [OF same_core_stats(1) [THEN iffD2, OF same_core_refl]]
  show "s \<in> registered w' d \<and> sv_raw (srvs w' s) = sv_raw (srvs w s)" if s: "s \<in> registered w d"
  proof (rule add_cases [OF ok, of loc role], goal_cases)
    case 1
    then show ?case using add s by simp
  next
    case (2 w1)
    moreover have "s \<noteq> next_srv w" using s new by auto
    ultimately show ?case using add s by simp
  next
    case 3
    then show ?case using add s by (simp add: stats)
  qed
  show "valid_location d w' = valid_location d w"
    by (rule add_cases [OF ok, of loc role]) (use add in \<open>simp_all add: valid_location_def stats fun_eq_iff\<close>)
qed

section \<open>Properties\<close>

lemma parse_location_host:
  assumes "port < 2 ^ 31"
  shows "parse_location (host @ CHR '':'' # string_of_nat port) = Host host (word_of_nat port)"
proof -
  have "CHR '':'' \<notin> set (string_of_nat port)"
    using digits_string_of_nat by (fastforce simp: is_digit_def code_def)
  then show ?thesis
    using assms by (simp add: parse_location_def strrchr_append atoi_string_of_nat)
qed

lemma dir_ok_lab:
  "dir_ok (lab answer room) 0 ((lab_one shared clustered)\<lparr>held := [Db_Mutex 0, Config_Mutex]\<rparr>)"
proof -
  have "parse_location ''a:1'' = Host ''a'' 1" by code_simp
  then show ?thesis
    by (auto simp: dir_ok_def connects_def reg_ok_def filed_ok_def registered_def locks_held_def
        rules_ok_def NREDIS_SERVER_WEIGHTS_def lab_defs)
qed

text \<open>
  A location is read back as it was written: the code that composes \<open>host:port\<close> and the code
  that splits it at the last colon agree, for any host (an IPv6 address included) and port.
\<close>

theorem location_roundtrip:
  assumes "port < 65536"
  shows "parse_location (host @ CHR '':'' # string_of_nat port) = Host host (word_of_nat port)"
  by (rule parse_location_host) (use assms in simp)

theorem location_roundtrip_witness:
  "parse_location (''::1'' @ CHR '':'' # string_of_nat 6379) = Host ''::1'' (word_of_nat 6379)"
  by (rule location_roundtrip) simp

text \<open>
  C3. \<open>unsafe_add_redis_server\<close>, called with both mutexes and with sane weight rules, returns, and
  it keeps the invariant of the registry: every server is in the list of its weight and role and in
  no other, once, no two servers have the same location, and a clustered database has only
  host locations.
\<close>

theorem add_server_invariant:
  assumes "connects h" and "reg_ok d w" and "rules_ok w" and "locks_held d w"
  shows "\<exists>r w'. unsafe_add_redis_server h d location role w = Some (r, w') \<and>
    reg_ok d w' \<and> rules_ok w' \<and> locks_held d w'"
  using dir.add_ok [of h d w location role] assms by (auto simp: dir_ok_def)

theorem add_server_invariant_witness:
  "\<exists>r w'. unsafe_add_redis_server (lab (\<lambda>c. None) 64) 0 ''b:2'' TBD
      ((lab_one False True)\<lparr>held := [Db_Mutex 0, Config_Mutex]\<rparr>) = Some (r, w') \<and>
    reg_ok 0 w' \<and> rules_ok w' \<and> locks_held 0 w'"
  by (rule add_server_invariant) (use dir_ok_lab [of "\<lambda>c. None" 64 False True] in \<open>simp_all add: dir_ok_def\<close>)

text \<open>
  C4. The outcome of \<open>unsafe_add_redis_server\<close>: without a server it is because the database is
  clustered and the location is a socket, and the registry is as before; otherwise the server has
  the location, it is the only one that may be new in the registry, it is filed under its weight and
  role, it has the role that was asked for if one was, and an old server keeps its slots.
\<close>

theorem add_server_outcome:
  assumes "dir_ok h d w" and "unsafe_add_redis_server h d location role w = Some (r, w')"
  shows "case r of
      None \<Rightarrow> cluster_enabled (dbs w d) \<and> \<not> is_host (parse_location location) \<and>
        registered w' d = registered w d
    | Some s \<Rightarrow> sv_raw (srvs w' s) = location \<and> registered w' d = insert s (registered w d) \<and>
        s \<in> set (servers (dbs w' d) (sv_weight (srvs w' s)) (sv_role (srvs w' s))) \<and>
        (role \<noteq> TBD \<longrightarrow> sv_role (srvs w' s) = role) \<and>
        (s \<notin> registered w d \<longrightarrow> s = next_srv w \<and> (\<forall>i. \<not> sv_slots (srvs w' s) i)) \<and>
        (\<forall>x \<in> registered w d. sv_slots (srvs w' x) = sv_slots (srvs w x))"
proof -
  have h: "connects h" and ok: "reg_ok d w" and l: "locks_held d w" and ru: "rules_ok w"
    using assms(1) by (simp_all add: dir_ok_def)
  have filed: "s \<in> set (servers (dbs v d) (sv_weight (srvs v s)) (sv_role (srvs v s)))"
    if "reg_ok d v" "s \<in> registered v d" for s and v :: "'a world"
    using that registered_iff by blast
  show ?thesis
  proof (cases "\<exists>s \<in> registered w d. sv_raw (srvs w s) = location")
    case True
    then obtain s where s: "s \<in> registered w d" "sv_raw (srvs w s) = location" by blast
    show ?thesis
    proof (rule add_existing [OF ok h l s, of role])
      fix v
      assume a: "unsafe_add_redis_server h d location role w = Some (Some s, v)" "reg_ok d v"
        "registered v d = registered w d" "sv_raw (srvs v s) = location"
        "role \<noteq> TBD \<Longrightarrow> sv_role (srvs v s) = role"
        "\<And>x. sv_raw (srvs v x) = sv_raw (srvs w x) \<and> sv_loc (srvs v x) = sv_loc (srvs w x) \<and>
          sv_slots (srvs v x) = sv_slots (srvs w x) \<and> sv_weight (srvs v x) = sv_weight (srvs w x)"
      then show ?thesis
        using assms(2) filed [OF a(2), of s] s(1) by (simp add: insert_absorb)
    qed
  next
    case new: False
    show ?thesis
    proof (cases "valid_location d w location")
      case True
      show ?thesis
      proof (rule add_new [OF ok h l ru, of location role])
        fix x v
        assume a: "unsafe_add_redis_server h d location role w = Some (Some (next_srv w), v)" "reg_ok d v"
          "registered v d = insert (next_srv w) (registered w d)"
          "srv_core (srvs v (next_srv w)) = srv_core (server_of h w d location x)" "role \<noteq> TBD \<Longrightarrow> x = role"
          "\<And>s. s \<noteq> next_srv w \<Longrightarrow> srv_core (srvs v s) = srv_core (srvs w s)"
        have "next_srv w \<notin> registered w d" using reg_ok_alloc(3) [OF ok] .
        then have "\<forall>s \<in> registered w d. sv_slots (srvs v s) = sv_slots (srvs w s)"
          using srv_core_fields(7) [OF a(6)] by metis
        then show ?thesis
          using assms(2) a(1-3,5) srv_core_fields [OF a(4)] filed [OF a(2), of "next_srv w"] by auto
      qed (use new True in \<open>auto simp: valid_location_def\<close>)
    next
      case False
      then show ?thesis
        using assms(2) add_invalid [OF ok l, of location h role]
        by (auto simp: valid_location_def registered_core [OF same_core_stats(1) [THEN iffD2, OF same_core_refl]])
    qed
  qed
qed

theorem add_server_outcome_witness:
  "\<exists>s w'. unsafe_add_redis_server (lab (\<lambda>c. None) 64) 0 ''b:2'' MASTER
      ((lab_one False True)\<lparr>held := [Db_Mutex 0, Config_Mutex]\<rparr>) = Some (Some s, w') \<and>
    sv_raw (srvs w' s) = ''b:2'' \<and> sv_role (srvs w' s) = MASTER \<and>
    s \<in> set (servers (dbs w' 0) (sv_weight (srvs w' s)) MASTER)"
proof -
  let ?h = "lab (\<lambda>c. None) 64" and ?w = "(lab_one False True)\<lparr>held := [Db_Mutex 0, Config_Mutex]\<rparr>"
  have ok: "dir_ok ?h 0 ?w" by (rule dir_ok_lab)
  obtain r w' where a: "unsafe_add_redis_server ?h 0 ''b:2'' MASTER ?w = Some (r, w')"
    using dir.add_ok [OF ok] by blast
  have "is_host (parse_location ''b:2'')" by code_simp
  then show ?thesis using add_server_outcome [OF ok a] a by (cases r) auto
qed

text \<open>
  A location keeps its server: adding it a second time gives the server of the first time,
  whatever locations are added in between.
\<close>

theorem add_server_stable:
  assumes "dir_ok h d w" and "valid_location d w location"
    and "unsafe_add_redis_server h d location role w = Some (Some s, w1)"
    and "dir.add_all h d role others w1 = Some w2"
    and "unsafe_add_redis_server h d location role w2 = Some (r, w3)"
  shows "r = Some s"
  by (rule dir.add_again [OF assms(1,3,2,4,5)])

theorem add_server_stable_witness:
  "\<exists>s w1 w2 r w3.
     unsafe_add_redis_server (lab (\<lambda>c. None) 64) 0 ''b:2'' TBD
       ((lab_one False True)\<lparr>held := [Db_Mutex 0, Config_Mutex]\<rparr>) = Some (Some s, w1) \<and>
     dir.add_all (lab (\<lambda>c. None) 64) 0 TBD [''c:3'', ''a:1''] w1 = Some w2 \<and>
     unsafe_add_redis_server (lab (\<lambda>c. None) 64) 0 ''b:2'' TBD w2 = Some (r, w3) \<and> r = Some s"
proof -
  let ?h = "lab (\<lambda>c. None) 64" and ?w = "(lab_one False True)\<lparr>held := [Db_Mutex 0, Config_Mutex]\<rparr>"
  have ok: "dir_ok ?h 0 ?w" by (rule dir_ok_lab)
  have v: "valid_location 0 ?w ''b:2''" unfolding valid_location_def by code_simp
  obtain s w1 where 1: "unsafe_add_redis_server ?h 0 ''b:2'' TBD ?w = Some (Some s, w1)" "dir_ok ?h 0 w1"
    using dir.add_ok [OF ok] dir.add_valid [OF ok _ v] by metis
  obtain w2 where 2: "dir.add_all ?h 0 TBD [''c:3'', ''a:1''] w1 = Some w2" "dir_ok ?h 0 w2"
    using dir.add_all_ok [OF 1(2)] by blast
  obtain r w3 where 3: "unsafe_add_redis_server ?h 0 ''b:2'' TBD w2 = Some (r, w3)"
    using dir.add_ok [OF 2(2)] by blast
  show ?thesis using add_server_stable [OF ok v 1(1) 2(1) 3] 1(1) 2(1) 3 by blast
qed

end
