(* ===== verification/Connection_Health.thy ===== *)
theory Connection_Health
  imports Registry
begin

text \<open>
  What makes a connection usable (\<open>is_valid_redis_context\<close>) and how a server becomes and stops
  being sick (\<open>new_rcontext\<close>): the verdicts, the counters they leave, and the effect of a failed
  connection on the contexts that exist already.
\<close>

section \<open>Facts\<close>

definition dropped :: "stats \<Rightarrow> uint64" where
  "dropped st = st_dropped_error st + st_dropped_hung_up st + st_dropped_overflow st +
     st_dropped_ttl st + st_dropped_version st + st_dropped_sick st"

definition usable :: "'e hiredis \<Rightarrow> redis_context \<Rightarrow> int \<Rightarrow> 'e world \<Rightarrow> bool" where
  "usable h c now w \<longleftrightarrow>
     (let sv = srvs w (cx_server c); db = dbs w (sv_db sv) in
      \<not> h_err h (cx_rcontext c) (net w) \<and>
      cx_version c = vmod_version w \<and>
      (connection_ttl db = 0 \<or> now - cx_tst c \<le> uint (connection_ttl db)) \<and>
      (sickness_ttl db \<le> 0 \<or> sick_tst sv < cx_tst c) \<and>
      fst (h_poll h (cx_rcontext c) (net w)))"

lemma upd_stats_fields [frame_simps]:
  "srvs (upd_stats d f w) = srvs w" "net (upd_stats d f w) = net w" "held (upd_stats d f w) = held w"
  "db_stats (dbs (upd_stats d f w) d) = f (db_stats (dbs w d))"
  by (simp_all add: upd_stats_def upd_db_def)

lemma is_valid_exact:
  assumes "db_lock_ok dbl (sv_db (srvs w (cx_server c))) w"
  obtains w' where "is_valid_redis_context h c now dbl w = Some (usable h c now w, w')"
    "srvs w' = srvs w"
    "dropped (db_stats (dbs w' (sv_db (srvs w (cx_server c))))) =
       dropped (db_stats (dbs w (sv_db (srvs w (cx_server c))))) + (if usable h c now w then 0 else 1)"
proof -
  define d where "d = sv_db (srvs w (cx_server c))"
  define op where "op = is_valid_redis_context h c now dbl w"
  have lock: "dbl \<longleftrightarrow> Db_Mutex d \<in> set (held w)" using assms by (simp add: db_lock_ok_def d_def)
  have wd: "with_db dbl d (upd_stats d f) v = Some (upd_stats d f v)" if "held v = held w" for f and v :: "'a world"
    using lock that by (simp add: with_db_eq [OF lock_free_upd(3)])
  have g: "(if dbl then Lck_AssertHeld (Db_Mutex d) w else Some ()) = Some ()"
    "(if P \<and> \<not> dbl \<and> Db_Mutex d \<in> set (held w) then None else Some ()) = Some ()" for P
    using lock by (simp_all add: Lck_AssertHeld_def)
  have poll: "connection_ttl (dbs w d) = 0 \<longleftrightarrow> \<not> connection_ttl (dbs w d) > 0"
    by (auto simp: word_gt_0)
  obtain alive e where p: "h_poll h (cx_rcontext c) (net w) = (alive, e)" by fastforce
  have "\<exists>w'. op = Some (usable h c now w, w') \<and> srvs w' = srvs w \<and>
      dropped (db_stats (dbs w' d)) = dropped (db_stats (dbs w d)) + (if usable h c now w then 0 else 1)"
    unfolding op_def is_valid_redis_context_def Let_def usable_def d_def [symmetric] rc_err_def poll
    by (simp add: wd g net_call_def p frame_simps dropped_def not_le not_less)
  then show thesis using that by (auto simp: op_def d_def)
qed

section \<open>Properties\<close>

text \<open>
  \<open>is_valid_redis_context\<close> returns, whether or not the caller holds the mutex of the database,
  and its verdict is the conjunction of the five conditions: no error on the connection, the version
  of the VCL it was opened under, an age within the TTL if there is one, opened after the server was
  last flagged as sick, and a socket that is not hung up. A connection that is not valid adds one to
  the dropped connections and a valid one adds none; no server, list or context changes.
\<close>

theorem context_verdict:
  assumes "db_lock_ok dblocked (sv_db (srvs w (cx_server c))) w"
  shows "\<exists>w'. is_valid_redis_context h c now dblocked w = Some (usable h c now w, w') \<and>
    same_core w w' \<and> srvs w' = srvs w \<and>
    dropped (db_stats (dbs w' (sv_db (srvs w (cx_server c))))) =
      dropped (db_stats (dbs w (sv_db (srvs w (cx_server c))))) + (if usable h c now w then 0 else 1)"
  using is_valid_exact [OF assms, of h now] is_valid_core by metis

definition lab_context :: "int \<Rightarrow> redis_context" where
  "lab_context tst = \<lparr>cx_id = 0, cx_server = 0, cx_rcontext = 7, cx_version = 1, cx_tst = tst\<rparr>"

theorem context_verdict_witness:
  "\<exists>w'. is_valid_redis_context (lab (\<lambda>c. None) 64) (lab_context 20) 100 False (lab_one False False) =
      Some (False, w') \<and>
    dropped (db_stats (dbs w' 0)) = 1"
proof -
  have l: "db_lock_ok False (sv_db (srvs (lab_one False False) (cx_server (lab_context 20)))) (lab_one False False)"
    by (simp add: db_lock_ok_def lab_defs)
  have "\<not> usable (lab (\<lambda>c. None) 64) (lab_context 20) 100 (lab_one False False)"
    by (simp add: usable_def lab_context_def lab_defs)
  then show ?thesis
    using context_verdict [OF l, of "lab (\<lambda>c. None) 64" 100]
    by (auto simp: lab_context_def lab_defs dropped_def)
qed

text \<open>
  C5. What an attempt to connect leaves behind: a connection clears a sickness that has not expired,
  a failure makes the server sick from now until the TTL of the sickness is over (if it is not
  zero), and exactly one of the two counters of connections is increased, unless the connection is
  ephemeral. Nothing else of a server or a database changes.
\<close>

theorem connection_outcome:
  assumes "new_rcontext h s now ephemeral dblocked w = Some (r, w')"
  shows "same_core w w' \<and>
    (r \<noteq> None \<longrightarrow> sick_exp (srvs w' s) = min (sick_exp (srvs w s)) now) \<and>
    (r = None \<and> sickness_ttl (dbs w (sv_db (srvs w s))) > 0 \<longrightarrow>
      sick_tst (srvs w' s) = now \<and>
      sick_exp (srvs w' s) = now + sickness_ttl (dbs w (sv_db (srvs w s)))) \<and>
    (\<forall>x. x \<noteq> s \<longrightarrow> srvs w' x = srvs w x) \<and>
    st_connections_total (db_stats (dbs w' (sv_db (srvs w s)))) =
      st_connections_total (db_stats (dbs w (sv_db (srvs w s)))) + of_bool (r \<noteq> None \<and> \<not> ephemeral) \<and>
    st_connections_failed (db_stats (dbs w' (sv_db (srvs w s)))) =
      st_connections_failed (db_stats (dbs w (sv_db (srvs w s)))) + of_bool (r = None \<and> \<not> ephemeral)"
proof -
  note f = only_net_fields(1,2) [OF new_rcontext_effect [OF assms(1)]]
  show ?thesis
    unfolding f using new_rcontext_core [OF assms(1)]
    by (auto simp: connection_stats_def Let_def frame_simps)
qed

text \<open>The environment in which every connection is refused.\<close>

definition lab_down :: "int hiredis" where
  "lab_down = (lab (\<lambda>c. None) 64)\<lparr>h_err := (\<lambda>rc e. True)\<rparr>"

lemma lab_down_fails:
  assumes "db_lock_ok dbl (sv_db (srvs w s)) w"
  obtains w' where "new_rcontext lab_down s now eph dbl w = Some (None, w')"
proof -
  have "connects lab_down" by (simp add: connects_def lab_down_def lab_def)
  then obtain r w' where n: "new_rcontext lab_down s now eph dbl w = Some (r, w')"
    using new_rcontext_total assms by blast
  have "r = None"
    using n by (auto simp: new_rcontext_def connect_rcontext_def net_call_def Let_def rc_err_def lab_down_def
        lab_def bind_Some split: if_splits)
  with n that show thesis by simp
qed

theorem connection_outcome_witness:
  "\<exists>w'. new_rcontext lab_down 0 100 False False (lab_one False False) = Some (None, w') \<and>
    sick_exp (srvs w' 0) = 130 \<and> st_connections_failed (db_stats (dbs w' 0)) = 1"
proof -
  have "db_lock_ok False (sv_db (srvs (lab_one False False) 0)) (lab_one False False)"
    by (simp add: db_lock_ok_def lab_defs)
  then obtain w' where n: "new_rcontext lab_down 0 100 False False (lab_one False False) = Some (None, w')"
    by (rule lab_down_fails)
  show ?thesis using connection_outcome [OF n] n by (simp add: lab_defs)
qed

text \<open>
  Once a connection to a server has failed (and the TTL of the sickness is not zero), every
  connection to that server that was opened up to then is refused by \<open>is_valid_redis_context\<close>,
  at any later time, until the sickness timestamp of the server changes.
\<close>

theorem failure_retires_contexts:
  assumes "new_rcontext h s now ephemeral dblocked w = Some (None, w1)"
    and "sickness_ttl (dbs w (sv_db (srvs w s))) > 0"
    and "cx_server c = s" and "cx_tst c \<le> now"
    and "same_core w1 w2" and "sick_tst (srvs w2 s) = sick_tst (srvs w1 s)"
    and "is_valid_redis_context h c later dblocked' w2 = Some (valid, w3)"
  shows "\<not> valid"
proof -
  note f = only_net_fields(1,2) [OF new_rcontext_effect [OF assms(1)]]
  have "sick_tst (srvs w2 s) = now"
    using assms(2,6) by (simp add: f connection_stats_def Let_def frame_simps)
  moreover have "sickness_ttl (dbs w2 (sv_db (srvs w2 s))) > 0"
    using same_core_simps [OF same_core_trans [OF new_rcontext_core [OF assms(1)] assms(5)]] assms(2) by simp
  ultimately show ?thesis
    using assms(3,4,7)
    by (auto simp: is_valid_redis_context_def Let_def bind_Some split: if_splits)
qed

theorem failure_retires_contexts_witness:
  "\<exists>w1 valid w2.
     new_rcontext lab_down 0 100 False False (lab_one False False) = Some (None, w1) \<and>
     is_valid_redis_context lab_down (lab_context 80) 101 False w1 = Some (valid, w2) \<and> \<not> valid"
proof -
  have l: "db_lock_ok False (sv_db (srvs (lab_one False False) 0)) (lab_one False False)"
    by (simp add: db_lock_ok_def lab_defs)
  then obtain w1 where n: "new_rcontext lab_down 0 100 False False (lab_one False False) = Some (None, w1)"
    by (rule lab_down_fails)
  note core = same_core_simps [OF new_rcontext_core [OF n]]
  have c: "cx_server (lab_context 80) = 0" "cx_tst (lab_context 80) \<le> 100" by (simp_all add: lab_context_def)
  have "db_lock_ok False (sv_db (srvs w1 (cx_server (lab_context 80)))) w1"
    using l by (simp add: c db_lock_ok_def core)
  then obtain w2 valid where v: "is_valid_redis_context lab_down (lab_context 80) 101 False w1 = Some (valid, w2)"
    using is_valid_exact by metis
  have "\<not> valid"
    by (rule failure_retires_contexts [OF n _ c same_core_refl refl v]) (simp add: lab_defs)
  with n v show ?thesis by blast
qed

end
