(* ===== verification/Plan.thy ===== *)
theory Plan
  imports Connection_Health
begin

text \<open>
  Execution plans (\<open>src/core.c\<close>: \<open>new_execution_plan\<close>, \<open>populate_simple_execution_plan\<close>,
  \<open>populate_execution_plan\<close>, \<open>plan_execution\<close>). The lists of a plan are built inside the
  reservation of the workspace: the model keeps its size \<open>free_ws\<close>, checks it as the code does, and
  a write past its end is \<open>None\<close>. The counters \<open>n\<close> of a plan are the lengths of its lists.
\<close>

section \<open>The code\<close>

record plan =
  pl_contexts :: "redis_context list"
  pl_cnext :: nat
  pl_servers :: "server_ptr list"
  pl_snext :: nat

definition POINTER_SIZE :: nat where "POINTER_SIZE = 8"
definition PLAN_SIZE :: nat where "PLAN_SIZE = 48"

definition new_execution_plan :: "'e hiredis \<Rightarrow> 'e world \<Rightarrow> plan option \<times> 'e world" where
  "new_execution_plan h w =
     (let (ok, w) = net_call (h_ws_alloc h PLAN_SIZE) w
      in if \<not> ok then (None, VRT_fail w)
         else (Some \<lparr>pl_contexts = [], pl_cnext = 0, pl_servers = [], pl_snext = 0\<rparr>, w))"

definition drop_context :: "'e hiredis \<Rightarrow> redis_context \<Rightarrow> 'e world \<Rightarrow> 'e world" where
  "drop_context h c w =
     free_redis_context h c
       (w\<lparr>task := (task w)\<lparr>ts_contexts := tailq_remove (ts_contexts (task w)) c,
                           ts_ncontexts := ts_ncontexts (task w) - 1\<rparr>\<rparr>)"

text \<open>The failure of a loop that fills the reservation: release it, and fail the task.\<close>

definition ws_overflow :: "'e hiredis \<Rightarrow> 'e world \<Rightarrow> 'e world" where
  "ws_overflow h w = VRT_fail (net_do (h_ws_release h 0) w)"

text \<open>
  The loop over the private contexts. The write of the \<open>n\<close>-th pointer is inside the reservation
  only if it has room for \<open>n + 1\<close> of them; the code compares \<open>free_ws\<close> with the size of one.
\<close>

fun pick_contexts ::
  "'e hiredis \<Rightarrow> int \<Rightarrow> ('e world \<Rightarrow> redis_context \<Rightarrow> bool) \<Rightarrow> nat \<Rightarrow> nat \<Rightarrow> redis_context list \<Rightarrow>
   redis_context list \<Rightarrow> 'e world \<Rightarrow> (bool \<times> redis_context list \<times> 'e world) option" where
  "pick_contexts h now want max_size free_ws [] acc w = Some (True, acc, w)"
| "pick_contexts h now want max_size free_ws (c # cs) acc w =
     (if want w c then
        (case is_valid_redis_context h c now False w of
           None \<Rightarrow> None
         | Some (True, w) \<Rightarrow>
             if free_ws \<ge> POINTER_SIZE then
               if POINTER_SIZE * (length acc + 1) > free_ws then None
               else if length (acc @ [c]) = max_size then Some (True, acc @ [c], w)
               else pick_contexts h now want max_size free_ws cs (acc @ [c]) w
             else Some (False, acc, ws_overflow h w)
         | Some (False, w) \<Rightarrow>
             pick_contexts h now want max_size free_ws cs acc (drop_context h c w))
      else pick_contexts h now want max_size free_ws cs acc w)"

definition simple_wants :: "db_ptr \<Rightarrow> server_ptr \<Rightarrow> 'e world \<Rightarrow> redis_context \<Rightarrow> bool" where
  "simple_wants d s w c \<longleftrightarrow> sv_db (srvs w (cx_server c)) = d \<and> cx_server c = s"

definition simple_contexts ::
  "'e hiredis \<Rightarrow> plan \<Rightarrow> db_ptr \<Rightarrow> uint \<Rightarrow> server_ptr \<Rightarrow> 'e world \<Rightarrow> (bool \<times> plan \<times> 'e world) option" where
  "simple_contexts h plan d max_size server w =
     (if \<not> shared_connections (dbs w d) then do {
        let (now, w) = net_call (h_time h) w;
        let (free_ws, w) = net_call (h_ws_reserve_all h) w;
        (ok, l, w) \<leftarrow> pick_contexts h now (simple_wants d server) (unat max_size) free_ws
                        (ts_contexts (task w)) [] w;
        Some (ok, plan\<lparr>pl_contexts := l\<rparr>,
              if ok then net_do (h_ws_release h (POINTER_SIZE * length l)) w else w)
      } else Some (True, plan, w))"

definition populate_simple_execution_plan ::
  "'e hiredis \<Rightarrow> plan \<Rightarrow> db_ptr \<Rightarrow> uint \<Rightarrow> server_ptr \<Rightarrow> 'e world \<Rightarrow> (plan \<times> 'e world) option" where
  "populate_simple_execution_plan h plan d max_size server w = do {
     (ok, plan, w) \<leftarrow> simple_contexts h plan d max_size server w;
     if \<not> ok then Some (plan, w)
     else (let (free_ws, w) = net_call (h_ws_reserve_all h) w
           in if free_ws \<ge> POINTER_SIZE
              then Some (plan\<lparr>pl_servers := [server]\<rparr>, net_do (h_ws_release h POINTER_SIZE) w)
              else Some (plan, ws_overflow h w))
   }"

definition context_wants ::
  "db_ptr \<Rightarrow> bool \<Rightarrow> nat \<Rightarrow> 'e world \<Rightarrow> redis_context \<Rightarrow> bool" where
  "context_wants d master slot w c \<longleftrightarrow>
     (let sv = srvs w (cx_server c) in
      sv_db sv = d \<and>
      ((master \<and> sv_role sv = MASTER) \<or> (\<not> master \<and> sv_role sv \<noteq> MASTER)) \<and>
      (\<not> cluster_enabled (dbs w d) \<or> sv_slots sv slot))"

text \<open>The loop over one list of servers, with its two assertions.\<close>

fun fill_list ::
  "'e world \<Rightarrow> (redis_server \<Rightarrow> bool) \<Rightarrow> nat \<Rightarrow> nat \<Rightarrow> role \<Rightarrow> server_ptr list \<Rightarrow> server_ptr list \<Rightarrow>
   nat \<Rightarrow> (bool \<times> server_ptr list \<times> nat) option" where
  "fill_list w want free_ws iweight irole [] acc remaining = Some (True, acc, remaining)"
| "fill_list w want free_ws iweight irole (s # ss) acc remaining =
     (if sv_weight (srvs w s) \<noteq> iweight \<or> sv_role (srvs w s) \<noteq> irole then None
      else if want (srvs w s) then
        if free_ws \<ge> POINTER_SIZE then
          if POINTER_SIZE * (length acc + 1) > free_ws then None
          else if remaining - 1 = 0 then Some (True, acc @ [s], remaining - 1)
          else fill_list w want free_ws iweight irole ss (acc @ [s]) (remaining - 1)
        else Some (False, acc, remaining)
      else fill_list w want free_ws iweight irole ss acc remaining)"

definition round_visits :: "bool \<Rightarrow> nat \<Rightarrow> role \<Rightarrow> bool" where
  "round_visits master round irole \<longleftrightarrow>
     \<not> master \<or> (round = 1 \<and> irole = MASTER) \<or> (round = 2 \<and> (irole = MASTER \<or> irole = TBD))"

definition round_wants :: "int \<Rightarrow> bool \<Rightarrow> bool \<Rightarrow> nat \<Rightarrow> nat \<Rightarrow> redis_server \<Rightarrow> bool" where
  "round_wants now master clustered slot round sv \<longleftrightarrow>
     (\<not> clustered \<or> sv_slots sv slot) \<and>
     ((round = 1 \<and> sick_exp sv \<le> now) \<or>
      (round = 2 \<and> ((master \<and> sv_role sv = TBD) \<or> sick_exp sv > now)))"

text \<open>Rounds 1 and 2. After the first one the first server taken from a list goes to its end.\<close>

fun sweep ::
  "db_ptr \<Rightarrow> (role \<Rightarrow> bool) \<Rightarrow> (redis_server \<Rightarrow> bool) \<Rightarrow> bool \<Rightarrow> nat \<Rightarrow> (nat \<times> role) list \<Rightarrow>
   server_ptr list \<Rightarrow> nat \<Rightarrow> 'e world \<Rightarrow> (bool \<times> server_ptr list \<times> nat \<times> 'e world) option" where
  "sweep d visits wants rotate_first free_ws [] acc remaining w = Some (True, acc, remaining, w)"
| "sweep d visits wants rotate_first free_ws ((iweight, irole) # cs) acc remaining w =
     (if remaining = 0 then Some (True, acc, remaining, w)
      else if visits irole then
        (case fill_list w wants free_ws iweight irole (servers (dbs w d) iweight irole) acc remaining of
           None \<Rightarrow> None
         | Some (False, acc', remaining') \<Rightarrow> Some (False, acc', remaining', w)
         | Some (True, acc', remaining') \<Rightarrow>
             sweep d visits wants rotate_first free_ws cs acc' remaining'
               (if rotate_first \<and> length acc < length acc'
                then upd_servers d iweight irole (\<lambda>l. tailq_rotate l (acc' ! length acc)) w else w))
      else sweep d visits wants rotate_first free_ws cs acc remaining w)"

text \<open>Rounds 3 and 4 look at every list, at healthy servers first.\<close>

definition late_wants :: "int \<Rightarrow> nat \<Rightarrow> redis_server \<Rightarrow> bool" where
  "late_wants now round sv \<longleftrightarrow>
     (round = 3 \<and> sick_exp sv \<le> now) \<or> (round = 4 \<and> sick_exp sv > now)"

definition fill_servers ::
  "db_ptr \<Rightarrow> int \<Rightarrow> bool \<Rightarrow> nat \<Rightarrow> nat \<Rightarrow> nat \<Rightarrow> 'e world \<Rightarrow> (bool \<times> server_ptr list \<times> 'e world) option" where
  "fill_servers d now master slot free_ws remaining w = do {
     let clustered = cluster_enabled (dbs w d);
     (ok, acc, remaining, w) \<leftarrow>
       sweep d (round_visits master 1) (round_wants now master clustered slot 1) True free_ws cells [] remaining w;
     (ok, acc, remaining, w) \<leftarrow>
       (if ok \<and> \<not> clustered
        then sweep d (round_visits master 2) (round_wants now master clustered slot 2) False free_ws cells
               acc remaining w
        else Some (ok, acc, remaining, w));
     if ok \<and> clustered \<and> acc = [] then do {
       (ok, acc, remaining, w) \<leftarrow> sweep d (\<lambda>r. True) (late_wants now 3) False free_ws cells acc remaining w;
       (ok, acc, remaining, w) \<leftarrow>
         (if ok then sweep d (\<lambda>r. True) (late_wants now 4) False free_ws cells acc remaining w
          else Some (ok, acc, remaining, w));
       Some (ok, acc, w)
     }
     else Some (ok, acc, w)
   }"

text \<open>\<open>Populate list of contexts?\<close> of \<open>populate_execution_plan\<close>, and then its servers.\<close>

definition populate_contexts ::
  "'e hiredis \<Rightarrow> int \<Rightarrow> plan \<Rightarrow> db_ptr \<Rightarrow> uint \<Rightarrow> bool \<Rightarrow> nat \<Rightarrow> 'e world \<Rightarrow> (bool \<times> plan \<times> 'e world) option" where
  "populate_contexts h now plan d max_size master slot w =
     (if \<not> shared_connections (dbs w d) then do {
        let (free_ws, w) = net_call (h_ws_reserve_all h) w;
        (ok, l, w) \<leftarrow> pick_contexts h now (context_wants d master slot) (unat max_size) free_ws
                        (ts_contexts (task w)) [] w;
        let w = (if ok \<and> l \<noteq> []
                 then w\<lparr>task := (task w)\<lparr>ts_contexts := tailq_rotate (ts_contexts (task w)) (hd l)\<rparr>\<rparr>
                 else w);
        Some (ok, plan\<lparr>pl_contexts := l\<rparr>,
              if ok then net_do (h_ws_release h (POINTER_SIZE * length l)) w else w)
      } else Some (True, plan, w))"

definition populate_servers ::
  "'e hiredis \<Rightarrow> int \<Rightarrow> plan \<Rightarrow> db_ptr \<Rightarrow> uint \<Rightarrow> bool \<Rightarrow> nat \<Rightarrow> 'e world \<Rightarrow> (plan \<times> 'e world) option" where
  "populate_servers h now plan d max_size master slot w = do {
     let remaining = unat max_size - length (pl_contexts plan);
     let (free_ws, w) = net_call (h_ws_reserve_all h) w;
     w \<leftarrow> Lck_Lock (Db_Mutex d) w;
     (ok, l, w) \<leftarrow> fill_servers d now master slot free_ws remaining w;
     if ok then do {
       w \<leftarrow> Lck_Unlock (Db_Mutex d) w;
       Some (plan\<lparr>pl_servers := l\<rparr>, net_do (h_ws_release h (POINTER_SIZE * length l)) w)
     }
     else do {
       w \<leftarrow> Lck_Unlock (Db_Mutex d) (net_do (h_ws_release h 0) w);
       Some (plan\<lparr>pl_servers := l\<rparr>, VRT_fail w)
     }
   }"

definition populate_execution_plan ::
  "'e hiredis \<Rightarrow> plan \<Rightarrow> db_ptr \<Rightarrow> uint \<Rightarrow> bool \<Rightarrow> nat \<Rightarrow> 'e world \<Rightarrow> (plan \<times> 'e world) option" where
  "populate_execution_plan h plan d max_size master slot w = do {
     let (now, w) = net_call (h_time h) w;
     (ok, plan, w) \<leftarrow> populate_contexts h now plan d max_size master slot w;
     if ok \<and> length (pl_contexts plan) < unat max_size
     then populate_servers h now plan d max_size master slot w
     else Some (plan, w)
   }"

definition plan_execution ::
  "'e hiredis \<Rightarrow> db_ptr \<Rightarrow> uint \<Rightarrow> server_ptr option \<Rightarrow> bool \<Rightarrow> nat \<Rightarrow> 'e world \<Rightarrow>
   (plan option \<times> 'e world) option" where
  "plan_execution h d max_size server master slot w =
     (case new_execution_plan h w of
        (None, w) \<Rightarrow> Some (None, w)
      | (Some plan, w) \<Rightarrow> do {
          (plan, w) \<leftarrow> (case server of
                         Some s \<Rightarrow> populate_simple_execution_plan h plan d max_size s w
                       | None \<Rightarrow> populate_execution_plan h plan d max_size master slot w);
          Some (Some plan, w)
        })"

section \<open>The servers of a plan\<close>

text \<open>The reference: all the candidates of a round, in the order of the lists.\<close>

definition candidates ::
  "'e world \<Rightarrow> db_ptr \<Rightarrow> (role \<Rightarrow> bool) \<Rightarrow> (redis_server \<Rightarrow> bool) \<Rightarrow> (nat \<times> role) list \<Rightarrow> server_ptr list" where
  "candidates w d visits wants cs =
     concat (map (\<lambda>(wt, r). if visits r then filter (\<lambda>s. wants (srvs w s)) (servers (dbs w d) wt r) else []) cs)"

lemma candidates_Cons:
  "candidates w d visits wants ((wt, r) # cs) =
   (if visits r then filter (\<lambda>s. wants (srvs w s)) (servers (dbs w d) wt r) else []) @
   candidates w d visits wants cs"
  by (simp add: candidates_def)

lemma fill_list_spec:
  assumes "\<forall>s \<in> set ss. sv_weight (srvs w s) = wt \<and> sv_role (srvs w s) = r"
    and "POINTER_SIZE * (length acc + rem) \<le> free" and "rem > 0"
  shows "fill_list w wants free wt r ss acc rem =
    Some (True, acc @ take rem (filter (\<lambda>s. wants (srvs w s)) ss),
          rem - length (filter (\<lambda>s. wants (srvs w s)) ss))"
  using assms
proof (induction ss arbitrary: acc rem)
  case Nil
  then show ?case by simp
next
  case (Cons s ss)
  have room: "POINTER_SIZE \<le> free" "\<not> POINTER_SIZE * (length acc + 1) > free"
    using Cons.prems(2,3) by (auto simp: POINTER_SIZE_def)
  show ?case
  proof (cases "wants (srvs w s) \<and> rem > 1")
    case True
    then have "POINTER_SIZE * (length (acc @ [s]) + (rem - 1)) \<le> free"
      using Cons.prems(2) by simp
    with Cons.IH [of "acc @ [s]" "rem - 1"] True Cons.prems room show ?thesis
      by (simp add: take_Cons')
  next
    case False
    with Cons.IH [of acc rem] Cons.prems room show ?thesis
      by (cases rem) auto
  qed
qed

text \<open>What a sweep may change: each list is as it was, or has one wanted server at its end.\<close>

definition rotated ::
  "db_ptr \<Rightarrow> (redis_server \<Rightarrow> bool) \<Rightarrow> 'e world \<Rightarrow> 'e world \<Rightarrow> bool" where
  "rotated d wants w w' \<longleftrightarrow>
     srvs w' = srvs w \<and> next_srv w' = next_srv w \<and> next_ctx w' = next_ctx w \<and> net w' = net w \<and>
     task w' = task w \<and> config w' = config w \<and> vmod_version w' = vmod_version w \<and>
     held w' = held w \<and> vrt_failed w' = vrt_failed w \<and>
     (\<forall>d'. (dbs w' d')\<lparr>servers := servers (dbs w d')\<rparr> = dbs w d') \<and>
     (\<forall>d' wt r. servers (dbs w' d') wt r = servers (dbs w d') wt r \<or>
        (d' = d \<and> (\<exists>s \<in> set (servers (dbs w d) wt r). wants (srvs w s) \<and>
           servers (dbs w' d) wt r = tailq_rotate (servers (dbs w d) wt r) s)))"

lemma rotated_refl [simp]: "rotated d wants w w"
  by (simp add: rotated_def)

lemma rotated_simps:
  assumes "rotated d wants w w'"
  shows "srvs w' = srvs w" "next_srv w' = next_srv w" "next_ctx w' = next_ctx w" "net w' = net w"
    "task w' = task w" "config w' = config w" "vmod_version w' = vmod_version w" "held w' = held w"
    "vrt_failed w' = vrt_failed w"
    "cluster_enabled (dbs w' x) = cluster_enabled (dbs w x)"
    "shared_connections (dbs w' x) = shared_connections (dbs w x)"
    "max_connections (dbs w' x) = max_connections (dbs w x)" "db_stats (dbs w' x) = db_stats (dbs w x)"
    "sickness_ttl (dbs w' x) = sickness_ttl (dbs w x)"
proof -
  have "(dbs w' x)\<lparr>servers := servers (dbs w x)\<rparr> = dbs w x" using assms by (simp add: rotated_def)
  then have "cluster_enabled ((dbs w' x)\<lparr>servers := servers (dbs w x)\<rparr>) = cluster_enabled (dbs w x)"
    "shared_connections ((dbs w' x)\<lparr>servers := servers (dbs w x)\<rparr>) = shared_connections (dbs w x)"
    "max_connections ((dbs w' x)\<lparr>servers := servers (dbs w x)\<rparr>) = max_connections (dbs w x)"
    "db_stats ((dbs w' x)\<lparr>servers := servers (dbs w x)\<rparr>) = db_stats (dbs w x)"
    "sickness_ttl ((dbs w' x)\<lparr>servers := servers (dbs w x)\<rparr>) = sickness_ttl (dbs w x)" by metis+
  then show "cluster_enabled (dbs w' x) = cluster_enabled (dbs w x)"
    "shared_connections (dbs w' x) = shared_connections (dbs w x)"
    "max_connections (dbs w' x) = max_connections (dbs w x)" "db_stats (dbs w' x) = db_stats (dbs w x)"
    "sickness_ttl (dbs w' x) = sickness_ttl (dbs w x)" by simp_all
qed (use assms in \<open>simp_all add: rotated_def\<close>)

lemma rotated_registered:
  assumes "rotated d wants w w'" and "reg_ok x w"
  shows "registered w' x = registered w x" and "reg_ok x w'"
proof -
  have cell: "set (servers (dbs w' x) wt r) = set (servers (dbs w x) wt r) \<and> distinct (servers (dbs w' x) wt r)" for wt r
    using assms(1) reg_ok_distinct [OF assms(2), of wt r]
    unfolding rotated_def by (metis set_rotate distinct_rotate)
  show reg: "registered w' x = registered w x" using cell by (simp add: registered_def)
  have "filed_ok w' x wt r s = filed_ok w x wt r s" for wt r s
    by (simp add: filed_ok_def rotated_simps [OF assms(1)])
  note filed = this
  show "reg_ok x w'"
  proof (rule reg_okI)
    show "distinct (servers (dbs w' x) wt r)" for wt r using cell by simp
    show "filed_ok w' x wt r s" if "s \<in> set (servers (dbs w' x) wt r)" for wt r s
      using reg_ok_filed [OF assms(2)] cell that filed by simp
    show "s = s'" if "s \<in> registered w' x" "s' \<in> registered w' x"
        "sv_raw (srvs w' s) = sv_raw (srvs w' s')" for s s'
      by (rule reg_ok_inj [OF assms(2)]) (use that in \<open>simp_all only: reg rotated_simps(1) [OF assms(1)]\<close>)
  qed
qed

lemma filter_rotate: "\<not> P s \<Longrightarrow> filter P (tailq_rotate l s) = filter P l"
  by (simp add: tailq_rotate_def tailq_insert_tail_def tailq_remove_def)
    (induction l, auto)

lemma rotated_candidates:
  assumes "rotated d wants w w'" and "\<And>sv. wants sv \<Longrightarrow> \<not> wants' sv"
  shows "candidates w' d visits wants' cs = candidates w d visits wants' cs"
proof -
  have "filter (\<lambda>s. wants' (srvs w' s)) (servers (dbs w' d) wt r) =
      filter (\<lambda>s. wants' (srvs w s)) (servers (dbs w d) wt r)" for wt r
  proof (cases "servers (dbs w' d) wt r = servers (dbs w d) wt r")
    case True
    then show ?thesis by (simp add: rotated_simps(1) [OF assms(1)])
  next
    case False
    then obtain s where "wants (srvs w s)"
      "servers (dbs w' d) wt r = tailq_rotate (servers (dbs w d) wt r) s"
      using assms(1) unfolding rotated_def by blast
    then show ?thesis
      using assms(2) by (simp add: rotated_simps(1) [OF assms(1)] filter_rotate)
  qed
  then show ?thesis by (simp add: candidates_def cong: if_cong)
qed

lemma rotated_step:
  assumes "rotated d wants w w'" and "servers (dbs w' d) wt r = servers (dbs w d) wt r"
    and "s \<in> set (servers (dbs w d) wt r)" and "wants (srvs w s)"
  shows "rotated d wants w (upd_servers d wt r (\<lambda>l. tailq_rotate l s) w')"
proof -
  let ?w = "upd_servers d wt r (\<lambda>l. tailq_rotate l s) w'"
  have "(dbs ?w x)\<lparr>servers := servers (dbs w x)\<rparr> = dbs w x" for x
    using assms(1) by (simp add: rotated_def upd_servers_def upd_db_def)
  moreover have "servers (dbs ?w x) wt' r' = servers (dbs w x) wt' r' \<or>
      (x = d \<and> (\<exists>s \<in> set (servers (dbs w d) wt' r'). wants (srvs w s) \<and>
         servers (dbs ?w d) wt' r' = tailq_rotate (servers (dbs w d) wt' r') s))" for x wt' r'
  proof (cases "x = d \<and> wt' = wt \<and> r' = r")
    case True
    then show ?thesis using assms by (auto simp: upd_servers_db)
  next
    case False
    then have "servers (dbs ?w x) wt' r' = servers (dbs w' x) wt' r'" by (auto simp: upd_servers_db)
    moreover have "x = d \<Longrightarrow> servers (dbs ?w d) wt' r' = servers (dbs w' d) wt' r'"
      using False by (auto simp: upd_servers_db)
    ultimately show ?thesis using assms(1) unfolding rotated_def by metis
  qed
  ultimately show ?thesis
    using assms(1) unfolding rotated_def by (simp add: frame_simps)
qed

lemma candidates_cong:
  assumes "srvs w' = srvs w" and "\<And>wt r. (wt, r) \<in> set cs \<Longrightarrow> servers (dbs w' d) wt r = servers (dbs w d) wt r"
  shows "candidates w' d visits wants cs = candidates w d visits wants cs"
  unfolding candidates_def using assms by (intro arg_cong [where f = concat] map_cong) auto

lemma set_candidates:
  "s \<in> set (candidates w d visits wants cs) \<longleftrightarrow>
   (\<exists>(wt, r) \<in> set cs. visits r \<and> s \<in> set (servers (dbs w d) wt r) \<and> wants (srvs w s))"
  by (auto simp: candidates_def split: if_splits)

text \<open>
  A sweep that has room for what it may take: it appends the first candidates, up to the number
  that remains, and rotates lists only.
\<close>

lemma sweep_spec_aux:
  assumes "reg_ok d w" and "distinct cs"
    and "POINTER_SIZE * (length acc + rem) \<le> free"
    and "rotated d (\<lambda>sv. wants sv \<and> visits (sv_role sv)) w w'"
    and "\<And>wt r. (wt, r) \<in> set cs \<Longrightarrow> servers (dbs w' d) wt r = servers (dbs w d) wt r"
  shows "\<exists>w''. sweep d visits wants rot free cs acc rem w' =
      Some (True, acc @ take rem (candidates w d visits wants cs),
            rem - length (candidates w d visits wants cs), w'') \<and>
    rotated d (\<lambda>sv. wants sv \<and> visits (sv_role sv)) w w'' \<and> (\<not> rot \<longrightarrow> w'' = w')"
  using assms
proof (induction cs arbitrary: acc rem w')
  case Nil
  then show ?case by (auto simp: candidates_def)
next
  case (Cons c cs)
  obtain wt r where c: "c = (wt, r)" by fastforce
  let ?l = "filter (\<lambda>s. wants (srvs w s)) (servers (dbs w d) wt r)"
  show ?case
  proof (cases "rem = 0")
    case True
    then show ?thesis using Cons.prems(4) by (auto simp: c)
  next
    case rem: False
    show ?thesis
    proof (cases "visits r")
      case False
      have "\<exists>w''. sweep d visits wants rot free cs acc rem w' =
          Some (True, acc @ take rem (candidates w d visits wants cs),
            rem - length (candidates w d visits wants cs), w'') \<and>
          rotated d (\<lambda>sv. wants sv \<and> visits (sv_role sv)) w w'' \<and> (\<not> rot \<longrightarrow> w'' = w')"
        by (rule Cons.IH) (use Cons.prems in \<open>auto simp: c\<close>)
      then show ?thesis using rem False by (simp add: c candidates_Cons)
    next
      case visit: True
      note rs = rotated_simps(1) [OF Cons.prems(4)]
      have list: "servers (dbs w' d) wt r = servers (dbs w d) wt r" using Cons.prems(5) by (simp add: c)
      have "\<forall>s \<in> set (servers (dbs w d) wt r). sv_weight (srvs w' s) = wt \<and> sv_role (srvs w' s) = r"
        using reg_ok_filed [OF Cons.prems(1)] by (auto simp: filed_ok_def rs)
      then have fill: "fill_list w' wants free wt r (servers (dbs w' d) wt r) acc rem =
          Some (True, acc @ take rem ?l, rem - length ?l)"
        using fill_list_spec [of "servers (dbs w d) wt r" w' wt r acc rem free wants] Cons.prems(3) rem
        by (simp add: list rs)
      let ?acc = "acc @ take rem ?l"
      let ?w = "if rot \<and> length acc < length ?acc
        then upd_servers d wt r (\<lambda>l. tailq_rotate l (?acc ! length acc)) w' else w'"
      have rot: "rotated d (\<lambda>sv. wants sv \<and> visits (sv_role sv)) w ?w"
      proof (cases "rot \<and> length acc < length ?acc")
        case True
        then have "?l \<noteq> []" by auto
        then obtain s l where sl: "?l = s # l" by (cases ?l) auto
        then have s: "?acc ! length acc = s" using rem by (simp add: nth_append take_Cons')
        have "s \<in> set ?l" by (simp add: sl)
        then show ?thesis
          using True s rotated_step [OF Cons.prems(4) list] visit reg_ok_filed [OF Cons.prems(1)]
          by (auto simp: filed_ok_def)
      next
        case False
        then show ?thesis using Cons.prems(4) by auto
      qed
      have "\<exists>w''. sweep d visits wants rot free cs ?acc (rem - length ?l) ?w =
          Some (True, ?acc @ take (rem - length ?l) (candidates w d visits wants cs),
            rem - length ?l - length (candidates w d visits wants cs), w'') \<and>
          rotated d (\<lambda>sv. wants sv \<and> visits (sv_role sv)) w w'' \<and> (\<not> rot \<longrightarrow> w'' = ?w)"
      proof (rule Cons.IH [OF Cons.prems(1) _ _ rot])
        show "distinct cs" using Cons.prems(2) by simp
        show "POINTER_SIZE * (length ?acc + (rem - length ?l)) \<le> free"
        proof -
          have "length ?acc + (rem - length ?l) = length acc + rem" by simp
          with Cons.prems(3) show ?thesis by (simp only:)
        qed
        show "servers (dbs ?w d) wt' r' = servers (dbs w d) wt' r'" if "(wt', r') \<in> set cs" for wt' r'
          using that Cons.prems(2,5) by (auto simp: c upd_servers_db)
      qed
      then show ?thesis
        using rem visit by (simp add: c candidates_Cons fill)
    qed
  qed
qed

lemma sweep_spec:
  assumes "reg_ok d w" and "POINTER_SIZE * (length acc + rem) \<le> free"
  obtains w' where "sweep d visits wants rot free cells acc rem w =
      Some (True, acc @ take rem (candidates w d visits wants cells),
            rem - length (candidates w d visits wants cells), w')"
    "rotated d (\<lambda>sv. wants sv \<and> visits (sv_role sv)) w w'" "\<not> rot \<Longrightarrow> w' = w"
  using sweep_spec_aux [OF assms(1) distinct_cells assms(2) rotated_refl,
      where wants = wants and visits = visits and rot = rot] by blast

text \<open>
  The servers a plan should hold: healthy servers before sick ones (and, for a command that needs a
  master, known masters before servers of unknown role), within a round by weight and by role. In a
  clustered database the healthy servers of the slot only or, without any, all the servers.
\<close>

definition planned_servers ::
  "'e world \<Rightarrow> db_ptr \<Rightarrow> int \<Rightarrow> bool \<Rightarrow> nat \<Rightarrow> nat \<Rightarrow> server_ptr list" where
  "planned_servers w d now master slot n =
     (let clustered = cluster_enabled (dbs w d);
          first = candidates w d (round_visits master 1) (round_wants now master clustered slot 1) cells;
          second = candidates w d (round_visits master 2) (round_wants now master clustered slot 2) cells;
          any = candidates w d (\<lambda>r. True) (late_wants now 3) cells @
                candidates w d (\<lambda>r. True) (late_wants now 4) cells
      in take n (if \<not> clustered then first @ second else if first \<noteq> [] then first else any))"

abbreviation first_round :: "int \<Rightarrow> bool \<Rightarrow> bool \<Rightarrow> nat \<Rightarrow> redis_server \<Rightarrow> bool" where
  "first_round now master clustered slot \<equiv>
     (\<lambda>sv. round_wants now master clustered slot 1 sv \<and> round_visits master 1 (sv_role sv))"

lemma rotated_nothing:
  assumes "reg_ok d w" and "rotated d (\<lambda>sv. wants sv \<and> visits (sv_role sv)) w w'"
    and "candidates w d visits wants cells = []"
  shows "servers (dbs w' d) wt r = servers (dbs w d) wt r"
proof (rule ccontr)
  assume "\<not> ?thesis"
  then obtain s where s: "s \<in> set (servers (dbs w d) wt r)" "wants (srvs w s)" "visits (sv_role (srvs w s))"
    using assms(2) unfolding rotated_def by blast
  then have "s \<in> set (candidates w d visits wants cells)"
    using reg_ok_filed [OF assms(1) s(1)]
    by (auto simp: set_candidates filed_ok_def set_cells intro!: bexI [of _ "(wt, r)"])
  with assms(3) show False by simp
qed

lemma rotated_trans_same:
  "rotated d P w w' \<Longrightarrow> servers (dbs w' d) = servers (dbs w d) \<Longrightarrow>
   candidates w' d visits wants cs = candidates w d visits wants cs"
  by (simp add: candidates_def rotated_simps(1) cong: if_cong)

lemma take_append_rest: "take n xs @ take (n - length xs) ys = take n (xs @ ys)"
  by simp

lemma fill_servers_spec:
  assumes ok: "reg_ok d w" and room: "POINTER_SIZE * n \<le> free" and n: "n > 0"
  obtains w' where "fill_servers d now master slot free n w =
      Some (True, planned_servers w d now master slot n, w')"
    "rotated d (first_round now master (cluster_enabled (dbs w d)) slot) w w'"
proof -
  define cl where "cl = cluster_enabled (dbs w d)"
  define c1 where "c1 = candidates w d (round_visits master 1) (round_wants now master cl slot 1) cells"
  define c2 where "c2 = candidates w d (round_visits master 2) (round_wants now master cl slot 2) cells"
  define c3 where "c3 = candidates w d (\<lambda>r. True) (late_wants now 3) cells"
  define c4 where "c4 = candidates w d (\<lambda>r. True) (late_wants now 4) cells"
  obtain w1 where s1: "sweep d (round_visits master 1) (round_wants now master cl slot 1) True free cells [] n w =
      Some (True, take n c1, n - length c1, w1)"
    and r1: "rotated d (first_round now master cl slot) w w1"
    by (rule sweep_spec [OF ok, where acc = "[]" and rem = n and free = free and rot = True
          and wants = "round_wants now master cl slot 1" and visits = "round_visits master 1"])
      (use room in \<open>auto simp: c1_def\<close>)
  have ok1: "reg_ok d w1" using rotated_registered(2) [OF r1 ok] .
  show thesis
  proof (cases cl)
    case False
    have "candidates w1 d (round_visits master 2) (round_wants now master cl slot 2) cells = c2"
      unfolding c2_def by (rule rotated_candidates [OF r1]) (auto simp: round_wants_def round_visits_def)
    moreover have "POINTER_SIZE * (length (take n c1) + (n - length c1)) \<le> free"
      using room by (simp add: min_def)
    ultimately obtain w2 where s2: "sweep d (round_visits master 2) (round_wants now master cl slot 2) False free cells
        (take n c1) (n - length c1) w1 = Some (True, take n (c1 @ c2), n - length c1 - length c2, w2)" "w2 = w1"
      using sweep_spec [OF ok1, where acc = "take n c1" and rem = "n - length c1" and free = free and rot = False
            and wants = "round_wants now master cl slot 2" and visits = "round_visits master 2"] by auto
    then show thesis
      using that r1 s1 False
      by (simp add: fill_servers_def planned_servers_def Let_def cl_def c1_def c2_def)
  next
    case True
    show thesis
    proof (cases "c1 = []")
      case False
      then have "take n c1 \<noteq> []" using n by simp
      then show thesis
        using that r1 s1 True False
        by (simp add: fill_servers_def planned_servers_def Let_def cl_def c1_def)
    next
      case nil: True
      have same: "servers (dbs w1 d) = servers (dbs w d)"
        using rotated_nothing [OF ok r1] nil by (auto simp: c1_def fun_eq_iff)
      have c: "candidates w1 d (\<lambda>r. True) (late_wants now k) cells =
          candidates w d (\<lambda>r. True) (late_wants now k) cells" for k
        by (rule rotated_trans_same [OF r1 same])
      obtain w3 where s3: "sweep d (\<lambda>r. True) (late_wants now 3) False free cells [] n w1 =
          Some (True, take n c3, n - length c3, w3)" "w3 = w1"
        by (rule sweep_spec [OF ok1, where acc = "[]" and rem = n and free = free and rot = False
            and wants = "late_wants now 3" and visits = "\<lambda>r. True"])
          (use room in \<open>auto simp: c3_def c\<close>)
      have "POINTER_SIZE * (length (take n c3) + (n - length c3)) \<le> free"
        using room by (simp add: min_def)
      then obtain w4 where s4: "sweep d (\<lambda>r. True) (late_wants now 4) False free cells (take n c3) (n - length c3) w1 =
          Some (True, take n (c3 @ c4), n - length c3 - length c4, w4)" "w4 = w1"
        by (rule sweep_spec [OF ok1, where acc = "take n c3" and rem = "n - length c3" and free = free and rot = False
            and wants = "late_wants now 4" and visits = "\<lambda>r. True"])
          (auto simp: c4_def c)
      show thesis
        using that r1 s1 s3 s4 True nil
        by (simp add: fill_servers_def planned_servers_def Let_def cl_def c1_def c3_def c4_def)
    qed
  qed
qed

section \<open>The private contexts of a plan\<close>

text \<open>The part of the state of a task that the functions of the VCL interface write.\<close>

definition cmd_part :: "task_state \<Rightarrow> db_ptr option \<times> db_ptr option \<times> timeval \<times> uint \<times> argv \<times> redisReply option" where
  "cmd_part t = (ts_db t, cmd_db t, cmd_timeout t, cmd_max_retries t, cmd_argv t, cmd_reply t)"

lemma cmd_part_contexts [simp]:
  "cmd_part (t\<lparr>ts_contexts := l\<rparr>) = cmd_part t" "cmd_part (t\<lparr>ts_ncontexts := n\<rparr>) = cmd_part t"
  by (simp_all add: cmd_part_def)

definition core_task :: "'e world \<Rightarrow> 'e world \<Rightarrow> bool" where
  "core_task w w' \<longleftrightarrow> same_core (w\<lparr>task := task w'\<rparr>) w' \<and> cmd_part (task w') = cmd_part (task w)"

lemma core_task_refl [simp]: "core_task w w"
  by (simp add: core_task_def)

lemma core_task_trans [trans]: "core_task w w' \<Longrightarrow> core_task w' w'' \<Longrightarrow> core_task w w''"
  by (simp add: core_task_def same_core_def)

lemma same_core_task: "same_core w w' \<Longrightarrow> core_task w w'"
  by (simp add: core_task_def same_core_def)

lemma core_task_simps:
  assumes "core_task w w'"
  shows "sv_db (srvs w' s) = sv_db (srvs w s)" "sv_raw (srvs w' s) = sv_raw (srvs w s)"
    "sv_loc (srvs w' s) = sv_loc (srvs w s)" "sv_role (srvs w' s) = sv_role (srvs w s)"
    "sv_weight (srvs w' s) = sv_weight (srvs w s)" "sv_pool (srvs w' s) = sv_pool (srvs w s)"
    "sv_slots (srvs w' s) = sv_slots (srvs w s)" "servers (dbs w' d) = servers (dbs w d)"
    "cluster_enabled (dbs w' d) = cluster_enabled (dbs w d)"
    "shared_connections (dbs w' d) = shared_connections (dbs w d)"
    "max_connections (dbs w' d) = max_connections (dbs w d)"
    "next_srv w' = next_srv w" "config w' = config w" "held w' = held w" "vrt_failed w' = vrt_failed w"
    "vmod_version w' = vmod_version w" "next_ctx w' = next_ctx w" "cmd_part (task w') = cmd_part (task w)"
proof -
  have c: "same_core (w\<lparr>task := task w'\<rparr>) w'" using assms by (simp add: core_task_def)
  show "cmd_part (task w') = cmd_part (task w)" using assms by (simp add: core_task_def)
qed (use same_core_simps [OF conjunct1 [OF assms [unfolded core_task_def]]] in simp_all)

lemma core_task_reg: "core_task w w' \<Longrightarrow> reg_ok d w' \<longleftrightarrow> reg_ok d w"
  by (simp add: reg_ok_def filed_ok_def registered_def core_task_simps)

lemma core_task_registered: "core_task w w' \<Longrightarrow> registered w' d = registered w d"
  by (simp add: registered_def core_task_simps)

text \<open>The private contexts are counted, and no context is in the list twice.\<close>

definition private_ok :: "'e world \<Rightarrow> bool" where
  "private_ok w \<longleftrightarrow> distinct (ts_contexts (task w)) \<and>
     ts_ncontexts (task w) = word_of_nat (length (ts_contexts (task w)))"

lemma drop_context_fields:
  "core_task w (drop_context h c w)"
  "ts_contexts (task (drop_context h c w)) = tailq_remove (ts_contexts (task w)) c"
  by (simp_all add: core_task_def same_core_def drop_context_def free_redis_context_def net_do_def)

lemma drop_context_private:
  assumes "private_ok w" and "c \<in> set (ts_contexts (task w))"
  shows "private_ok (drop_context h c w)"
proof -
  obtain n where n: "length (ts_contexts (task w)) = Suc n"
    using assms(2) by (cases "ts_contexts (task w)") auto
  then show ?thesis
    using assms by (simp add: private_ok_def drop_context_def free_redis_context_def net_do_def)
qed

definition stable_want :: "('e world \<Rightarrow> redis_context \<Rightarrow> bool) \<Rightarrow> bool" where
  "stable_want want \<longleftrightarrow> (\<forall>v v' c. core_task v v' \<longrightarrow> want v' c = want v c)"

lemma stable_simple: "stable_want (simple_wants d s)"
  by (simp add: stable_want_def simple_wants_def core_task_simps)

lemma stable_context: "stable_want (context_wants d master slot)"
  by (simp add: stable_want_def context_wants_def core_task_simps Let_def)

text \<open>What the selected contexts \<open>l\<close> are, and what the loop does to the list of the task.\<close>

definition picked ::
  "'e hiredis \<Rightarrow> int \<Rightarrow> ('e world \<Rightarrow> redis_context \<Rightarrow> bool) \<Rightarrow> redis_context list \<Rightarrow> 'e world \<Rightarrow>
   redis_context list \<Rightarrow> 'e world \<Rightarrow> bool" where
  "picked h now want cs w l w' \<longleftrightarrow>
     srvs w' = srvs w \<and> core_task w w' \<and> private_ok w' \<and> distinct l \<and> set l \<subseteq> set cs \<and>
     set l \<subseteq> set (ts_contexts (task w')) \<and> set (ts_contexts (task w')) \<subseteq> set (ts_contexts (task w)) \<and>
     set (ts_contexts (task w)) - set cs \<subseteq> set (ts_contexts (task w')) \<and>
     (\<forall>c \<in> set l. want w c \<and> (\<exists>v. core_task w v \<and> usable h c now v))"

lemma picked_skip:
  assumes "picked h now want cs w1 l w'" and "core_task w w1" and "private_ok w1"
    and "set (ts_contexts (task w1)) \<subseteq> set (ts_contexts (task w))"
    and "set (ts_contexts (task w)) - {c} \<subseteq> set (ts_contexts (task w1))" and "stable_want want"
    and "srvs w1 = srvs w"
  shows "picked h now want (c # cs) w l w'"
proof -
  note p = assms(1) [unfolded picked_def]
  have core: "core_task w w'" using p core_task_trans [OF assms(2)] by blast
  have good: "\<forall>c \<in> set l. want w c \<and> (\<exists>v. core_task w v \<and> usable h c now v)"
  proof
    fix c assume c: "c \<in> set l"
    have "want w1 c = want w c" using assms(2,6) by (simp add: stable_want_def)
    moreover have "want w1 c" using p c by blast
    moreover obtain v where "core_task w1 v" "usable h c now v" using p c by blast
    ultimately show "want w c \<and> (\<exists>v. core_task w v \<and> usable h c now v)"
      using core_task_trans [OF assms(2)] by blast
  qed
  have "private_ok w' \<and> distinct l \<and> set l \<subseteq> set cs \<and> set l \<subseteq> set (ts_contexts (task w'))"
    using p by blast
  moreover have "set l \<subseteq> set (c # cs)" using p by auto
  moreover have "set (ts_contexts (task w')) \<subseteq> set (ts_contexts (task w))"
    using p assms(4) by blast
  moreover have "set (ts_contexts (task w)) - set (c # cs) \<subseteq> set (ts_contexts (task w'))"
    using p assms(5) by auto
  ultimately show ?thesis
    using core good assms(7) p unfolding picked_def by (intro conjI) simp_all
qed

lemma picked_take:
  assumes "picked h now want cs w1 l w'" and "same_core w w1" and "private_ok w"
    and "c \<in> set (ts_contexts (task w))" and "c \<notin> set cs" and "want w c" and "usable h c now w"
    and "stable_want want" and "srvs w1 = srvs w"
  shows "picked h now want (c # cs) w (c # l) w'"
proof -
  have t: "task w1 = task w" using assms(2) by (simp add: same_core_def)
  have "picked h now want (c # cs) w l w'"
    using assms(3) t by (intro picked_skip [OF assms(1) same_core_task [OF assms(2)] _ _ _ assms(8,9)])
      (auto simp: private_ok_def)
  moreover have "set l \<subseteq> set cs" "c \<in> set (ts_contexts (task w'))"
    using assms(1,4,5) t by (auto simp: picked_def)
  moreover have "want w c \<and> (\<exists>v. core_task w v \<and> usable h c now v)"
    using assms(6,7) core_task_refl by blast
  ultimately show ?thesis
    using assms(5) unfolding picked_def by auto
qed

lemma picked_Nil: "private_ok w \<Longrightarrow> picked h now want cs w [] w"
  by (simp add: picked_def)

lemma pick_contexts_spec:
  assumes "stable_want want" and "private_ok w" and "distinct cs"
    and "set cs \<subseteq> set (ts_contexts (task w))"
    and "\<And>c. c \<in> set cs \<Longrightarrow> Db_Mutex (sv_db (srvs w (cx_server c))) \<notin> set (held w)"
    and "POINTER_SIZE * (length acc + length cs) \<le> free"
  shows "\<exists>l w'. pick_contexts h now want n free cs acc w = Some (True, acc @ l, w') \<and>
    picked h now want cs w l w' \<and> (length acc < n \<longrightarrow> length (acc @ l) \<le> n)"
  using assms
proof (induction cs arbitrary: acc w)
  case Nil
  then show ?case by (auto intro: picked_Nil)
next
  case (Cons c cs)
  note stable = Cons.prems(1) and priv = Cons.prems(2)
  have room: "POINTER_SIZE \<le> free" "\<not> POINTER_SIZE * (length acc + 1) > free"
    using Cons.prems(6) by (auto simp: POINTER_SIZE_def)
  have later: "set cs \<subseteq> set (ts_contexts (task w))" "distinct cs" "c \<notin> set cs"
    "POINTER_SIZE * (length acc + length cs) \<le> free" "POINTER_SIZE * (length (acc @ [c]) + length cs) \<le> free"
    using Cons.prems(3,4,6) by auto
  show ?case
  proof (cases "want w c")
    case False
    obtain l w' where "pick_contexts h now want n free cs acc w = Some (True, acc @ l, w')"
      "picked h now want cs w l w'" "length acc < n \<longrightarrow> length (acc @ l) \<le> n"
      using Cons.IH [OF stable priv later(2,1) _ later(4)] Cons.prems(5) by auto
    then show ?thesis
      using False picked_skip [of h now want cs w l w' w c] priv stable by auto
  next
    case want: True
    have "db_lock_ok False (sv_db (srvs w (cx_server c))) w"
      using Cons.prems(5) by (simp add: db_lock_ok_def)
    then obtain w1 where v: "is_valid_redis_context h c now False w = Some (usable h c now w, w1)"
      and srvs1: "srvs w1 = srvs w"
      using is_valid_exact by metis
    note core = is_valid_core [OF v]
    note cs = same_core_simps [OF core]
    have priv1: "private_ok w1" using priv by (simp add: private_ok_def cs)
    show ?thesis
    proof (cases "usable h c now w")
      case True
      show ?thesis
      proof (cases "length (acc @ [c]) = n")
        case stop: True
        have "picked h now want (c # cs) w [c] w1"
          using picked_take [OF picked_Nil [OF priv1] core priv _ later(3) want True stable srvs1] Cons.prems(4) by simp
        then show ?thesis using want v True room stop by (intro exI [of _ "[c]"]) auto
      next
        case False
        obtain l w' where "pick_contexts h now want n free cs (acc @ [c]) w1 = Some (True, (acc @ [c]) @ l, w')"
          and p: "picked h now want cs w1 l w'"
          and len: "length (acc @ [c]) < n \<longrightarrow> length ((acc @ [c]) @ l) \<le> n"
          using Cons.IH [OF stable priv1 later(2) _ _ later(5)] later(1) Cons.prems(5) by (auto simp: cs)
        moreover have "picked h now want (c # cs) w (c # l) w'"
          using picked_take [OF p core priv _ later(3) want True stable srvs1] Cons.prems(4) by simp
        ultimately show ?thesis
          using want v True room False by (intro exI [of _ "c # l"] exI [of _ w']) auto
      qed
    next
      case False
      let ?w = "drop_context h c w1"
      have mem: "c \<in> set (ts_contexts (task w1))" using Cons.prems(4) by (simp add: cs)
      have core2: "core_task w ?w"
        using core_task_trans [OF same_core_task [OF core] drop_context_fields(1)] .
      have ts: "set (ts_contexts (task ?w)) = set (ts_contexts (task w)) - {c}"
        using priv1 by (simp add: drop_context_fields private_ok_def cs)
      have srvs2: "srvs ?w = srvs w"
        using srvs1 by (simp add: drop_context_def free_redis_context_def net_do_def)
      have priv2: "private_ok ?w" by (rule drop_context_private [OF priv1 mem])
      obtain l w' where "pick_contexts h now want n free cs acc ?w = Some (True, acc @ l, w')"
        and p: "picked h now want cs ?w l w'" and "length acc < n \<longrightarrow> length (acc @ l) \<le> n"
        using Cons.IH [OF stable priv2 later(2) _ _ later(4)] later(1,3) Cons.prems(5)
        by (auto simp: ts core_task_simps [OF core2])
      moreover have "picked h now want (c # cs) w l w'"
        by (rule picked_skip [OF p core2 priv2 _ _ stable srvs2]) (auto simp: ts)
      ultimately show ?thesis using want v False by auto
    qed
  qed
qed

section \<open>The plan as a whole\<close>

text \<open>A workspace with room for \<open>n\<close> pointers whenever it is reserved, and for small objects.\<close>

definition ws_room :: "'e hiredis \<Rightarrow> nat \<Rightarrow> bool" where
  "ws_room h n \<longleftrightarrow>
     (\<forall>e. POINTER_SIZE * n \<le> fst (h_ws_reserve_all h e)) \<and> (\<forall>e k. k \<le> PLAN_SIZE \<longrightarrow> fst (h_ws_alloc h k e))"

lemma planned_servers_cong:
  assumes "srvs w' = srvs w" and "servers (dbs w' d) = servers (dbs w d)"
    and "cluster_enabled (dbs w' d) = cluster_enabled (dbs w d)"
  shows "planned_servers w' d now master slot n = planned_servers w d now master slot n"
  using assms by (simp add: planned_servers_def candidates_def cong: if_cong)

text \<open>The state in which a task calls the functions of the plan: no mutex is held.\<close>

definition task_ok :: "db_ptr \<Rightarrow> 'e world \<Rightarrow> bool" where
  "task_ok d w \<longleftrightarrow> reg_ok d w \<and> private_ok w \<and> held w = [] \<and>
     (\<forall>c \<in> set (ts_contexts (task w)). cx_server c \<in> registered w (sv_db (srvs w (cx_server c))))"

text \<open>What the functions of the plan keep of a state.\<close>

definition plan_frame :: "db_ptr \<Rightarrow> 'e world \<Rightarrow> 'e world \<Rightarrow> bool" where
  "plan_frame d w w' \<longleftrightarrow> srvs w' = srvs w \<and> registered w' d = registered w d \<and>
     (\<forall>x. x \<noteq> d \<longrightarrow> registered w' x = registered w x) \<and> held w' = held w \<and> config w' = config w \<and>
     next_srv w' = next_srv w \<and> next_ctx w' = next_ctx w \<and> vrt_failed w' = vrt_failed w \<and>
     cmd_part (task w') = cmd_part (task w) \<and> set (ts_contexts (task w')) \<subseteq> set (ts_contexts (task w)) \<and>
     (\<forall>x. cluster_enabled (dbs w' x) = cluster_enabled (dbs w x) \<and>
          shared_connections (dbs w' x) = shared_connections (dbs w x) \<and>
          max_connections (dbs w' x) = max_connections (dbs w x))"

lemma plan_frame_refl [simp]: "plan_frame d w w"
  by (simp add: plan_frame_def)

lemma plan_frame_trans: "plan_frame d w w' \<Longrightarrow> plan_frame d w' w'' \<Longrightarrow> plan_frame d w w''"
  by (auto simp: plan_frame_def)

lemma plan_frame_net [simp]:
  "plan_frame d w (w'\<lparr>net := e\<rparr>) \<longleftrightarrow> plan_frame d w w'"
  "plan_frame d (w\<lparr>net := e\<rparr>) w' \<longleftrightarrow> plan_frame d w w'"
  "plan_frame d w (net_do f w') \<longleftrightarrow> plan_frame d w w'"
  by (simp_all add: plan_frame_def registered_def net_do_def)

lemma plan_frame_picked:
  assumes "picked h now want cs w l w'"
  shows "plan_frame d w w'"
proof -
  have "core_task w w'" "srvs w' = srvs w" "set (ts_contexts (task w')) \<subseteq> set (ts_contexts (task w))"
    using assms by (auto simp: picked_def)
  then show ?thesis by (simp add: plan_frame_def core_task_simps core_task_registered)
qed

lemma plan_frame_task:
  assumes "set (ts_contexts t) = set (ts_contexts (task w))" and "cmd_part t = cmd_part (task w)"
  shows "plan_frame d w (w\<lparr>task := t\<rparr>)"
  using assms by (simp add: plan_frame_def registered_def)

lemma plan_frame_rotated:
  assumes "rotated d wants w w'" and "reg_ok d w"
  shows "plan_frame d w w'"
proof -
  have "registered w' x = registered w x" if "x \<noteq> d" for x
    using assms(1) that unfolding rotated_def registered_def by metis
  then show ?thesis
    using rotated_simps [OF assms(1)] rotated_registered(1) [OF assms] by (simp add: plan_frame_def)
qed

lemma simple_net [simp]: "task_ok d (w\<lparr>net := e\<rparr>) = task_ok d w"
  by (simp add: task_ok_def reg_ok_def filed_ok_def registered_def private_ok_def)

text \<open>The first half of both functions: the contexts of a database with private connections.\<close>

lemma pick_contexts_task:
  assumes "stable_want want" and "task_ok d w" and "ws_room h (length (ts_contexts (task w)))"
    and "f = fst (h_ws_reserve_all h e)"
  obtains l w' where "pick_contexts h now want n f (ts_contexts (task w)) [] w = Some (True, l, w')"
    "picked h now want (ts_contexts (task w)) w l w'" "0 < n \<Longrightarrow> length l \<le> n"
proof -
  have "\<exists>l w'. pick_contexts h now want n f (ts_contexts (task w)) [] w = Some (True, [] @ l, w') \<and>
    picked h now want (ts_contexts (task w)) w l w' \<and> (length ([] :: redis_context list) < n \<longrightarrow> length ([] @ l) \<le> n)"
    by (rule pick_contexts_spec)
      (use assms in \<open>auto simp: task_ok_def private_ok_def ws_room_def\<close>)
  then show thesis using that by auto
qed

lemma core_task_net [simp]: "core_task (w\<lparr>net := e\<rparr>) v \<longleftrightarrow> core_task w v"
  by (simp add: core_task_def same_core_def)

lemma task_ok_frame:
  assumes "task_ok d w" and "plan_frame d w w'" and "reg_ok d w'" and "private_ok w'"
  shows "task_ok d w'"
proof -
  have "cx_server c \<in> registered w' (sv_db (srvs w' (cx_server c)))" if "c \<in> set (ts_contexts (task w'))" for c
    using assms(1,2) that unfolding task_ok_def plan_frame_def by (metis subsetD)
  then show ?thesis using assms by (simp add: task_ok_def plan_frame_def)
qed

definition planned_contexts ::
  "'e hiredis \<Rightarrow> db_ptr \<Rightarrow> int \<Rightarrow> uint \<Rightarrow> bool \<Rightarrow> nat \<Rightarrow> 'e world \<Rightarrow> redis_context list \<Rightarrow> bool" where
  "planned_contexts h d now max_size master slot w l \<longleftrightarrow>
     (shared_connections (dbs w d) \<longrightarrow> l = []) \<and>
     distinct l \<and> set l \<subseteq> set (ts_contexts (task w)) \<and> (0 < max_size \<longrightarrow> length l \<le> unat max_size) \<and>
     (\<forall>c \<in> set l. context_wants d master slot w c \<and> (\<exists>v. core_task w v \<and> usable h c now v))"

lemma populate_contexts_spec:
  assumes "task_ok d w" and "ws_room h (length (ts_contexts (task w)))" and "pl_contexts plan = []"
  obtains l w' where "populate_contexts h now plan d max_size master slot w = Some (True, plan\<lparr>pl_contexts := l\<rparr>, w')"
    "planned_contexts h d now max_size master slot w l" "plan_frame d w w'" "task_ok d w'"
    "set l \<subseteq> set (ts_contexts (task w'))" "servers (dbs w' d) = servers (dbs w d)"
proof (cases "shared_connections (dbs w d)")
  case True
  then show thesis
    using that [of "[]" w] assms by (simp add: populate_contexts_def planned_contexts_def)
next
  case False
  obtain f e where fe: "h_ws_reserve_all h (net w) = (f, e)" by fastforce
  let ?w = "w\<lparr>net := e\<rparr>"
  have "task_ok d ?w" using assms(1) by simp
  moreover have "ws_room h (length (ts_contexts (task ?w)))" using assms(2) by simp
  moreover have "f = fst (h_ws_reserve_all h (net w))" by (simp add: fe)
  ultimately obtain l w1 where
    pick: "pick_contexts h now (context_wants d master slot) (unat max_size) f (ts_contexts (task ?w)) [] ?w = Some (True, l, w1)"
    and p: "picked h now (context_wants d master slot) (ts_contexts (task ?w)) ?w l w1"
    and len: "0 < unat max_size \<Longrightarrow> length l \<le> unat max_size"
    using pick_contexts_task [where now = now and n = "unat max_size",
        OF stable_context [of d master slot], of d ?w h f "net w"] by blast
  note pd = p [unfolded picked_def]
  let ?t = "if l \<noteq> [] then (task w1)\<lparr>ts_contexts := tailq_rotate (ts_contexts (task w1)) (hd l)\<rparr> else task w1"
  let ?w2 = "net_do (h_ws_release h (POINTER_SIZE * length l)) (w1\<lparr>task := ?t\<rparr>)"
  have hd: "l \<noteq> [] \<Longrightarrow> hd l \<in> set (ts_contexts (task w1))" using pd by auto
  have dis: "distinct (ts_contexts (task w1))" using pd by (simp add: private_ok_def)
  have ts: "set (ts_contexts ?t) = set (ts_contexts (task w1))" using hd dis by (simp add: set_rotate)
  have eq: "populate_contexts h now plan d max_size master slot w = Some (True, plan\<lparr>pl_contexts := l\<rparr>, ?w2)"
    using False pick by (simp add: populate_contexts_def net_call_def fe)
  have "plan_frame d ?w (w1\<lparr>task := ?t\<rparr>)"
    by (rule plan_frame_trans [OF plan_frame_picked [OF p] plan_frame_task [OF ts]]) simp
  then have frame: "plan_frame d w ?w2" by simp
  have "reg_ok d ?w2"
    using assms(1) pd core_task_reg [of ?w w1 d]
    by (simp add: task_ok_def net_do_def reg_ok_def filed_ok_def registered_def)
  moreover have "private_ok ?w2"
    using pd hd by (simp add: private_ok_def net_do_def distinct_rotate length_rotate)
  ultimately have ok: "task_ok d ?w2" by (rule task_ok_frame [OF assms(1) frame])
  have wants: "context_wants d master slot ?w c = context_wants d master slot w c" for c
    by (simp add: context_wants_def)
  have "servers (dbs ?w2 d) = servers (dbs w d)"
    using pd core_task_simps(8) [of ?w w1 d] by (simp add: net_do_def)
  moreover have "planned_contexts h d now max_size master slot w l"
    using pd len False wants by (auto simp: planned_contexts_def unat_gt_0 word_neq_0_conv)
  moreover have "set l \<subseteq> set (ts_contexts (task ?w2))" using pd ts by (simp add: net_do_def)
  ultimately show thesis using that eq frame ok by blast
qed

lemma plan_frame_held:
  "plan_frame d w v \<Longrightarrow> plan_frame d (w\<lparr>held := l\<rparr>) (v\<lparr>held := l\<rparr>)"
  by (simp add: plan_frame_def registered_def)

lemma reg_ok_held [simp]: "reg_ok d (w\<lparr>held := l\<rparr>) = reg_ok d w" "reg_ok d (w\<lparr>net := e\<rparr>) = reg_ok d w"
  by (simp_all add: reg_ok_def filed_ok_def registered_def)

lemma populate_servers_spec:
  assumes ok: "task_ok d w" and room: "ws_room h (unat max_size)"
    and n: "length (pl_contexts plan) < unat max_size"
  obtains w' where "populate_servers h now plan d max_size master slot w =
      Some (plan\<lparr>pl_servers := planned_servers w d now master slot (unat max_size - length (pl_contexts plan))\<rparr>, w')"
    "plan_frame d w w'" "task_ok d w'" "task w' = task w"
proof -
  let ?n = "unat max_size - length (pl_contexts plan)"
  obtain f e where fe: "h_ws_reserve_all h (net w) = (f, e)" by fastforce
  let ?w = "w\<lparr>net := e, held := [Db_Mutex d]\<rparr>"
  let ?P = "planned_servers w d now master slot ?n"
  have held: "held w = []" using ok by (simp add: task_ok_def)
  have reg: "reg_ok d ?w" using ok by (simp add: task_ok_def)
  have "POINTER_SIZE * unat max_size \<le> fst (h_ws_reserve_all h (net w))"
    using room by (simp add: ws_room_def)
  then have f: "POINTER_SIZE * ?n \<le> f" by (simp add: POINTER_SIZE_def fe)
  have n0: "0 < ?n" using n by simp
  have P: "planned_servers ?w d now master slot ?n = ?P"
    by (rule planned_servers_cong) simp_all
  obtain w1 where fill: "fill_servers d now master slot f ?n ?w = Some (True, ?P, w1)"
    and r: "rotated d (first_round now master (cluster_enabled (dbs w d)) slot) ?w w1"
    by (rule fill_servers_spec [OF reg f n0, of now master slot]) (simp add: P)
  note rs = rotated_simps [OF r]
  let ?w2 = "net_do (h_ws_release h (POINTER_SIZE * length ?P)) (w1\<lparr>held := []\<rparr>)"
  have eq: "populate_servers h now plan d max_size master slot w = Some (plan\<lparr>pl_servers := ?P\<rparr>, ?w2)"
    using fill by (simp add: populate_servers_def Let_def net_call_def fe Lck_Lock_def Lck_Unlock_def held rs)
  have "plan_frame d (?w\<lparr>held := []\<rparr>) (w1\<lparr>held := []\<rparr>)"
    by (rule plan_frame_held [OF plan_frame_rotated [OF r reg]])
  moreover have "?w\<lparr>held := []\<rparr> = w\<lparr>net := e\<rparr>" using held by simp
  ultimately have frame: "plan_frame d w ?w2" by simp
  have "reg_ok d ?w2" using rotated_registered(2) [OF r reg] by (simp add: net_do_def)
  moreover have "private_ok ?w2" using ok by (simp add: task_ok_def private_ok_def net_do_def rs)
  ultimately have "task_ok d ?w2" by (rule task_ok_frame [OF ok frame])
  moreover have "task ?w2 = task w" by (simp add: net_do_def rs)
  ultimately show thesis using that eq frame by blast
qed

definition planned ::
  "'e hiredis \<Rightarrow> db_ptr \<Rightarrow> int \<Rightarrow> uint \<Rightarrow> bool \<Rightarrow> nat \<Rightarrow> 'e world \<Rightarrow> plan \<Rightarrow> bool" where
  "planned h d now max_size master slot w p \<longleftrightarrow>
     planned_contexts h d now max_size master slot w (pl_contexts p) \<and>
     pl_servers p = planned_servers w d now master slot (unat max_size - length (pl_contexts p)) \<and>
     pl_cnext p = 0 \<and> pl_snext p = 0"

lemma planned_servers_0 [simp]: "planned_servers w d now master slot 0 = []"
  by (simp add: planned_servers_def)

lemma populate_execution_plan_spec:
  assumes ok: "task_ok d w" and room: "ws_room h (length (ts_contexts (task w)))" "ws_room h (unat max_size)"
    and empty: "plan = \<lparr>pl_contexts = [], pl_cnext = 0, pl_servers = [], pl_snext = 0\<rparr>"
  obtains p w' where "populate_execution_plan h plan d max_size master slot w = Some (p, w')"
    "planned h d (fst (h_time h (net w))) max_size master slot w p" "plan_frame d w w'" "task_ok d w'"
    "set (pl_contexts p) \<subseteq> set (ts_contexts (task w'))"
proof -
  obtain now e where t: "h_time h (net w) = (now, e)" by fastforce
  let ?w = "w\<lparr>net := e\<rparr>"
  have ok1: "task_ok d ?w" using ok by simp
  have "ws_room h (length (ts_contexts (task ?w)))" "pl_contexts plan = []" using room empty by simp_all
  then obtain l w1 where
    c: "populate_contexts h now plan d max_size master slot ?w = Some (True, plan\<lparr>pl_contexts := l\<rparr>, w1)"
      "planned_contexts h d now max_size master slot ?w l" "plan_frame d ?w w1" "task_ok d w1"
      "set l \<subseteq> set (ts_contexts (task w1))" "servers (dbs w1 d) = servers (dbs ?w d)"
    using populate_contexts_spec [OF ok1, where h = h and plan = plan] by blast
  have pc: "planned_contexts h d now max_size master slot w l"
    using c(2) by (simp add: planned_contexts_def context_wants_def)
  have frame: "plan_frame d w w1" using c(3) by simp
  show thesis
  proof (cases "length l < unat max_size")
    case True
    obtain w2 where s: "populate_servers h now (plan\<lparr>pl_contexts := l\<rparr>) d max_size master slot w1 =
        Some (plan\<lparr>pl_contexts := l, pl_servers := planned_servers w1 d now master slot (unat max_size - length l)\<rparr>, w2)"
      "plan_frame d w1 w2" "task_ok d w2" "task w2 = task w1"
      using populate_servers_spec [OF c(4) room(2), of "plan\<lparr>pl_contexts := l\<rparr>" now master slot] True
      by (simp, blast)
    have same: "planned_servers w1 d now master slot k = planned_servers w d now master slot k" for k
      by (rule planned_servers_cong) (use c(3,6) in \<open>simp_all add: plan_frame_def\<close>)
    show thesis
      by (rule that [of "plan\<lparr>pl_contexts := l,
          pl_servers := planned_servers w1 d now master slot (unat max_size - length l)\<rparr>" w2])
        (use s c(1,5) True pc plan_frame_trans [OF frame s(2)] in
          \<open>simp_all add: populate_execution_plan_def net_call_def t planned_def empty same\<close>)
  next
    case False
    show thesis
      by (rule that [of "plan\<lparr>pl_contexts := l\<rparr>" w1])
        (use c(1,4,5) False pc frame in
          \<open>simp_all add: populate_execution_plan_def net_call_def t planned_def empty\<close>)
  qed
qed

end
