(* ===== verification/Plan_Properties.thy ===== *)
theory Plan_Properties
  imports Plan
begin

text \<open>
  What execution plans guarantee: their servers are registered ones, without repetition, in the
  order of the documentation (healthy first, then weight, then role), the plan of a clustered
  database prefers the owners of the slot, and a plan that has a context has enough servers for the
  attempts that follow it.
\<close>

section \<open>The plan for one server\<close>

lemma populate_simple_spec:
  assumes ok: "task_ok d w" and room: "ws_room h (length (ts_contexts (task w)))" "ws_room h 1"
    and empty: "plan = \<lparr>pl_contexts = [], pl_cnext = 0, pl_servers = [], pl_snext = 0\<rparr>"
  obtains p w' where "populate_simple_execution_plan h plan d max_size s w = Some (p, w')"
    "pl_servers p = [s]" "pl_cnext p = 0" "pl_snext p = 0"
    "distinct (pl_contexts p)" "set (pl_contexts p) \<subseteq> set (ts_contexts (task w'))"
    "\<forall>c \<in> set (pl_contexts p). cx_server c = s" "shared_connections (dbs w d) \<Longrightarrow> pl_contexts p = []"
    "0 < max_size \<Longrightarrow> length (pl_contexts p) \<le> unat max_size" "plan_frame d w w'" "task_ok d w'"
proof -
  have last: "(let (free_ws, v) = net_call (h_ws_reserve_all h) v
       in if free_ws \<ge> POINTER_SIZE
          then Some (p\<lparr>pl_servers := [s]\<rparr>, net_do (h_ws_release h POINTER_SIZE) v)
          else Some (p, ws_overflow h v)) =
      Some (p\<lparr>pl_servers := [s]\<rparr>, v\<lparr>net := h_ws_release h POINTER_SIZE (snd (h_ws_reserve_all h (net v)))\<rparr>)"
    for p and v :: "'a world"
  proof -
    have "POINTER_SIZE * 1 \<le> fst (h_ws_reserve_all h (net v))" using room(2) unfolding ws_room_def by blast
    then show ?thesis by (simp add: split_beta net_do_def)
  qed
  show thesis
  proof (cases "shared_connections (dbs w d)")
    case True
    let ?w = "w\<lparr>net := h_ws_release h POINTER_SIZE (snd (h_ws_reserve_all h (net w)))\<rparr>"
    have "populate_simple_execution_plan h plan d max_size s w = Some (plan\<lparr>pl_servers := [s]\<rparr>, ?w)"
      using True last [of w plan] by (simp add: populate_simple_execution_plan_def simple_contexts_def)
    then show thesis
      by (rule that) (use ok in \<open>simp_all add: empty\<close>)
  next
    case False
    obtain now e0 where t: "h_time h (net w) = (now, e0)" by fastforce
    obtain f e where fe: "h_ws_reserve_all h e0 = (f, e)" by fastforce
    let ?w = "w\<lparr>net := e\<rparr>"
    have "task_ok d ?w" "ws_room h (length (ts_contexts (task ?w)))" "f = fst (h_ws_reserve_all h e0)"
      using ok room by (simp_all add: fe)
    then obtain l w1 where
      pick: "pick_contexts h now (simple_wants d s) (unat max_size) f (ts_contexts (task ?w)) [] ?w = Some (True, l, w1)"
      and p: "picked h now (simple_wants d s) (ts_contexts (task ?w)) ?w l w1"
      and len: "0 < unat max_size \<Longrightarrow> length l \<le> unat max_size"
      using pick_contexts_task [where now = now and n = "unat max_size", OF stable_simple [of d s], of d ?w h f e0]
      by blast
    note pd = p [unfolded picked_def]
    let ?v = "net_do (h_ws_release h (POINTER_SIZE * length l)) w1"
    let ?w2 = "?v\<lparr>net := h_ws_release h POINTER_SIZE (snd (h_ws_reserve_all h (net ?v)))\<rparr>"
    have frame: "plan_frame d w ?w2" using plan_frame_picked [OF p, of d] by simp
    have "reg_ok d ?w2" using ok pd core_task_reg [of ?w w1 d] by (simp add: task_ok_def net_do_def)
    moreover have "private_ok ?w2" using pd by (simp add: private_ok_def net_do_def)
    ultimately have "task_ok d ?w2" by (rule task_ok_frame [OF ok frame])
    moreover have "populate_simple_execution_plan h plan d max_size s w =
        Some (plan\<lparr>pl_contexts := l, pl_servers := [s]\<rparr>, ?w2)"
      using False pick last [of ?v "plan\<lparr>pl_contexts := l\<rparr>"]
      by (simp add: populate_simple_execution_plan_def simple_contexts_def net_call_def t fe)
    moreover have "0 < max_size \<Longrightarrow> length l \<le> unat max_size"
      using len by (simp add: word_less_nat_alt)
    moreover have "set l \<subseteq> set (ts_contexts (task ?w2))" "distinct l" "\<forall>c \<in> set l. cx_server c = s"
      using pd by (auto simp: net_do_def simple_wants_def)
    ultimately show thesis
      using that [of "plan\<lparr>pl_contexts := l, pl_servers := [s]\<rparr>" ?w2] frame False by (simp add: empty)
  qed
qed

section \<open>The order of the servers\<close>

definition sick :: "'e world \<Rightarrow> int \<Rightarrow> server_ptr \<Rightarrow> bool" where
  "sick w now s \<longleftrightarrow> sick_exp (srvs w s) > now"

definition list_order :: "'e world \<Rightarrow> server_ptr \<Rightarrow> server_ptr \<Rightarrow> bool" where
  "list_order w s t \<longleftrightarrow>
     sv_weight (srvs w s) < sv_weight (srvs w t) \<or>
     (sv_weight (srvs w s) = sv_weight (srvs w t) \<and> sv_role (srvs w s) \<le> sv_role (srvs w t))"

definition cell_order :: "nat \<times> role \<Rightarrow> nat \<times> role \<Rightarrow> bool" where
  "cell_order a b \<longleftrightarrow> fst a < fst b \<or> (fst a = fst b \<and> snd a \<le> snd b)"

lemma sorted_cells: "sorted_wrt cell_order cells"
  by (simp add: cells_eq cell_order_def less_eq_role_def)

lemma sorted_wrt_const: "(\<And>x y. x \<in> set l \<Longrightarrow> y \<in> set l \<Longrightarrow> R x y) \<Longrightarrow> sorted_wrt R l"
  by (induction l) auto

lemma candidates_sorted:
  assumes "reg_ok d w" and "sorted_wrt cell_order cs"
  shows "sorted_wrt (list_order w) (candidates w d visits wants cs)"
  using assms(2)
proof (induction cs)
  case Nil
  then show ?case by (simp add: candidates_def)
next
  case (Cons c cs)
  obtain wt r where c: "c = (wt, r)" by fastforce
  have cell: "sv_weight (srvs w s) = wt' \<and> sv_role (srvs w s) = r'" if "s \<in> set (servers (dbs w d) wt' r')" for s wt' r'
    using reg_ok_filed [OF assms(1) that] by (simp add: filed_ok_def)
  have here: "sorted_wrt (list_order w) (filter P (servers (dbs w d) wt r))" for P
    by (rule sorted_wrt_filter, rule sorted_wrt_const) (simp add: list_order_def cell)
  have later: "list_order w s t" if "s \<in> set (servers (dbs w d) wt r)" "t \<in> set (candidates w d visits wants cs)" for s t
    using that Cons.prems cell by (fastforce simp: c set_candidates list_order_def cell_order_def)
  show ?case
    using Cons here later by (auto simp: c candidates_Cons sorted_wrt_append)
qed

lemma candidates_distinct:
  assumes "reg_ok d w" and "distinct cs"
  shows "distinct (candidates w d visits wants cs)"
  using assms(2)
proof (induction cs)
  case Nil
  then show ?case by (simp add: candidates_def)
next
  case (Cons c cs)
  obtain wt r where c: "c = (wt, r)" by fastforce
  have "x \<notin> set (candidates w d visits wants cs)" if x: "x \<in> set (servers (dbs w d) wt r)" for x
  proof
    assume "x \<in> set (candidates w d visits wants cs)"
    then obtain wt' r' where "(wt', r') \<in> set cs" "x \<in> set (servers (dbs w d) wt' r')"
      by (auto simp: set_candidates)
    with reg_ok_cell [OF assms(1) x] Cons.prems show False by (auto simp: c)
  qed
  then show ?case
    using Cons reg_ok_distinct [OF assms(1)] by (auto simp: c candidates_Cons)
qed

lemma in_candidates:
  assumes "reg_ok d w"
  shows "s \<in> set (candidates w d visits wants cells) \<longleftrightarrow>
    s \<in> registered w d \<and> visits (sv_role (srvs w s)) \<and> wants (srvs w s)"
proof
  assume "s \<in> set (candidates w d visits wants cells)"
  then obtain wt r where c: "visits r" "s \<in> set (servers (dbs w d) wt r)" "wants (srvs w s)"
    by (auto simp: set_candidates)
  then show "s \<in> registered w d \<and> visits (sv_role (srvs w s)) \<and> wants (srvs w s)"
    using reg_ok_filed [OF assms c(2)] by (auto simp: filed_ok_def registered_def)
next
  assume a: "s \<in> registered w d \<and> visits (sv_role (srvs w s)) \<and> wants (srvs w s)"
  then have m: "s \<in> set (servers (dbs w d) (sv_weight (srvs w s)) (sv_role (srvs w s)))"
    using registered_iff [OF assms] by blast
  have "sv_weight (srvs w s) < NREDIS_SERVER_WEIGHTS"
    using reg_ok_filed [OF assms m] by (simp add: filed_ok_def)
  then show "s \<in> set (candidates w d visits wants cells)"
    using a m unfolding set_candidates
    by (intro bexI [of _ "(sv_weight (srvs w s), sv_role (srvs w s))"]) (simp_all add: set_cells)
qed

lemma planned_sub:
  assumes "reg_ok d w" and "s \<in> set (planned_servers w d now master slot n)"
  shows "s \<in> registered w d"
  using assms(2)
  by (auto simp: planned_servers_def Let_def in_candidates [OF assms(1)] split: if_splits
      dest!: in_set_takeD)

lemma planned_distinct:
  assumes "reg_ok d w"
  shows "distinct (planned_servers w d now master slot n)"
proof -
  have "distinct (candidates w d v1 w1 cells @ candidates w d v2 w2 cells)"
    if "\<And>s. v1 (sv_role s) \<Longrightarrow> w1 s \<Longrightarrow> v2 (sv_role s) \<Longrightarrow> w2 s \<Longrightarrow> False" for v1 v2 w1 w2
    using that candidates_distinct [OF assms distinct_cells] in_candidates [OF assms] by auto
  note d = this
  have "distinct (candidates w d (round_visits master 1) (round_wants now master cl slot 1) cells @
      candidates w d (round_visits master 2) (round_wants now master cl slot 2) cells)" for cl
    by (rule d) (auto simp: round_visits_def round_wants_def)
  moreover have "distinct (candidates w d (\<lambda>r. True) (late_wants now 3) cells @
      candidates w d (\<lambda>r. True) (late_wants now 4) cells)"
    by (rule d) (auto simp: late_wants_def)
  ultimately show ?thesis
    using candidates_distinct [OF assms distinct_cells] by (simp add: planned_servers_def Let_def)
qed

text \<open>The servers that a plan for a command may have: in a cluster any server redirects to the right one.\<close>

definition may_run :: "'e world \<Rightarrow> bool \<Rightarrow> server_ptr \<Rightarrow> bool" where
  "may_run w master s \<longleftrightarrow> (master \<longrightarrow> sv_role (srvs w s) \<noteq> SLAVE)"

definition usable_server :: "'e world \<Rightarrow> db_ptr \<Rightarrow> bool \<Rightarrow> server_ptr \<Rightarrow> bool" where
  "usable_server w d master s \<longleftrightarrow> s \<in> registered w d \<and> (cluster_enabled (dbs w d) \<or> may_run w master s)"

lemma not_slave: "r \<noteq> SLAVE \<longleftrightarrow> r = MASTER \<or> r = TBD"
  by (cases r) simp_all

lemma planned_nonempty:
  assumes "reg_ok d w" and "usable_server w d master s" and "n > 0"
  shows "planned_servers w d now master slot n \<noteq> []"
proof (cases "cluster_enabled (dbs w d)")
  case False
  have "s \<in> set (candidates w d (round_visits master 1) (round_wants now master False slot 1) cells @
      candidates w d (round_visits master 2) (round_wants now master False slot 2) cells)"
    using assms(2) False
    by (auto simp: in_candidates [OF assms(1)] round_visits_def round_wants_def usable_server_def may_run_def not_slave)
  then show ?thesis using False assms(3) by (auto simp: planned_servers_def Let_def)
next
  case True
  have "s \<in> set (candidates w d (\<lambda>r. True) (late_wants now 3) cells @
      candidates w d (\<lambda>r. True) (late_wants now 4) cells)"
    using assms(2) by (auto simp: in_candidates [OF assms(1)] late_wants_def usable_server_def)
  then show ?thesis using True assms(3) by (auto simp: planned_servers_def Let_def)
qed

lemma planned_usable:
  assumes "reg_ok d w" and "s \<in> set (planned_servers w d now master slot n)"
  shows "usable_server w d master s"
  using assms(2)
  by (auto simp: planned_servers_def Let_def in_candidates [OF assms(1)] usable_server_def may_run_def round_visits_def
      split: if_splits dest!: in_set_takeD)

lemma context_usable:
  assumes "task_ok d w" and "planned h d now max_size master slot w p" and "c \<in> set (pl_contexts p)"
  shows "usable_server w d master (cx_server c)"
proof -
  have w: "context_wants d master slot w c" "c \<in> set (ts_contexts (task w))"
    using assms(2,3) by (auto simp: planned_def planned_contexts_def)
  have "cx_server c \<in> registered w (sv_db (srvs w (cx_server c)))" using assms(1) w(2) by (auto simp: task_ok_def)
  then show ?thesis using w(1) by (auto simp: context_wants_def Let_def usable_server_def may_run_def)
qed

lemma plan_execution_planned_aux:
  assumes "task_ok d w" and "ws_room h (length (ts_contexts (task w)))" and "ws_room h (unat max_size)"
  obtains p w' where "plan_execution h d max_size None master slot w = Some (Some p, w')"
    "planned h d (fst (h_time h (snd (h_ws_alloc h PLAN_SIZE (net w))))) max_size master slot w p"
    "plan_frame d w w'" "task_ok d w'" "set (pl_contexts p) \<subseteq> set (ts_contexts (task w'))"
proof -
  obtain ok e where a: "h_ws_alloc h PLAN_SIZE (net w) = (ok, e)" by fastforce
  have ok: "ok" using assms(2) a unfolding ws_room_def by (metis fst_conv order_refl)
  let ?w = "w\<lparr>net := e\<rparr>" and ?plan = "\<lparr>pl_contexts = [], pl_cnext = 0, pl_servers = [], pl_snext = 0\<rparr>"
  have new: "new_execution_plan h w = (Some ?plan, ?w)"
    using ok by (simp add: new_execution_plan_def net_call_def a)
  obtain p w' where p: "populate_execution_plan h ?plan d max_size master slot ?w = Some (p, w')"
    "planned h d (fst (h_time h e)) max_size master slot ?w p" "plan_frame d ?w w'" "task_ok d w'"
    "set (pl_contexts p) \<subseteq> set (ts_contexts (task w'))"
    by (rule populate_execution_plan_spec [of d ?w h max_size ?plan master slot]) (use assms in simp_all)
  have "planned_servers ?w d now master slot k = planned_servers w d now master slot k" for now k
    by (rule planned_servers_cong) simp_all
  then have "planned h d (fst (h_time h e)) max_size master slot w p"
    using p(2) by (simp add: planned_def planned_contexts_def context_wants_def)
  then show thesis
    using that [of p w'] p by (simp add: plan_execution_def new a)
qed

text \<open>A plan that took contexts, but fewer than its size, has a server to go on with.\<close>

lemma planned_continues:
  assumes ok: "task_ok d w" and p: "planned h d now max_size master slot w p"
    and ne: "pl_contexts p \<noteq> []" and len: "length (pl_contexts p) < unat max_size"
  shows "pl_servers p \<noteq> []"
proof -
  obtain c where c: "c \<in> set (pl_contexts p)" using ne by (cases "pl_contexts p") auto
  have reg: "reg_ok d w" using ok by (simp add: task_ok_def)
  show ?thesis
    using planned_nonempty [OF reg context_usable [OF ok p c], of "unat max_size - length (pl_contexts p)" now slot] p len
    by (simp add: planned_def)
qed

section \<open>Properties\<close>

lemma task_ok_lab: "task_ok 0 (lab_one shared clustered)"
proof -
  have "parse_location ''a:1'' = Host ''a'' 1" by code_simp
  then show ?thesis
    by (auto simp: task_ok_def private_ok_def reg_ok_def filed_ok_def registered_def
        NREDIS_SERVER_WEIGHTS_def lab_defs)
qed

lemma ws_room_lab: "n \<le> 8 \<Longrightarrow> ws_room (lab answer 64) n"
  by (simp add: ws_room_def lab_def POINTER_SIZE_def PLAN_SIZE_def)

text \<open>
  C6. The plan of a command, for a database whose registry is in order and a workspace with room
  for it: \<open>plan_execution\<close> returns, without a failed assertion or a write out of bounds; the plan
  has private contexts of the task that fit the command (none for a shared database), each of them
  valid when it was taken, and then exactly the servers of the specification \<open>planned_servers\<close>, as
  many as are needed to reach the size asked for. The lists of the database are only rotated.
\<close>

theorem plan_execution_planned:
  assumes "task_ok d w" and "ws_room h (length (ts_contexts (task w)))" and "ws_room h (unat max_size)"
  shows "\<exists>p w'. plan_execution h d max_size None master slot w = Some (Some p, w') \<and>
    planned h d (fst (h_time h (snd (h_ws_alloc h PLAN_SIZE (net w))))) max_size master slot w p \<and>
    plan_frame d w w' \<and> task_ok d w'"
  using plan_execution_planned_aux [OF assms, of master slot] by metis

theorem plan_execution_planned_witness:
  "\<exists>p w'. plan_execution (lab (\<lambda>c. None) 64) 0 3 None True 0 (lab_one False False) = Some (Some p, w') \<and>
    pl_contexts p = [] \<and> pl_servers p = planned_servers (lab_one False False) 0 100 True 0 3"
proof -
  have t: "ts_contexts (task (lab_one False False)) = []" by (simp add: lab_defs)
  have r: "ws_room (lab (\<lambda>c. None) 64) (length (ts_contexts (task (lab_one False False))))"
    "ws_room (lab (\<lambda>c. None) 64) (unat (3 :: uint))"
    using ws_room_lab by (simp_all add: t)
  have n: "fst (h_time (lab (\<lambda>c. None) 64) (snd (h_ws_alloc (lab (\<lambda>c. None) 64) PLAN_SIZE (net (lab_one False False))))) = 100"
    by (simp add: lab_defs)
  show ?thesis
    using plan_execution_planned [OF task_ok_lab r, of True 0] unfolding n
    by (auto simp: planned_def planned_contexts_def t)
qed

text \<open>
  The order of the servers of a plan. In the first tier are the healthy servers, but for a command that needs a
  master only those known to be masters; sick ones, and for such a command those whose role is not known
  yet, come in the second tier.
\<close>

definition tier :: "'e world \<Rightarrow> int \<Rightarrow> bool \<Rightarrow> server_ptr \<Rightarrow> nat" where
  "tier w now master s = (if sick w now s \<or> (master \<and> sv_role (srvs w s) = TBD) then 2 else 1)"

definition before :: "'e world \<Rightarrow> int \<Rightarrow> bool \<Rightarrow> server_ptr \<Rightarrow> server_ptr \<Rightarrow> bool" where
  "before w now master s t \<longleftrightarrow>
     tier w now master s < tier w now master t \<or> (tier w now master s = tier w now master t \<and> list_order w s t)"

lemma planned_order:
  assumes "reg_ok d w" and "\<not> cluster_enabled (dbs w d)"
  shows "sorted_wrt (before w now master) (planned_servers w d now master slot n)"
    and "card {s \<in> registered w d. may_run w master s} \<le> n \<Longrightarrow>
      set (planned_servers w d now master slot n) = {s \<in> registered w d. may_run w master s}"
proof -
  let ?c1 = "candidates w d (round_visits master 1) (round_wants now master False slot 1) cells"
  let ?c2 = "candidates w d (round_visits master 2) (round_wants now master False slot 2) cells"
  have plan: "planned_servers w d now master slot n = take n (?c1 @ ?c2)"
    using assms(2) by (simp add: planned_servers_def Let_def)
  have c1: "s \<in> set ?c1 \<longleftrightarrow> s \<in> registered w d \<and> may_run w master s \<and> tier w now master s = 1" for s
    by (auto simp: in_candidates [OF assms(1)] round_visits_def round_wants_def sick_def may_run_def not_slave tier_def)
  have c2: "s \<in> set ?c2 \<longleftrightarrow> s \<in> registered w d \<and> may_run w master s \<and> tier w now master s = 2" for s
    by (auto simp: in_candidates [OF assms(1)] round_visits_def round_wants_def sick_def may_run_def not_slave tier_def)
  have "sorted_wrt (before w now master) ?c1"
    by (rule sorted_wrt_mono_rel [OF _ candidates_sorted [OF assms(1) sorted_cells]]) (use c1 in \<open>auto simp: before_def\<close>)
  moreover have "sorted_wrt (before w now master) ?c2"
    by (rule sorted_wrt_mono_rel [OF _ candidates_sorted [OF assms(1) sorted_cells]]) (use c2 in \<open>auto simp: before_def\<close>)
  ultimately have "sorted_wrt (before w now master) (?c1 @ ?c2)"
    using c1 c2 by (simp add: sorted_wrt_append before_def)
  then show "sorted_wrt (before w now master) (planned_servers w d now master slot n)"
    unfolding plan by (rule sorted_wrt_take)
  assume n: "card {s \<in> registered w d. may_run w master s} \<le> n"
  have set: "set (?c1 @ ?c2) = {s \<in> registered w d. may_run w master s}"
    using c1 c2 by (auto simp: tier_def)
  have "distinct (?c1 @ ?c2)"
    using candidates_distinct [OF assms(1) distinct_cells] c1 c2 by auto
  then have "length (?c1 @ ?c2) \<le> n" using n distinct_card set by metis
  then show "set (planned_servers w d now master slot n) = {s \<in> registered w d. may_run w master s}"
    using set unfolding plan by simp
qed

text \<open>
  C7. The servers of the plan that \<open>plan_execution\<close> makes for a command, when the workspace has room and the
  caller names no server (at most as many as places remain next
  to its private contexts) are registered servers of the database, each once. In a database
  that is not a cluster they are sorted. For a command that any server can run, healthy servers come
  before sick ones, and among them those of the lower weight, and of the same weight slaves before
  masters before servers of unknown role. A command that needs a master never gets a slave, healthy
  masters come first by weight, and after them the sick masters and the servers of unknown role, by
  weight and then role. With enough room no server that may run the command is missing.
\<close>

theorem planned_servers_order:
  assumes "task_ok d w" and "ws_room h (length (ts_contexts (task w)))" and "ws_room h (unat max_size)"
  shows "\<exists>p w'. let now = fst (h_time h (snd (h_ws_alloc h PLAN_SIZE (net w)))); n = unat max_size - length (pl_contexts p) in
    plan_execution h d max_size None master slot w = Some (Some p, w') \<and>
    set (pl_servers p) \<subseteq> registered w d \<and> distinct (pl_servers p) \<and> length (pl_servers p) \<le> n \<and>
    (\<not> cluster_enabled (dbs w d) \<longrightarrow>
       sorted_wrt (before w now master) (pl_servers p) \<and> (\<forall>s \<in> set (pl_servers p). may_run w master s) \<and>
       (card {s \<in> registered w d. may_run w master s} \<le> n \<longrightarrow>
          set (pl_servers p) = {s \<in> registered w d. may_run w master s}))"
proof -
  have reg: "reg_ok d w" using assms(1) by (simp add: task_ok_def)
  obtain p w' where p: "plan_execution h d max_size None master slot w = Some (Some p, w')"
    "planned h d (fst (h_time h (snd (h_ws_alloc h PLAN_SIZE (net w))))) max_size master slot w p"
    by (rule plan_execution_planned_aux [OF assms, of master slot]) blast
  let ?now = "fst (h_time h (snd (h_ws_alloc h PLAN_SIZE (net w))))" and ?n = "unat max_size - length (pl_contexts p)"
  have s: "pl_servers p = planned_servers w d ?now master slot ?n" using p(2) by (simp add: planned_def)
  have len: "length (pl_servers p) \<le> ?n" by (simp add: s planned_servers_def Let_def)
  have sub: "set (pl_servers p) \<subseteq> registered w d" using planned_sub [OF reg] by (auto simp: s)
  have dis: "distinct (pl_servers p)" unfolding s by (rule planned_distinct [OF reg])
  have "sorted_wrt (before w ?now master) (pl_servers p) \<and> (\<forall>s \<in> set (pl_servers p). may_run w master s) \<and>
      (card {s \<in> registered w d. may_run w master s} \<le> ?n \<longrightarrow> set (pl_servers p) = {s \<in> registered w d. may_run w master s})"
    if "\<not> cluster_enabled (dbs w d)"
  proof (intro conjI impI ballI)
    show "sorted_wrt (before w ?now master) (pl_servers p)" unfolding s by (rule planned_order(1) [OF reg that])
    show "may_run w master x" if "x \<in> set (pl_servers p)" for x
      using planned_usable [OF reg that [unfolded s]] \<open>\<not> cluster_enabled (dbs w d)\<close> by (simp add: usable_server_def)
    show "set (pl_servers p) = {s \<in> registered w d. may_run w master s}"
      if "card {s \<in> registered w d. may_run w master s} \<le> ?n"
      unfolding s by (rule planned_order(2) [OF reg \<open>\<not> cluster_enabled (dbs w d)\<close> that])
  qed
  then show ?thesis
    using p(1) len sub dis unfolding Let_def by blast
qed

theorem planned_servers_order_witness:
  "\<exists>p w'. plan_execution (lab (\<lambda>c. None) 64) 0 3 None True 0 (lab_one True False) = Some (Some p, w') \<and>
    length (pl_servers p) \<le> 3 \<and> (\<forall>s \<in> set (pl_servers p). sv_role (srvs (lab_one True False) s) \<noteq> SLAVE)"
proof -
  let ?w = "lab_one True False" and ?h = "lab (\<lambda>c. None) 64"
  have t: "ts_contexts (task ?w) = []" "\<not> cluster_enabled (dbs ?w 0)" by (simp_all add: lab_defs)
  have "ws_room ?h (length (ts_contexts (task ?w)))" "ws_room ?h (unat (3 :: uint))" using ws_room_lab by (simp_all add: t)
  then obtain p w' n where "plan_execution ?h 0 3 None True 0 ?w = Some (Some p, w')"
      "n = unat (3 :: uint) - length (pl_contexts p)" "length (pl_servers p) \<le> n"
      "\<forall>s \<in> set (pl_servers p). may_run ?w True s"
    using planned_servers_order [OF task_ok_lab [of True False], of ?h 3 True 0] t(2) unfolding Let_def by blast
  then show ?thesis by (intro exI [of _ p] exI [of _ w']) (simp add: may_run_def)
qed

definition owns_slot :: "'e world \<Rightarrow> db_ptr \<Rightarrow> int \<Rightarrow> bool \<Rightarrow> nat \<Rightarrow> server_ptr \<Rightarrow> bool" where
  "owns_slot w d now master slot s \<longleftrightarrow>
     s \<in> registered w d \<and> sv_slots (srvs w s) slot \<and> \<not> sick w now s \<and>
     (master \<longrightarrow> sv_role (srvs w s) = MASTER)"

text \<open>
  C8. In a clustered database, if some healthy server owns the slot (and is a known master, when a
  master is needed), then every server of the plan is such a server; otherwise the plan is not left
  empty: it has all the registered servers, healthy ones first, as far as there is room.
\<close>

theorem planned_servers_cluster:
  assumes "reg_ok d w" and "cluster_enabled (dbs w d)"
  shows "if \<exists>s. owns_slot w d now master slot s
    then (\<forall>s \<in> set (planned_servers w d now master slot n). owns_slot w d now master slot s) \<and>
      (n > 0 \<longrightarrow> planned_servers w d now master slot n \<noteq> [])
    else sorted_wrt (\<lambda>s t. \<not> sick w now s \<or> sick w now t) (planned_servers w d now master slot n) \<and>
      (card (registered w d) \<le> n \<longrightarrow> set (planned_servers w d now master slot n) = registered w d)"
proof -
  let ?owner = "owns_slot w d now master slot"
  let ?c1 = "candidates w d (round_visits master 1) (round_wants now master True slot 1) cells"
  let ?c3 = "candidates w d (\<lambda>r. True) (late_wants now 3) cells"
  let ?c4 = "candidates w d (\<lambda>r. True) (late_wants now 4) cells"
  have c1: "s \<in> set ?c1 \<longleftrightarrow> ?owner s" for s
    by (auto simp: in_candidates [OF assms(1)] round_visits_def round_wants_def owns_slot_def sick_def)
  have p: "planned_servers w d now master slot n = take n (if ?c1 \<noteq> [] then ?c1 else ?c3 @ ?c4)"
    using assms(2) by (simp add: planned_servers_def Let_def)
  show ?thesis
  proof (cases "\<exists>s. ?owner s")
    case True
    then have "?c1 \<noteq> []" using c1 by fastforce
    then show ?thesis using True p c1 by (auto dest: in_set_takeD)
  next
    case False
    then have nil: "?c1 = []" using c1 by (cases ?c1) auto
    have s3: "\<not> sick w now s" if "s \<in> set ?c3" for s
      using that by (auto simp: in_candidates [OF assms(1)] late_wants_def sick_def)
    have s4: "sick w now s" if "s \<in> set ?c4" for s
      using that by (auto simp: in_candidates [OF assms(1)] late_wants_def sick_def)
    let ?R = "\<lambda>s t. \<not> sick w now s \<or> sick w now t"
    have "sorted_wrt ?R ?c3" using s3 by (intro sorted_wrt_const) auto
    moreover have "sorted_wrt ?R ?c4" using s4 by (intro sorted_wrt_const) auto
    ultimately have "sorted_wrt ?R (?c3 @ ?c4)" using s3 by (auto simp: sorted_wrt_append)
    then have "sorted_wrt ?R (planned_servers w d now master slot n)"
      unfolding p using nil by (simp add: sorted_wrt_take del: take_append)
    moreover have "set (planned_servers w d now master slot n) = registered w d" if n: "card (registered w d) \<le> n"
    proof -
      have set: "set (?c3 @ ?c4) = registered w d"
        by (auto simp: in_candidates [OF assms(1)] late_wants_def)
      have "distinct (?c3 @ ?c4)"
        using candidates_distinct [OF assms(1) distinct_cells] s3 s4 by auto
      then have "length (?c3 @ ?c4) = card (registered w d)" using set distinct_card by metis
      then show ?thesis unfolding p using nil n set by (simp del: take_append)
    qed
    ultimately show ?thesis using False by simp
  qed
qed

theorem planned_servers_cluster_witness:
  "set (planned_servers (lab_one False True) 0 100 True 5 3) = {0}"
proof -
  have ok: "reg_ok 0 (lab_one False True)" using task_ok_lab by (simp add: task_ok_def)
  have r: "registered (lab_one False True) 0 = {0}" "cluster_enabled (dbs (lab_one False True) 0)"
    "\<not> sv_slots (srvs (lab_one False True) 0) 5"
    by (auto simp: registered_def lab_defs)
  then show ?thesis using planned_servers_cluster [OF ok r(2), of 100 True 5 3] by (auto simp: owns_slot_def)
qed

text \<open>
  C9. A plan lasts for all attempts of a command. \<open>plan_execution\<close> gives a command of at least one attempt, if
  the workspace has room and the caller names no server, a plan with a context for every attempt, or with a
  server to go on with (the servers are taken in turn, so this is what the assertion of the function that
  locks a connection needs), whenever the database has a server that may run the command: any server of a
  cluster, any server at all for a command that does not need a master, else a master or a server whose role
  is not known yet. Without such a server the plan is empty.
\<close>

theorem plan_serves_attempts:
  assumes "task_ok d w" and "ws_room h (length (ts_contexts (task w)))" and "ws_room h (unat max_size)" and "0 < max_size"
  shows "\<exists>p w'. plan_execution h d max_size None master slot w = Some (Some p, w') \<and>
    (if \<exists>s \<in> registered w d. cluster_enabled (dbs w d) \<or> \<not> master \<or> sv_role (srvs w s) \<noteq> SLAVE
     then unat max_size \<le> length (pl_contexts p) \<or> pl_servers p \<noteq> []
     else pl_contexts p = [] \<and> pl_servers p = [])"
proof -
  have reg: "reg_ok d w" using assms(1) by (simp add: task_ok_def)
  obtain now p w' where p: "plan_execution h d max_size None master slot w = Some (Some p, w')"
    "planned h d now max_size master slot w p"
    by (rule plan_execution_planned_aux [OF assms(1-3), of master slot]) blast
  have some: "(\<exists>s \<in> registered w d. cluster_enabled (dbs w d) \<or> \<not> master \<or> sv_role (srvs w s) \<noteq> SLAVE) \<longleftrightarrow>
      (\<exists>s. usable_server w d master s)"
    by (auto simp: usable_server_def may_run_def)
  show ?thesis
  proof (cases "\<exists>s. usable_server w d master s")
    case True
    then obtain s where "usable_server w d master s" by blast
    then have "pl_servers p \<noteq> []" if "length (pl_contexts p) < unat max_size"
      using planned_nonempty [OF reg, of master s "unat max_size - length (pl_contexts p)" now slot] p(2) that
      by (simp add: planned_def)
    then show ?thesis using p(1) True unfolding some by (intro exI [of _ p] exI [of _ w']) auto
  next
    case False
    have "pl_contexts p = []" using context_usable [OF assms(1) p(2)] False by (cases "pl_contexts p") auto
    moreover have "pl_servers p = []"
      using planned_usable [OF reg] False p(2) unfolding planned_def by (metis list.set_intros(1) neq_Nil_conv)
    ultimately show ?thesis using p(1) False unfolding some by (intro exI [of _ p] exI [of _ w']) (simp only: if_False simp_thms)
  qed
qed

theorem plan_serves_attempts_witness:
  "\<exists>p w'. plan_execution (lab (\<lambda>c. None) 64) 0 3 None True 0 (lab_one True False) = Some (Some p, w') \<and>
    (3 \<le> length (pl_contexts p) \<or> pl_servers p \<noteq> [])"
proof -
  let ?w = "lab_one True False" and ?h = "lab (\<lambda>c. None) 64"
  have t: "ts_contexts (task ?w) = []" by (simp add: lab_defs)
  have "ws_room ?h (length (ts_contexts (task ?w)))" "ws_room ?h (unat (3 :: uint))" using ws_room_lab by (simp_all add: t)
  moreover have "\<exists>s \<in> registered ?w 0. cluster_enabled (dbs ?w 0) \<or> \<not> True \<or> sv_role (srvs ?w s) \<noteq> SLAVE"
    by (auto simp: registered_def lab_defs)
  ultimately show ?thesis
    using plan_serves_attempts [OF task_ok_lab [of True False], of ?h 3 True 0] by auto
qed

text \<open>
  C10. The check of the workspace in the loops of a plan compares the size of the whole reservation,
  which it never reduces, with one pointer: so once there is room for one server the loop never
  reports an overflow, and it writes past the end of the reservation exactly when the servers it
  takes do not fit.
\<close>

theorem workspace_check_ineffective:
  assumes "\<forall>s \<in> set ss. sv_weight (srvs w s) = wt \<and> sv_role (srvs w s) = r"
    and "POINTER_SIZE \<le> free_ws" and "0 < remaining" and "POINTER_SIZE * length acc \<le> free_ws"
  shows "fill_list w wants free_ws wt r ss acc remaining =
    (let l = take remaining (filter (\<lambda>s. wants (srvs w s)) ss)
     in if POINTER_SIZE * (length acc + length l) > free_ws then None
        else Some (True, acc @ l, remaining - length l))"
  using assms
proof (induction ss arbitrary: acc remaining)
  case Nil
  then show ?case by simp
next
  case (Cons s ss)
  show ?case
  proof (cases "wants (srvs w s)")
    case False
    then show ?thesis using Cons by simp
  next
    case wants: True
    obtain m where m: "remaining = Suc m" using Cons.prems(3) by (cases remaining) auto
    show ?thesis
    proof (cases "POINTER_SIZE * (length acc + 1) > free_ws")
      case True
      then have "POINTER_SIZE + POINTER_SIZE * (length acc + k) > free_ws" for k
        by (simp add: POINTER_SIZE_def)
      then show ?thesis using True wants Cons.prems m by (simp add: Let_def)
    next
      case False
      then have fit: "POINTER_SIZE * length (acc @ [s]) \<le> free_ws" by simp
      show ?thesis
      proof (cases m)
        case 0
        then show ?thesis using False wants Cons.prems m by (simp add: Let_def)
      next
        case (Suc k)
        have "fill_list w wants free_ws wt r ss (acc @ [s]) m =
            (let l = take m (filter (\<lambda>s. wants (srvs w s)) ss)
             in if POINTER_SIZE * (length (acc @ [s]) + length l) > free_ws then None
                else Some (True, (acc @ [s]) @ l, m - length l))"
          by (rule Cons.IH) (use Cons.prems fit Suc in auto)
        then show ?thesis using False wants Cons.prems m Suc by (simp add: Let_def)
      qed
    qed
  qed
qed

theorem workspace_check_ineffective_witness:
  "fill_list (lab_one False False) (\<lambda>sv. True) 8 3 MASTER [0, 0] [] 2 = None"
proof -
  have "\<forall>s \<in> set [0, 0]. sv_weight (srvs (lab_one False False) s) = 3 \<and> sv_role (srvs (lab_one False False) s) = MASTER"
    by (simp add: lab_defs)
  then show ?thesis
    by (subst workspace_check_ineffective) (simp_all add: POINTER_SIZE_def)
qed

end
