(* ===== verification/Pool.thy ===== *)
theory Pool
  imports Plan_Properties
begin

text \<open>
  Getting and giving back a connection (\<open>src/core.c\<close>): \<open>lock_private_redis_context\<close>,
  \<open>lock_shared_redis_context\<close>, \<open>lock_redis_context\<close>, \<open>unlock_shared_redis_context\<close> and
  \<open>unlock_redis_context\<close>. A shared pool is the record \<open>pool\<close> of a server; what a critical section
  does to it is one of four operations, which the theory of the threads uses as well.
  \<open>Lck_CondWait\<close> gives the mutex to the other threads; what they do is the call \<open>h_wait\<close>, and the
  number of times a thread may be woken up is a bound \<open>fuel\<close>.
\<close>

section \<open>Operations on a pool\<close>

definition pool_mark_busy :: "redis_context \<Rightarrow> pool \<Rightarrow> pool" where
  "pool_mark_busy c p =
     p\<lparr>free_contexts := tailq_remove (free_contexts p) c,
       busy_contexts := tailq_insert_tail (busy_contexts p) c\<rparr>"

definition pool_discard :: "redis_context \<Rightarrow> pool \<Rightarrow> pool" where
  "pool_discard c p =
     p\<lparr>busy_contexts := tailq_remove (busy_contexts p) c, ncontexts := ncontexts p - 1\<rparr>"

definition pool_create :: "redis_context \<Rightarrow> pool \<Rightarrow> pool" where
  "pool_create c p =
     p\<lparr>busy_contexts := tailq_insert_tail (busy_contexts p) c, ncontexts := ncontexts p + 1\<rparr>"

definition pool_release :: "redis_context \<Rightarrow> pool \<Rightarrow> pool" where
  "pool_release c p =
     p\<lparr>busy_contexts := tailq_remove (busy_contexts p) c,
       free_contexts := tailq_insert_tail (free_contexts p) c\<rparr>"

section \<open>The code\<close>

definition upd_pool :: "server_ptr \<Rightarrow> (pool \<Rightarrow> pool) \<Rightarrow> 'e world \<Rightarrow> 'e world" where
  "upd_pool s f w = upd_srv s (\<lambda>sv. sv\<lparr>sv_pool := f (sv_pool sv)\<rparr>) w"

definition next_server :: "plan \<Rightarrow> (server_ptr \<times> plan) option" where
  "next_server plan = do {
     _ \<leftarrow> assert_that (pl_snext plan < length (pl_servers plan));
     Some (pl_servers plan ! pl_snext plan,
           plan\<lparr>pl_snext := (pl_snext plan + 1) mod length (pl_servers plan)\<rparr>)
   }"

definition evict_first :: "'e hiredis \<Rightarrow> db_ptr \<Rightarrow> 'e world \<Rightarrow> 'e world option" where
  "evict_first h d w =
     (if ts_ncontexts (task w) \<ge> max_connections (dbs w d) then
        (case ts_contexts (task w) of
           [] \<Rightarrow> None
         | c # cs \<Rightarrow>
             with_db False d (upd_stats d (\<lambda>st. st\<lparr>st_dropped_overflow := st_dropped_overflow st + 1\<rparr>))
               (drop_context h c w))
      else Some w)"

definition lock_private_redis_context ::
  "'e hiredis \<Rightarrow> db_ptr \<Rightarrow> plan \<Rightarrow> 'e world \<Rightarrow> (redis_context option \<times> plan \<times> 'e world) option" where
  "lock_private_redis_context h d plan w =
     (if pl_cnext plan < length (pl_contexts plan)
      then Some (Some (pl_contexts plan ! pl_cnext plan), plan\<lparr>pl_cnext := pl_cnext plan + 1\<rparr>, w)
      else do {
        let (now, w) = net_call (h_time h) w;
        (s, plan) \<leftarrow> next_server plan;
        w \<leftarrow> evict_first h d w;
        (rcontext, w) \<leftarrow> new_rcontext h s now False False w;
        Some (case rcontext of
                None \<Rightarrow> (None, plan, w)
              | Some rc \<Rightarrow>
                  (let (c, w) = new_redis_context s rc now w
                   in (Some c, plan,
                       w\<lparr>task := (task w)\<lparr>ts_contexts := tailq_insert_tail (ts_contexts (task w)) c,
                                           ts_ncontexts := ts_ncontexts (task w) + 1\<rparr>\<rparr>)))
      })"

text \<open>The loop over the free contexts: the head of the list is the next element of \<open>cs\<close>.\<close>

fun scan_free ::
  "'e hiredis \<Rightarrow> server_ptr \<Rightarrow> int \<Rightarrow> redis_context list \<Rightarrow> 'e world \<Rightarrow>
   (redis_context option \<times> 'e world) option" where
  "scan_free h s now [] w = Some (None, w)"
| "scan_free h s now (c # cs) w =
     (case is_valid_redis_context h c now True (upd_pool s (pool_mark_busy c) w) of
        None \<Rightarrow> None
      | Some (True, w) \<Rightarrow> Some (Some c, w)
      | Some (False, w) \<Rightarrow>
          scan_free h s now cs (free_redis_context h c (upd_pool s (pool_discard c) w)))"

text \<open>
  One pass of the code after the label \<open>retry\<close>: it gets a context, or fails to connect (and signals
  the condition), or finds that it has to wait.
\<close>

datatype lock_result = Locked redis_context | Connect_Failed | Must_Wait

definition lock_section ::
  "'e hiredis \<Rightarrow> db_ptr \<Rightarrow> server_ptr \<Rightarrow> int \<Rightarrow> 'e world \<Rightarrow> (lock_result \<times> 'e world) option" where
  "lock_section h d s now w =
     (case scan_free h s now (free_contexts (sv_pool (srvs w s))) w of
        None \<Rightarrow> None
      | Some (Some c, w) \<Rightarrow> Some (Locked c, w)
      | Some (None, w) \<Rightarrow>
          if ncontexts (sv_pool (srvs w s)) \<ge> max_connections (dbs w d) then Some (Must_Wait, w)
          else do {
            (rcontext, w) \<leftarrow> new_rcontext h s now False True w;
            Some (case rcontext of
                    None \<Rightarrow> (Connect_Failed, w)
                  | Some rc \<Rightarrow>
                      (let (c, w) = new_redis_context s rc now w
                       in (Locked c, upd_pool s (pool_create c) w)))
          })"

fun lock_shared_retry ::
  "nat \<Rightarrow> 'e hiredis \<Rightarrow> db_ptr \<Rightarrow> server_ptr \<Rightarrow> int \<Rightarrow> 'e world \<Rightarrow> (redis_context option \<times> 'e world) option" where
  "lock_shared_retry 0 h d s now w = None"
| "lock_shared_retry (Suc fuel) h d s now w =
     (case lock_section h d s now w of
        None \<Rightarrow> None
      | Some (Locked c, w) \<Rightarrow> Some (Some c, w)
      | Some (Connect_Failed, w) \<Rightarrow> Some (None, w)
      | Some (Must_Wait, w) \<Rightarrow>
          lock_shared_retry fuel h d s now
            (upd_stats d (\<lambda>st. st\<lparr>st_workers_blocked := st_workers_blocked st + 1\<rparr>) (h_wait h s w)))"

definition lock_shared_redis_context ::
  "nat \<Rightarrow> 'e hiredis \<Rightarrow> db_ptr \<Rightarrow> plan \<Rightarrow> 'e world \<Rightarrow> (redis_context option \<times> plan \<times> 'e world) option" where
  "lock_shared_redis_context fuel h d plan w = do {
     let (now, w) = net_call (h_time h) w;
     (s, plan) \<leftarrow> next_server plan;
     w \<leftarrow> Lck_Lock (Db_Mutex (sv_db (srvs w s))) w;
     (c, w) \<leftarrow> lock_shared_retry fuel h d s now w;
     w \<leftarrow> Lck_Unlock (Db_Mutex (sv_db (srvs w s))) w;
     Some (c, plan, w)
   }"

definition lock_redis_context ::
  "nat \<Rightarrow> 'e hiredis \<Rightarrow> db_ptr \<Rightarrow> plan \<Rightarrow> 'e world \<Rightarrow> (redis_context option \<times> plan \<times> 'e world) option" where
  "lock_redis_context fuel h d plan w =
     (if shared_connections (dbs w d) then lock_shared_redis_context fuel h d plan w
      else lock_private_redis_context h d plan w)"

definition unlock_shared_redis_context :: "redis_context \<Rightarrow> 'e world \<Rightarrow> 'e world option" where
  "unlock_shared_redis_context c w = do {
     let s = cx_server c;
     let d = sv_db (srvs w s);
     w \<leftarrow> Lck_Lock (Db_Mutex d) w;
     Lck_Unlock (Db_Mutex d) (upd_pool s (pool_release c) w)
   }"

definition unlock_redis_context :: "db_ptr \<Rightarrow> redis_context \<Rightarrow> 'e world \<Rightarrow> 'e world option" where
  "unlock_redis_context d c w =
     (if shared_connections (dbs w d) then unlock_shared_redis_context c w else Some w)"

section \<open>The invariant of a pool\<close>

definition pool_ok :: "uint \<Rightarrow> pool \<Rightarrow> bool" where
  "pool_ok limit p \<longleftrightarrow>
     distinct (free_contexts p @ busy_contexts p) \<and>
     ncontexts p = word_of_nat (length (free_contexts p) + length (busy_contexts p)) \<and>
     length (free_contexts p) + length (busy_contexts p) \<le> unat limit"

lemma pool_count:
  assumes "pool_ok limit p"
  shows "unat (ncontexts p) = length (free_contexts p) + length (busy_contexts p)"
proof -
  have "length (free_contexts p) + length (busy_contexts p) < 2 ^ LENGTH(32)"
    using assms unat_less_pow [of limit] by (simp add: pool_ok_def)
  moreover have "ncontexts p = word_of_nat (length (free_contexts p) + length (busy_contexts p))"
    using assms unfolding pool_ok_def by blast
  ultimately show ?thesis by (simp only: unat_of_nat mod_less)
qed

lemma pool_ok_mark_busy:
  assumes "pool_ok limit p" and "c \<in> set (free_contexts p)"
  shows "pool_ok limit (pool_mark_busy c p)"
proof -
  obtain n where "length (free_contexts p) = Suc n" using assms(2) by (cases "free_contexts p") auto
  then show ?thesis
    using assms by (auto simp: pool_ok_def pool_mark_busy_def)
qed

lemma pool_ok_discard:
  assumes "pool_ok limit p" and "c \<in> set (busy_contexts p)"
  shows "pool_ok limit (pool_discard c p)"
proof -
  obtain n where "length (busy_contexts p) = Suc n" using assms(2) by (cases "busy_contexts p") auto
  then show ?thesis
    using assms by (auto simp: pool_ok_def pool_discard_def)
qed

lemma pool_ok_create:
  assumes "pool_ok limit p" and "\<not> ncontexts p \<ge> limit"
    and "c \<notin> set (free_contexts p)" and "c \<notin> set (busy_contexts p)"
  shows "pool_ok limit (pool_create c p)"
proof -
  have "length (free_contexts p) + length (busy_contexts p) < unat limit"
    using assms(2) pool_count [OF assms(1)] by (simp add: word_le_nat_alt)
  then show ?thesis
    using assms by (auto simp: pool_ok_def pool_create_def)
qed

lemma pool_ok_release:
  assumes "pool_ok limit p" and "c \<in> set (busy_contexts p)"
  shows "pool_ok limit (pool_release c p)"
proof -
  obtain n where "length (busy_contexts p) = Suc n" using assms(2) by (cases "busy_contexts p") auto
  then show ?thesis
    using assms by (auto simp: pool_ok_def pool_release_def)
qed

end
