(* ===== verification/Pool_Threads.thy ===== *)
theory Pool_Threads
  imports Pool Transition
begin

text \<open>
  The shared pool of one server under any number of worker threads. A step is one critical section
  of \<open>lock_shared_redis_context\<close> or \<open>unlock_shared_redis_context\<close>: the code between
  \<open>Lck_Lock\<close> (or the return of \<open>Lck_CondWait\<close>) and \<open>Lck_Unlock\<close> (or the call of
  \<open>Lck_CondWait\<close>), during which the mutex of the database is held. Which free contexts are still
  valid, and whether a connection succeeds, is arbitrary. A thread that waits for the condition is
  asleep until a signal (or a spurious wake-up) makes it \<open>woken\<close>; it then runs the section again.
\<close>

record pool_system =
  ps_limit :: uint
  ps_pool :: pool
  ps_holds :: "nat \<Rightarrow> redis_context option"
  ps_waiting :: "nat set"
  ps_woken :: "nat set"
  ps_next :: nat

section \<open>One critical section\<close>

text \<open>The loop over the free contexts on the pool alone, with the verdicts as a predicate.\<close>

fun scan_pool :: "(redis_context \<Rightarrow> bool) \<Rightarrow> redis_context list \<Rightarrow> pool \<Rightarrow> redis_context option \<times> pool" where
  "scan_pool valid [] p = (None, p)"
| "scan_pool valid (c # cs) p =
     (if valid c then (Some c, pool_mark_busy c p)
      else scan_pool valid cs (pool_discard c (pool_mark_busy c p)))"

definition signals :: "nat set \<Rightarrow> nat set \<Rightarrow> nat set \<Rightarrow> nat set \<Rightarrow> bool" where
  "signals waiting woken waiting' woken' \<longleftrightarrow>
     (if waiting = {} then waiting' = {} \<and> woken' = woken
      else \<exists>t \<in> waiting. waiting' = waiting - {t} \<and> woken' = insert t woken)"

inductive pool_step :: "pool_system \<Rightarrow> pool_system \<Rightarrow> bool" where
  take_free:
    "ps_holds s t = None \<Longrightarrow> t \<notin> ps_waiting s \<Longrightarrow>
     scan_pool valid (free_contexts (ps_pool s)) (ps_pool s) = (Some c, p) \<Longrightarrow>
     pool_step s (s\<lparr>ps_pool := p, ps_holds := (ps_holds s)(t := Some c), ps_woken := ps_woken s - {t}\<rparr>)"
| wait:
    "ps_holds s t = None \<Longrightarrow> t \<notin> ps_waiting s \<Longrightarrow>
     scan_pool valid (free_contexts (ps_pool s)) (ps_pool s) = (None, p) \<Longrightarrow>
     ncontexts p \<ge> ps_limit s \<Longrightarrow>
     pool_step s (s\<lparr>ps_pool := p, ps_waiting := insert t (ps_waiting s), ps_woken := ps_woken s - {t}\<rparr>)"
| connect:
    "ps_holds s t = None \<Longrightarrow> t \<notin> ps_waiting s \<Longrightarrow>
     scan_pool valid (free_contexts (ps_pool s)) (ps_pool s) = (None, p) \<Longrightarrow>
     \<not> ncontexts p \<ge> ps_limit s \<Longrightarrow> cx_id c = ps_next s \<Longrightarrow>
     pool_step s (s\<lparr>ps_pool := pool_create c p, ps_holds := (ps_holds s)(t := Some c),
       ps_woken := ps_woken s - {t}, ps_next := Suc (ps_next s)\<rparr>)"
| connect_fails:
    "ps_holds s t = None \<Longrightarrow> t \<notin> ps_waiting s \<Longrightarrow>
     scan_pool valid (free_contexts (ps_pool s)) (ps_pool s) = (None, p) \<Longrightarrow>
     \<not> ncontexts p \<ge> ps_limit s \<Longrightarrow> signals (ps_waiting s) (ps_woken s - {t}) waiting' woken' \<Longrightarrow>
     pool_step s (s\<lparr>ps_pool := p, ps_waiting := waiting', ps_woken := woken'\<rparr>)"
| give_back:
    "ps_holds s t = Some c \<Longrightarrow> signals (ps_waiting s) (ps_woken s) waiting' woken' \<Longrightarrow>
     pool_step s (s\<lparr>ps_pool := pool_release c (ps_pool s), ps_holds := (ps_holds s)(t := None),
       ps_waiting := waiting', ps_woken := woken'\<rparr>)"
| spurious:
    "t \<in> ps_waiting s \<Longrightarrow>
     pool_step s (s\<lparr>ps_waiting := ps_waiting s - {t}, ps_woken := insert t (ps_woken s)\<rparr>)"

inductive_cases pool_stepE: "pool_step s s'"

definition pool_start :: "pool_system \<Rightarrow> bool" where
  "pool_start s \<longleftrightarrow> ps_pool s = empty_pool \<and> ps_holds s = (\<lambda>t. None) \<and> ps_waiting s = {} \<and> ps_woken s = {}"

section \<open>The invariant\<close>

text \<open>
  The busy contexts are exactly those that the threads hold, each held by one thread; a thread that
  holds or is woken does not wait; and the capacity that no one holds is matched by woken threads as
  long as someone waits, which is what makes every signal enough.
\<close>

definition threads_ok ::
  "uint \<Rightarrow> pool \<Rightarrow> (nat \<Rightarrow> redis_context option) \<Rightarrow> nat set \<Rightarrow> nat set \<Rightarrow> nat \<Rightarrow> bool" where
  "threads_ok limit p holds waiting woken n \<longleftrightarrow>
     pool_ok limit p \<and>
     (\<forall>c. c \<in> set (busy_contexts p) \<longleftrightarrow> (\<exists>t. holds t = Some c)) \<and>
     (\<forall>t t' c. holds t = Some c \<longrightarrow> holds t' = Some c \<longrightarrow> t = t') \<and>
     (\<forall>c \<in> set (free_contexts p) \<union> set (busy_contexts p). cx_id c < n) \<and>
     finite waiting \<and> finite woken \<and> waiting \<inter> woken = {} \<and>
     (\<forall>t \<in> waiting \<union> woken. holds t = None) \<and>
     (waiting \<noteq> {} \<longrightarrow> unat limit - length (busy_contexts p) \<le> card woken)"

definition pool_inv :: "pool_system \<Rightarrow> bool" where
  "pool_inv s \<longleftrightarrow>
     threads_ok (ps_limit s) (ps_pool s) (ps_holds s) (ps_waiting s) (ps_woken s) (ps_next s)"

lemma threads_okI:
  assumes "pool_ok limit p"
    and "\<forall>c. c \<in> set (busy_contexts p) \<longleftrightarrow> (\<exists>t. holds t = Some c)"
    and "\<forall>t t' c. holds t = Some c \<longrightarrow> holds t' = Some c \<longrightarrow> t = t'"
    and "\<forall>c \<in> set (free_contexts p) \<union> set (busy_contexts p). cx_id c < n"
    and "finite waiting \<and> finite woken \<and> waiting \<inter> woken = {}"
    and "\<forall>t \<in> waiting \<union> woken. holds t = None"
    and "waiting \<noteq> {} \<Longrightarrow> unat limit - length (busy_contexts p) \<le> card woken"
  shows "threads_ok limit p holds waiting woken n"
  unfolding threads_ok_def using assms(5,7) by (intro conjI impI assms(1-4,6)) blast+

lemma scan_pool_spec:
  assumes "pool_ok limit p" and "cs = free_contexts p" and "scan_pool valid cs p = (r, p')"
  shows "pool_ok limit p' \<and>
    (case r of
       None \<Rightarrow> busy_contexts p' = busy_contexts p \<and> free_contexts p' = []
     | Some c \<Rightarrow> c \<in> set (free_contexts p) \<and> valid c \<and>
         busy_contexts p' = tailq_insert_tail (busy_contexts p) c \<and>
         set (free_contexts p') \<subseteq> set (free_contexts p) - {c})"
  using assms
proof (induction cs arbitrary: p)
  case Nil
  then show ?case by auto
next
  case (Cons c cs)
  have fc: "free_contexts p = c # cs" using Cons.prems(2) by simp
  have mem: "c \<in> set (free_contexts p)" "distinct (c # cs)" "c \<notin> set (busy_contexts p)"
    using Cons.prems(1) by (auto simp: pool_ok_def fc)
  note busy = pool_ok_mark_busy [OF Cons.prems(1) mem(1)]
  have free: "free_contexts (pool_mark_busy c p) = cs"
    by (simp add: pool_mark_busy_def tailq_remove_def fc)
  show ?case
  proof (cases "valid c")
    case True
    then have "r = Some c" "p' = pool_mark_busy c p" using Cons.prems(3) by auto
    then show ?thesis
      using True busy mem free by (simp add: fc) (auto simp: pool_mark_busy_def)
  next
    case False
    let ?p = "pool_discard c (pool_mark_busy c p)"
    have ok: "pool_ok limit ?p"
      by (rule pool_ok_discard [OF busy]) (simp add: pool_mark_busy_def)
    have f: "free_contexts ?p = cs" using free by (simp add: pool_discard_def)
    have b: "busy_contexts ?p = busy_contexts p"
      using mem by (simp add: pool_discard_def pool_mark_busy_def tailq_remove_def tailq_insert_tail_def
          remove1_append)
    have "scan_pool valid cs ?p = (r, p')" using Cons.prems(3) False by simp
    from Cons.IH [OF ok f [symmetric] this] have
      "pool_ok limit p' \<and>
       (case r of None \<Rightarrow> busy_contexts p' = busy_contexts p \<and> free_contexts p' = []
        | Some c' \<Rightarrow> c' \<in> set cs \<and> valid c' \<and> busy_contexts p' = tailq_insert_tail (busy_contexts p) c' \<and>
            set (free_contexts p') \<subseteq> set cs - {c'})"
      by (simp only: f b)
    then show ?thesis by (cases r) (auto simp: fc)
  qed
qed

lemma signals_card:
  assumes "signals W K W' K'" and "finite W" and "finite K" and "W \<inter> K = {}"
  shows "finite W' \<and> finite K' \<and> W' \<inter> K' = {} \<and> W' \<subseteq> W \<and> W' \<union> K' = W \<union> K \<and>
    (W \<noteq> {} \<longrightarrow> card K' = Suc (card K))"
proof (cases "W = {}")
  case True
  then show ?thesis using assms by (simp add: signals_def)
next
  case False
  then obtain t where t: "t \<in> W" "W' = W - {t}" "K' = insert t K"
    using assms(1) by (auto simp: signals_def)
  moreover have "t \<notin> K" using t(1) assms(4) by auto
  ultimately show ?thesis using assms(2-4) False by auto
qed

lemma holds_upd: "f t = None \<Longrightarrow> (\<exists>u. (f(t := Some c)) u = Some x) \<longleftrightarrow> x = c \<or> (\<exists>u. f u = Some x)"
  by (metis fun_upd_apply option.distinct(1) option.inject)

lemma scan_cases:
  assumes "pool_inv s" and "scan_pool valid (free_contexts (ps_pool s)) (ps_pool s) = (r, p)"
  shows "pool_ok (ps_limit s) p"
    "r = None \<Longrightarrow> busy_contexts p = busy_contexts (ps_pool s) \<and> free_contexts p = []"
    "r = Some c \<Longrightarrow> c \<in> set (free_contexts (ps_pool s)) \<and>
       busy_contexts p = tailq_insert_tail (busy_contexts (ps_pool s)) c \<and>
       set (free_contexts p) \<subseteq> set (free_contexts (ps_pool s)) \<and> c \<notin> set (busy_contexts (ps_pool s))"
proof -
  have ok: "pool_ok (ps_limit s) (ps_pool s)" using assms(1) by (simp add: pool_inv_def threads_ok_def)
  note sp = scan_pool_spec [OF ok refl assms(2)]
  show "pool_ok (ps_limit s) p" using sp by simp
  show "r = None \<Longrightarrow> busy_contexts p = busy_contexts (ps_pool s) \<and> free_contexts p = []" using sp by simp
  show "r = Some c \<Longrightarrow> c \<in> set (free_contexts (ps_pool s)) \<and>
       busy_contexts p = tailq_insert_tail (busy_contexts (ps_pool s)) c \<and>
       set (free_contexts p) \<subseteq> set (free_contexts (ps_pool s)) \<and> c \<notin> set (busy_contexts (ps_pool s))"
    using sp ok by (auto simp: pool_ok_def)
qed

lemma pool_inv_step:
  assumes inv: "pool_inv s" and "pool_step s s'"
  shows "pool_inv s'"
proof -
  let ?b = "busy_contexts (ps_pool s)"
  note i = inv [unfolded pool_inv_def threads_ok_def]
  have ok: "pool_ok (ps_limit s) (ps_pool s)" using i by blast
  have busy: "c \<in> set ?b \<longleftrightarrow> (\<exists>t. ps_holds s t = Some c)" for c using i by blast
  have uniq: "ps_holds s t = Some c \<Longrightarrow> ps_holds s t' = Some c \<Longrightarrow> t = t'" for t t' c using i by blast
  have ids: "c \<in> set (free_contexts (ps_pool s)) \<union> set ?b \<Longrightarrow> cx_id c < ps_next s" for c using i by blast
  have fin: "finite (ps_waiting s)" "finite (ps_woken s)" "ps_waiting s \<inter> ps_woken s = {}" using i by blast+
  have idle: "t \<in> ps_waiting s \<union> ps_woken s \<Longrightarrow> ps_holds s t = None" for t using i by blast
  have cap: "ps_waiting s \<noteq> {} \<Longrightarrow> unat (ps_limit s) - length ?b \<le> card (ps_woken s)" using i by blast
  have card: "card (ps_woken s) - 1 \<le> card (ps_woken s - {t})" for t
    using fin(2) by (cases "t \<in> ps_woken s") (simp_all add: card_Diff_singleton_if)
  have idle_upd: "\<forall>u \<in> ps_waiting s \<union> (ps_woken s - {t}). ((ps_holds s)(t := x)) u = None"
    if "t \<notin> ps_waiting s" for t x using idle that by auto
  have uniq_upd: "\<forall>u u' x. ((ps_holds s)(t := Some c)) u = Some x \<longrightarrow> ((ps_holds s)(t := Some c)) u' = Some x \<longrightarrow> u = u'"
    if "c \<notin> set ?b" for t c
    using that busy uniq by (metis fun_upd_apply option.inject)
  from assms(2) show ?thesis
  proof cases
    case (take_free t valid c p)
    note sc = scan_cases(1,3) [OF inv take_free(4)]
    have b: "c \<in> set (free_contexts (ps_pool s))" "busy_contexts p = tailq_insert_tail ?b c"
      "set (free_contexts p) \<subseteq> set (free_contexts (ps_pool s))" "c \<notin> set ?b" using sc(2) by auto
    have "threads_ok (ps_limit s) p ((ps_holds s)(t := Some c)) (ps_waiting s) (ps_woken s - {t}) (ps_next s)"
    proof (rule threads_okI [OF sc(1) _ uniq_upd [OF b(4)] _ _ idle_upd [OF take_free(3)]])
      show "\<forall>x. x \<in> set (busy_contexts p) \<longleftrightarrow> (\<exists>u. ((ps_holds s)(t := Some c)) u = Some x)"
        using busy b(2) by (simp only: holds_upd [of "ps_holds s" t, OF take_free(2)]) simp
      show "\<forall>x \<in> set (free_contexts p) \<union> set (busy_contexts p). cx_id x < ps_next s"
        using b(1-3) ids by auto
      show "unat (ps_limit s) - length (busy_contexts p) \<le> card (ps_woken s - {t})" if "ps_waiting s \<noteq> {}"
        using cap [OF that] card [of t] b(2) by simp
    qed (use fin in auto)
    then show ?thesis by (simp add: pool_inv_def take_free(1))
  next
    case (wait t valid p)
    note sc = scan_cases(1,2) [OF inv wait(4)]
    have p: "busy_contexts p = ?b" "free_contexts p = []" using sc(2) by auto
    have full: "unat (ps_limit s) - length ?b = 0"
      using wait(5) pool_count [OF sc(1)] p by (simp add: word_le_nat_alt)
    have "threads_ok (ps_limit s) p (ps_holds s) (insert t (ps_waiting s)) (ps_woken s - {t}) (ps_next s)"
    proof (rule threads_okI [OF sc(1)])
      show "\<forall>x. x \<in> set (busy_contexts p) \<longleftrightarrow> (\<exists>u. ps_holds s u = Some x)" using busy p by simp
      show "\<forall>u u' x. ps_holds s u = Some x \<longrightarrow> ps_holds s u' = Some x \<longrightarrow> u = u'" using uniq by blast
      show "\<forall>u \<in> insert t (ps_waiting s) \<union> (ps_woken s - {t}). ps_holds s u = None" using idle wait(2) by auto
    qed (use fin full ids p in auto)
    then show ?thesis by (simp add: pool_inv_def wait(1))
  next
    case (connect t valid p c)
    note sc = scan_cases(1,2) [OF inv connect(4)]
    have p: "busy_contexts p = ?b" "free_contexts p = []" using sc(2) by auto
    have new: "c \<notin> set ?b" using ids [of c] connect(6) by auto
    have b: "busy_contexts (pool_create c p) = tailq_insert_tail ?b c" "free_contexts (pool_create c p) = []"
      by (simp_all add: pool_create_def p)
    have "pool_ok (ps_limit s) (pool_create c p)"
      by (rule pool_ok_create [OF sc(1) connect(5)]) (simp_all add: p new)
    then have "threads_ok (ps_limit s) (pool_create c p) ((ps_holds s)(t := Some c)) (ps_waiting s)
        (ps_woken s - {t}) (Suc (ps_next s))"
    proof (rule threads_okI [OF _ _ uniq_upd [OF new] _ _ idle_upd [OF connect(3)]])
      show "\<forall>x. x \<in> set (busy_contexts (pool_create c p)) \<longleftrightarrow> (\<exists>u. ((ps_holds s)(t := Some c)) u = Some x)"
        using busy by (simp only: holds_upd [of "ps_holds s" t, OF connect(2)]) (simp add: b)
      show "\<forall>x \<in> set (free_contexts (pool_create c p)) \<union> set (busy_contexts (pool_create c p)). cx_id x < Suc (ps_next s)"
        using ids connect(6) by (auto simp: b less_Suc_eq)
      show "unat (ps_limit s) - length (busy_contexts (pool_create c p)) \<le> card (ps_woken s - {t})"
        if "ps_waiting s \<noteq> {}" using cap [OF that] card [of t] by (simp add: b)
    qed (use fin in auto)
    then show ?thesis by (simp add: pool_inv_def connect(1))
  next
    case (connect_fails t valid p waiting' woken')
    note sc = scan_cases(1,2) [OF inv connect_fails(4)]
    have p: "busy_contexts p = ?b" "free_contexts p = []" using sc(2) by auto
    have sg: "finite waiting' \<and> finite woken' \<and> waiting' \<inter> woken' = {} \<and> waiting' \<subseteq> ps_waiting s \<and>
        waiting' \<union> woken' = ps_waiting s \<union> (ps_woken s - {t}) \<and>
        (ps_waiting s \<noteq> {} \<longrightarrow> card woken' = Suc (card (ps_woken s - {t})))"
      by (rule signals_card [OF connect_fails(6)]) (use fin in auto)
    have "threads_ok (ps_limit s) p (ps_holds s) waiting' woken' (ps_next s)"
    proof (rule threads_okI [OF sc(1)])
      show "\<forall>x. x \<in> set (busy_contexts p) \<longleftrightarrow> (\<exists>u. ps_holds s u = Some x)" using busy p by simp
      show "\<forall>u u' x. ps_holds s u = Some x \<longrightarrow> ps_holds s u' = Some x \<longrightarrow> u = u'" using uniq by blast
      show "\<forall>u \<in> waiting' \<union> woken'. ps_holds s u = None" using sg idle by blast
      show "unat (ps_limit s) - length (busy_contexts p) \<le> card woken'" if "waiting' \<noteq> {}"
      proof -
        have "ps_waiting s \<noteq> {}" using sg that by auto
        then show ?thesis using cap card [of t] sg p by simp
      qed
    qed (use sg ids p in auto)
    then show ?thesis by (simp add: pool_inv_def connect_fails(1))
  next
    case (give_back t c waiting' woken')
    let ?p = "pool_release c (ps_pool s)"
    have c: "c \<in> set ?b" using busy give_back(2) by blast
    have d: "distinct ?b" using ok by (simp add: pool_ok_def)
    have b: "set (busy_contexts ?p) = set ?b - {c}" "length (busy_contexts ?p) = length ?b - 1"
      "set (free_contexts ?p) = insert c (set (free_contexts (ps_pool s)))"
      using d c by (simp_all add: pool_release_def)
    have sg: "finite waiting' \<and> finite woken' \<and> waiting' \<inter> woken' = {} \<and> waiting' \<subseteq> ps_waiting s \<and>
        waiting' \<union> woken' = ps_waiting s \<union> ps_woken s \<and>
        (ps_waiting s \<noteq> {} \<longrightarrow> card woken' = Suc (card (ps_woken s)))"
      by (rule signals_card [OF give_back(3) fin])
    have "threads_ok (ps_limit s) ?p ((ps_holds s)(t := None)) waiting' woken' (ps_next s)"
    proof (rule threads_okI [OF pool_ok_release [OF ok c]])
      show "\<forall>x. x \<in> set (busy_contexts ?p) \<longleftrightarrow> (\<exists>u. ((ps_holds s)(t := None)) u = Some x)"
        unfolding b using busy uniq give_back(2)
        by (metis Diff_iff empty_iff fun_upd_apply insert_iff option.distinct(1) option.inject)
      show "\<forall>u u' x. ((ps_holds s)(t := None)) u = Some x \<longrightarrow> ((ps_holds s)(t := None)) u' = Some x \<longrightarrow> u = u'"
        using uniq by (metis fun_upd_apply option.distinct(1))
      show "\<forall>u \<in> waiting' \<union> woken'. ((ps_holds s)(t := None)) u = None" using sg idle by auto
      show "unat (ps_limit s) - length (busy_contexts ?p) \<le> card woken'" if "waiting' \<noteq> {}"
      proof -
        have "ps_waiting s \<noteq> {}" using sg that by auto
        then show ?thesis using cap sg b(2) by simp
      qed
      show "\<forall>x \<in> set (free_contexts ?p) \<union> set (busy_contexts ?p). cx_id x < ps_next s"
        unfolding b using ids c by auto
    qed (use sg in auto)
    then show ?thesis by (simp add: pool_inv_def give_back(1))
  next
    case (spurious t)
    have t: "t \<notin> ps_woken s" using spurious(2) fin(3) by auto
    have "threads_ok (ps_limit s) (ps_pool s) (ps_holds s) (ps_waiting s - {t}) (insert t (ps_woken s)) (ps_next s)"
    proof (rule threads_okI [OF ok])
      show "\<forall>x. x \<in> set ?b \<longleftrightarrow> (\<exists>u. ps_holds s u = Some x)" using busy by simp
      show "\<forall>u u' x. ps_holds s u = Some x \<longrightarrow> ps_holds s u' = Some x \<longrightarrow> u = u'" using uniq by blast
      show "\<forall>u \<in> (ps_waiting s - {t}) \<union> insert t (ps_woken s). ps_holds s u = None"
        using idle spurious(2) by auto
      show "unat (ps_limit s) - length ?b \<le> card (insert t (ps_woken s))" if "ps_waiting s - {t} \<noteq> {}"
      proof -
        have "ps_waiting s \<noteq> {}" using that by auto
        then show ?thesis using cap fin t by simp
      qed
    qed (use fin ids in auto)
    then show ?thesis by (simp add: pool_inv_def spurious(1))
  qed
qed

interpretation pt: transition_system pool_start pool_step pool_inv
proof
  show "pool_inv s" if "pool_start s" for s
    using that by (auto simp: pool_inv_def threads_ok_def pool_start_def pool_ok_def empty_pool_def)
  show "pool_inv s'" if "pool_inv s" "pool_step s s'" for s s'
    by (rule pool_inv_step [OF that])
qed

section \<open>The code runs the steps\<close>

text \<open>What the code's state shows of a pool; who holds, waits and is woken is known to the threads.\<close>

definition pool_view ::
  "server_ptr \<Rightarrow> db_ptr \<Rightarrow> (nat \<Rightarrow> redis_context option) \<Rightarrow> nat set \<Rightarrow> nat set \<Rightarrow> 'e world \<Rightarrow> pool_system" where
  "pool_view s d holds waiting woken w =
     \<lparr>ps_limit = max_connections (dbs w d), ps_pool = sv_pool (srvs w s), ps_holds = holds,
      ps_waiting = waiting, ps_woken = woken, ps_next = next_ctx w\<rparr>"

lemma scan_pool_cong: "(\<And>x. x \<in> set cs \<Longrightarrow> valid x = valid' x) \<Longrightarrow> scan_pool valid cs p = scan_pool valid' cs p"
  by (induction cs arbitrary: p) auto

lemma upd_pool_fields [simp]:
  "sv_pool (srvs (upd_pool s f w) x) = (if x = s then f (sv_pool (srvs w s)) else sv_pool (srvs w x))"
  "dbs (upd_pool s f w) = dbs w" "next_ctx (upd_pool s f w) = next_ctx w" "held (upd_pool s f w) = held w"
  "sv_db (srvs (upd_pool s f w) x) = sv_db (srvs w x)" "task (upd_pool s f w) = task w"
  by (simp_all add: upd_pool_def upd_srv_def)

lemma free_redis_context_fields [simp]:
  "srvs (free_redis_context h c w) = srvs w" "dbs (free_redis_context h c w) = dbs w"
  "next_ctx (free_redis_context h c w) = next_ctx w" "held (free_redis_context h c w) = held w"
  "task (free_redis_context h c w) = task w"
  by (simp_all add: free_redis_context_def net_do_def)

lemma scan_free_refines:
  "scan_free h s now cs w = Some (r, w') \<Longrightarrow> distinct cs \<Longrightarrow>
   (\<exists>valid. scan_pool valid cs (sv_pool (srvs w s)) = (r, sv_pool (srvs w' s))) \<and>
   next_ctx w' = next_ctx w \<and> held w' = held w \<and> sv_db (srvs w' s) = sv_db (srvs w s) \<and>
   (\<forall>d. max_connections (dbs w' d) = max_connections (dbs w d))"
proof (induction cs arbitrary: w)
  case Nil
  then show ?case by simp
next
  case (Cons c cs)
  let ?w1 = "upd_pool s (pool_mark_busy c) w"
  obtain v w2 where v: "is_valid_redis_context h c now True ?w1 = Some (v, w2)"
    using Cons.prems(1) by (cases "is_valid_redis_context h c now True ?w1") auto
  note core = same_core_simps [OF is_valid_core [OF v]]
  show ?case
  proof (cases v)
    case True
    then have "r = Some c" "w' = w2" using Cons.prems(1) v by auto
    then show ?thesis by (auto simp: core intro!: exI [of _ "\<lambda>x. True"])
  next
    case False
    let ?w3 = "free_redis_context h c (upd_pool s (pool_discard c) w2)"
    have next_scan: "scan_free h s now cs ?w3 = Some (r, w')" using Cons.prems(1) v False by simp
    obtain valid where valid: "scan_pool valid cs (sv_pool (srvs ?w3 s)) = (r, sv_pool (srvs w' s))"
      and rest: "next_ctx w' = next_ctx ?w3" "held w' = held ?w3" "sv_db (srvs w' s) = sv_db (srvs ?w3 s)"
        "\<forall>d. max_connections (dbs w' d) = max_connections (dbs ?w3 d)"
      using Cons.IH [OF next_scan] Cons.prems(2) by auto
    have "scan_pool (valid(c := False)) cs p = scan_pool valid cs p" for p
      using Cons.prems(2) by (intro scan_pool_cong) auto
    then have "scan_pool (valid(c := False)) (c # cs) (sv_pool (srvs w s)) = (r, sv_pool (srvs w' s))"
      using valid by (simp add: core)
    moreover have "next_ctx w' = next_ctx w" "held w' = held w" "sv_db (srvs w' s) = sv_db (srvs w s)"
      "\<forall>d. max_connections (dbs w' d) = max_connections (dbs w d)"
      using rest by (simp_all add: core)
    ultimately show ?thesis by blast
  qed
qed

section \<open>Properties\<close>

text \<open>
  C11. A shared connection is used by one thread at a time, and a server never has more connections
  in use than \<open>max_connections\<close>: in every reachable state of the pool of a server no two threads
  hold the same context, the contexts that are held are exactly the busy ones, and they and the free
  ones together are counted by \<open>ncontexts\<close>, which is at most the limit.
\<close>

theorem shared_pool_exclusive:
  assumes "pt.reachable s"
  shows "(\<forall>t t' c. ps_holds s t = Some c \<and> ps_holds s t' = Some c \<longrightarrow> t = t') \<and>
    (\<forall>c. c \<in> set (busy_contexts (ps_pool s)) \<longleftrightarrow> (\<exists>t. ps_holds s t = Some c)) \<and>
    unat (ncontexts (ps_pool s)) =
      length (free_contexts (ps_pool s)) + length (busy_contexts (ps_pool s)) \<and>
    ncontexts (ps_pool s) \<le> ps_limit s"
proof -
  have i: "threads_ok (ps_limit s) (ps_pool s) (ps_holds s) (ps_waiting s) (ps_woken s) (ps_next s)"
    using pt.inv_reachable [OF assms] by (simp add: pool_inv_def)
  then have p: "pool_ok (ps_limit s) (ps_pool s)" unfolding threads_ok_def by blast
  then have "ncontexts (ps_pool s) \<le> ps_limit s"
    using pool_count [OF p] by (simp add: pool_ok_def word_le_nat_alt)
  then show ?thesis using i pool_count [OF p] unfolding threads_ok_def by blast
qed

text \<open>
  C12. No wake-up is lost: while a thread waits for a connection, the connections that no thread
  holds are at most as many as the threads that have been woken and not yet run; so (with a limit
  that is not zero) some thread holds a connection, and will signal, or some thread is awake.
\<close>

theorem shared_pool_no_lost_wakeup:
  assumes "pt.reachable s" and "t \<in> ps_waiting s"
  shows "unat (ps_limit s) - length (busy_contexts (ps_pool s)) \<le> card (ps_woken s) \<and>
    (ps_limit s \<noteq> 0 \<longrightarrow> (\<exists>u. ps_holds s u \<noteq> None \<or> u \<in> ps_woken s))"
proof -
  have i: "threads_ok (ps_limit s) (ps_pool s) (ps_holds s) (ps_waiting s) (ps_woken s) (ps_next s)"
    using pt.inv_reachable [OF assms(1)] by (simp add: pool_inv_def)
  then have cap: "unat (ps_limit s) - length (busy_contexts (ps_pool s)) \<le> card (ps_woken s)"
    using assms(2) unfolding threads_ok_def by blast
  have "\<exists>u. ps_holds s u \<noteq> None \<or> u \<in> ps_woken s" if "ps_limit s \<noteq> 0"
  proof (cases "busy_contexts (ps_pool s)")
    case Nil
    have "unat (ps_limit s) \<noteq> 0" using that by (metis unsigned_eq_0_iff)
    then have "card (ps_woken s) \<noteq> 0" using cap Nil by simp
    then show ?thesis by (metis card.empty equals0I)
  next
    case (Cons c cs)
    then have "c \<in> set (busy_contexts (ps_pool s))" by simp
    then show ?thesis using i unfolding threads_ok_def by blast
  qed
  with cap show ?thesis by blast
qed

text \<open>Witnesses: two threads and a limit of one; the first connects and the second waits.\<close>

definition lab_pool :: "pool \<Rightarrow> (nat \<Rightarrow> redis_context option) \<Rightarrow> nat set \<Rightarrow> nat \<Rightarrow> pool_system" where
  "lab_pool p holds waiting n =
     \<lparr>ps_limit = 1, ps_pool = p, ps_holds = holds, ps_waiting = waiting, ps_woken = {}, ps_next = n\<rparr>"

lemma lab_pool_reachable:
  "pt.reachable (lab_pool (pool_create (lab_context 5) empty_pool) ((\<lambda>t. None)(0 := Some (lab_context 5))) {1} 1)"
proof -
  let ?p = "pool_create (lab_context 5) empty_pool" and ?H = "(\<lambda>t. None)(0 := Some (lab_context 5))"
  have 0: "pt.reachable (lab_pool empty_pool (\<lambda>t. None) {} 0)"
    unfolding pt.reachable_def by (intro exI [of _ "lab_pool empty_pool (\<lambda>t. None) {} 0"])
      (simp add: pool_start_def lab_pool_def)
  have "pool_step (lab_pool empty_pool (\<lambda>t. None) {} 0) (lab_pool ?p ?H {} 1)"
    using pool_step.connect [of "lab_pool empty_pool (\<lambda>t. None) {} 0" 0 "\<lambda>x. True" empty_pool "lab_context 5"]
    by (simp add: lab_pool_def empty_pool_def lab_context_def)
  from pt.reachable_step [OF 0 this] have 1: "pt.reachable (lab_pool ?p ?H {} 1)" .
  have "pool_step (lab_pool ?p ?H {} 1) (lab_pool ?p ?H {1} 1)"
    using pool_step.wait [of "lab_pool ?p ?H {} 1" 1 "\<lambda>x. True" ?p]
    by (simp add: lab_pool_def empty_pool_def pool_create_def)
  from pt.reachable_step [OF 1 this] show ?thesis .
qed

theorem shared_pool_exclusive_witness:
  "unat (ncontexts (pool_create (lab_context 5) empty_pool)) = 1"
  using shared_pool_exclusive [OF lab_pool_reachable]
  by (simp add: lab_pool_def pool_create_def empty_pool_def)

theorem shared_pool_no_lost_wakeup_witness:
  "\<exists>u. ((\<lambda>t. None)(0 := Some (lab_context 5))) u \<noteq> None \<or> u \<in> ({} :: nat set)"
  using shared_pool_no_lost_wakeup [OF lab_pool_reachable, of 1] by (simp add: lab_pool_def)

text \<open>
  C13. The code is a refinement of the threads: one pass of \<open>lock_shared_redis_context\<close> by a thread
  that holds nothing is one step of the pool of its server, in which the thread gets the context
  that the code returns, or starts to wait, or fails to connect and signals the condition.
\<close>

theorem lock_section_refines:
  assumes "lock_section h d s now w = Some (r, w')"
    and "distinct (free_contexts (sv_pool (srvs w s)))"
    and "holds t = None" and "t \<notin> waiting"
  shows "\<exists>holds' waiting' woken'.
    pool_step (pool_view s d holds waiting woken w) (pool_view s d holds' waiting' woken' w') \<and>
    (case r of
       Locked c \<Rightarrow> holds' = holds(t := Some c) \<and> waiting' = waiting \<and> woken' = woken - {t}
     | Must_Wait \<Rightarrow> holds' = holds \<and> waiting' = insert t waiting \<and> woken' = woken - {t}
     | Connect_Failed \<Rightarrow> holds' = holds \<and> signals waiting (woken - {t}) waiting' woken')"
proof -
  let ?v = "pool_view s d holds waiting woken w"
  obtain r1 w1 where sc: "scan_free h s now (free_contexts (sv_pool (srvs w s))) w = Some (r1, w1)"
    using assms(1) by (cases "scan_free h s now (free_contexts (sv_pool (srvs w s))) w")
      (auto simp: lock_section_def)
  obtain valid where valid: "scan_pool valid (free_contexts (ps_pool ?v)) (ps_pool ?v) = (r1, sv_pool (srvs w1 s))"
    and keep: "next_ctx w1 = next_ctx w" "max_connections (dbs w1 d) = max_connections (dbs w d)"
    using scan_free_refines [OF sc assms(2)] by (auto simp: pool_view_def)
  have idle: "ps_holds ?v t = None" "t \<notin> ps_waiting ?v" using assms(3,4) by (simp_all add: pool_view_def)
  show ?thesis
  proof (cases r1)
    case (Some c)
    then have "r = Locked c" "w' = w1" using assms(1) sc by (simp_all add: lock_section_def)
    moreover have "pool_step ?v (pool_view s d (holds(t := Some c)) waiting (woken - {t}) w1)"
      using pool_step.take_free [OF idle valid [unfolded Some]] by (simp add: pool_view_def keep)
    ultimately show ?thesis by auto
  next
    case None
    note scan = valid [unfolded None]
    show ?thesis
    proof (cases "ncontexts (sv_pool (srvs w1 s)) \<ge> max_connections (dbs w1 d)")
      case True
      then have "r = Must_Wait" "w' = w1" using assms(1) sc None by (simp_all add: lock_section_def)
      moreover have "pool_step ?v (pool_view s d holds (insert t waiting) (woken - {t}) w1)"
        using pool_step.wait [OF idle scan] True by (simp add: pool_view_def keep)
      ultimately show ?thesis by auto
    next
      case False
      then obtain rc w2 where n: "new_rcontext h s now False True w1 = Some (rc, w2)"
        using assms(1) sc None by (auto simp: lock_section_def bind_Some)
      note core = same_core_simps [OF new_rcontext_core [OF n]]
      have room: "\<not> ncontexts (sv_pool (srvs w1 s)) \<ge> ps_limit ?v" using False keep by (simp add: pool_view_def)
      show ?thesis
      proof (cases rc)
        case (Some x)
        define c where "c = fst (new_redis_context s x now w2)"
        have c: "cx_id c = next_ctx w2" "r = Locked c"
          "w' = upd_pool s (pool_create c) (w2\<lparr>next_ctx := Suc (next_ctx w2)\<rparr>)"
          using assms(1) sc None False n Some by (auto simp: lock_section_def new_redis_context_def c_def)
        have "pool_step ?v (pool_view s d (holds(t := Some c)) waiting (woken - {t}) w')"
          using pool_step.connect [OF idle scan room, of c] c(1)
          by (simp add: pool_view_def keep core c(3))
        then show ?thesis using c(2) by auto
      next
        case fail: None
        then have r: "r = Connect_Failed" "w' = w2" using assms(1) sc None False n by (simp_all add: lock_section_def)
        obtain waiting' woken' where sg: "signals waiting (woken - {t}) waiting' woken'"
          unfolding signals_def by (metis all_not_in_conv)
        have "pool_step ?v (pool_view s d holds waiting' woken' w2)"
          using pool_step.connect_fails [OF idle scan room, of waiting' woken'] sg
          by (simp add: pool_view_def keep core)
        then show ?thesis using r sg by auto
      qed
    qed
  qed
qed

theorem lock_section_refines_witness:
  "\<exists>r w' s'. lock_section (lab (\<lambda>c. None) 64) 0 0 100 ((lab_one True False)\<lparr>held := [Db_Mutex 0]\<rparr>) = Some (r, w') \<and>
    pool_step (pool_view 0 0 (\<lambda>t. None) {} {} ((lab_one True False)\<lparr>held := [Db_Mutex 0]\<rparr>)) s'"
proof -
  let ?w = "(lab_one True False)\<lparr>held := [Db_Mutex 0]\<rparr>" and ?h = "lab (\<lambda>c. None) 64"
  have pool: "sv_pool (srvs ?w 0) = empty_pool" by (simp add: lab_defs empty_pool_def)
  have "connects ?h" by (simp add: connects_def lab_def)
  moreover have "db_lock_ok True (sv_db (srvs ?w 0)) ?w" by (simp add: db_lock_ok_def lab_defs)
  ultimately obtain rc w1 where n: "new_rcontext ?h 0 100 False True ?w = Some (rc, w1)"
    by (rule new_rcontext_total)
  have "max_connections (dbs ?w 0) = 2" by (simp add: lab_defs)
  then have "\<exists>r w'. lock_section ?h 0 0 100 ?w = Some (r, w')"
    using n pool by (cases rc) (simp_all add: lock_section_def empty_pool_def new_redis_context_def del: world.update_convs)
  then obtain r w' where l: "lock_section ?h 0 0 100 ?w = Some (r, w')" by blast
  have "distinct (free_contexts (sv_pool (srvs ?w 0)))" by (simp only: pool) (simp add: empty_pool_def)
  from lock_section_refines [OF l this, of "\<lambda>t. None" 0 "{}" "{}"] l show ?thesis by blast
qed

text \<open>
  With \<open>max_connections\<close> zero, which the database object accepts, a shared database never
  serves a command: in every reachable state no thread has a connection, and a thread that asks for
  one can only wait.
\<close>

theorem zero_connections_block:
  assumes "pt.reachable s" and "ps_limit s = 0"
  shows "ps_holds s t = None \<and>
    (\<forall>s'. pool_step s s' \<longrightarrow> ps_holds s' = ps_holds s \<and> ps_waiting s' \<union> ps_woken s' = ps_waiting s \<union> ps_woken s \<or>
       (\<exists>u. ps_waiting s' = insert u (ps_waiting s)))"
proof -
  have i: "threads_ok (ps_limit s) (ps_pool s) (ps_holds s) (ps_waiting s) (ps_woken s) (ps_next s)"
    using pt.inv_reachable [OF assms(1)] by (simp add: pool_inv_def)
  have p: "pool_ok 0 (ps_pool s)" using i assms(2) unfolding threads_ok_def by simp
  then have e: "free_contexts (ps_pool s) = []" "busy_contexts (ps_pool s) = []" by (simp_all add: pool_ok_def)
  have none: "ps_holds s t = None" for t
  proof (rule ccontr)
    assume "ps_holds s t \<noteq> None"
    then obtain c where "ps_holds s t = Some c" by blast
    then have "c \<in> set (busy_contexts (ps_pool s))" using i unfolding threads_ok_def by blast
    then show False by (simp add: e)
  qed
  have "ps_holds s' = ps_holds s \<and> ps_waiting s' \<union> ps_woken s' = ps_waiting s \<union> ps_woken s \<or>
      (\<exists>u. ps_waiting s' = insert u (ps_waiting s))" if "pool_step s s'" for s'
    using that
  proof cases
    case (spurious t)
    then show ?thesis by auto
  qed (auto simp: e none assms(2))
  with none show ?thesis by blast
qed

theorem zero_connections_block_witness:
  "ps_holds (\<lparr>ps_limit = 0, ps_pool = empty_pool, ps_holds = (\<lambda>t. None), ps_waiting = {}, ps_woken = {}, ps_next = 0\<rparr>) 4 = None"
proof -
  let ?s = "\<lparr>ps_limit = 0, ps_pool = empty_pool, ps_holds = (\<lambda>t. None), ps_waiting = {}, ps_woken = {}, ps_next = 0\<rparr>"
  have "pt.reachable ?s" unfolding pt.reachable_def by (intro exI [of _ ?s]) (simp add: pool_start_def)
  then show ?thesis using zero_connections_block [of ?s 4] by simp
qed

end
