(* ===== verification/Streaming.thy ===== *)
theory Streaming
  imports Redis_Prelude
begin

text \<open>
  The interface of an incremental digest: a context that is initialised, fed with chunks and
  finished. The contract says which message a context stands for; what follows from it, once
  and for all, is that the digest depends on the bytes only and not on how they were cut into
  chunks. The loop of \<open>crc16\<close> and the SHA-1 context are interpretations.
\<close>

locale streaming_digest =
  fixes initial :: "'c"
    and update :: "'c \<Rightarrow> 'b list \<Rightarrow> 'c"
    and final :: "'c \<Rightarrow> 'd"
    and repr :: "'c \<Rightarrow> 'b list \<Rightarrow> bool"
    and fits :: "'b list \<Rightarrow> bool"
    and spec :: "'b list \<Rightarrow> 'd"
  assumes repr_initial: "repr initial []"
    and repr_update: "repr c m \<Longrightarrow> fits (m @ x) \<Longrightarrow> repr (update c x) (m @ x)"
    and final_spec: "repr c m \<Longrightarrow> fits m \<Longrightarrow> final c = spec m"
    and fits_prefix: "fits (m @ x) \<Longrightarrow> fits m"
begin

lemma repr_chunks: "repr c m \<Longrightarrow> fits (m @ concat xs) \<Longrightarrow> repr (foldl update c xs) (m @ concat xs)"
proof (induction xs arbitrary: c m)
  case Nil
  then show ?case by simp
next
  case (Cons x xs)
  then have "fits ((m @ x) @ concat xs)" by simp
  with Cons.prems(1) have "repr (update c x) (m @ x)"
    by (blast intro: repr_update fits_prefix)
  with Cons.IH [of "update c x" "m @ x"] Cons.prems(2) show ?case by simp
qed

lemma digest_chunks: "fits (concat xs) \<Longrightarrow> final (foldl update initial xs) = spec (concat xs)"
  using repr_chunks [OF repr_initial, of xs] final_spec by simp

lemma digest_once: "fits m \<Longrightarrow> final (update initial m) = spec m"
  using digest_chunks [of "[m]"] by simp

lemma chunking_irrelevant:
  "fits (concat xs) \<Longrightarrow> concat xs = concat ys \<Longrightarrow>
     final (foldl update initial xs) = final (foldl update initial ys)"
  by (simp add: digest_chunks)

end

end
