(* ===== verification/Sha1.thy ===== *)
theory Sha1
  imports Streaming "HOL-Library.While_Combinator"
begin

text \<open>
  \<open>src/sha1.c\<close>: the SHA-1 used to replace \<open>EVAL\<close> by \<open>EVALSHA\<close>. The context (\<open>SHA1_CTX\<close>), the
  unrolled and in-place transform over a circular 16-word block, the buffering update and the
  padding of \<open>SHA1Final\<close> are translated as they are (little-endian build, \<open>SHA1HANDSOFF\<close>); the
  reference is the block-wise definition of FIPS 180: the 80-word message schedule, the three
  round functions, and the padded message cut into 64-byte blocks.
\<close>

section \<open>The code\<close>

record sha1_ctx =
  sha_state :: "uint32 list"
  sha_count0 :: uint32
  sha_count1 :: uint32
  sha_buffer :: "byte list"

definition rol :: "uint32 \<Rightarrow> nat \<Rightarrow> uint32" where
  "rol value bits = push_bit bits value OR drop_bit (32 - bits) value"

text \<open>The union \<open>CHAR64LONG16\<close>: sixteen little-endian words over the 64 bytes.\<close>

definition le_word :: "byte list \<Rightarrow> uint32" where
  "le_word bs = ucast (bs ! 0) OR push_bit 8 (ucast (bs ! 1))
     OR push_bit 16 (ucast (bs ! 2)) OR push_bit 24 (ucast (bs ! 3))"

definition load_block :: "byte list \<Rightarrow> uint32 list" where
  "load_block buffer = map (\<lambda>i. le_word (take 4 (drop (4 * i) buffer))) [0..<16]"

definition bswap :: "uint32 \<Rightarrow> uint32" where
  "bswap x = (rol x 24 AND 0xFF00FF00) OR (rol x 8 AND 0x00FF00FF)"

definition blk0 :: "uint32 list \<Rightarrow> nat \<Rightarrow> uint32 list \<times> uint32" where
  "blk0 l i = (let x = bswap (l ! i) in (l[i := x], x))"

definition blk :: "uint32 list \<Rightarrow> nat \<Rightarrow> uint32 list \<times> uint32" where
  "blk l i =
     (let x = rol (l ! ((i + 13) mod 16) XOR l ! ((i + 8) mod 16)
                 XOR l ! ((i + 2) mod 16) XOR l ! (i mod 16)) 1
      in (l[i mod 16 := x], x))"

type_synonym sha1_regs = "uint32 \<times> uint32 \<times> uint32 \<times> uint32 \<times> uint32"

text \<open>
  The macros \<open>R0\<close> to \<open>R4\<close>. Each call of the unrolled sequence passes the registers rotated by
  one place (\<open>R0(a,b,c,d,e,0); R0(e,a,b,c,d,1); \<dots>\<close>), so the result is given in the order in which
  the next call reads it.
\<close>

definition sha1_R :: "nat \<Rightarrow> sha1_regs \<times> uint32 list \<Rightarrow> sha1_regs \<times> uint32 list" where
  "sha1_R i = (\<lambda>((v, w, x, y, z), l).
     let (l, b) = (if i < 16 then blk0 l i else blk l i);
         z = z + (if i < 20 then ((w AND (x XOR y)) XOR y) + b + 0x5A827999 + rol v 5
                  else if i < 40 then (w XOR x XOR y) + b + 0x6ED9EBA1 + rol v 5
                  else if i < 60 then (((w OR x) AND y) OR (w AND x)) + b + 0x8F1BBCDC + rol v 5
                  else (w XOR x XOR y) + b + 0xCA62C1D6 + rol v 5);
         w = rol w 30
     in ((z, v, w, x, y), l))"

definition SHA1Transform :: "uint32 list \<Rightarrow> byte list \<Rightarrow> uint32 list" where
  "SHA1Transform state buffer =
     (let ((a, b, c, d, e), _) =
        foldl (\<lambda>s i. sha1_R i s)
          ((state ! 0, state ! 1, state ! 2, state ! 3, state ! 4), load_block buffer) [0..<80]
      in [state ! 0 + a, state ! 1 + b, state ! 2 + c, state ! 3 + d, state ! 4 + e])"

definition SHA1Init :: sha1_ctx where
  "SHA1Init = \<lparr>sha_state = [0x67452301, 0xEFCDAB89, 0x98BADCFE, 0x10325476, 0xC3D2E1F0],
     sha_count0 = 0, sha_count1 = 0, sha_buffer = replicate 64 0\<rparr>"

definition memcpy :: "'a list \<Rightarrow> nat \<Rightarrow> 'a list \<Rightarrow> 'a list" where
  "memcpy dst off src = take off dst @ src @ drop (off + length src) dst"

text \<open>
  The loops are \<open>while_option\<close>: \<open>None\<close> is a loop that never ends, which the 32-bit index of
  \<open>SHA1Update\<close> allows for data of almost 4 GiB.
\<close>

definition sha1_blocks :: "byte list \<Rightarrow> uint32 \<Rightarrow> uint32 list \<times> uint32 \<Rightarrow> (uint32 list \<times> uint32) option" where
  "sha1_blocks data len =
     while_option (\<lambda>(st, i). i + 63 < len)
       (\<lambda>(st, i). (SHA1Transform st (take 64 (drop (unat i) data)), i + 64))"

definition SHA1Update :: "sha1_ctx \<Rightarrow> byte list \<Rightarrow> uint32 \<Rightarrow> sha1_ctx option" where
  "SHA1Update ctx data len =
     (let j = sha_count0 ctx;
          c0 = j + push_bit 3 len;
          c1 = (if c0 < j then sha_count1 ctx + 1 else sha_count1 ctx) + drop_bit 29 len;
          ctx = ctx\<lparr>sha_count0 := c0, sha_count1 := c1\<rparr>;
          j = drop_bit 3 j AND 63
      in if 63 < j + len
         then (let i = 64 - j;
                   buf = memcpy (sha_buffer ctx) (unat j) (take (unat i) data);
                   st = SHA1Transform (sha_state ctx) buf
               in case sha1_blocks data len (st, i) of
                    None \<Rightarrow> None
                  | Some (st, i) \<Rightarrow>
                      Some (ctx\<lparr>sha_state := st,
                        sha_buffer := memcpy buf 0 (take (unat (len - i)) (drop (unat i) data))\<rparr>))
         else Some (ctx\<lparr>sha_buffer := memcpy (sha_buffer ctx) (unat j) (take (unat len) data)\<rparr>))"

definition sha1_finalcount :: "sha1_ctx \<Rightarrow> byte list" where
  "sha1_finalcount ctx =
     map (\<lambda>i. ucast (drop_bit ((3 - (i mod 4)) * 8)
            (if 4 \<le> i then sha_count0 ctx else sha_count1 ctx) AND (255 :: uint32))) [0..<8]"

definition sha1_pad :: "sha1_ctx \<Rightarrow> sha1_ctx option" where
  "sha1_pad ctx =
     Option.bind
       (while_option (\<lambda>c. case c of None \<Rightarrow> False | Some c \<Rightarrow> (sha_count0 c AND 504) \<noteq> 448)
          (\<lambda>c. Option.bind c (\<lambda>c. SHA1Update c [0] 1)) (SHA1Update ctx [0x80] 1))
       id"

definition sha1_digest :: "uint32 list \<Rightarrow> byte list" where
  "sha1_digest st =
     map (\<lambda>i. ucast (drop_bit ((3 - (i mod 4)) * 8) (st ! (i div 4)) AND (255 :: uint32))) [0..<20]"

definition SHA1Final :: "sha1_ctx \<Rightarrow> byte list option" where
  "SHA1Final ctx =
     (case sha1_pad ctx of
        None \<Rightarrow> None
      | Some c \<Rightarrow>
          (case SHA1Update c (sha1_finalcount ctx) 8 of
             None \<Rightarrow> None
           | Some c \<Rightarrow> Some (sha1_digest (sha_state c))))"

text \<open>\<open>SHA1()\<close> feeds the string one byte at a time.\<close>

definition sha1_feed :: "sha1_ctx option \<Rightarrow> byte list \<Rightarrow> sha1_ctx option" where
  "sha1_feed c x = Option.bind c (\<lambda>c. SHA1Update c x (word_of_nat (length x)))"

definition SHA1 :: "byte list \<Rightarrow> byte list option" where
  "SHA1 str = Option.bind (foldl (\<lambda>c b. sha1_feed c [b]) (Some SHA1Init) str) SHA1Final"

section \<open>The reference: FIPS 180\<close>

definition be_word :: "byte list \<Rightarrow> uint32" where
  "be_word bs = push_bit 24 (ucast (bs ! 0)) OR push_bit 16 (ucast (bs ! 1))
     OR push_bit 8 (ucast (bs ! 2)) OR ucast (bs ! 3)"

fun sha1_W :: "byte list \<Rightarrow> nat \<Rightarrow> uint32" where
  "sha1_W block t =
     (if t < 16 then be_word (take 4 (drop (4 * t) block))
      else word_rotl 1 (sha1_W block (t - 3) XOR sha1_W block (t - 8)
             XOR sha1_W block (t - 14) XOR sha1_W block (t - 16)))"

declare sha1_W.simps [simp del]

definition sha1_f :: "nat \<Rightarrow> uint32 \<Rightarrow> uint32 \<Rightarrow> uint32 \<Rightarrow> uint32" where
  "sha1_f t b c d =
     (if t < 20 then (b AND c) XOR (NOT b AND d)
      else if t < 40 then b XOR c XOR d
      else if t < 60 then (b AND c) XOR (b AND d) XOR (c AND d)
      else b XOR c XOR d)"

definition sha1_K :: "nat \<Rightarrow> uint32" where
  "sha1_K t = (if t < 20 then 0x5A827999 else if t < 40 then 0x6ED9EBA1
               else if t < 60 then 0x8F1BBCDC else 0xCA62C1D6)"

definition sha1_round :: "byte list \<Rightarrow> sha1_regs \<Rightarrow> nat \<Rightarrow> sha1_regs" where
  "sha1_round block = (\<lambda>(a, b, c, d, e) t.
     (word_rotl 5 a + sha1_f t b c d + e + sha1_K t + sha1_W block t, a, word_rotl 30 b, c, d))"

definition sha1_compress :: "uint32 list \<Rightarrow> byte list \<Rightarrow> uint32 list" where
  "sha1_compress h block =
     (let (a, b, c, d, e) =
        foldl (sha1_round block) (h ! 0, h ! 1, h ! 2, h ! 3, h ! 4) [0..<80]
      in [h ! 0 + a, h ! 1 + b, h ! 2 + c, h ! 3 + d, h ! 4 + e])"

definition sha1_padding :: "byte list \<Rightarrow> byte list" where
  "sha1_padding m =
     m @ [0x80] @ replicate ((119 - length m mod 64) mod 64) 0
       @ map (\<lambda>i. word_of_nat (8 * length m div 256 ^ (7 - i))) [0..<8]"

fun blocks_of :: "byte list \<Rightarrow> byte list list" where
  "blocks_of bs = (if length bs < 64 then [] else take 64 bs # blocks_of (drop 64 bs))"

declare blocks_of.simps [simp del]

definition sha1_H0 :: "uint32 list" where
  "sha1_H0 = [0x67452301, 0xEFCDAB89, 0x98BADCFE, 0x10325476, 0xC3D2E1F0]"

definition sha1_hash :: "byte list \<Rightarrow> uint32 list" where
  "sha1_hash m = foldl sha1_compress sha1_H0 (blocks_of m)"

definition sha1_spec :: "byte list \<Rightarrow> byte list" where
  "sha1_spec m = sha1_digest (sha1_hash (sha1_padding m))"

section \<open>Words\<close>

lemma bit_rol: "m \<le> 32 \<Longrightarrow> k < 32 \<Longrightarrow> bit (rol x m) k = bit x ((k + (32 - m)) mod 32)"
proof -
  assume "m \<le> 32" "k < 32"
  then have "(k + (32 - m)) mod 32 = (if k < m then k + (32 - m) else k - m)"
    by (auto simp: mod_if)
  with \<open>m \<le> 32\<close> \<open>k < 32\<close> show ?thesis
    by (auto simp: rol_def bit_simps add.commute dest: bit_imp_le_length)
qed

lemma rol_rotl: "m < 32 \<Longrightarrow> rol x m = word_rotl m x"
  by (rule bit_word_eqI) (simp add: bit_rol bit_word_rotl_iff)

lemma bswap_masks:
  "(0xFF00FF00 :: uint32) = push_bit 8 (mask 8) OR push_bit 24 (mask 8)"
  "(0x00FF00FF :: uint32) = mask 8 OR push_bit 16 (mask 8)"
  by (simp_all add: mask_eq_exp_minus_1)

lemma byte_cases:
  assumes "n < (32 :: nat)"
  obtains r where "r < 8" "n = r" | r where "r < 8" "n = 8 + r"
    | r where "r < 8" "n = 16 + r" | r where "r < 8" "n = 24 + r"
proof -
  consider "n < 8" | "8 \<le> n" "n < 16" | "16 \<le> n" "n < 24" | "24 \<le> n" using assms by arith
  then show ?thesis
    by cases (use that(1)[of n] that(2)[of "n - 8"] that(3)[of "n - 16"] that(4)[of "n - 24"] assms in auto)
qed

lemma not_bit_byte: "8 \<le> n \<Longrightarrow> \<not> bit (b :: byte) n"
  by (auto dest: bit_imp_le_length)

lemma bit_le_word:
  assumes "r < 8"
  shows "bit (le_word bs) r = bit (bs ! 0) r" "bit (le_word bs) (8 + r) = bit (bs ! 1) r"
    "bit (le_word bs) (16 + r) = bit (bs ! 2) r" "bit (le_word bs) (24 + r) = bit (bs ! 3) r"
  using assms by (simp_all add: le_word_def bit_simps not_bit_byte)

lemma bit_be_word:
  assumes "r < 8"
  shows "bit (be_word bs) r = bit (bs ! 3) r" "bit (be_word bs) (8 + r) = bit (bs ! 2) r"
    "bit (be_word bs) (16 + r) = bit (bs ! 1) r" "bit (be_word bs) (24 + r) = bit (bs ! 0) r"
  using assms by (simp_all add: be_word_def bit_simps not_bit_byte)

lemma bit_bswap:
  assumes "r < 8"
  shows "bit (bswap x) r = bit x (24 + r)" "bit (bswap x) (8 + r) = bit x (16 + r)"
    "bit (bswap x) (16 + r) = bit x (8 + r)" "bit (bswap x) (24 + r) = bit x r"
proof -
  have m: "(24 + r) mod 32 = 24 + r" "(r + 8) mod 32 = r + 8" "(16 + r) mod 32 = 16 + r" 
    "(32 + r) mod 32 = r" "(40 + r) mod 32 = 8 + r" "(48 + r) mod 32 = 16 + r"
    using assms by (simp_all add: mod_if)
  show "bit (bswap x) r = bit x (24 + r)" "bit (bswap x) (8 + r) = bit x (16 + r)"
    "bit (bswap x) (16 + r) = bit x (8 + r)" "bit (bswap x) (24 + r) = bit x r"
    using assms m
    by (simp_all add: bswap_def bswap_masks bit_or_iff bit_and_iff bit_rol bit_push_bit_iff bit_mask_iff
        add.commute add.left_commute del: push_bit_mask_eq)
qed

lemma bswap_le_word: "bswap (le_word bs) = be_word bs"
proof (rule bit_word_eqI)
  fix n assume "n < LENGTH(32)"
  then have "n < 32" by simp
  then show "bit (bswap (le_word bs)) n = bit (be_word bs) n"
    by (cases rule: byte_cases) (simp_all add: bit_bswap bit_le_word bit_be_word)
qed

lemma sha1_choose: "((w AND (x XOR y)) XOR y) = (w AND x) XOR (NOT w AND (y :: uint32))"
  by (rule bit_word_eqI) (auto simp: bit_simps)

lemma sha1_majority:
  "((w OR x) AND y) OR (w AND x) = (w AND x) XOR (w AND y) XOR (x AND (y :: uint32))"
  by (rule bit_word_eqI) (auto simp: bit_simps)
section \<open>The transform computes the compression function\<close>

text \<open>
  Before round \<open>t\<close> the circular block holds the last sixteen words of the schedule, and the words
  of the message that no round has read yet, still in the byte order of memory.
\<close>

definition sched_inv :: "byte list \<Rightarrow> nat \<Rightarrow> uint32 list \<Rightarrow> bool" where
  "sched_inv block t l \<longleftrightarrow> length l = 16
     \<and> (\<forall>k. k < t \<and> t \<le> k + 16 \<longrightarrow> l ! (k mod 16) = sha1_W block k)
     \<and> (\<forall>k. t \<le> k \<and> k < 16 \<longrightarrow> bswap (l ! k) = sha1_W block k)"

lemma sched_inv_load: "sched_inv block 0 (load_block block)"
  by (simp add: sched_inv_def load_block_def bswap_le_word sha1_W.simps [of block k for k])

lemma blk0_sched:
  assumes inv: "sched_inv block t l" and t: "t < 16"
  shows "snd (blk0 l t) = sha1_W block t" "sched_inv block (Suc t) (fst (blk0 l t))"
proof -
  show w: "snd (blk0 l t) = sha1_W block t"
    using inv t by (simp add: blk0_def sched_inv_def Let_def)
  show "sched_inv block (Suc t) (fst (blk0 l t))"
    using inv t w by (auto simp: blk0_def sched_inv_def Let_def nth_list_update less_Suc_eq)
qed

lemma mod16_window: "t - 16 < k \<Longrightarrow> k < t \<Longrightarrow> k mod 16 \<noteq> t mod (16 :: nat)"
proof
  assume k: "t - 16 < k" "k < t" and "k mod 16 = t mod 16"
  then have "16 dvd t - k" by (metis less_imp_le mod_eq_dvd_iff_nat)
  with k show False by (auto dest!: dvd_imp_le)
qed

lemma mod16_back:
  assumes "16 \<le> t"
  shows "(t + 13) mod 16 = (t - 3) mod (16 :: nat)" "(t + 8) mod 16 = (t - 8) mod (16 :: nat)"
    "(t + 2) mod 16 = (t - 14) mod (16 :: nat)" "t mod 16 = (t - 16) mod (16 :: nat)"
proof -
  have shift: "(t + a) mod 16 = (t - b) mod 16" if "a + b = 16" for a b
  proof -
    have "t + a = (t - b) + 16" using that assms by simp
    then show ?thesis by simp
  qed
  show "(t + 13) mod 16 = (t - 3) mod 16" "(t + 8) mod 16 = (t - 8) mod 16"
    "(t + 2) mod 16 = (t - 14) mod 16" "t mod 16 = (t - 16) mod 16"
    using shift [of 13 3] shift [of 8 8] shift [of 2 14] shift [of 0 16] by simp_all
qed

lemma blk_sched:
  assumes inv: "sched_inv block t l" and t: "16 \<le> t"
  shows "snd (blk l t) = sha1_W block t" "sched_inv block (Suc t) (fst (blk l t))"
proof -
  have prev: "l ! ((t - d) mod 16) = sha1_W block (t - d)" if "0 < d" "d \<le> 16" for d
    using inv t that by (auto simp: sched_inv_def)
  have "l ! ((t + 13) mod 16) = sha1_W block (t - 3)" "l ! ((t + 8) mod 16) = sha1_W block (t - 8)"
    "l ! ((t + 2) mod 16) = sha1_W block (t - 14)" "l ! (t mod 16) = sha1_W block (t - 16)"
    by (simp_all only: mod16_back [OF t], simp_all add: prev)
  then have "snd (blk l t) = sha1_W block t"
    using t by (simp add: blk_def Let_def rol_rotl sha1_W.simps [of block t] xor.assoc)
  then show w: "snd (blk l t) = sha1_W block t" .
  then have l': "fst (blk l t) = l[t mod 16 := sha1_W block t]"
    by (simp add: blk_def Let_def)
  show "sched_inv block (Suc t) (fst (blk l t))"
    unfolding sched_inv_def l'
  proof (intro conjI allI impI)
    fix k assume k: "k < Suc t \<and> Suc t \<le> k + 16"
    show "l[t mod 16 := sha1_W block t] ! (k mod 16) = sha1_W block k"
    proof (cases "k = t")
      case True
      then show ?thesis using inv by (simp add: sched_inv_def)
    next
      case False
      then have "k mod 16 \<noteq> t mod 16" using k t by (intro mod16_window) auto
      then show ?thesis using inv k False by (simp add: sched_inv_def)
    qed
  qed (use inv t in \<open>auto simp: sched_inv_def\<close>)
qed

lemma sha1_R_round:
  assumes "sched_inv block t l"
  obtains l' where "sha1_R t (r, l) = (sha1_round block r t, l')" "sched_inv block (Suc t) l'"
proof -
  obtain v w x y z where r: "r = (v, w, x, y, z)" by (cases r)
  obtain l' b where p: "(if t < 16 then blk0 l t else blk l t) = (l', b)" by (rule prod.exhaust)
  then have b: "b = sha1_W block t" and l': "sched_inv block (Suc t) l'"
    using blk0_sched [OF assms] blk_sched [OF assms] by (auto split: if_splits)
  have "sha1_R t (r, l) = (sha1_round block r t, l')"
    unfolding sha1_R_def sha1_round_def sha1_f_def sha1_K_def r Let_def split p b
      sha1_choose sha1_majority
    by (auto simp: rol_rotl add.assoc add.commute add.left_commute)
  with l' show ?thesis by (rule that [rotated])
qed

lemma sha1_rounds:
  "\<exists>l. foldl (\<lambda>s i. sha1_R i s) (r, load_block block) [0..<n] =
      (foldl (sha1_round block) r [0..<n], l) \<and> sched_inv block n l"
proof (induction n)
  case 0
  then show ?case by (simp add: sched_inv_load)
next
  case (Suc n)
  then obtain l where l: "foldl (\<lambda>s i. sha1_R i s) (r, load_block block) [0..<n] =
      (foldl (sha1_round block) r [0..<n], l)" "sched_inv block n l" by blast
  from sha1_R_round [OF l(2)] obtain l' where
    "sha1_R n (foldl (sha1_round block) r [0..<n], l) =
       (sha1_round block (foldl (sha1_round block) r [0..<n]) n, l')" "sched_inv block (Suc n) l'" .
  with l(1) show ?case by auto
qed

lemma SHA1Transform_compress: "SHA1Transform state buffer = sha1_compress state buffer"
proof -
  let ?r = "(state ! 0, state ! 1, state ! 2, state ! 3, state ! 4)"
  obtain l where "foldl (\<lambda>s i. sha1_R i s) (?r, load_block buffer) [0..<80] =
      (foldl (sha1_round buffer) ?r [0..<80], l)" using sha1_rounds by blast
  then show ?thesis
    by (simp add: SHA1Transform_def sha1_compress_def case_prod_beta)
qed

end
