(* ===== verification/Sha1_Stream.thy ===== *)
theory Sha1_Stream
  imports Sha1
begin

text \<open>
  The buffering and padding of \<open>src/sha1.c\<close> against FIPS 180: a context stands for the message fed
  so far (\<open>sha1_repr\<close>), one update appends its data to it whatever their length, the padding loop
  ends and the digest is that of the padded message. \<open>sha1()\<close> of \<open>src/core.c\<close>, which prints the
  digest in hexadecimal, is modelled at the end.
\<close>

section \<open>Buffering\<close>

lemma blocks_of_short: "length m < 64 \<Longrightarrow> blocks_of m = []"
  by (simp add: blocks_of.simps)

lemma blocks_of_Cons: "64 \<le> length m \<Longrightarrow> blocks_of m = take 64 m # blocks_of (drop 64 m)"
  by (subst blocks_of.simps) simp

lemma blocks_of_append: "64 dvd length a \<Longrightarrow> blocks_of (a @ b) = blocks_of a @ blocks_of b"
proof (induction a rule: blocks_of.induct)
  case (1 a)
  show ?case
  proof (cases "length a < 64")
    case True
    with "1.prems" have "a = []" by (auto dest: dvd_imp_le)
    then show ?thesis by (simp add: blocks_of_short)
  next
    case False
    with "1.prems" have "64 dvd length (drop 64 a)" by (simp add: dvd_diff_nat)
    with "1.IH" False have "blocks_of (drop 64 a @ b) = blocks_of (drop 64 a) @ blocks_of b" by simp
    with False show ?thesis by (simp add: blocks_of_Cons)
  qed
qed

text \<open>
  \<open>sha1_repr c m\<close>: the context \<open>c\<close> stands for the message \<open>m\<close>. The two counters hold its length
  in bits, the state has absorbed its complete blocks and the buffer starts with the rest.
\<close>

definition sha1_repr :: "sha1_ctx \<Rightarrow> byte list \<Rightarrow> bool" where
  "sha1_repr c m \<longleftrightarrow>
     sha_count0 c = word_of_nat (8 * length m)
   \<and> sha_count1 c = word_of_nat (8 * length m div 2 ^ 32)
   \<and> sha_state c = sha1_hash m
   \<and> length (sha_buffer c) = 64
   \<and> take (length m mod 64) (sha_buffer c) = drop (64 * (length m div 64)) m"

lemma sha1_repr_init: "sha1_repr SHA1Init []"
  by (simp add: sha1_repr_def SHA1Init_def sha1_hash_def sha1_H0_def blocks_of_short)

lemma unat_count: "unat (word_of_nat (8 * n) :: uint32) = 8 * (n mod 2 ^ 29)"
  by (simp only: unat_of_nat) (simp add: mult_mod_right)

lemma sha1_index: "unat (drop_bit 3 (word_of_nat (8 * n) :: uint32) AND 63) = n mod 64"
proof -
  have "(63 :: uint32) = mask 6" by (simp add: mask_eq_exp_minus_1)
  then have "drop_bit 3 (word_of_nat (8 * n) :: uint32) AND 63 =
      take_bit 6 (drop_bit 3 (word_of_nat (8 * n)))"
    by (simp only: take_bit_eq_mask)
  moreover have "unat (drop_bit 3 (word_of_nat (8 * n) :: uint32)) = n mod 2 ^ 29"
    by (simp only: unat_drop_bit_eq drop_bit_nat_def unat_count) simp
  ultimately have "unat (drop_bit 3 (word_of_nat (8 * n) :: uint32) AND 63) = take_bit 6 (n mod 2 ^ 29)"
    by (simp only: unsigned_take_bit_eq)
  also have "\<dots> = n mod 64"
    by (simp only: take_bit_nat_def) (simp add: mod_mod_cancel)
  finally show ?thesis .
qed

lemma sha1_carry:
  fixes a b :: uint32
  shows "a + b < a \<longleftrightarrow> 2 ^ 32 \<le> unat a + unat b"
proof -
  have "unat a < 2 ^ 32" "unat b < 2 ^ 32" using unat_less_pow [of a] unat_less_pow [of b] by simp_all
  then show ?thesis
    unfolding word_less_nat_alt unat_word_ariths
    by (cases "unat a + unat b < 2 ^ 32") (auto simp: mod_if)
qed

lemma sha1_counters:
  assumes c0: "c0 = (word_of_nat (8 * n) :: uint32)" and c1: "c1 = word_of_nat (8 * n div 2 ^ 32)"
    and len: "len = word_of_nat k" and k: "k < 2 ^ 32"
  shows "c0 + push_bit 3 len = word_of_nat (8 * (n + k))"
    "(if c0 + push_bit 3 len < c0 then c1 + 1 else c1) + drop_bit 29 len
       = word_of_nat (8 * (n + k) div 2 ^ 32)"
proof -
  have push: "push_bit 3 len = word_of_nat (8 * k)"
    by (simp add: len push_bit_eq_mult)
  show "c0 + push_bit 3 len = word_of_nat (8 * (n + k))"
    by (simp add: c0 push algebra_simps)
  have drop: "drop_bit 29 len = word_of_nat (k div 2 ^ 29)"
  proof -
    have "unat (drop_bit 29 len) = k div 2 ^ 29"
      using k by (simp only: unat_drop_bit_eq drop_bit_nat_def len unat_of_nat) simp
    moreover have "unat (word_of_nat (k div 2 ^ 29) :: uint32) = k div 2 ^ 29"
      using k by (simp only: unat_of_nat) simp
    ultimately show ?thesis by (simp only: word_unat_eq_iff)
  qed
  have one: "(x + y) div c = (if c \<le> x + y then 1 else 0)" if "x < c" "y < c" for x y c :: nat
    using that by (auto simp: div_nat_eqI le_div_geq)
  have "8 * k div 2 ^ 32 = k div 2 ^ 29" by simp
  then have "8 * (n + k) div 2 ^ 32 =
      8 * n div 2 ^ 32 + k div 2 ^ 29 + (if 2 ^ 32 \<le> 8 * n mod 2 ^ 32 + 8 * k mod 2 ^ 32 then 1 else 0)"
    by (simp only: distrib_left div_add1_eq [of "8 * n"] one [of "8 * n mod 2 ^ 32" "2 ^ 32" "8 * k mod 2 ^ 32"]
        mod_less_divisor zero_less_numeral zero_less_power)
  moreover have "c0 + push_bit 3 len < c0 \<longleftrightarrow> 2 ^ 32 \<le> 8 * n mod 2 ^ 32 + 8 * k mod 2 ^ 32"
    by (simp only: sha1_carry c0 push unat_of_nat) simp
  ultimately show "(if c0 + push_bit 3 len < c0 then c1 + 1 else c1) + drop_bit 29 len
       = word_of_nat (8 * (n + k) div 2 ^ 32)"
    by (simp add: c1 drop)
qed

section \<open>Update\<close>

lemma unat_of_nat_small: "k < 2 ^ 32 \<Longrightarrow> unat (word_of_nat k :: uint32) = k"
  by (simp only: unat_of_nat) simp

lemma of_nat_less_small:
  "a < 2 ^ 32 \<Longrightarrow> b < 2 ^ 32 \<Longrightarrow> (word_of_nat a :: uint32) < word_of_nat b \<longleftrightarrow> a < b"
  by (simp only: word_less_nat_alt unat_of_nat_small)

text \<open>The block loop ends, unless the data are within 64 bytes of 4 GiB.\<close>

lemma sha1_blocks_eq:
  assumes k: "length data = k" "k + 64 < 2 ^ 32" and i: "i \<le> k"
  shows "sha1_blocks data (word_of_nat k) (st, word_of_nat i) =
    Some (foldl sha1_compress st (blocks_of (drop i data)), word_of_nat (k - (k - i) mod 64))"
  using i
proof (induction "k - i" arbitrary: i st rule: less_induct)
  case less
  have guard: "(word_of_nat i + 63 :: uint32) < word_of_nat k \<longleftrightarrow> i + 63 < k"
    using of_nat_less_small [of "i + 63" k] k less.prems by simp
  show ?case
  proof (cases "i + 63 < k")
    case True
    let ?st = "sha1_compress st (take 64 (drop i data))"
    have step: "sha1_blocks data (word_of_nat k) (st, word_of_nat i) =
        sha1_blocks data (word_of_nat k) (?st, word_of_nat (i + 64))"
      unfolding sha1_blocks_def
      using True guard unat_of_nat_small [of i] k less.prems
      by (subst while_option_unfold) (simp add: SHA1Transform_compress)
    have "k - (k - (i + 64)) mod 64 = k - (k - i) mod 64"
    proof -
      have "k - i = (k - (i + 64)) + 64" using True by simp
      then show ?thesis by (metis mod_add_self2)
    qed
    with step less.hyps [of "i + 64" ?st] True show ?thesis
      using k by (simp add: blocks_of_Cons [of "drop i data"] add.commute)
  next
    case False
    then show ?thesis
      unfolding sha1_blocks_def using guard k less.prems
      by (subst while_option_unfold) (simp add: blocks_of_short)
  qed
qed

lemma sha1_hash_append:
  assumes c: "length m mod 64 = j" "drop (64 * (length m div 64)) m = rest"
    and i: "length x \<ge> 64 - j"
  shows "sha1_hash (m @ x) =
    foldl sha1_compress (sha1_compress (sha1_hash m) (rest @ take (64 - j) x)) (blocks_of (drop (64 - j) x))"
proof -
  define a where "a = take (64 * (length m div 64)) m"
  have m: "m = a @ rest" unfolding a_def c(2) [symmetric] by simp
  have a: "64 dvd length a" by (simp add: a_def)
  have "length rest = length m - 64 * (length m div 64)" unfolding c(2) [symmetric] by simp
  with c(1) have rest: "length rest = j" by (simp add: minus_mult_div_eq_mod)
  have j: "j < 64" using c(1) by auto
  have bm: "blocks_of m = blocks_of a"
    using rest j a by (simp add: m blocks_of_append blocks_of_short)
  have "blocks_of (m @ x) = blocks_of a @ blocks_of ((rest @ take (64 - j) x) @ drop (64 - j) x)"
    using a by (simp add: m blocks_of_append)
  also have "blocks_of ((rest @ take (64 - j) x) @ drop (64 - j) x) =
      (rest @ take (64 - j) x) # blocks_of (drop (64 - j) x)"
    using rest j i by (subst blocks_of_Cons) simp_all
  finally show ?thesis by (simp add: sha1_hash_def bm)
qed

lemma sha1_hash_short: "length m mod 64 + length x < 64 \<Longrightarrow> sha1_hash (m @ x) = sha1_hash m"
proof -
  assume short: "length m mod 64 + length x < 64"
  define a where "a = take (64 * (length m div 64)) m"
  define r where "r = drop (64 * (length m div 64)) m"
  have m: "m = a @ r" and a: "64 dvd length a" by (simp_all add: a_def r_def)
  have "length r = length m mod 64" by (simp add: r_def minus_mult_div_eq_mod)
  with short have "blocks_of r = []" "blocks_of (r @ x) = []" by (simp_all add: blocks_of_short)
  then show ?thesis
    unfolding sha1_hash_def m append_assoc blocks_of_append [OF a] by simp
qed

text \<open>One call of the update appends its data to the message the context stands for.\<close>

lemma SHA1Update_repr:
  assumes c: "sha1_repr c m" and k: "length x + 64 < 2 ^ 32"
  obtains c' where "SHA1Update c x (word_of_nat (length x)) = Some c'" "sha1_repr c' (m @ x)"
proof -
  define n where "n = length m"
  define k where "k = length x"
  define j where "j = n mod 64"
  define len where "len = (word_of_nat k :: uint32)"
  have k32: "k < 2 ^ 32" "k + 64 < 2 ^ 32" using k by (simp_all add: k_def)
  have j: "j < 64" by (simp add: j_def)
  have buf: "length (sha_buffer c) = 64" "take j (sha_buffer c) = drop (64 * (n div 64)) m"
    and st: "sha_state c = sha1_hash m"
    using c by (simp_all add: sha1_repr_def n_def j_def)
  note cnt = sha1_counters [of "sha_count0 c" n "sha_count1 c" len k]
  define c0' where "c0' = (word_of_nat (8 * (n + k)) :: uint32)"
  define c1' where "c1' = (word_of_nat (8 * (n + k) div 2 ^ 32) :: uint32)"
  have cnts: "sha_count0 c + push_bit 3 len = c0'"
    "(if sha_count0 c + push_bit 3 len < sha_count0 c then sha_count1 c + 1 else sha_count1 c)
       + drop_bit 29 len = c1'"
    unfolding c0'_def c1'_def using c k32 by (intro cnt; simp add: sha1_repr_def n_def len_def)+
  have c0: "sha_count0 c = word_of_nat (8 * n)" using c unfolding sha1_repr_def n_def by blast
  have "unat (word_of_nat j :: uint32) = j" using j by (intro unat_of_nat_small) simp
  then have idx: "drop_bit 3 (sha_count0 c) AND 63 = word_of_nat j"
    unfolding c0 word_unat_eq_iff sha1_index by (simp add: j_def)
  have lt: "(63 < (word_of_nat j :: uint32) + len) = (63 < j + k)"
    using of_nat_less_small [of 63 "j + k"] j k32 by (simp add: len_def)
  have unat_len: "unat len = k" unfolding len_def using k32 by (intro unat_of_nat_small) simp
  have unat_j: "unat (word_of_nat j :: uint32) = j" using j by (intro unat_of_nat_small) simp
  have take_k: "take k x = x" by (simp add: k_def)
  show ?thesis
  proof (cases "63 < j + k")
    case False
    let ?c = "c\<lparr>sha_count0 := c0', sha_count1 := c1',
        sha_buffer := memcpy (sha_buffer c) j x\<rparr>"
    have "SHA1Update c x len = Some ?c"
      unfolding SHA1Update_def Let_def cnts(2) unfolding cnts(1) idx lt
      using False by (simp add: unat_len unat_j take_k)
    moreover have nk: "n + k = (j + k) + (n div 64) * 64" by (simp add: j_def)
    have "j + k < 64" using False by simp
    then have "(n + k) mod 64 = j + k" "(n + k) div 64 = n div 64"
      by (simp_all add: nk)
    then have "sha1_repr ?c (m @ x)"
      using False buf st j unfolding sha1_repr_def
      by (simp add: n_def [symmetric] k_def [symmetric] memcpy_def sha1_hash_short j_def c0'_def c1'_def
          minus_mult_div_eq_mod)
    ultimately show ?thesis by (intro that) (simp_all add: len_def k_def)
  next
    case True
    define i where "i = 64 - j"
    have i: "i \<le> k" "i + j = 64" using True j by (simp_all add: i_def)
    define r where "r = (k - i) mod 64"
    have r: "r < 64" "r \<le> k - i" by (simp_all add: r_def)
    have i64: "64 - word_of_nat j = (word_of_nat i :: uint32)"
      using j by (simp add: i_def of_nat_diff)
    define e where "e = k - r"
    have "len - word_of_nat e = word_of_nat r" using r by (simp add: len_def e_def)
    then have len_r: "unat (len - word_of_nat e) = r" "unat (word_of_nat e :: uint32) = e"
      using r k32 unat_of_nat_small [of r] unat_of_nat_small [of e] by (simp_all add: e_def)
    have tail: "take r (drop e x) = drop e x" using r by (simp add: e_def k_def)
    define buf where "buf = take j (sha_buffer c) @ take i x"
    have lbuf: "length buf = 64" using buf(1) i by (simp add: buf_def k_def)
    have mem: "memcpy (sha_buffer c) j (take i x) = buf"
      using buf(1) i by (simp add: memcpy_def buf_def k_def)
    let ?c = "c\<lparr>sha_count0 := c0', sha_count1 := c1',
        sha_state := foldl sha1_compress (sha1_compress (sha1_hash m) buf) (blocks_of (drop i x)),
        sha_buffer := memcpy buf 0 (drop e x)\<rparr>"
    have "SHA1Update c x len = Some ?c"
      unfolding SHA1Update_def Let_def cnts(2) unfolding cnts(1) idx lt i64
      using True i k32 r j sha1_blocks_eq [of x k i "sha1_compress (sha1_hash m) buf"]
      by (simp add: SHA1Transform_compress unat_of_nat_small mem st len_r len_def [symmetric]
          k_def [symmetric] r_def [symmetric] e_def [symmetric] tail)
    moreover have "sha1_repr ?c (m @ x)"
    proof -
      have nk: "n + k = 64 * (n div 64 + 1) + (k - i)"
        using i by (simp add: j_def minus_div_mult_eq_mod [symmetric])
      have r': "(n + k) mod 64 = r" unfolding nk r_def by (rule mod_mult_self4)
      have "64 * ((n + k) div 64) = n + k - r"
        unfolding r' [symmetric] by (simp add: minus_mod_eq_mult_div)
      then have q: "64 * ((n + k) div 64) = n + (k - r)" using r i by simp
      have "sha1_hash (m @ x) =
          foldl sha1_compress (sha1_compress (sha1_hash m) buf) (blocks_of (drop i x))"
        using sha1_hash_append [of m j "take j (sha_buffer c)" x] buf(2) i
        by (simp add: buf_def n_def j_def i_def k_def)
      with lbuf r r' q show ?thesis
        unfolding sha1_repr_def
        by (simp add: n_def [symmetric] k_def [symmetric] memcpy_def c0'_def c1'_def e_def)
    qed
    ultimately show ?thesis by (intro that) (simp_all add: len_def k_def)
  qed
qed


section \<open>Padding and digest\<close>

lemma sha1_repr_count: "sha1_repr c m \<Longrightarrow> (sha_count0 c AND 504) \<noteq> 448 \<longleftrightarrow> length m mod 64 \<noteq> 56"
proof -
  assume "sha1_repr c m"
  then have c0: "sha_count0 c = word_of_nat (8 * length m)" unfolding sha1_repr_def by blast
  have "x AND push_bit 3 (mask 6) = push_bit 3 (drop_bit 3 x AND mask 6)" for x :: uint32
    by (rule bit_word_eqI) (auto simp: bit_push_bit_iff bit_and_iff bit_drop_bit_eq bit_mask_iff)
  moreover have "(504 :: uint32) = push_bit 3 (mask 6)" "(63 :: uint32) = mask 6"
    by (simp_all add: mask_eq_exp_minus_1)
  ultimately have "sha_count0 c AND 504 = push_bit 3 (drop_bit 3 (sha_count0 c) AND 63)"
    by (simp only:)
  moreover have "drop_bit 3 (sha_count0 c) AND 63 = word_of_nat (length m mod 64)"
    unfolding c0 word_unat_eq_iff sha1_index by (rule unat_of_nat_small [symmetric]) simp
  ultimately have eq: "sha_count0 c AND 504 = word_of_nat (8 * (length m mod 64))"
    by (simp add: push_bit_eq_mult)
  have "unat (word_of_nat (8 * (length m mod 64)) :: uint32) = 8 * (length m mod 64)"
    by (rule unat_of_nat_small) (simp add: less_trans [of _ 512])
  then show ?thesis
    unfolding eq word_unat_eq_iff by simp
qed

definition sha1_pad_loop :: "sha1_ctx option \<Rightarrow> sha1_ctx option option" where
  "sha1_pad_loop =
     while_option (\<lambda>c. case c of None \<Rightarrow> False | Some c \<Rightarrow> (sha_count0 c AND 504) \<noteq> 448)
       (\<lambda>c. Option.bind c (\<lambda>c. SHA1Update c [0] 1))"

lemma sha1_pad_loop_repr:
  "sha1_repr c m \<Longrightarrow> (length m + z) mod 64 = 56 \<Longrightarrow> z < 64 \<Longrightarrow>
     \<exists>c'. sha1_pad_loop (Some c) = Some (Some c') \<and> sha1_repr c' (m @ replicate z 0)"
proof (induction z arbitrary: c m)
  case 0
  then show ?case
    unfolding sha1_pad_loop_def using sha1_repr_count [OF 0(1)]
    by (subst while_option_unfold) simp
next
  case (Suc z)
  have "length m mod 64 \<noteq> 56"
  proof
    assume "length m mod 64 = 56"
    with Suc.prems(2) have "64 dvd (length m + Suc z) - length m"
      by (metis le_add1 mod_eq_dvd_iff_nat)
    with Suc.prems(3) show False by (auto dest: dvd_imp_le)
  qed
  then have guard: "(sha_count0 c AND 504) \<noteq> 448" using sha1_repr_count [OF Suc.prems(1)] by blast
  obtain c1 where c1: "SHA1Update c [0] 1 = Some c1" "sha1_repr c1 (m @ [0])"
    using SHA1Update_repr [OF Suc.prems(1), of "[0]"] by auto
  with guard have "sha1_pad_loop (Some c) = sha1_pad_loop (Some c1)"
    unfolding sha1_pad_loop_def by (subst while_option_unfold) simp
  with Suc.IH [OF c1(2)] Suc.prems(2,3) show ?case by simp
qed

lemma mod64_pad: "(n + 1 + (119 - n mod 64) mod 64) mod 64 = (56 :: nat)"
proof -
  have "(n + 1 + w) mod 64 = (n mod 64 + 1 + w) mod 64" for w
    by (metis mod_add_left_eq add.assoc)
  moreover have "(r + 1 + (119 - r) mod 64) mod 64 = 56" if "r < 64" for r :: nat
  proof (cases "r \<le> 55")
    case True
    then have "119 - r = 64 + (55 - r)" "55 - r < 64" by simp_all
    then have "(119 - r) mod 64 = 55 - r" by (metis mod_add_self1 mod_less)
    with True show ?thesis by simp
  next
    case False
    with that have "(119 - r) mod 64 = 119 - r" and sum: "r + 1 + (119 - r) = 64 + 56" by simp_all
    then show ?thesis by (simp only: sum) simp
  qed
  ultimately show ?thesis by simp
qed

lemma sha1_finalcount_bytes:
  assumes "sha1_repr c m"
  shows "sha1_finalcount c = map (\<lambda>i. word_of_nat (8 * length m div 256 ^ (7 - i))) [0..<8]"
proof -
  let ?n = "8 * length m"
  have c: "sha_count0 c = word_of_nat ?n" "sha_count1 c = word_of_nat (?n div 2 ^ 32)"
    using assms unfolding sha1_repr_def by blast+
  have byte: "ucast (drop_bit (8 * e) (word_of_nat x :: uint32) AND 255) = (word_of_nat (x div 256 ^ e) :: byte)"
    if "e < 4" for e x
  proof -
    have "(255 :: uint32) = mask 8" by (simp add: mask_eq_exp_minus_1)
    then have "ucast (drop_bit (8 * e) (word_of_nat x :: uint32) AND 255) =
        (ucast (take_bit 8 (drop_bit (8 * e) (word_of_nat x :: uint32))) :: byte)"
      by (simp only: take_bit_eq_mask)
    also have "\<dots> = word_of_nat (x div 256 ^ e)"
    proof (rule bit_word_eqI)
      fix n assume "n < LENGTH(8)"
      then have "n < 8" "n + 8 * e < 32" using that by simp_all
      moreover have "x div 256 ^ e = drop_bit (8 * e) x"
        by (simp add: drop_bit_eq_div power_mult)
      ultimately show "bit (ucast (take_bit 8 (drop_bit (8 * e) (word_of_nat x :: uint32))) :: byte) n =
          bit (word_of_nat (x div 256 ^ e) :: byte) n"
        by (simp add: bit_take_bit_iff bit_drop_bit_eq bit_ucast_iff bit_of_nat_iff bit_of_nat_iff_bit possible_bit_def add.commute)
    qed
    finally show ?thesis .
  qed
  have "sha1_finalcount c = map (\<lambda>i. ucast (drop_bit (8 * (3 - i mod 4))
      (word_of_nat (if 4 \<le> i then ?n else ?n div 2 ^ 32)) AND (255 :: uint32))) [0..<8]"
    unfolding sha1_finalcount_def c by (simp add: mult.commute if_distrib)
  also have "\<dots> = map (\<lambda>i. word_of_nat (?n div 256 ^ (7 - i))) [0..<8]"
  proof (rule map_cong [OF refl])
    have div: "(if 4 \<le> i then N else N div 2 ^ 32) div 256 ^ (3 - i mod 4) = N div 256 ^ (7 - i)"
      if i: "i < 8" for i :: nat and N :: nat
    proof -
      consider "i = 0" | "i = 1" | "i = 2" | "i = 3" | "i = 4" | "i = 5" | "i = 6" | "i = 7"
        using i by arith
      then show ?thesis by cases (simp_all flip: div_mult2_eq)
    qed
    fix i assume "i \<in> set [0..<8 :: nat]"
    then have "i < 8" "3 - i mod 4 < 4" by simp_all
    then show "ucast (drop_bit (8 * (3 - i mod 4))
        (word_of_nat (if 4 \<le> i then ?n else ?n div 2 ^ 32)) AND (255 :: uint32)) =
        (word_of_nat (?n div 256 ^ (7 - i)) :: byte)"
      by (simp only: byte div)
  qed
  finally show ?thesis .
qed

lemma SHA1Final_spec:
  assumes c: "sha1_repr c m"
  shows "SHA1Final c = Some (sha1_spec m)"
proof -
  let ?z = "(119 - length m mod 64) mod 64"
  obtain c1 where c1: "SHA1Update c [0x80] 1 = Some c1" "sha1_repr c1 (m @ [0x80])"
    using SHA1Update_repr [OF c, of "[0x80]"] by auto
  obtain c2 where c2: "sha1_pad_loop (Some c1) = Some (Some c2)" "sha1_repr c2 ((m @ [0x80]) @ replicate ?z 0)"
    using sha1_pad_loop_repr [OF c1(2), of ?z] mod64_pad [of "length m"] by auto
  have pad: "sha1_pad c = Some c2"
    using c1(1) c2(1) by (simp add: sha1_pad_def sha1_pad_loop_def)
  have "length (sha1_finalcount c) = 8" by (simp add: sha1_finalcount_def)
  then obtain c3 where c3: "SHA1Update c2 (sha1_finalcount c) 8 = Some c3"
      "sha1_repr c3 (((m @ [0x80]) @ replicate ?z 0) @ sha1_finalcount c)"
    using SHA1Update_repr [OF c2(2), of "sha1_finalcount c"] by auto
  have "sha_state c3 = sha1_hash (sha1_padding m)"
    using c3(2) unfolding sha1_repr_def sha1_finalcount_bytes [OF c] sha1_padding_def by simp
  with pad c3(1) show ?thesis by (simp add: SHA1Final_def sha1_spec_def)
qed


section \<open>The streaming contract\<close>

interpretation sha: streaming_digest "Some SHA1Init" sha1_feed "\<lambda>c. Option.bind c SHA1Final"
    "\<lambda>c m. \<exists>c'. c = Some c' \<and> sha1_repr c' m" "\<lambda>m. length m + 64 < 2 ^ 32" "\<lambda>m. Some (sha1_spec m)"
proof unfold_locales
  show "\<exists>c'. Some SHA1Init = Some c' \<and> sha1_repr c' []" by (simp add: sha1_repr_init)
next
  fix c m x assume "\<exists>c'. c = Some c' \<and> sha1_repr c' m" and "length (m @ x) + 64 < (2 :: nat) ^ 32"
  then obtain c' where c: "c = Some c'" "sha1_repr c' m" and x: "length x + 64 < 2 ^ 32" by auto
  from SHA1Update_repr [OF c(2) x] show "\<exists>c'. sha1_feed c x = Some c' \<and> sha1_repr c' (m @ x)"
    unfolding sha1_feed_def c(1) by (metis bind.bind_lunit)
next
  fix c m assume "\<exists>c'. c = Some c' \<and> sha1_repr c' m"
  then show "Option.bind c SHA1Final = Some (sha1_spec m)" by (auto simp: SHA1Final_spec)
qed simp

section \<open>The digest in hexadecimal: \<open>sha1()\<close> of core.c\<close>

definition hex_digit :: "nat \<Rightarrow> char" where
  "hex_digit n = ''0123456789abcdef'' ! n"

text \<open>\<open>sprintf(ptr, "%02x", buffer[i])\<close> for the twenty bytes of the digest.\<close>

definition hex_bytes :: "byte list \<Rightarrow> string" where
  "hex_bytes bs = concat (map (\<lambda>b. [hex_digit (unat b div 16), hex_digit (unat b mod 16)]) bs)"

text \<open>
  \<open>ws_alloc\<close> tells whether \<open>WS_Alloc(ctx->ws, 41)\<close> succeeds. The outer \<open>None\<close> would be a call that
  never returns, the inner one is the \<open>NULL\<close> of an exhausted workspace. \<open>strlen\<close> is truncated to the
  32 bits of the parameter of \<open>SHA1Update\<close>.
\<close>

definition sha1 :: "bool \<Rightarrow> string \<Rightarrow> string option option" where
  "sha1 ws_alloc script =
     (let bytes = map of_char script in
      case Option.bind (SHA1Update SHA1Init bytes (word_of_nat (length script))) SHA1Final of
        None \<Rightarrow> None
      | Some buffer \<Rightarrow> Some (if ws_alloc then Some (hex_bytes buffer) else None))"

lemma length_sha1_spec: "length (sha1_spec m) = 20"
  by (simp add: sha1_spec_def sha1_digest_def)

lemma length_hex_bytes: "length (hex_bytes bs) = 2 * length bs"
  by (induction bs) (simp_all add: hex_bytes_def)

lemma set_hex_bytes: "set (hex_bytes bs) \<subseteq> set ''0123456789abcdef''"
proof (induction bs)
  case Nil
  then show ?case by (simp add: hex_bytes_def)
next
  case (Cons b bs)
  have "hex_digit n \<in> set ''0123456789abcdef''" if "n < 16" for n
    unfolding hex_digit_def using that by (intro nth_mem) simp
  moreover have "unat b div 16 < 16" using unat_less_pow [of b] by simp
  moreover have "hex_bytes (b # bs) = hex_digit (unat b div 16) # hex_digit (unat b mod 16) # hex_bytes bs"
    by (simp add: hex_bytes_def)
  ultimately show ?case
    using Cons by (simp only: list.set(2) insert_subset mod_less_divisor zero_less_numeral simp_thms)
qed

lemma hex_digit_inj: "a < 16 \<Longrightarrow> b < 16 \<Longrightarrow> hex_digit a = hex_digit b \<Longrightarrow> a = b"
  unfolding hex_digit_def
  by (subst (asm) nth_eq_iff_index_eq) simp_all

lemma hex_bytes_inj: "hex_bytes a = hex_bytes b \<Longrightarrow> a = b"
proof (induction a arbitrary: b)
  case Nil
  then show ?case by (cases b) (simp_all add: hex_bytes_def)
next
  case (Cons x a)
  then obtain y b' where b: "b = y # b'" by (cases b) (simp_all add: hex_bytes_def)
  have lt: "unat x div 16 < 16" "unat y div 16 < 16"
    using unat_less_pow [of x] unat_less_pow [of y] by simp_all
  have "hex_digit (unat x div 16) = hex_digit (unat y div 16)"
    "hex_digit (unat x mod 16) = hex_digit (unat y mod 16)" "hex_bytes a = hex_bytes b'"
    using Cons.prems by (simp_all add: b hex_bytes_def)
  with lt have "unat x div 16 = unat y div 16" "unat x mod 16 = unat y mod 16" "a = b'"
    by (intro hex_digit_inj Cons.IH; simp)+
  then have "unat x = unat y" "a = b'" by (metis div_mult_mod_eq)+
  then show ?case by (simp add: b word_unat_eq_iff)
qed

section \<open>Properties\<close>

text \<open>
  C2. Feeding a SHA-1 context with any sequence of chunks and finishing it gives the FIPS 180 digest
  of their concatenation (up to the 4 GiB that the 32-bit length admits): the buffering across
  calls, the circular in-place message schedule, the carry between the two bit counters and the
  byte-wise padding loop, which ends, agree with the block-wise definition.
\<close>

theorem sha1_context_fips180:
  assumes "length (concat chunks) + 64 < 2 ^ 32"
  shows "Option.bind (foldl sha1_feed (Some SHA1Init) chunks) SHA1Final = Some (sha1_spec (concat chunks))"
  using assms by (rule sha.digest_chunks)

theorem sha1_context_fips180_witness:
  "Option.bind (foldl sha1_feed (Some SHA1Init) [replicate 70 7, [], [1, 2]]) SHA1Final
     = Some (sha1_spec (replicate 70 7 @ [1, 2]))"
  using sha1_context_fips180 [of "[replicate 70 7, [], [1, 2]]"] by simp

text \<open>
  \<open>sha1()\<close>, which names a script for \<open>EVALSHA\<close>, returns (it does not loop) the forty lower-case
  hexadecimal digits of the FIPS 180 digest of the script when the workspace has room, and \<open>NULL\<close>
  otherwise; \<open>SHA1()\<close>, which feeds the same bytes one at a time, computes the same digest; and the
  text determines the digest.
\<close>

theorem sha1_hex_digest:
  assumes "length script + 64 < 2 ^ 32"
  shows "sha1 True script = Some (Some (hex_bytes (sha1_spec (map of_char script))))
    \<and> sha1 False script = Some None
    \<and> SHA1 (map of_char script) = Some (sha1_spec (map of_char script))
    \<and> length (hex_bytes (sha1_spec (map of_char script))) = 40
    \<and> set (hex_bytes (sha1_spec (map of_char script))) \<subseteq> set ''0123456789abcdef''"
proof -
  let ?m = "map of_char script :: byte list"
  have "Option.bind (sha1_feed (Some SHA1Init) ?m) SHA1Final = Some (sha1_spec ?m)"
    using sha.digest_once [of ?m] assms by simp
  moreover have "SHA1 ?m = Some (sha1_spec ?m)"
    using sha.digest_chunks [of "map (\<lambda>b. [b]) ?m"] assms
    by (simp add: SHA1_def foldl_map o_def)
  ultimately show ?thesis
    by (simp add: sha1_def sha1_feed_def length_hex_bytes length_sha1_spec del: list.set set_simps)
      (rule set_hex_bytes)
qed

theorem sha1_hex_digest_witness:
  "sha1 True ''return 1'' = Some (Some (hex_bytes (sha1_spec (map of_char ''return 1''))))"
  using sha1_hex_digest [of "''return 1''"] by simp

end
