(* ===== verification/Execute.thy ===== *)
theory Execute
  imports Pool_Threads Sha1_Stream
begin

text \<open>
  The execution of a command (\<open>src/core.c\<close>): \<open>get_redis_repy\<close> sends it down a connection,
  \<open>redis_execute\<close> runs its attempts along an execution plan. The array \<open>argv\<close> of the caller is
  part of the result, since the code overwrites its first two entries; \<open>None\<close> in it is \<open>NULL\<close>, which
  the code must not send. The loop of the attempts takes the function that locks a connection and the
  one that unlocks it as arguments: they are what the locale \<open>connection_source\<close> is about.
\<close>

section \<open>One command on one connection\<close>

definition append_if :: "'e hiredis \<Rightarrow> bool \<Rightarrow> rcontext \<Rightarrow> string \<Rightarrow> 'e world \<Rightarrow> 'e world" where
  "append_if h b rc cmd w = (if b then net_do (h_append h rc [cmd]) w else w)"

definition skip_reply :: "'e hiredis \<Rightarrow> bool \<Rightarrow> rcontext \<Rightarrow> 'e world \<Rightarrow> 'e world" where
  "skip_reply h b rc w = (if b then snd (net_call (h_get_reply h rc) w) else w)"

text \<open>\<open>redisAppendCommandArgv\<close> takes the length of every argument.\<close>

fun send_argv :: "argv \<Rightarrow> string list option" where
  "send_argv [] = Some []"
| "send_argv (None # as) = None"
| "send_argv (Some a # as) = (case send_argv as of None \<Rightarrow> None | Some l \<Rightarrow> Some (a # l))"

definition get_redis_repy ::
  "'e hiredis \<Rightarrow> redis_context \<Rightarrow> timeval \<Rightarrow> argv \<Rightarrow> bool \<Rightarrow> 'e world \<Rightarrow>
   (redisReply option \<times> 'e world) option" where
  "get_redis_repy h c timeout argv asking w = do {
     let rc = cx_rcontext c;
     let sv = srvs w (cx_server c);
     let readonly = (cluster_enabled (dbs w (sv_db sv)) \<and> sv_role sv = SLAVE);
     let (tr, w) = net_call (h_set_timeout h rc timeout) w;
     let w = append_if h readonly rc ''READONLY'' w;
     let w = append_if h asking rc ''ASKING'' w;
     args \<leftarrow> send_argv argv;
     let w = net_do (h_append h rc args) w;
     let w = append_if h readonly rc ''READWRITE'' w;
     let w = skip_reply h readonly rc w;
     let w = skip_reply h asking rc w;
     let (result, w) = net_call (h_get_reply h rc) w;
     let w = skip_reply h readonly rc w;
     Some (result, w)
   }"

section \<open>One attempt\<close>

text \<open>\<open>WS_Copy\<close> of a string literal, with its terminating NUL.\<close>

definition WS_Copy :: "'e hiredis \<Rightarrow> string \<Rightarrow> 'e world \<Rightarrow> string option \<times> 'e world" where
  "WS_Copy h s w =
     (let (ok, w) = net_call (h_ws_alloc h (length s + 1)) w in (if ok then Some s else None, w))"

text \<open>
  The check of the reply to \<open>EVALSHA\<close>, and \<open>First try with EVALSHA\<close>. The result has the flag \<open>failed_ws\<close>, the flag \<open>done\<close>, the reply and the
  arguments.
\<close>

definition check_noscript ::
  "'e hiredis \<Rightarrow> db_ptr \<Rightarrow> redis_context \<Rightarrow> string \<Rightarrow> argv \<Rightarrow> redisReply option \<Rightarrow> 'e world \<Rightarrow>
   ((bool \<times> bool \<times> redisReply option \<times> argv) \<times> 'e world) option" where
  "check_noscript h d c script argv result w =
     (if \<not> rc_err h (cx_rcontext c) w \<and> result \<noteq> None \<and> is_error_with ''NOSCRIPT'' (the result)
      then (case WS_Copy h ''EVAL'' w of
              (None, w) \<Rightarrow> Some ((True, False, None, argv[0 := None]), w)
            | (Some cmd, w) \<Rightarrow> do {
                let argv = argv[0 := Some cmd, 1 := Some script];
                w \<leftarrow> with_db False d
                      (upd_stats d (\<lambda>st. st\<lparr>st_commands_noscript := st_commands_noscript st + 1\<rparr>)) w;
                Some ((False, False, None, argv), w)
              })
      else Some ((False, True, result, argv), w))"

definition try_evalsha ::
  "'e hiredis \<Rightarrow> db_ptr \<Rightarrow> redis_context \<Rightarrow> timeval \<Rightarrow> argv \<Rightarrow> string \<Rightarrow> bool \<Rightarrow> 'e world \<Rightarrow>
   ((bool \<times> bool \<times> redisReply option \<times> argv) \<times> 'e world) option" where
  "try_evalsha h d c timeout argv script asking w =
     (case WS_Copy h ''EVALSHA'' w of
        (None, w) \<Rightarrow> Some ((True, False, None, argv[0 := None]), w)
      | (Some cmd, w) \<Rightarrow> do {
          let argv = argv[0 := Some cmd];
          let (ok, w) = net_call (h_ws_alloc h 41) w;
          digest \<leftarrow> sha1 ok script;
          let argv = argv[1 := digest];
          if digest = None then Some ((True, False, None, argv), w)
          else do {
            (result, w) \<leftarrow> get_redis_repy h c timeout argv asking w;
            check_noscript h d c script argv result w
          }
        })"

text \<open>What is done with a connection: the flag \<open>failed_ws\<close>, the reply and the arguments.\<close>

definition run_command ::
  "'e hiredis \<Rightarrow> db_ptr \<Rightarrow> redis_context \<Rightarrow> timeval \<Rightarrow> argv \<Rightarrow> bool \<Rightarrow> 'e world \<Rightarrow>
   ((bool \<times> redisReply option \<times> argv) \<times> 'e world) option" where
  "run_command h d c timeout argv asking w =
     (case argv of
        Some cmd # args \<Rightarrow> do {
          ((failed_ws, don, result, argv), w) \<leftarrow>
            (if strcasecmp_eq cmd ''EVAL'' \<and> length argv \<ge> 2 then do {
               script \<leftarrow> argv ! 1;
               try_evalsha h d c timeout argv script asking w
             } else Some ((False, False, None, argv), w));
          if failed_ws \<or> don then Some ((failed_ws, result, argv), w)
          else do {
            (result, w) \<leftarrow> get_redis_repy h c timeout argv asking w;
            Some ((False, result, argv), w)
          }
        }
      | _ \<Rightarrow> None)"

definition attempt ::
  "('p \<Rightarrow> 'e world \<Rightarrow> (redis_context option \<times> 'p \<times> 'e world) option) \<Rightarrow>
   (redis_context \<Rightarrow> 'e world \<Rightarrow> 'e world option) \<Rightarrow>
   'e hiredis \<Rightarrow> db_ptr \<Rightarrow> timeval \<Rightarrow> argv \<Rightarrow> bool \<Rightarrow> 'p \<Rightarrow> 'e world \<Rightarrow>
   ((bool \<times> redisReply option \<times> argv) \<times> 'p \<times> 'e world) option" where
  "attempt lock unlock h d timeout argv asking plan w =
     (case lock plan w of
        None \<Rightarrow> None
      | Some (None, plan, w) \<Rightarrow> Some ((False, None, argv), plan, w)
      | Some (Some c, plan, w) \<Rightarrow> do {
          (out, w) \<leftarrow> run_command h d c timeout argv asking w;
          w \<leftarrow> unlock c w;
          Some (out, plan, w)
        })"

section \<open>The attempts of a command\<close>

definition command_stats :: "uint \<Rightarrow> bool \<Rightarrow> stats \<Rightarrow> stats" where
  "command_stats retries ok st =
     (let st = (if retries > 0 then st\<lparr>st_commands_retried := st_commands_retried st + 1\<rparr> else st)
      in if ok then st\<lparr>st_commands_total := st_commands_total st + 1\<rparr>
         else st\<lparr>st_commands_failed := st_commands_failed st + 1\<rparr>)"

lemma word_retry_less:
  fixes r m :: uint
  assumes "r < m"
  shows "unat (r + 1) = Suc (unat r)" "unat m - unat (r + 1) < unat m - unat r"
proof -
  have "unat r < unat m" using assms by (simp add: word_less_nat_alt)
  moreover have "unat m < 2 ^ LENGTH(32)" by (rule unat_less_pow)
  ultimately have "(unat r + unat (1 :: uint)) mod 2 ^ LENGTH(32) = Suc (unat r)" by simp
  then show "unat (r + 1) = Suc (unat r)" by (simp only: unat_word_ariths)
  then show "unat m - unat (r + 1) < unat m - unat r" using assms by (simp add: word_less_nat_alt)
qed

function execute_loop ::
  "('p \<Rightarrow> 'e world \<Rightarrow> (redis_context option \<times> 'p \<times> 'e world) option) \<Rightarrow>
   (redis_context \<Rightarrow> 'e world \<Rightarrow> 'e world option) \<Rightarrow>
   'e hiredis \<Rightarrow> db_ptr \<Rightarrow> timeval \<Rightarrow> uint \<Rightarrow> bool \<Rightarrow> argv \<Rightarrow> uint \<Rightarrow> 'p \<Rightarrow> 'e world \<Rightarrow>
   (redisReply option \<times> argv \<times> uint \<times> 'e world) option" where
  "execute_loop lock unlock h d timeout max_retries asking argv retries plan w =
     (case attempt lock unlock h d timeout argv asking plan w of
        None \<Rightarrow> None
      | Some ((True, result, argv), plan, w) \<Rightarrow> Some (None, argv, max_retries, VRT_fail w)
      | Some ((False, result, argv), plan, w) \<Rightarrow>
          (case with_db False d (upd_stats d (command_stats retries (result \<noteq> None))) w of
             None \<Rightarrow> None
           | Some w \<Rightarrow>
               if result \<noteq> None then Some (result, argv, retries, w)
               else if retries < max_retries
               then execute_loop lock unlock h d timeout max_retries asking argv (retries + 1) plan w
               else Some (None, argv, retries, w)))"
  by pat_completeness auto
termination
  by (relation "measure (\<lambda>(_, _, _, _, _, m, _, _, r, _, _). unat m - unat r)")
    (auto intro: word_retry_less)

declare execute_loop.simps [simp del]

definition redis_execute ::
  "nat \<Rightarrow> 'e hiredis \<Rightarrow> db_ptr \<Rightarrow> timeval \<Rightarrow> uint \<Rightarrow> argv \<Rightarrow> uint \<Rightarrow> server_ptr option \<Rightarrow> bool \<Rightarrow>
   bool \<Rightarrow> nat \<Rightarrow> 'e world \<Rightarrow> (redisReply option \<times> argv \<times> uint \<times> 'e world) option" where
  "redis_execute fuel h d timeout max_retries argv retries server asking master slot w = do {
     _ \<leftarrow> assert_that (retries \<le> max_retries);
     (plan, w) \<leftarrow> plan_execution h d
        (if retries > 0 then max_retries - retries else 1 + max_retries - retries) server master slot w;
     (case plan of
        None \<Rightarrow> Some (None, argv, max_retries, w)
      | Some plan \<Rightarrow>
          if pl_contexts plan \<noteq> [] \<or> pl_servers plan \<noteq> []
          then execute_loop (lock_redis_context fuel h d) (unlock_redis_context d) h d timeout
                 max_retries asking argv retries plan w
          else Some (None, argv, max_retries, w))
   }"

end
