(* ===== verification/Execute_Properties.thy ===== *)
theory Execute_Properties
  imports Execute
begin

text \<open>
  The attempts of a command end, and nothing in them fails an assertion. The locale
  \<open>connection_source\<close> is what the loop of \<open>redis_execute\<close> relies on: the function that locks a
  connection can be called as often as there are attempts left. It is interpreted on the private
  connections of a task and on the shared connections of a database.
\<close>

section \<open>A command on a connection\<close>

text \<open>What happens between locking a connection and giving it back: replies and counters.\<close>

definition only_counts :: "'e world \<Rightarrow> 'e world \<Rightarrow> bool" where
  "only_counts w w' \<longleftrightarrow> same_core w w' \<and> srvs w' = srvs w"

lemma only_counts_refl [simp, intro]: "only_counts w w"
  by (simp add: only_counts_def)

lemma only_counts_trans [trans]: "only_counts w w' \<Longrightarrow> only_counts w' w'' \<Longrightarrow> only_counts w w''"
  unfolding only_counts_def using same_core_trans by metis

lemma only_counts_net [simp]:
  "only_counts w (w'\<lparr>net := e\<rparr>) \<longleftrightarrow> only_counts w w'" "only_counts w (net_do f w') \<longleftrightarrow> only_counts w w'"
  "only_counts w (upd_stats d k w') \<longleftrightarrow> only_counts w w'"
  by (simp_all add: only_counts_def) (simp_all add: net_do_def upd_stats_def upd_db_def)

lemma only_counts_held: "only_counts w w' \<Longrightarrow> held w' = held w"
  by (simp add: only_counts_def same_core_def)

lemma append_if_net [simp]: "only_net w (append_if h b rc cmd w') \<longleftrightarrow> only_net w w'"
  by (simp add: append_if_def)

lemma skip_reply_net [simp]: "only_net w (skip_reply h b rc w') \<longleftrightarrow> only_net w w'"
  by (simp add: skip_reply_def)

lemma only_net_counts: "only_net w w' \<Longrightarrow> only_counts w w'"
  by (simp add: only_counts_def only_net_core only_net_fields)

lemma send_argv_Some: "send_argv argv \<noteq> None \<longleftrightarrow> None \<notin> set argv"
  by (induction argv rule: send_argv.induct) (auto split: option.splits)

text \<open>Arguments that can be sent, and hashed.\<close>

definition argv_ok :: "argv \<Rightarrow> bool" where
  "argv_ok argv \<longleftrightarrow> argv \<noteq> [] \<and> None \<notin> set argv \<and> (\<forall>a. Some a \<in> set argv \<longrightarrow> length a + 64 < 2 ^ 32)"

lemma get_redis_repy_net:
  assumes "get_redis_repy h c timeout argv asking w = Some (r, w')"
  shows "only_net w w'"
  using assms by (auto simp: get_redis_repy_def Let_def bind_Some net_call_def split: prod.splits)

lemma get_redis_repy_total:
  assumes "argv_ok argv"
  obtains r w' where "get_redis_repy h c timeout argv asking w = Some (r, w')" "only_counts w w'"
proof -
  obtain args where "send_argv argv = Some args"
    using assms send_argv_Some [of argv] by (auto simp: argv_ok_def)
  then have "\<exists>p. get_redis_repy h c timeout argv asking w = Some p"
    by (simp add: get_redis_repy_def Let_def split: prod.splits)
  then obtain p where p: "get_redis_repy h c timeout argv asking w = Some p" by blast
  show thesis
    by (cases p, rule that) (use p in \<open>auto dest: get_redis_repy_net intro: only_net_counts\<close>)
qed

lemma sha1_total:
  assumes "length script + 64 < 2 ^ 32"
  shows "\<exists>x. sha1 ok script = Some x \<and> (\<forall>a. x = Some a \<longrightarrow> length a = 40)"
proof -
  have "Option.bind (sha1_feed (Some SHA1Init) (map of_char script)) SHA1Final
      = Some (sha1_spec (map of_char script))"
    using sha.digest_once [of "map of_char script"] assms by simp
  then show ?thesis by (simp add: sha1_def sha1_feed_def length_hex_bytes length_sha1_spec)
qed

lemma argv_ok_update:
  assumes "argv_ok argv" and "length a + 64 < 2 ^ 32"
  shows "argv_ok (argv[i := Some a])"
  using assms set_update_subset_insert [of argv i "Some a"] by (auto simp: argv_ok_def)

lemma WS_Copy_cases:
  obtains w' where "WS_Copy h s w = (None, w')" "only_counts w w'"
  | w' where "WS_Copy h s w = (Some s, w')" "only_counts w w'"
proof -
  obtain ok e where "h_ws_alloc h (length s + 1) (net w) = (ok, e)" by fastforce
  then have "WS_Copy h s w = (if ok then Some s else None, w\<lparr>net := e\<rparr>)"
    by (simp add: WS_Copy_def net_call_def)
  then show thesis using that by (cases ok) simp_all
qed

lemma try_evalsha_total:
  assumes "argv_ok argv" and "length script + 64 < 2 ^ 32" and "Db_Mutex d \<notin> set (held w)"
  shows "\<exists>fw dn r argv' w'. try_evalsha h d c timeout argv script asking w = Some ((fw, dn, r, argv'), w') \<and>
    only_counts w w' \<and> (\<not> fw \<longrightarrow> argv_ok argv')"
proof (cases rule: WS_Copy_cases [of h "''EVALSHA''" w])
  case (1 w1)
  then show ?thesis by (auto simp: try_evalsha_def)
next
  case (2 w1)
  obtain ok w2 where ws: "net_call (h_ws_alloc h 41) w1 = (ok, w2)" by fastforce
  then have c2: "only_counts w w2"
    using 2(2) by (auto simp: net_call_def split: prod.splits)
  obtain x where x: "sha1 ok script = Some x" "\<And>a. x = Some a \<Longrightarrow> length a = 40"
    using sha1_total [OF assms(2)] by blast
  let ?argv = "argv[0 := Some ''EVALSHA'']"
  note eq = try_evalsha_def check_noscript_def 2(1) ws x(1)
  show ?thesis
  proof (cases x)
    case None
    then show ?thesis using c2 by (auto simp: eq)
  next
    case (Some a)
    have a: "length a + 64 < 2 ^ 32" using x(2) [OF Some] by simp
    have ok1: "argv_ok ?argv" by (rule argv_ok_update [OF assms(1)]) simp
    then have ok2: "argv_ok (?argv[1 := Some a])" using a by (rule argv_ok_update)
    obtain r w3 where g: "get_redis_repy h c timeout (?argv[1 := Some a]) asking w2 = Some (r, w3)"
      and c3: "only_counts w2 w3" by (rule get_redis_repy_total [OF ok2])
    have c3: "only_counts w w3" using only_counts_trans [OF c2 c3] .
    show ?thesis
    proof (cases "\<not> rc_err h (cx_rcontext c) w3 \<and> r \<noteq> None \<and> is_error_with ''NOSCRIPT'' (the r)")
      case False
      then show ?thesis using g c3 ok2 by (auto simp: eq Some)
    next
      case True
      show ?thesis
      proof (cases rule: WS_Copy_cases [of h "''EVAL''" w3])
        case (1 w4)
        then show ?thesis using g True 1(1) only_counts_trans [OF c3 1(2)] by (auto simp: eq Some)
      next
        case (2 w4)
        have c4: "only_counts w w4" using only_counts_trans [OF c3 2(2)] .
        have "argv_ok (?argv[1 := Some a, 0 := Some ''EVAL'', 1 := Some script])"
          by (intro argv_ok_update ok2) (use assms(2) in simp_all)
        then show ?thesis
          using g True 2(1) c4 assms(3) only_counts_held [OF c4]
          by (auto simp: eq Some with_db_eq [OF lock_free_upd(3)])
      qed
    qed
  qed
qed

lemma run_command_total:
  assumes "argv_ok argv" and "Db_Mutex d \<notin> set (held w)"
  shows "\<exists>fw r argv' w'. run_command h d c timeout argv asking w = Some ((fw, r, argv'), w') \<and>
    only_counts w w' \<and> (\<not> fw \<longrightarrow> argv_ok argv')"
proof -
  obtain cmd args where argv: "argv = Some cmd # args"
    using assms(1) by (cases argv; cases "hd argv") (auto simp: argv_ok_def)
  have rest: "\<exists>fw r argv' w'. (do { (result, w) \<leftarrow> get_redis_repy h c timeout argv1 asking w1;
      Some ((False, result, argv1), w) }) = Some ((fw, r, argv'), w') \<and>
      only_counts w w' \<and> (\<not> fw \<longrightarrow> argv_ok argv')"
    if ok1: "argv_ok argv1" and c1: "only_counts w w1" for argv1 and w1 :: "'a world"
  proof -
    obtain r w2 where "get_redis_repy h c timeout argv1 asking w1 = Some (r, w2)" "only_counts w1 w2"
      by (rule get_redis_repy_total [OF ok1])
    then show ?thesis using only_counts_trans [OF c1] ok1 by auto
  qed
  show ?thesis
  proof (cases "strcasecmp_eq cmd ''EVAL'' \<and> length argv \<ge> 2")
    case False
    then show ?thesis using rest [OF assms(1) only_counts_refl] by (auto simp: run_command_def argv)
  next
    case True
    then obtain script rest' where args: "args = Some script # rest'"
      using assms(1) by (cases args; cases "hd args") (auto simp: argv argv_ok_def)
    have "length script + 64 < 2 ^ 32" using assms(1) by (simp add: argv args argv_ok_def)
    then obtain fw dn r argv1 w1 where
      t: "try_evalsha h d c timeout argv script asking w = Some ((fw, dn, r, argv1), w1)"
      and w1: "only_counts w w1" "\<not> fw \<Longrightarrow> argv_ok argv1"
      using try_evalsha_total [OF assms(1) _ assms(2)] by metis
    show ?thesis
    proof (cases "fw \<or> dn")
      case stop: True
      then show ?thesis using True t w1 by (simp add: run_command_def argv args)
    next
      case False
      then show ?thesis using True t rest [OF w1(2) w1(1)] by (simp add: run_command_def argv args)
    qed
  qed
qed

section \<open>The interface of the connections\<close>

text \<open>
  \<open>ready n p w\<close>: \<open>n\<close> more connections can be locked with what is left of the plan \<open>p\<close>;
  \<open>using n c p w\<close>: the same after giving back the connection \<open>c\<close>.
\<close>

locale connection_source =
  fixes ready :: "nat \<Rightarrow> 'p \<Rightarrow> 'e world \<Rightarrow> bool"
    and using_it :: "nat \<Rightarrow> redis_context \<Rightarrow> 'p \<Rightarrow> 'e world \<Rightarrow> bool"
    and lock :: "'p \<Rightarrow> 'e world \<Rightarrow> (redis_context option \<times> 'p \<times> 'e world) option"
    and unlock :: "redis_context \<Rightarrow> 'e world \<Rightarrow> 'e world option"
    and d :: db_ptr
  assumes lock_ready: "ready (Suc n) p w \<Longrightarrow>
      \<exists>c p' w'. lock p w = Some (c, p', w') \<and>
        (case c of None \<Rightarrow> ready n p' w' | Some c \<Rightarrow> using_it n c p' w')"
    and unlock_using: "using_it n c p w \<Longrightarrow> \<exists>w'. unlock c w = Some w' \<and> ready n p w'"
    and ready_free: "ready n p w \<Longrightarrow> Db_Mutex d \<notin> set (held w)"
    and using_free: "using_it n c p w \<Longrightarrow> Db_Mutex d \<notin> set (held w)"
    and ready_counts: "ready n p w \<Longrightarrow> only_counts w w' \<Longrightarrow> ready n p w'"
    and using_counts: "using_it n c p w \<Longrightarrow> only_counts w w' \<Longrightarrow> using_it n c p w'"
    and ready_fail: "ready n p w \<Longrightarrow> ready n p (VRT_fail w)"
begin

lemma attempt_total:
  assumes "ready (Suc n) p w" and "argv_ok argv"
  shows "\<exists>fw r argv' p' w'. attempt lock unlock h d timeout argv asking p w = Some ((fw, r, argv'), p', w') \<and>
    ready n p' w' \<and> (\<not> fw \<longrightarrow> argv_ok argv')"
proof -
  obtain c p1 w1 where l: "lock p w = Some (c, p1, w1)"
    and c: "case c of None \<Rightarrow> ready n p1 w1 | Some c \<Rightarrow> using_it n c p1 w1"
    using lock_ready [OF assms(1)] by blast
  show ?thesis
  proof (cases c)
    case None
    then show ?thesis using l c assms(2) by (auto simp: attempt_def)
  next
    case (Some c')
    then have u: "using_it n c' p1 w1" using c by simp
    obtain fw r argv1 w2 where r: "run_command h d c' timeout argv asking w1 = Some ((fw, r, argv1), w2)"
      and w2: "only_counts w1 w2" "\<not> fw \<longrightarrow> argv_ok argv1"
      using run_command_total [OF assms(2) using_free [OF u]] by blast
    obtain w3 where w3: "unlock c' w2 = Some w3" "ready n p1 w3"
      using unlock_using [OF using_counts [OF u w2(1)]] by blast
    then show ?thesis using l Some r w2(2) by (simp add: attempt_def)
  qed
qed

lemma loop_total:
  assumes "ready (Suc (unat max_retries - unat retries)) p w" and "argv_ok argv"
    and "retries \<le> max_retries"
  shows "\<exists>r argv' retries' n p' w'.
    execute_loop lock unlock h d timeout max_retries asking argv retries p w = Some (r, argv', retries', w') \<and>
    retries \<le> retries' \<and> retries' \<le> max_retries \<and> (r = None \<longrightarrow> retries' = max_retries) \<and> ready n p' w' \<and>
    (r \<noteq> None \<longrightarrow> argv_ok argv')"
  using assms
proof (induction "unat max_retries - unat retries" arbitrary: retries argv p w rule: less_induct)
  case less
  let ?n = "unat max_retries - unat retries"
  obtain fw r argv1 p1 w1 where
    a: "attempt lock unlock h d timeout argv asking p w = Some ((fw, r, argv1), p1, w1)"
    and w1: "ready ?n p1 w1" "\<not> fw \<Longrightarrow> argv_ok argv1"
    using attempt_total [OF less.prems(1,2)] by blast
  note loop = execute_loop.simps [of lock unlock h d timeout max_retries asking argv retries p w]
  show ?case
  proof (cases fw)
    case True
    show ?thesis
      using a True less.prems(3) ready_fail [OF w1(1)] by (auto simp: loop)
  next
    case False
    let ?w2 = "upd_stats d (command_stats retries (r \<noteq> None)) w1"
    have s: "with_db False d (upd_stats d (command_stats retries (r \<noteq> None))) w1 = Some ?w2"
      using ready_free [OF w1(1)] by (simp add: with_db_eq [OF lock_free_upd(3)])
    have r2: "ready ?n p1 ?w2" by (rule ready_counts [OF w1(1)]) simp
    show ?thesis
    proof (cases "r = None \<and> retries < max_retries")
      case True
      note step = word_retry_less [OF conjunct2 [OF True]]
      have n: "?n = Suc (unat max_retries - unat (retries + 1))"
        using conjunct2 [OF True] by (simp add: step(1) word_less_nat_alt Suc_diff_Suc)
      have le: "retries \<le> retries + 1" "retries + 1 \<le> max_retries"
        using True by (simp_all add: word_le_nat_alt step(1) word_less_nat_alt Suc_leI)
      obtain r' argv' retries' n p' w' where
        l: "execute_loop lock unlock h d timeout max_retries asking argv1 (retries + 1) p1 ?w2 =
          Some (r', argv', retries', w')"
        and "retries + 1 \<le> retries'" "retries' \<le> max_retries" "r' = None \<longrightarrow> retries' = max_retries"
          "ready n p' w'" "r' \<noteq> None \<longrightarrow> argv_ok argv'"
        using less.hyps [OF step(2) r2 [unfolded n] w1(2) [OF False] le(2)] by blast
      moreover have "retries \<le> retries'" using le(1) \<open>retries + 1 \<le> retries'\<close> by (rule order.trans)
      moreover have "execute_loop lock unlock h d timeout max_retries asking argv retries p w =
          Some (r', argv', retries', w')"
        using a False s l True by (simp add: loop)
      ultimately show ?thesis by blast
    next
      case stop: False
      have "execute_loop lock unlock h d timeout max_retries asking argv retries p w = Some (r, argv1, retries, ?w2)"
        using a False s stop by (auto simp: loop)
      moreover have "r = None \<longrightarrow> retries = max_retries" using stop less.prems(3) by auto
      ultimately show ?thesis using less.prems(3) r2 w1(2) [OF False] by blast
    qed
  qed
qed

end

end
