(* ===== verification/Execute_Private.thy ===== *)
theory Execute_Private
  imports Execute_Properties
begin

text \<open>
  Private connections are a \<open>connection_source\<close>: a task that is in order keeps the order of its
  registry and of its contexts, no more of them than its limit, and takes from a plan only contexts
  it still owns.
\<close>

section \<open>The state of a task with private connections\<close>

text \<open>\<open>N\<close> bounds the contexts of the task, which may belong to several databases.\<close>

definition private_state :: "'e hiredis \<Rightarrow> db_ptr \<Rightarrow> nat \<Rightarrow> 'e world \<Rightarrow> bool" where
  "private_state h d N w \<longleftrightarrow>
     connects h \<and> \<not> shared_connections (dbs w d) \<and> task_ok d w \<and>
     (\<forall>c \<in> set (ts_contexts (task w)). cx_id c < next_ctx w) \<and>
     max_connections (dbs w d) \<noteq> 0 \<and> unat (max_connections (dbs w d)) \<le> N \<and>
     length (ts_contexts (task w)) \<le> N \<and> N < 2 ^ 32"

definition plan_left :: "nat \<Rightarrow> plan \<Rightarrow> server_ptr set \<Rightarrow> redis_context set \<Rightarrow> bool" where
  "plan_left n p R T \<longleftrightarrow>
     pl_cnext p \<le> length (pl_contexts p) \<and> set (drop (pl_cnext p) (pl_contexts p)) \<subseteq> T \<and>
     (n \<le> length (pl_contexts p) - pl_cnext p \<or> pl_snext p < length (pl_servers p) \<and> set (pl_servers p) \<subseteq> R)"

definition private_ready :: "'e hiredis \<Rightarrow> db_ptr \<Rightarrow> nat \<Rightarrow> nat \<Rightarrow> plan \<Rightarrow> 'e world \<Rightarrow> bool" where
  "private_ready h d N n p w \<longleftrightarrow>
     private_state h d N w \<and> plan_left n p (registered w d) (set (ts_contexts (task w)))"

definition private_using :: "'e hiredis \<Rightarrow> db_ptr \<Rightarrow> nat \<Rightarrow> nat \<Rightarrow> redis_context \<Rightarrow> plan \<Rightarrow> 'e world \<Rightarrow> bool" where
  "private_using h d N n c p w \<longleftrightarrow> private_ready h d N n p w \<and> c \<in> set (ts_contexts (task w))"

lemma task_ok_core_task:
  assumes "core_task w w'" and "task w' = task w" and "task_ok d w"
  shows "task_ok d w'"
  using assms by (simp add: task_ok_def core_task_reg core_task_simps core_task_registered private_ok_def)

lemma private_state_core:
  assumes "same_core w w'" and "private_state h d N w"
  shows "private_state h d N w'"
  using assms(2) task_ok_core_task [OF same_core_task [OF assms(1)] same_core_world(3) [OF assms(1)]]
  by (simp add: private_state_def same_core_simps [OF assms(1)])

lemma private_ready_core:
  assumes "same_core w w'" and "private_ready h d N n p w"
  shows "private_ready h d N n p w'"
  using assms(2) private_state_core [OF assms(1)]
  by (simp add: private_ready_def same_core_simps [OF assms(1)] registered_core [OF assms(1)])

lemma private_ready_fail: "private_ready h d N n p w \<Longrightarrow> private_ready h d N n p (VRT_fail w)"
  by (simp add: private_ready_def private_state_def VRT_fail_def task_ok_def reg_ok_def filed_ok_def
      registered_def private_ok_def)

lemma private_count:
  assumes "private_state h d N w"
  shows "unat (ts_ncontexts (task w)) = length (ts_contexts (task w))"
proof -
  have "length (ts_contexts (task w)) < 2 ^ LENGTH(32)"
    using assms by (simp add: private_state_def)
  moreover have "ts_ncontexts (task w) = word_of_nat (length (ts_contexts (task w)))"
    using assms by (simp add: private_state_def task_ok_def private_ok_def)
  ultimately show ?thesis by (simp only: unat_of_nat mod_less)
qed

section \<open>Making room for a context\<close>

lemma private_state_drop:
  assumes "private_state h d N w" and "c \<in> set (ts_contexts (task w))"
  shows "private_state h d N (drop_context h c w)"
    and "length (ts_contexts (task (drop_context h c w))) < N"
proof -
  let ?w = "drop_context h c w"
  note core = drop_context_fields(1) [of w h c]
  note ts = drop_context_fields(2) [of h c w]
  have ok: "task_ok d w" using assms(1) by (simp add: private_state_def)
  have sub: "set (ts_contexts (task ?w)) \<subseteq> set (ts_contexts (task w))"
    by (simp add: ts set_remove_subset)
  have "task_ok d ?w"
    using ok sub drop_context_private [OF _ assms(2)]
    by (auto simp: task_ok_def core_task_reg [OF core] core_task_simps [OF core] core_task_registered [OF core])
  moreover have len: "length (ts_contexts (task ?w)) = length (ts_contexts (task w)) - 1"
    using assms(2) by (simp add: ts)
  ultimately show "private_state h d N ?w"
    using assms(1) sub by (auto simp: private_state_def core_task_simps [OF core])
  have "0 < length (ts_contexts (task w))" using assms(2) by (rule length_pos_if_in_set)
  then show "length (ts_contexts (task ?w)) < N"
    using assms(1) unfolding len private_state_def by linarith
qed

lemma evict_first_ok:
  assumes "private_state h d N w"
  obtains w' where "evict_first h d w = Some w'" "private_state h d N w'"
    "length (ts_contexts (task w')) < N" "core_task w w'"
proof (cases "ts_ncontexts (task w) \<ge> max_connections (dbs w d)")
  case False
  have "length (ts_contexts (task w)) < unat (max_connections (dbs w d))"
    using False private_count [OF assms] by (simp add: word_le_nat_alt)
  then have "length (ts_contexts (task w)) < N" using assms by (simp add: private_state_def)
  then show thesis using that [of w] False assms by (simp add: evict_first_def)
next
  case True
  have "unat (max_connections (dbs w d)) \<noteq> 0"
    using assms unsigned_eq_0_iff unfolding private_state_def by metis
  then have "ts_contexts (task w) \<noteq> []"
    using True private_count [OF assms] by (auto simp: word_le_nat_alt)
  then obtain c cs where ts: "ts_contexts (task w) = c # cs" by (cases "ts_contexts (task w)") auto
  then have c: "c \<in> set (ts_contexts (task w))" by simp
  let ?w = "drop_context h c w"
  let ?w' = "upd_stats d (\<lambda>st. st\<lparr>st_dropped_overflow := st_dropped_overflow st + 1\<rparr>) ?w"
  have "held ?w = []"
    using private_state_drop(1) [OF assms c] by (simp add: private_state_def task_ok_def)
  then have "evict_first h d w = Some ?w'"
    using True ts by (simp add: evict_first_def with_db_eq [OF lock_free_upd(3)])
  moreover have core: "same_core ?w ?w'" by simp
  moreover have "core_task w ?w'"
    using core_task_trans [OF drop_context_fields(1) same_core_task [OF core]] .
  moreover have "task ?w' = task ?w" by (simp add: same_core_simps [OF core])
  ultimately show thesis
    using that private_state_core [OF core private_state_drop(1) [OF assms c]] private_state_drop(2) [OF assms c]
    by simp
qed

section \<open>The connections of a task\<close>

lemma private_state_add:
  assumes "private_state h d N w" and "length (ts_contexts (task w)) < N" and "s \<in> registered w d"
    and "new_redis_context s rc now w = (c, w1)"
    and "w' = w1\<lparr>task := (task w1)\<lparr>ts_contexts := tailq_insert_tail (ts_contexts (task w1)) c,
                                    ts_ncontexts := ts_ncontexts (task w1) + 1\<rparr>\<rparr>"
  shows "private_state h d N w'" and "registered w' d = registered w d"
    and "set (ts_contexts (task w')) = insert c (set (ts_contexts (task w)))"
proof -
  have ok: "task_ok d w" using assms(1) by (simp add: private_state_def)
  have w1: "w1 = w\<lparr>next_ctx := Suc (next_ctx w)\<rparr>" and c: "cx_id c = next_ctx w" "cx_server c = s"
    using assms(4) by (auto simp: new_redis_context_def)
  have db: "sv_db (srvs w s) = d"
    using ok assms(3) by (auto simp: task_ok_def reg_ok_def registered_def filed_ok_def)
  have "c \<notin> set (ts_contexts (task w))" using assms(1) c by (auto simp: private_state_def)
  then show "private_state h d N w'"
    using assms(1,2,3) ok db c
    by (auto simp: assms(5) w1 private_state_def task_ok_def private_ok_def reg_ok_def filed_ok_def
        registered_def less_Suc_eq)
  show "registered w' d = registered w d" "set (ts_contexts (task w')) = insert c (set (ts_contexts (task w)))"
    by (simp_all add: assms(5) w1 registered_def)
qed

lemma next_server_ok:
  assumes "pl_snext p < length (pl_servers p)"
  obtains s where "next_server p = Some (s, p\<lparr>pl_snext := (pl_snext p + 1) mod length (pl_servers p)\<rparr>)"
    "s \<in> set (pl_servers p)" "(pl_snext p + 1) mod length (pl_servers p) < length (pl_servers p)"
proof -
  have "0 < length (pl_servers p)" using assms by linarith
  then have "(pl_snext p + 1) mod length (pl_servers p) < length (pl_servers p)" by (rule mod_less_divisor)
  then show thesis using that assms by (simp add: next_server_def assert_that_def)
qed

lemma lock_private_ready:
  assumes "private_ready h d N (Suc n) p w"
  shows "\<exists>c p' w'. lock_private_redis_context h d p w = Some (c, p', w') \<and>
    (case c of None \<Rightarrow> private_ready h d N n p' w' | Some c \<Rightarrow> private_using h d N n c p' w')"
proof (cases "pl_cnext p < length (pl_contexts p)")
  case True
  let ?c = "pl_contexts p ! pl_cnext p"
  have "set (drop (pl_cnext p) (pl_contexts p)) = insert ?c (set (drop (Suc (pl_cnext p)) (pl_contexts p)))"
    using True by (metis Cons_nth_drop_Suc list.simps(15))
  then show ?thesis
    using True assms
    by (auto simp: lock_private_redis_context_def private_ready_def private_using_def plan_left_def)
next
  case False
  have st: "private_state h d N w" and left: "pl_snext p < length (pl_servers p)"
    "set (pl_servers p) \<subseteq> registered w d" "pl_cnext p = length (pl_contexts p)"
    using assms False by (auto simp: private_ready_def plan_left_def)
  obtain now w1 where t: "net_call (h_time h) w = (now, w1)" by fastforce
  have c1: "same_core w w1" using same_core_call [OF t, of w] by simp
  obtain s where s: "next_server p = Some (s, p\<lparr>pl_snext := (pl_snext p + 1) mod length (pl_servers p)\<rparr>)"
    "s \<in> set (pl_servers p)" "(pl_snext p + 1) mod length (pl_servers p) < length (pl_servers p)"
    by (rule next_server_ok [OF left(1)])
  let ?p = "p\<lparr>pl_snext := (pl_snext p + 1) mod length (pl_servers p)\<rparr>"
  obtain w2 where w2: "evict_first h d w1 = Some w2" "private_state h d N w2"
    "length (ts_contexts (task w2)) < N" "core_task w1 w2"
    by (rule evict_first_ok [OF private_state_core [OF c1 st]])
  have free: "db_lock_ok False (sv_db (srvs w2 s)) w2" and conn: "connects h"
    using w2(2) by (simp_all add: db_lock_ok_def private_state_def task_ok_def)
  obtain r w3 where w3: "new_rcontext h s now False False w2 = Some (r, w3)"
    by (rule new_rcontext_total [OF conn free])
  note c3 = new_rcontext_core [OF w3]
  have st3: "private_state h d N w3" by (rule private_state_core [OF c3 w2(2)])
  have len3: "length (ts_contexts (task w3)) < N" using w2(3) by (simp add: same_core_simps [OF c3])
  have reg: "registered w3 d = registered w d"
    by (simp add: registered_core [OF c3] core_task_registered [OF w2(4)] registered_core [OF c1])
  have left': "plan_left n ?p (registered w d) T" for T
    using left s(3) by (simp add: plan_left_def)
  show ?thesis
  proof (cases r)
    case None
    then have "lock_private_redis_context h d p w = Some (None, ?p, w3)"
      using False by (simp add: lock_private_redis_context_def t s(1) w2(1) w3)
    moreover have "private_ready h d N n ?p w3"
      using st3 left' by (simp add: private_ready_def reg)
    ultimately show ?thesis by simp
  next
    case (Some rc)
    obtain c w4 where c: "new_redis_context s rc now w3 = (c, w4)" by fastforce
    let ?w = "w4\<lparr>task := (task w4)\<lparr>ts_contexts := tailq_insert_tail (ts_contexts (task w4)) c,
                                     ts_ncontexts := ts_ncontexts (task w4) + 1\<rparr>\<rparr>"
    have "s \<in> registered w3 d" using s(2) left(2) reg by auto
    note add = private_state_add [OF st3 len3 this c refl]
    have "lock_private_redis_context h d p w = Some (Some c, ?p, ?w)"
      using False Some by (simp add: lock_private_redis_context_def t s(1) w2(1) w3 c)
    moreover have "private_using h d N n c ?p ?w"
      using add left' by (simp add: private_using_def private_ready_def reg)
    ultimately show ?thesis by (intro exI [of _ "Some c"] exI [of _ ?p] exI [of _ ?w]) simp
  qed
qed

interpretation prv: connection_source "private_ready h d N" "private_using h d N"
  "lock_redis_context fuel h d" "unlock_redis_context d" d
  for h :: "'e hiredis" and d N fuel
proof unfold_locales
  show "\<exists>c p' w'. lock_redis_context fuel h d p w = Some (c, p', w') \<and>
      (case c of None \<Rightarrow> private_ready h d N n p' w' | Some c \<Rightarrow> private_using h d N n c p' w')"
    if "private_ready h d N (Suc n) p w" for n p w
    using lock_private_ready [OF that] that
    by (simp add: lock_redis_context_def private_ready_def private_state_def)
  show "\<exists>w'. unlock_redis_context d c w = Some w' \<and> private_ready h d N n p w'"
    if "private_using h d N n c p w" for n c p and w :: "'e world"
    using that by (simp add: unlock_redis_context_def private_using_def private_ready_def private_state_def)
  show "Db_Mutex d \<notin> set (held w)" if "private_ready h d N n p w" for n p and w :: "'e world"
    using that by (simp add: private_ready_def private_state_def task_ok_def)
  show "Db_Mutex d \<notin> set (held w)" if "private_using h d N n c p w" for n c p and w :: "'e world"
    using that by (simp add: private_using_def private_ready_def private_state_def task_ok_def)
  show "private_ready h d N n p w'" if "private_ready h d N n p w" "only_counts w w'"
    for n p and w w' :: "'e world"
    using private_ready_core [of w w'] that by (simp add: only_counts_def)
  show "private_using h d N n c p w'" if "private_using h d N n c p w" "only_counts w w'"
    for n c p and w w' :: "'e world"
    using private_ready_core [of w w'] that same_core_world(3) [of w w']
    by (simp add: private_using_def only_counts_def)
  show "private_ready h d N n p (VRT_fail w)" if "private_ready h d N n p w" for n p and w :: "'e world"
    by (rule private_ready_fail [OF that])
qed

section \<open>What a command leaves alone\<close>

text \<open>The registries, their configuration and the number of servers.\<close>

definition exec_frame :: "'e world \<Rightarrow> 'e world \<Rightarrow> bool" where
  "exec_frame w w' \<longleftrightarrow> config w' = config w \<and> cmd_part (task w') = cmd_part (task w) \<and> next_srv w' = next_srv w \<and>
     (\<forall>x. registered w' x = registered w x) \<and> (\<forall>s. sv_db (srvs w' s) = sv_db (srvs w s)) \<and>
     (\<forall>x. cluster_enabled (dbs w' x) = cluster_enabled (dbs w x))"

lemma exec_frame_refl [simp]: "exec_frame w w"
  by (simp add: exec_frame_def)

lemma exec_frame_trans: "exec_frame w w' \<Longrightarrow> exec_frame w' w'' \<Longrightarrow> exec_frame w w''"
  by (simp add: exec_frame_def)

lemma exec_frame_core_task: "core_task w w' \<Longrightarrow> exec_frame w w'"
  using core_task_registered by (auto simp: exec_frame_def core_task_simps)

lemma exec_frame_core: "same_core w w' \<Longrightarrow> exec_frame w w'"
  by (rule exec_frame_core_task [OF same_core_task])

lemma exec_frame_plan: "plan_frame d w w' \<Longrightarrow> exec_frame w w'"
  by (auto simp: plan_frame_def exec_frame_def)

lemma exec_frame_simps [simp]:
  "cmd_part t = cmd_part (task w') \<Longrightarrow> exec_frame w (w'\<lparr>task := t\<rparr>) \<longleftrightarrow> exec_frame w w'"
  "exec_frame w (w'\<lparr>next_ctx := n\<rparr>) \<longleftrightarrow> exec_frame w w'"
  "exec_frame w (w'\<lparr>net := e\<rparr>) \<longleftrightarrow> exec_frame w w'" "exec_frame w (VRT_fail w') \<longleftrightarrow> exec_frame w w'"
  by (simp_all add: exec_frame_def registered_def VRT_fail_def)

lemma evict_first_frame: "evict_first h d w = Some w' \<Longrightarrow> exec_frame w w'"
  by (auto simp: evict_first_def with_db_eq [OF lock_free_upd(3)] split: if_splits list.splits
      intro!: exec_frame_trans [OF exec_frame_core_task [OF drop_context_fields(1)] exec_frame_core])

lemma lock_private_frame:
  assumes "lock_private_redis_context h d p w = Some (c, p', w')"
  shows "exec_frame w w'"
proof (cases "pl_cnext p < length (pl_contexts p)")
  case True
  then show ?thesis using assms by (auto simp: lock_private_redis_context_def)
next
  case False
  obtain now w1 where t: "net_call (h_time h) w = (now, w1)" by fastforce
  have "exec_frame w w1" by (rule exec_frame_core) (use same_core_call [OF t, of w] in simp)
  then show ?thesis
    using assms False
    by (auto simp: lock_private_redis_context_def t bind_Some new_redis_context_def split: option.splits
        dest!: evict_first_frame exec_frame_core [OF new_rcontext_core] intro: exec_frame_trans) ((meson exec_frame_trans)+)?
qed

interpretation pvf: connection_source "\<lambda>n p w. private_ready h d N n p w \<and> exec_frame w0 w"
  "\<lambda>n c p w. private_using h d N n c p w \<and> exec_frame w0 w"
  "lock_redis_context fuel h d" "unlock_redis_context d" d
  for h :: "'e hiredis" and d N w0 fuel
proof unfold_locales
  show "\<exists>c p' w'. lock_redis_context fuel h d p w = Some (c, p', w') \<and>
      (case c of None \<Rightarrow> private_ready h d N n p' w' \<and> exec_frame w0 w'
        | Some c \<Rightarrow> private_using h d N n c p' w' \<and> exec_frame w0 w')"
    if "private_ready h d N (Suc n) p w \<and> exec_frame w0 w" for n p w
  proof -
    obtain c p' w' where l: "lock_redis_context fuel h d p w = Some (c, p', w')"
      and c: "case c of None \<Rightarrow> private_ready h d N n p' w' | Some c \<Rightarrow> private_using h d N n c p' w'"
      using prv.lock_ready \<open>_ \<and> _\<close> by blast
    have "lock_private_redis_context h d p w = Some (c, p', w')"
      using l that by (simp add: lock_redis_context_def private_ready_def private_state_def)
    then have "exec_frame w0 w'" using exec_frame_trans lock_private_frame that by blast
    then show ?thesis using l c by (cases c) auto
  qed
  show "\<exists>w'. unlock_redis_context d c w = Some w' \<and> private_ready h d N n p w' \<and> exec_frame w0 w'"
    if "private_using h d N n c p w \<and> exec_frame w0 w" for n c p and w :: "'e world"
    using that by (simp add: unlock_redis_context_def private_using_def private_ready_def private_state_def)
  show "Db_Mutex d \<notin> set (held w)" if "private_ready h d N n p w \<and> exec_frame w0 w" for n p and w :: "'e world"
    using that prv.ready_free by blast
  show "Db_Mutex d \<notin> set (held w)" if "private_using h d N n c p w \<and> exec_frame w0 w" for n c p and w :: "'e world"
    using that prv.using_free by blast
  show "private_ready h d N n p w' \<and> exec_frame w0 w'" if "private_ready h d N n p w \<and> exec_frame w0 w" "only_counts w w'"
    for n p and w w' :: "'e world"
    using that prv.ready_counts exec_frame_trans exec_frame_core unfolding only_counts_def by blast
  show "private_using h d N n c p w' \<and> exec_frame w0 w'" if "private_using h d N n c p w \<and> exec_frame w0 w" "only_counts w w'"
    for n c p and w w' :: "'e world"
    using that prv.using_counts exec_frame_trans exec_frame_core unfolding only_counts_def by blast
  show "private_ready h d N n p (VRT_fail w) \<and> exec_frame w0 (VRT_fail w)"
    if "private_ready h d N n p w \<and> exec_frame w0 w" for n p and w :: "'e world"
    using that private_ready_fail by auto
qed

section \<open>The plan of a command\<close>

lemma private_state_frame:
  assumes "private_state h d N w" and "plan_frame d w w'" and "task_ok d w'"
  shows "private_state h d N w'"
proof -
  have sub: "set (ts_contexts (task w')) \<subseteq> set (ts_contexts (task w))"
    using assms(2) by (simp add: plan_frame_def)
  have "distinct (ts_contexts (task w'))" using assms(3) by (simp add: task_ok_def private_ok_def)
  then have "length (ts_contexts (task w')) \<le> card (set (ts_contexts (task w)))"
    using card_mono [OF finite_set sub] by (simp add: distinct_card)
  also have "\<dots> \<le> length (ts_contexts (task w))" by (rule card_length)
  finally show ?thesis
    using assms sub by (auto simp: private_state_def plan_frame_def)
qed

lemma ws_room_mono: "ws_room h n \<Longrightarrow> m \<le> n \<Longrightarrow> ws_room h m"
  unfolding ws_room_def POINTER_SIZE_def by (meson le_trans mult_le_mono2)

lemma new_plan_room:
  assumes "ws_room h n"
  obtains e where "new_execution_plan h w =
    (Some \<lparr>pl_contexts = [], pl_cnext = 0, pl_servers = [], pl_snext = 0\<rparr>, w\<lparr>net := e\<rparr>)"
proof -
  obtain ok e where a: "h_ws_alloc h PLAN_SIZE (net w) = (ok, e)" by fastforce
  then have "ok" using assms unfolding ws_room_def by (metis fst_conv order_refl)
  then show thesis using that by (simp add: new_execution_plan_def net_call_def a)
qed

text \<open>The server given by the caller, or the choice by role and slot, which only a first call makes.\<close>

definition attempts_ok :: "server_ptr option \<Rightarrow> uint \<Rightarrow> uint \<Rightarrow> server_ptr set \<Rightarrow> bool" where
  "attempts_ok server retries max_retries R \<longleftrightarrow>
     (case server of
        None \<Rightarrow> retries = 0 \<and> max_retries + 1 \<noteq> 0
      | Some s \<Rightarrow> s \<in> R \<and> retries \<le> max_retries)"

lemma plan_private:
  assumes st: "private_state h d N w" and room: "ws_room h N" "ws_room h (Suc (unat max_retries))"
    and att: "attempts_ok server retries max_retries (registered w d)"
    and size: "max_size = (if retries > 0 then max_retries - retries else 1 + max_retries - retries)"
  obtains p w' where "plan_execution h d max_size server master slot w = Some (Some p, w')"
    "private_state h d N w'" "exec_frame w w'"
    "pl_contexts p \<noteq> [] \<or> pl_servers p \<noteq> [] \<Longrightarrow>
      private_ready h d N (Suc (unat max_retries - unat retries)) p w'"
proof (cases server)
  case (Some s)
  obtain e where new: "new_execution_plan h w =
      (Some \<lparr>pl_contexts = [], pl_cnext = 0, pl_servers = [], pl_snext = 0\<rparr>, w\<lparr>net := e\<rparr>)"
    by (rule new_plan_room [OF room(1)])
  have ok: "task_ok d (w\<lparr>net := e\<rparr>)" using st by (simp add: private_state_def)
  have rooms: "ws_room h (length (ts_contexts (task (w\<lparr>net := e\<rparr>))))" "ws_room h 1"
    using ws_room_mono [OF room(1)] ws_room_mono [OF room(2), of 1] st by (simp_all add: private_state_def)
  obtain p w' where p: "populate_simple_execution_plan h
      \<lparr>pl_contexts = [], pl_cnext = 0, pl_servers = [], pl_snext = 0\<rparr> d max_size s (w\<lparr>net := e\<rparr>) = Some (p, w')"
    and pp: "pl_servers p = [s]" "pl_cnext p = 0" "pl_snext p = 0"
      "set (pl_contexts p) \<subseteq> set (ts_contexts (task w'))"
    and fr: "plan_frame d (w\<lparr>net := e\<rparr>) w'" "task_ok d w'"
    by (rule populate_simple_spec [OF ok rooms refl, of max_size s]) blast
  have st': "private_state h d N w'" using private_state_frame [OF st _ fr(2)] fr(1) by simp
  have "registered w' d = registered w d" using fr(1) by (simp add: plan_frame_def registered_def)
  then have "private_ready h d N n p w'" for n
    using st' att pp by (simp add: private_ready_def plan_left_def attempts_ok_def Some)
  then show thesis
    using that [of p w'] st' p exec_frame_plan [OF fr(1)] by (simp add: plan_execution_def new Some exec_frame_def registered_def)
next
  case None
  then have r0: "retries = 0" and nz: "1 + max_retries \<noteq> 0"
    using att by (simp_all add: attempts_ok_def add.commute)
  then have usize: "unat max_size = Suc (unat max_retries)"
    by (simp add: size unatSuc)
  have ok: "task_ok d w" using st by (simp add: private_state_def)
  have rooms: "ws_room h (length (ts_contexts (task w)))" "ws_room h (unat max_size)"
    using ws_room_mono [OF room(1)] room(2) usize st by (simp_all add: private_state_def)
  obtain now p w' where p: "plan_execution h d max_size None master slot w = Some (Some p, w')"
    "planned h d now max_size master slot w p" "plan_frame d w w'" "task_ok d w'"
    "set (pl_contexts p) \<subseteq> set (ts_contexts (task w'))"
    by (rule plan_execution_planned_aux [OF ok rooms, of master slot]) blast
  have st': "private_state h d N w'" by (rule private_state_frame [OF st p(3,4)])
  have reg: "registered w' d = registered w d" using p(3) by (simp add: plan_frame_def)
  have sub: "set (pl_servers p) \<subseteq> registered w d"
    using p(2) planned_sub [of d w] ok by (auto simp: planned_def task_ok_def)
  have "private_ready h d N (Suc (unat max_retries - unat retries)) p w'"
    if "pl_contexts p \<noteq> [] \<or> pl_servers p \<noteq> []"
  proof -
    have "pl_servers p \<noteq> []" if "length (pl_contexts p) < unat max_size"
      using planned_continues [OF ok p(2) _ that] \<open>pl_contexts p \<noteq> [] \<or> pl_servers p \<noteq> []\<close> by blast
    then have "unat max_size \<le> length (pl_contexts p) \<or> 0 < length (pl_servers p)" by (meson length_greater_0_conv not_le)
    then show ?thesis
      using st' p(2,5) sub by (auto simp: private_ready_def plan_left_def planned_def reg r0 usize)
  qed
  then show thesis using that [of p w'] st' p(1) exec_frame_plan [OF p(3)] None by simp
qed

lemma redis_execute_ok:
  assumes "private_state h d N w" and "argv_ok argv" and "ws_room h N" and "ws_room h (Suc (unat max_retries))"
    and "attempts_ok server retries max_retries (registered w d)"
  shows "\<exists>r argv' retries' w'.
    redis_execute fuel h d timeout max_retries argv retries server asking master slot w =
      Some (r, argv', retries', w') \<and>
    retries \<le> retries' \<and> retries' \<le> max_retries \<and> (r = None \<longrightarrow> retries' = max_retries) \<and>
    private_state h d N w' \<and> exec_frame w w' \<and> (r \<noteq> None \<longrightarrow> argv_ok argv')"
proof -
  have le: "retries \<le> max_retries" using assms(5) by (auto simp: attempts_ok_def split: option.splits)
  let ?size = "if retries > 0 then max_retries - retries else 1 + max_retries - retries"
  obtain p w1 where p: "plan_execution h d ?size server master slot w = Some (Some p, w1)"
    and st: "private_state h d N w1" and fr: "exec_frame w w1"
    and ready: "pl_contexts p \<noteq> [] \<or> pl_servers p \<noteq> [] \<Longrightarrow>
      private_ready h d N (Suc (unat max_retries - unat retries)) p w1"
    by (rule plan_private [OF assms(1,3-5) refl, of master slot]) blast
  have eq: "redis_execute fuel h d timeout max_retries argv retries server asking master slot w =
    (if pl_contexts p \<noteq> [] \<or> pl_servers p \<noteq> []
     then execute_loop (lock_redis_context fuel h d) (unlock_redis_context d) h d timeout
            max_retries asking argv retries p w1
     else Some (None, argv, max_retries, w1))"
    using p le by (simp add: redis_execute_def assert_that_def)
  show ?thesis
  proof (cases "pl_contexts p \<noteq> [] \<or> pl_servers p \<noteq> []")
    case True
    then show ?thesis
      using pvf.loop_total [OF conjI [OF ready fr] assms(2) le, of fuel h timeout asking] eq
      by (auto simp: private_ready_def)
  next
    case False
    then show ?thesis using eq st fr le by auto
  qed
qed

section \<open>Properties\<close>

text \<open>
  C14. A command on a database with private connections always comes to an end, and the worker does
  not panic: with a registry in order, room in the workspace and at least one connection allowed,
  \<open>redis_execute\<close> returns; it uses at most the retries it was given, all of them if it has no reply,
  and it leaves the registry in order, the mutexes free, and no more connections than the limit. The
  hypothesis on the retries excludes \<open>UINT_MAX\<close> and, for a plan that the function makes itself,
  retries that are already used.
\<close>

theorem redis_execute_returns:
  assumes "private_state h d N w" and "argv_ok argv" and "ws_room h N" and "ws_room h (Suc (unat max_retries))"
    and "attempts_ok server retries max_retries (registered w d)"
  shows "\<exists>r argv' retries' w'.
    redis_execute fuel h d timeout max_retries argv retries server asking master slot w =
      Some (r, argv', retries', w') \<and>
    retries \<le> retries' \<and> retries' \<le> max_retries \<and> (r = None \<longrightarrow> retries' = max_retries) \<and>
    private_state h d N w'"
  using redis_execute_ok [OF assms] by blast

lemma private_state_lab: "private_state (lab answer room) 0 2 (lab_one False clustered)"
proof -
  have "\<not> shared_connections (dbs (lab_one False clustered) 0)"
    "ts_contexts (task (lab_one False clustered)) = []" "max_connections (dbs (lab_one False clustered) 0) = 2"
    "connects (lab answer room)"
    by (simp_all add: lab_defs connects_def)
  then show ?thesis using task_ok_lab [of False clustered] by (simp add: private_state_def)
qed

theorem redis_execute_returns_witness:
  "\<exists>r argv' retries' w'.
    redis_execute 0 (lab (\<lambda>c. None) 64) 0 \<lparr>tv_sec = 1, tv_usec = 0\<rparr> 2 [Some ''GET'', Some ''k''] 0 None False True 0
      (lab_one False False) = Some (r, argv', retries', w') \<and>
    (r = None \<longrightarrow> retries' = 2) \<and> length (ts_contexts (task w')) \<le> 2"
proof -
  have "argv_ok [Some ''GET'', Some ''k'']" by (auto simp: argv_ok_def)
  moreover have "ws_room (lab (\<lambda>c. None) 64) 2" "ws_room (lab (\<lambda>c. None) 64) (Suc (unat (2 :: uint)))"
    using ws_room_lab by simp_all
  moreover have "attempts_ok None 0 (2 :: uint) (registered (lab_one False False) 0)"
    by (simp add: attempts_ok_def)
  ultimately show ?thesis
    using redis_execute_returns [OF private_state_lab, where server = None and max_retries = 2 and retries = 0]
    unfolding private_state_def by blast
qed

end
