(* ===== verification/Execute_Shared.thy ===== *)
theory Execute_Shared
  imports Execute_Private Pool_Threads
begin

text \<open>
  Shared connections are a \<open>connection_source\<close> too. The other threads act while this one waits for the
  condition of a server (\<open>h_wait\<close>); what is asked of them is \<open>others_ok\<close>: they keep the pools in order, and
  after some of the wake-ups a connection is free or can be opened.
\<close>

section \<open>The state of a database with shared connections\<close>

definition pool_conns :: "pool \<Rightarrow> redis_context set" where
  "pool_conns p = set (free_contexts p) \<union> set (busy_contexts p)"

definition pools_in_order :: "db_ptr \<Rightarrow> 'e world \<Rightarrow> bool" where
  "pools_in_order d w \<longleftrightarrow>
     (\<forall>s \<in> registered w d. pool_ok (max_connections (dbs w d)) (sv_pool (srvs w s)) \<and>
        (\<forall>c \<in> pool_conns (sv_pool (srvs w s)). cx_server c = s \<and> cx_id c < next_ctx w))"

text \<open>\<open>N\<close> bounds the private contexts that the task has of other databases. Which mutexes are held is left open.\<close>

definition shared_core :: "db_ptr \<Rightarrow> nat \<Rightarrow> 'e world \<Rightarrow> bool" where
  "shared_core d N w \<longleftrightarrow>
     shared_connections (dbs w d) \<and> max_connections (dbs w d) \<noteq> 0 \<and> task_ok d (w\<lparr>held := []\<rparr>) \<and>
     length (ts_contexts (task w)) \<le> N \<and> pools_in_order d w"

definition pool_full :: "db_ptr \<Rightarrow> server_ptr \<Rightarrow> 'e world \<Rightarrow> bool" where
  "pool_full d s w \<longleftrightarrow>
     free_contexts (sv_pool (srvs w s)) = [] \<and> ncontexts (sv_pool (srvs w s)) \<ge> max_connections (dbs w d)"

text \<open>One wait, as the loop of \<open>lock_shared_redis_context\<close> does it.\<close>

definition wait_again :: "'e hiredis \<Rightarrow> db_ptr \<Rightarrow> server_ptr \<Rightarrow> 'e world \<Rightarrow> 'e world" where
  "wait_again h d s w = upd_stats d (\<lambda>st. st\<lparr>st_workers_blocked := st_workers_blocked st + 1\<rparr>) (h_wait h s w)"

definition others_ok :: "'e hiredis \<Rightarrow> db_ptr \<Rightarrow> nat \<Rightarrow> nat \<Rightarrow> bool" where
  "others_ok h d N fuel \<longleftrightarrow>
     (\<forall>w s. shared_core d N w \<and> s \<in> registered w d \<and> held w = [Db_Mutex d] \<longrightarrow>
        shared_core d N (h_wait h s w) \<and> held (h_wait h s w) = held w \<and>
        registered w d \<subseteq> registered (h_wait h s w) d \<and>
        (\<exists>k < fuel. \<not> pool_full d s ((wait_again h d s ^^ k) w)))"

definition shared_state :: "'e hiredis \<Rightarrow> db_ptr \<Rightarrow> nat \<Rightarrow> nat \<Rightarrow> 'e world \<Rightarrow> bool" where
  "shared_state h d N fuel w \<longleftrightarrow> connects h \<and> others_ok h d N fuel \<and> held w = [] \<and> shared_core d N w"

lemma shared_core_keeps:
  assumes "same_core w w'" and "shared_core d N w"
  shows "shared_core d N w'"
proof -
  have "core_task (w\<lparr>held := []\<rparr>) (w'\<lparr>held := []\<rparr>)"
    using same_core_task [OF assms(1)] by (simp add: core_task_def same_core_def)
  then have "task_ok d (w'\<lparr>held := []\<rparr>)"
    using task_ok_core_task [of "w\<lparr>held := []\<rparr>" "w'\<lparr>held := []\<rparr>" d] assms(2) same_core_world(3) [OF assms(1)]
    by (simp add: shared_core_def)
  then show ?thesis
    using assms(2)
    by (simp add: shared_core_def pools_in_order_def same_core_simps [OF assms(1)] registered_core [OF assms(1)])
qed

lemma shared_core_held [simp]:
  "shared_core d N (w\<lparr>held := l\<rparr>) \<longleftrightarrow> shared_core d N w" "registered (w\<lparr>held := l\<rparr>) d = registered w d"
  by (simp_all add: shared_core_def pools_in_order_def registered_def)

lemma shared_core_db: "shared_core d N w \<Longrightarrow> s \<in> registered w d \<Longrightarrow> sv_db (srvs w s) = d"
  by (auto simp: shared_core_def task_ok_def reg_ok_def registered_def filed_ok_def)

text \<open>A change of one pool.\<close>

lemma upd_pool_srv [simp]:
  "sv_raw (srvs (upd_pool s f w) x) = sv_raw (srvs w x)" "sv_loc (srvs (upd_pool s f w) x) = sv_loc (srvs w x)"
  "sv_role (srvs (upd_pool s f w) x) = sv_role (srvs w x)" "sv_weight (srvs (upd_pool s f w) x) = sv_weight (srvs w x)"
  "next_srv (upd_pool s f w) = next_srv w" "(upd_pool s f w)\<lparr>held := l\<rparr> = upd_pool s f (w\<lparr>held := l\<rparr>)"
  by (simp_all add: upd_pool_def upd_srv_def)

lemma registered_pool [simp]: "registered (upd_pool s f w) d = registered w d"
  by (simp add: registered_def)

lemma task_ok_pool [simp]: "task_ok d (upd_pool s f w) \<longleftrightarrow> task_ok d w"
  by (simp add: task_ok_def reg_ok_def filed_ok_def registered_def private_ok_def)

lemma shared_core_pool:
  assumes "shared_core d N w" and "s \<in> registered w d"
    and "pool_ok (max_connections (dbs w d)) (sv_pool (srvs w s)) \<Longrightarrow> pool_ok (max_connections (dbs w d)) (f (sv_pool (srvs w s)))"
    and "pool_conns (f (sv_pool (srvs w s))) \<subseteq> pool_conns (sv_pool (srvs w s)) \<union> {c. cx_server c = s \<and> cx_id c < next_ctx w}"
  shows "shared_core d N (upd_pool s f w)"
proof -
  have "task_ok d ((upd_pool s f w)\<lparr>held := []\<rparr>)"
    using assms(1) by (simp add: shared_core_def)
  then show ?thesis
    using assms by (auto simp: shared_core_def pools_in_order_def)
qed

section \<open>Getting a connection\<close>

abbreviation pool_size :: "pool \<Rightarrow> nat" where
  "pool_size p \<equiv> length (free_contexts p) + length (busy_contexts p)"

definition has_busy :: "server_ptr \<Rightarrow> redis_context \<Rightarrow> 'e world \<Rightarrow> bool" where
  "has_busy s c w \<longleftrightarrow> cx_server c = s \<and> c \<in> set (busy_contexts (sv_pool (srvs w s)))"

lemma scan_free_total:
  assumes "shared_core d N w" and "s \<in> registered w d" and "held w = [Db_Mutex d]"
    and "free_contexts (sv_pool (srvs w s)) = cs"
  shows "\<exists>r w'. scan_free h s now cs w = Some (r, w') \<and> shared_core d N w' \<and> held w' = [Db_Mutex d] \<and>
    registered w' d = registered w d \<and> max_connections (dbs w' d) = max_connections (dbs w d) \<and>
    pool_size (sv_pool (srvs w' s)) \<le> pool_size (sv_pool (srvs w s)) \<and>
    (case r of
       Some c \<Rightarrow> has_busy s c w'
     | None \<Rightarrow> free_contexts (sv_pool (srvs w' s)) = [] \<and>
         (cs \<noteq> [] \<longrightarrow> pool_size (sv_pool (srvs w' s)) < pool_size (sv_pool (srvs w s))) \<and> (cs = [] \<longrightarrow> w' = w))"
  using assms
proof (induction cs arbitrary: w)
  case Nil
  then show ?case by simp
next
  case (Cons c cs)
  let ?p = "sv_pool (srvs w s)" and ?w1 = "upd_pool s (pool_mark_busy c) w"
  have conns: "\<forall>x \<in> pool_conns ?p. cx_server x = s" and ok: "pool_ok (max_connections (dbs w d)) ?p"
    using Cons.prems(1,2) by (simp_all add: shared_core_def pools_in_order_def)
  then have c: "cx_server c = s" "c \<in> set (free_contexts ?p)" "c \<notin> set cs" "c \<notin> set (busy_contexts ?p)"
    using Cons.prems(4) by (auto simp: pool_conns_def pool_ok_def)
  have w1: "shared_core d N ?w1"
    by (rule shared_core_pool [OF Cons.prems(1,2) pool_ok_mark_busy])
      (use c in \<open>auto simp: pool_conns_def pool_mark_busy_def dest: set_remove_subset [THEN subsetD]\<close>)
  have "db_lock_ok True (sv_db (srvs ?w1 (cx_server c))) ?w1"
    using shared_core_db [OF Cons.prems(1,2)] Cons.prems(3) c(1) by (simp add: db_lock_ok_def)
  then obtain v w2 where v: "is_valid_redis_context h c now True ?w1 = Some (v, w2)"
    using is_valid_exact by metis
  note core = is_valid_core [OF v]
  have w2: "shared_core d N w2" "held w2 = [Db_Mutex d]" "registered w2 d = registered w d"
    "sv_pool (srvs w2 s) = pool_mark_busy c ?p" "max_connections (dbs w2 d) = max_connections (dbs w d)"
    using shared_core_keeps [OF core w1] Cons.prems(3)
    by (simp_all add: same_core_simps [OF core] registered_core [OF core])
  show ?case
  proof (cases v)
    case True
    then show ?thesis
      using v w2 c Cons.prems(4) by (simp add: has_busy_def pool_mark_busy_def)
  next
    case False
    let ?w3 = "free_redis_context h c (upd_pool s (pool_discard c) w2)"
    have busy: "c \<in> set (busy_contexts (sv_pool (srvs w2 s)))" by (simp add: w2(4) pool_mark_busy_def)
    have s: "s \<in> registered w2 d" using Cons.prems(2) by (simp add: w2(3))
    have "shared_core d N (upd_pool s (pool_discard c) w2)"
      by (rule shared_core_pool [OF w2(1) s pool_ok_discard])
        (use busy in \<open>auto simp: pool_conns_def pool_discard_def dest: set_remove_subset [THEN subsetD]\<close>)
    then have w3: "shared_core d N ?w3"
      by (rule shared_core_keeps [rotated]) (simp add: free_redis_context_def)
    have free3: "free_contexts (sv_pool (srvs ?w3 s)) = cs"
      by (simp add: w2(4) pool_discard_def pool_mark_busy_def Cons.prems(4) tailq_remove_def)
    have size3: "pool_size (sv_pool (srvs ?w3 s)) < pool_size ?p"
      using c(4) by (simp add: w2(4) pool_discard_def pool_mark_busy_def Cons.prems(4))
    have same: "registered ?w3 d = registered w2 d" by (simp add: registered_def)
    have "s \<in> registered ?w3 d" "held ?w3 = [Db_Mutex d]" "registered ?w3 d = registered w d"
      "max_connections (dbs ?w3 d) = max_connections (dbs w d)"
      using s w2 by (simp_all add: same)
    note after = this
    obtain r w' where scan: "scan_free h s now cs ?w3 = Some (r, w')" and w': "shared_core d N w'" "held w' = [Db_Mutex d]"
        "registered w' d = registered ?w3 d" "max_connections (dbs w' d) = max_connections (dbs ?w3 d)"
        "pool_size (sv_pool (srvs w' s)) \<le> pool_size (sv_pool (srvs ?w3 s))"
      and r: "case r of Some c \<Rightarrow> has_busy s c w' | None \<Rightarrow> free_contexts (sv_pool (srvs w' s)) = [] \<and>
          (cs \<noteq> [] \<longrightarrow> pool_size (sv_pool (srvs w' s)) < pool_size (sv_pool (srvs ?w3 s))) \<and> (cs = [] \<longrightarrow> w' = ?w3)"
      using Cons.IH [OF w3 after(1,2) free3] by blast
    have "scan_free h s now (c # cs) w = Some (r, w')" using v False scan by simp
    moreover have "pool_size (sv_pool (srvs w' s)) < pool_size ?p" using w'(5) size3 by linarith
    ultimately show ?thesis
      using w'(1,2) w'(3,4) [unfolded after(3,4)] r by (intro exI [of _ r] exI [of _ w']) (cases r; simp)
  qed
qed

lemma lock_section_total:
  assumes "connects h" and "shared_core d N w" and "s \<in> registered w d" and "held w = [Db_Mutex d]"
  shows "\<exists>r w'. lock_section h d s now w = Some (r, w') \<and> shared_core d N w' \<and> held w' = [Db_Mutex d] \<and>
    registered w' d = registered w d \<and>
    (case r of Locked c \<Rightarrow> has_busy s c w' | Connect_Failed \<Rightarrow> True | Must_Wait \<Rightarrow> w' = w \<and> pool_full d s w)"
proof -
  let ?p = "\<lambda>w. sv_pool (srvs w s)"
  obtain r w1 where scan: "scan_free h s now (free_contexts (?p w)) w = Some (r, w1)"
    and w1: "shared_core d N w1" "held w1 = [Db_Mutex d]" "registered w1 d = registered w d"
      "max_connections (dbs w1 d) = max_connections (dbs w d)" "pool_size (?p w1) \<le> pool_size (?p w)"
    and r: "case r of Some c \<Rightarrow> has_busy s c w1
      | None \<Rightarrow> free_contexts (?p w1) = [] \<and>
          (free_contexts (?p w) \<noteq> [] \<longrightarrow> pool_size (?p w1) < pool_size (?p w)) \<and> (free_contexts (?p w) = [] \<longrightarrow> w1 = w)"
    using scan_free_total [OF assms(2-4) refl] by blast
  show ?thesis
  proof (cases r)
    case (Some c)
    then show ?thesis using scan w1 r by (simp add: lock_section_def)
  next
    case None
    have s1: "s \<in> registered w1 d" using assms(3) w1(3) by simp
    have ok: "pool_ok (max_connections (dbs w d)) (?p w)" "pool_ok (max_connections (dbs w1 d)) (?p w1)"
      using assms(2,3) w1(1) s1 by (simp_all add: shared_core_def pools_in_order_def)
    show ?thesis
    proof (cases "ncontexts (?p w1) \<ge> max_connections (dbs w1 d)")
      case True
      have "unat (max_connections (dbs w d)) \<le> pool_size (?p w1)"
        using True w1(4) pool_count [OF ok(2)] by (simp add: word_le_nat_alt)
      moreover have "pool_size (?p w) \<le> unat (max_connections (dbs w d))" using ok(1) by (simp add: pool_ok_def)
      ultimately have "free_contexts (?p w) = []" "w1 = w" using r None by force+
      then show ?thesis using scan True None w1(1,2) by (simp add: lock_section_def pool_full_def)
    next
      case False
      have "db_lock_ok True (sv_db (srvs w1 s)) w1"
        using shared_core_db [OF w1(1) s1] w1(2) by (simp add: db_lock_ok_def)
      then obtain rc w2 where n: "new_rcontext h s now False True w1 = Some (rc, w2)"
        using new_rcontext_total [OF assms(1)] by metis
      note core = new_rcontext_core [OF n]
      have w2: "shared_core d N w2" "held w2 = [Db_Mutex d]" "registered w2 d = registered w d" "s \<in> registered w2 d"
        "?p w2 = ?p w1" "max_connections (dbs w2 d) = max_connections (dbs w1 d)"
        using shared_core_keeps [OF core w1(1)] w1(2,3) s1
        by (simp_all add: same_core_simps [OF core] registered_core [OF core])
      show ?thesis
      proof (cases rc)
        case None
        then show ?thesis using scan \<open>r = None\<close> False n w2 by (simp add: lock_section_def)
      next
        case (Some x)
        let ?w3 = "w2\<lparr>next_ctx := Suc (next_ctx w2)\<rparr>"
        obtain c where c: "new_redis_context s x now w2 = (c, ?w3)" "cx_server c = s" "cx_id c = next_ctx w2"
          by (simp add: new_redis_context_def)
        have w3: "shared_core d N ?w3" "s \<in> registered ?w3 d"
          using w2(1,4) by (auto simp: shared_core_def pools_in_order_def registered_def task_ok_def reg_ok_def filed_ok_def
              private_ok_def less_Suc_eq)
        have "\<forall>x \<in> pool_conns (?p w2). cx_id x < next_ctx w2"
          using w2(1,4) by (simp add: shared_core_def pools_in_order_def)
        then have new: "c \<notin> pool_conns (?p w2)" using c(3) by auto
        have "shared_core d N (upd_pool s (pool_create c) ?w3)"
        proof (rule shared_core_pool [OF w3])
          show "pool_ok (max_connections (dbs ?w3 d)) (pool_create c (?p ?w3))" if "pool_ok (max_connections (dbs ?w3 d)) (?p ?w3)"
            using that new False by (intro pool_ok_create) (simp_all add: w2(5,6) pool_conns_def)
          show "pool_conns (pool_create c (?p ?w3)) \<subseteq> pool_conns (?p ?w3) \<union> {c. cx_server c = s \<and> cx_id c < next_ctx ?w3}"
            using c by (auto simp: pool_conns_def pool_create_def)
        qed
        then show ?thesis
          using scan \<open>r = None\<close> False n Some c w2(2,3)
          by (simp add: lock_section_def has_busy_def pool_create_def registered_def)
      qed
    qed
  qed
qed

lemma lock_retry_total:
  assumes "connects h" and others: "others_ok h d N waits"
  shows "\<lbrakk>shared_core d N w; s \<in> registered w d; held w = [Db_Mutex d]; \<exists>k < fuel. \<not> pool_full d s ((wait_again h d s ^^ k) w)\<rbrakk> \<Longrightarrow>
    \<exists>r w'. lock_shared_retry fuel h d s now w = Some (r, w') \<and> shared_core d N w' \<and> held w' = [Db_Mutex d] \<and>
      registered w d \<subseteq> registered w' d \<and> (case r of Some c \<Rightarrow> has_busy s c w' | None \<Rightarrow> True)"
proof (induction fuel arbitrary: w)
  case 0
  then show ?case by simp
next
  case (Suc fuel)
  obtain r w1 where sec: "lock_section h d s now w = Some (r, w1)" and w1: "shared_core d N w1" "held w1 = [Db_Mutex d]"
      "registered w1 d = registered w d"
    and r: "case r of Locked c \<Rightarrow> has_busy s c w1 | Connect_Failed \<Rightarrow> True | Must_Wait \<Rightarrow> w1 = w \<and> pool_full d s w"
    using lock_section_total [OF assms(1) Suc.prems(1-3)] by blast
  show ?case
  proof (cases r)
    case Must_Wait
    then have full: "w1 = w" "pool_full d s w" using r by simp_all
    obtain k where k: "k < Suc fuel" "\<not> pool_full d s ((wait_again h d s ^^ k) w)" using Suc.prems(4) by blast
    obtain k' where k': "k = Suc k'" using k(2) full(2) by (cases k) simp_all
    let ?w = "wait_again h d s w"
    have o: "shared_core d N (h_wait h s w)" "held (h_wait h s w) = [Db_Mutex d]" "registered w d \<subseteq> registered (h_wait h s w) d"
      using others Suc.prems(1-3) by (simp_all add: others_ok_def)
    have core: "same_core (h_wait h s w) ?w" by (simp add: wait_again_def)
    have "shared_core d N ?w" "held ?w = [Db_Mutex d]" "registered w d \<subseteq> registered ?w d"
      using shared_core_keeps [OF core o(1)] o(2,3) by (simp_all add: same_core_simps [OF core] registered_core [OF core])
    moreover have "\<exists>k < fuel. \<not> pool_full d s ((wait_again h d s ^^ k) ?w)"
      using k by (intro exI [of _ k']) (simp add: k' funpow_swap1)
    ultimately obtain r' w' where "lock_shared_retry fuel h d s now ?w = Some (r', w')" "shared_core d N w'" "held w' = [Db_Mutex d]"
        "registered ?w d \<subseteq> registered w' d" "case r' of Some c \<Rightarrow> has_busy s c w' | None \<Rightarrow> True"
      using Suc.IH [of ?w] Suc.prems(2) by blast
    then show ?thesis
      using sec Must_Wait full(1) \<open>registered w d \<subseteq> registered ?w d\<close> unfolding wait_again_def
      by (intro exI [of _ r'] exI [of _ w']) auto
  qed (use sec w1 r in auto)
qed

section \<open>The connections of a database\<close>

definition shared_ready :: "'e hiredis \<Rightarrow> db_ptr \<Rightarrow> nat \<Rightarrow> nat \<Rightarrow> nat \<Rightarrow> plan \<Rightarrow> 'e world \<Rightarrow> bool" where
  "shared_ready h d N fuel n p w \<longleftrightarrow>
     shared_state h d N fuel w \<and> pl_snext p < length (pl_servers p) \<and> set (pl_servers p) \<subseteq> registered w d"

definition shared_using :: "'e hiredis \<Rightarrow> db_ptr \<Rightarrow> nat \<Rightarrow> nat \<Rightarrow> nat \<Rightarrow> redis_context \<Rightarrow> plan \<Rightarrow> 'e world \<Rightarrow> bool" where
  "shared_using h d N fuel n c p w \<longleftrightarrow>
     shared_ready h d N fuel n p w \<and> cx_server c \<in> registered w d \<and> has_busy (cx_server c) c w"

lemma shared_state_keeps:
  assumes "same_core w w'" and "shared_state h d N fuel w"
  shows "shared_state h d N fuel w'"
  using assms(2) shared_core_keeps [OF assms(1)] by (simp add: shared_state_def same_core_world [OF assms(1)])

lemma shared_ready_keeps:
  assumes "same_core w w'" and "shared_ready h d N fuel n p w"
  shows "shared_ready h d N fuel n p w'"
  using assms(2) shared_state_keeps [OF assms(1)] by (simp add: shared_ready_def registered_core [OF assms(1)])

lemma lock_shared_ready:
  assumes "shared_ready h d N fuel (Suc n) p w"
  shows "\<exists>c p' w'. lock_redis_context fuel h d p w = Some (c, p', w') \<and>
    (case c of None \<Rightarrow> shared_ready h d N fuel n p' w' | Some c \<Rightarrow> shared_using h d N fuel n c p' w')"
proof -
  have st: "shared_state h d N fuel w" and p: "pl_snext p < length (pl_servers p)" "set (pl_servers p) \<subseteq> registered w d"
    using assms by (simp_all add: shared_ready_def)
  obtain now w1 where t: "net_call (h_time h) w = (now, w1)" by fastforce
  have c1: "same_core w w1" using same_core_call [OF t, of w] by simp
  have st1: "shared_state h d N fuel w1" by (rule shared_state_keeps [OF c1 st])
  let ?p = "p\<lparr>pl_snext := (pl_snext p + 1) mod length (pl_servers p)\<rparr>"
  obtain s where s: "next_server p = Some (s, ?p)" "s \<in> set (pl_servers p)"
    "(pl_snext p + 1) mod length (pl_servers p) < length (pl_servers p)"
    by (rule next_server_ok [OF p(1)])
  have reg1: "registered w1 d = registered w d" by (rule registered_core [OF c1])
  have s1: "s \<in> registered w1 d" using s(2) p(2) reg1 by auto
  have db: "sv_db (srvs w1 s) = d" using st1 s1 by (auto simp: shared_state_def intro: shared_core_db)
  let ?w = "w1\<lparr>held := [Db_Mutex d]\<rparr>"
  have core: "connects h" "others_ok h d N fuel" "shared_core d N ?w" "s \<in> registered ?w d" "held ?w = [Db_Mutex d]"
    using st1 s1 by (simp_all add: shared_state_def)
  have woken: "\<exists>k < fuel. \<not> pool_full d s ((wait_again h d s ^^ k) ?w)" using core(2-5) unfolding others_ok_def by blast
  obtain r w2 where retry: "lock_shared_retry fuel h d s now ?w = Some (r, w2)"
    and w2: "shared_core d N w2" "held w2 = [Db_Mutex d]" "registered w1 d \<subseteq> registered w2 d"
    and r: "case r of Some c \<Rightarrow> has_busy s c w2 | None \<Rightarrow> True"
    using lock_retry_total [OF core woken, of now] by auto
  let ?w' = "w2\<lparr>held := []\<rparr>"
  have s2: "s \<in> registered w2 d" using s1 w2(3) by auto
  have db2: "sv_db (srvs w2 s) = d" using w2(1) s2 by (rule shared_core_db)
  have "shared_connections (dbs w d)" using st by (simp add: shared_state_def shared_core_def)
  moreover have "held w1 = []" using st1 by (simp add: shared_state_def)
  ultimately have lock: "lock_redis_context fuel h d p w = Some (r, ?p, ?w')"
    using retry w2(2)
    by (simp add: lock_redis_context_def lock_shared_redis_context_def t s(1) db db2 Lck_Lock_def Lck_Unlock_def)
  have "shared_ready h d N fuel n ?p ?w'"
    using st1 w2 p reg1 s(3) by (auto simp: shared_ready_def shared_state_def)
  then show ?thesis
    using lock r s2 by (cases r) (auto simp: shared_using_def has_busy_def)
qed

lemma unlock_shared_using:
  assumes "shared_using h d N fuel n c p w"
  shows "\<exists>w'. unlock_redis_context d c w = Some w' \<and> shared_ready h d N fuel n p w'"
proof -
  let ?s = "cx_server c"
  have core: "shared_core d N w" "held w = []" "?s \<in> registered w d" "has_busy ?s c w"
    using assms by (simp_all add: shared_using_def shared_ready_def shared_state_def)
  have db: "sv_db (srvs w ?s) = d" by (rule shared_core_db [OF core(1,3)])
  have busy: "c \<in> set (busy_contexts (sv_pool (srvs w ?s)))" using core(4) by (simp add: has_busy_def)
  have rel: "shared_core d N (upd_pool ?s (pool_release c) w)"
    by (rule shared_core_pool [OF core(1,3) pool_ok_release])
      (use busy in \<open>auto simp: pool_conns_def pool_release_def dest: set_remove_subset [THEN subsetD]\<close>)
  let ?w' = "upd_pool ?s (pool_release c) w"
  have held: "w\<lparr>held := []\<rparr> = w" using core(2) by (cases w) simp
  have "unlock_redis_context d c w = Some ?w'"
    using core(1,2) db
    by (simp add: unlock_redis_context_def unlock_shared_redis_context_def shared_core_def Let_def Lck_Lock_def
        Lck_Unlock_def held)
  moreover have "shared_ready h d N fuel n p ?w'"
    using assms rel core(2) by (simp add: shared_using_def shared_ready_def shared_state_def)
  ultimately show ?thesis by blast
qed

lemma shared_ready_fail: "shared_ready h d N fuel n p w \<Longrightarrow> shared_ready h d N fuel n p (VRT_fail w)"
  by (simp add: shared_ready_def shared_state_def shared_core_def pools_in_order_def VRT_fail_def task_ok_def
      reg_ok_def filed_ok_def registered_def private_ok_def)

interpretation shr: connection_source "shared_ready h d N fuel" "shared_using h d N fuel"
  "lock_redis_context fuel h d" "unlock_redis_context d" d
  for h :: "'e hiredis" and d N fuel
proof unfold_locales
  show "\<exists>c p' w'. lock_redis_context fuel h d p w = Some (c, p', w') \<and>
      (case c of None \<Rightarrow> shared_ready h d N fuel n p' w' | Some c \<Rightarrow> shared_using h d N fuel n c p' w')"
    if "shared_ready h d N fuel (Suc n) p w" for n p w
    by (rule lock_shared_ready [OF that])
  show "\<exists>w'. unlock_redis_context d c w = Some w' \<and> shared_ready h d N fuel n p w'"
    if "shared_using h d N fuel n c p w" for n c p and w :: "'e world"
    by (rule unlock_shared_using [OF that])
  show "Db_Mutex d \<notin> set (held w)" if "shared_ready h d N fuel n p w" for n p and w :: "'e world"
    using that by (simp add: shared_ready_def shared_state_def)
  show "Db_Mutex d \<notin> set (held w)" if "shared_using h d N fuel n c p w" for n c p and w :: "'e world"
    using that by (simp add: shared_using_def shared_ready_def shared_state_def)
  show "shared_ready h d N fuel n p w'" if "shared_ready h d N fuel n p w" "only_counts w w'"
    for n p and w w' :: "'e world"
    using shared_ready_keeps [of w w'] that by (simp add: only_counts_def)
  show "shared_using h d N fuel n c p w'" if "shared_using h d N fuel n c p w" "only_counts w w'"
    for n c p and w w' :: "'e world"
    using shared_ready_keeps [of w w'] registered_core [of w w'] that
    by (simp add: shared_using_def has_busy_def only_counts_def)
  show "shared_ready h d N fuel n p (VRT_fail w)" if "shared_ready h d N fuel n p w" for n p and w :: "'e world"
    by (rule shared_ready_fail [OF that])
qed

section \<open>The plan of a command\<close>

lemma shared_state_frame:
  assumes "shared_state h d N fuel w" and "plan_frame d w w'" and "task_ok d w'"
  shows "shared_state h d N fuel w'"
proof -
  have sub: "set (ts_contexts (task w')) \<subseteq> set (ts_contexts (task w))"
    using assms(2) by (simp add: plan_frame_def)
  have "distinct (ts_contexts (task w'))" using assms(3) by (simp add: task_ok_def private_ok_def)
  then have "length (ts_contexts (task w')) \<le> card (set (ts_contexts (task w)))"
    using card_mono [OF finite_set sub] by (simp add: distinct_card)
  also have "\<dots> \<le> length (ts_contexts (task w))" by (rule card_length)
  finally have len: "length (ts_contexts (task w')) \<le> length (ts_contexts (task w))" .
  have "task_ok d (w'\<lparr>held := []\<rparr>)"
    using assms(3) by (simp add: task_ok_def reg_ok_def filed_ok_def registered_def private_ok_def)
  then show ?thesis
    using assms len by (auto simp: shared_state_def shared_core_def pools_in_order_def plan_frame_def)
qed

lemma plan_shared:
  assumes st: "shared_state h d N fuel w" and room: "ws_room h N" "ws_room h (Suc (unat max_retries))"
    and att: "attempts_ok server retries max_retries (registered w d)"
    and size: "max_size = (if retries > 0 then max_retries - retries else 1 + max_retries - retries)"
  obtains p w' where "plan_execution h d max_size server master slot w = Some (Some p, w')"
    "shared_state h d N fuel w'" "exec_frame w w'"
    "pl_contexts p \<noteq> [] \<or> pl_servers p \<noteq> [] \<Longrightarrow> shared_ready h d N fuel n p w'"
proof -
  have "w\<lparr>held := []\<rparr> = w" using st by (cases w) (simp add: shared_state_def)
  then have ok: "task_ok d w" and sh: "shared_connections (dbs w d)" and len: "length (ts_contexts (task w)) \<le> N"
    using st by (simp_all add: shared_state_def shared_core_def)
  show thesis
  proof (cases server)
    case (Some s)
    obtain e where new: "new_execution_plan h w =
        (Some \<lparr>pl_contexts = [], pl_cnext = 0, pl_servers = [], pl_snext = 0\<rparr>, w\<lparr>net := e\<rparr>)"
      by (rule new_plan_room [OF room(1)])
    have ok': "task_ok d (w\<lparr>net := e\<rparr>)" and st': "shared_state h d N fuel (w\<lparr>net := e\<rparr>)"
      using ok shared_state_keeps [OF _ st, of "w\<lparr>net := e\<rparr>"] by simp_all
    have rooms: "ws_room h (length (ts_contexts (task (w\<lparr>net := e\<rparr>))))" "ws_room h 1"
      using ws_room_mono [OF room(1)] ws_room_mono [OF room(2), of 1] len by simp_all
    obtain p w' where p: "populate_simple_execution_plan h
        \<lparr>pl_contexts = [], pl_cnext = 0, pl_servers = [], pl_snext = 0\<rparr> d max_size s (w\<lparr>net := e\<rparr>) = Some (p, w')"
      and pp: "pl_servers p = [s]" "pl_snext p = 0" and fr: "plan_frame d (w\<lparr>net := e\<rparr>) w'" "task_ok d w'"
      by (rule populate_simple_spec [OF ok' rooms refl, of max_size s]) blast
    have w': "shared_state h d N fuel w'" by (rule shared_state_frame [OF st' fr])
    have "registered w' d = registered w d" using fr(1) by (simp add: plan_frame_def registered_def)
    then have "shared_ready h d N fuel n p w'"
      using w' att pp by (simp add: shared_ready_def attempts_ok_def Some)
    then show thesis
      using that [of p w'] w' p exec_frame_plan [OF fr(1)] by (simp add: plan_execution_def new Some exec_frame_def registered_def)
  next
    case None
    then have "unat max_size = Suc (unat max_retries)"
      using att by (simp add: attempts_ok_def size unatSuc add.commute)
    then have rooms: "ws_room h (length (ts_contexts (task w)))" "ws_room h (unat max_size)"
      using ws_room_mono [OF room(1)] room(2) len by simp_all
    obtain now p w' where p: "plan_execution h d max_size None master slot w = Some (Some p, w')"
      "planned h d now max_size master slot w p" "plan_frame d w w'" "task_ok d w'"
      by (rule plan_execution_planned_aux [OF ok rooms, of master slot]) blast
    have w': "shared_state h d N fuel w'" by (rule shared_state_frame [OF st p(3,4)])
    have "set (pl_servers p) \<subseteq> registered w' d"
      using p(2,3) planned_sub [of d w] ok by (auto simp: planned_def task_ok_def plan_frame_def)
    then have "shared_ready h d N fuel n p w'" if "pl_contexts p \<noteq> [] \<or> pl_servers p \<noteq> []"
      using that w' p(2) sh by (auto simp: shared_ready_def planned_def planned_contexts_def)
    then show thesis using that [of p w'] w' p(1) exec_frame_plan [OF p(3)] None by simp
  qed
qed

section \<open>Properties\<close>

text \<open>
  C15. A command on a database with shared connections always comes to an end, as one with private connections
  does, if the other threads behave: while this one waits for the condition of a server they keep the
  pools in order (each connection in one list, at most \<open>max_connections\<close> of them, counted), and after fewer
  than \<open>fuel\<close> wake-ups one is free or may be opened. \<open>redis_execute\<close> then returns within its retries, all
  of them if it has no reply; the mutex of the database is free, and the registry and the pools are
  still in order. The clock and the replies of the servers are arbitrary.
\<close>

theorem shared_execute_returns:
  assumes "shared_state h d N fuel w" and "argv_ok argv" and "ws_room h N" and "ws_room h (Suc (unat max_retries))"
    and "attempts_ok server retries max_retries (registered w d)"
  shows "\<exists>r argv' retries' w'.
    redis_execute fuel h d timeout max_retries argv retries server asking master slot w =
      Some (r, argv', retries', w') \<and>
    retries \<le> retries' \<and> retries' \<le> max_retries \<and> (r = None \<longrightarrow> retries' = max_retries) \<and>
    held w' = [] \<and> reg_ok d w' \<and> pools_in_order d w'"
proof -
  have le: "retries \<le> max_retries" using assms(5) by (auto simp: attempts_ok_def split: option.splits)
  have ends: "held v = [] \<and> reg_ok d v \<and> pools_in_order d v" if "shared_state h d N fuel v" for v
    using that by (cases v) (simp add: shared_state_def shared_core_def task_ok_def)
  let ?size = "if retries > 0 then max_retries - retries else 1 + max_retries - retries"
  obtain p w1 where p: "plan_execution h d ?size server master slot w = Some (Some p, w1)"
    and st: "shared_state h d N fuel w1"
    and ready: "pl_contexts p \<noteq> [] \<or> pl_servers p \<noteq> [] \<Longrightarrow>
      shared_ready h d N fuel (Suc (unat max_retries - unat retries)) p w1"
    by (rule plan_shared [OF assms(1,3-5) refl, of master slot]) blast
  have eq: "redis_execute fuel h d timeout max_retries argv retries server asking master slot w =
    (if pl_contexts p \<noteq> [] \<or> pl_servers p \<noteq> []
     then execute_loop (lock_redis_context fuel h d) (unlock_redis_context d) h d timeout
            max_retries asking argv retries p w1
     else Some (None, argv, max_retries, w1))"
    using p le by (simp add: redis_execute_def assert_that_def)
  show ?thesis
  proof (cases "pl_contexts p \<noteq> [] \<or> pl_servers p \<noteq> []")
    case True
    obtain r argv' retries' n p' w' where
      "execute_loop (lock_redis_context fuel h d) (unlock_redis_context d) h d timeout max_retries asking argv retries p w1 =
        Some (r, argv', retries', w')" "retries \<le> retries'" "retries' \<le> max_retries"
      "r = None \<longrightarrow> retries' = max_retries" "shared_ready h d N fuel n p' w'"
      using shr.loop_total [OF ready [OF True] assms(2) le] by metis
    then show ?thesis using eq True ends [of w'] by (auto simp: shared_ready_def)
  next
    case False
    then show ?thesis using eq le ends [OF st] by auto
  qed
qed

text \<open>Other threads that have given back all connections of a server whenever this one wakes up.\<close>

definition all_back :: "pool \<Rightarrow> pool" where
  "all_back p = p\<lparr>free_contexts := free_contexts p @ busy_contexts p, busy_contexts := []\<rparr>"

lemma others_ok_back:
  assumes wait: "h_wait h = (\<lambda>s. upd_pool s all_back)"
  shows "others_ok h d N 2"
  unfolding others_ok_def
proof (intro allI impI, elim conjE, intro conjI)
  fix w :: "'a world" and s
  assume w: "shared_core d N w" "s \<in> registered w d" "held w = [Db_Mutex d]"
  show w': "shared_core d N (h_wait h s w)"
    unfolding wait using w by (intro shared_core_pool) (auto simp: all_back_def pool_ok_def pool_conns_def)
  show "held (h_wait h s w) = held w" "registered w d \<subseteq> registered (h_wait h s w) d"
    by (simp_all add: wait)
  have "pool_ok (max_connections (dbs w d)) (sv_pool (srvs w s))" "max_connections (dbs w d) \<noteq> 0"
    using w(1,2) by (simp_all add: shared_core_def pools_in_order_def)
  then have "\<not> pool_full d s (upd_pool s all_back w)"
    by (auto simp: pool_full_def all_back_def pool_ok_def)
  then have "\<not> pool_full d s (wait_again h d s w)"
    by (simp add: pool_full_def wait_again_def wait upd_stats_def upd_db_def)
  then show "\<exists>k < 2. \<not> pool_full d s ((wait_again h d s ^^ k) w)"
    by (intro exI [of _ 1]) simp
qed

lemma shared_state_back:
  assumes "connects h" and "h_wait h = (\<lambda>s. upd_pool s all_back)"
  shows "shared_state h 0 0 2 (lab_one True clustered)"
proof -
  have "(lab_one True clustered)\<lparr>held := []\<rparr> = lab_one True clustered" by (simp add: lab_one_def lab_empty_def)
  then have "task_ok 0 ((lab_one True clustered)\<lparr>held := []\<rparr>)" using task_ok_lab [of True clustered] by simp
  then show ?thesis
    using others_ok_back [OF assms(2), of 0 0] assms(1)
    by (simp add: shared_state_def shared_core_def pools_in_order_def pool_ok_def pool_conns_def lab_defs)
qed

definition lab_polite :: "int hiredis" where
  "lab_polite = (lab (\<lambda>c. None) 64)\<lparr>h_wait := \<lambda>s. upd_pool s all_back\<rparr>"

theorem shared_execute_returns_witness:
  "\<exists>r argv' retries' w'.
    redis_execute 2 lab_polite 0 \<lparr>tv_sec = 1, tv_usec = 0\<rparr> 2 [Some ''GET'', Some ''k''] 0 None False True 0
      (lab_one True False) = Some (r, argv', retries', w') \<and>
    (r = None \<longrightarrow> retries' = 2) \<and> held w' = [] \<and> pools_in_order 0 w'"
proof -
  have "argv_ok [Some ''GET'', Some ''k'']" by (auto simp: argv_ok_def)
  moreover have "ws_room lab_polite 0" "ws_room lab_polite (Suc (unat (2 :: uint)))"
    by (simp_all add: lab_polite_def ws_room_def lab_def POINTER_SIZE_def PLAN_SIZE_def)
  moreover have "attempts_ok None 0 (2 :: uint) (registered (lab_one True False) 0)"
    by (simp add: attempts_ok_def)
  moreover have "shared_state lab_polite 0 0 2 (lab_one True False)"
    by (rule shared_state_back) (simp_all add: lab_polite_def connects_def lab_def)
  ultimately show ?thesis
    using shared_execute_returns [where server = None and max_retries = 2 and retries = 0 and N = 0 and fuel = 2] by blast
qed

end
