(* ===== verification/Execute_State.thy ===== *)
theory Execute_State
  imports Execute_Shared
begin

text \<open>
  The state of a database on which commands are executed, whether its connections are private or shared, and
  what a command leaves as it was. What the other threads may do while this one waits for a shared
  connection is a relation between the states before and after the wait.
\<close>

section \<open>What locking and unlocking a shared connection leaves alone\<close>

text \<open>Whenever this thread waits for a connection, the others change the state within \<open>R\<close>.\<close>

definition others_within :: "('e world \<Rightarrow> 'e world \<Rightarrow> bool) \<Rightarrow> 'e hiredis \<Rightarrow> db_ptr \<Rightarrow> nat \<Rightarrow> bool" where
  "others_within R h d N \<longleftrightarrow>
     (\<forall>w s. shared_core d N w \<and> s \<in> registered w d \<and> held w = [Db_Mutex d] \<longrightarrow> R w (h_wait h s w))"

locale pool_frame =
  fixes R :: "'e world \<Rightarrow> 'e world \<Rightarrow> bool"
  assumes refl: "R w w"
    and trans: "R w w' \<Longrightarrow> R w' w'' \<Longrightarrow> R w w''"
    and pool: "R w (upd_pool s f w)"
    and freed: "R w (free_redis_context h c w)"
    and valid: "is_valid_redis_context h c now True w = Some (v, w') \<Longrightarrow> R w w'"
    and connected: "new_rcontext h s now False True w = Some (r, w') \<Longrightarrow> R w w'"
    and allocated: "R w (w\<lparr>next_ctx := n\<rparr>)"
    and mutexes: "R w (w\<lparr>held := l\<rparr>)"
    and outside: "R w (w\<lparr>net := e\<rparr>)"
    and blocked: "R w (upd_stats d (\<lambda>st. st\<lparr>st_workers_blocked := st_workers_blocked st + 1\<rparr>) w)"
begin

lemma scan_within: "scan_free h s now cs w = Some (r, w') \<Longrightarrow> R w w'"
proof (induction cs arbitrary: w)
  case Nil
  then show ?case using refl by simp
next
  case (Cons c cs)
  obtain v w1 where v: "is_valid_redis_context h c now True (upd_pool s (pool_mark_busy c) w) = Some (v, w1)"
    using Cons.prems by (auto split: option.splits)
  have r1: "R w w1" using trans [OF pool valid [OF v]] .
  show ?case
  proof (cases v)
    case True
    then show ?thesis using Cons.prems v r1 by simp
  next
    case False
    then have "scan_free h s now cs (free_redis_context h c (upd_pool s (pool_discard c) w1)) = Some (r, w')"
      using Cons.prems v by simp
    from Cons.IH [OF this] show ?thesis using trans [OF r1 trans [OF pool trans [OF freed]]] by blast
  qed
qed

lemma section_within:
  assumes "lock_section h d s now w = Some (r, w')"
  shows "R w w'"
proof -
  obtain x w1 where scan: "scan_free h s now (free_contexts (sv_pool (srvs w s))) w = Some (x, w1)"
    using assms by (auto simp: lock_section_def split: option.splits)
  note r1 = scan_within [OF scan]
  show ?thesis
  proof (cases "x \<noteq> None \<or> ncontexts (sv_pool (srvs w1 s)) \<ge> max_connections (dbs w1 d)")
    case True
    then have "w' = w1" using assms scan by (auto simp: lock_section_def split: option.splits if_splits)
    then show ?thesis using r1 by simp
  next
    case False
    then obtain rc w2 where n: "new_rcontext h s now False True w1 = Some (rc, w2)"
      using assms scan by (auto simp: lock_section_def bind_Some)
    have r2: "R w w2" using trans [OF r1 connected [OF n]] .
    show ?thesis
    proof (cases rc)
      case None
      then show ?thesis using assms scan False n r2 by (simp add: lock_section_def)
    next
      case (Some x')
      then have "\<exists>c. w' = upd_pool s (pool_create c) (w2\<lparr>next_ctx := Suc (next_ctx w2)\<rparr>)"
        using assms scan False n by (auto simp: lock_section_def new_redis_context_def)
      then show ?thesis using trans [OF r2 trans [OF allocated pool]] by blast
    qed
  qed
qed

lemma retry_within:
  assumes "connects h" and others: "others_ok h d N waits" "others_within R h d N"
  shows "\<lbrakk>shared_core d N w; s \<in> registered w d; held w = [Db_Mutex d]; lock_shared_retry fuel h d s now w = Some (r, w')\<rbrakk> \<Longrightarrow> R w w'"
proof (induction fuel arbitrary: w)
  case 0
  then show ?case by simp
next
  case (Suc fuel)
  obtain x w1 where sec: "lock_section h d s now w = Some (x, w1)" and w1: "shared_core d N w1" "held w1 = [Db_Mutex d]"
      "registered w1 d = registered w d"
    using lock_section_total [OF assms(1) Suc.prems(1-3)] by blast
  note r1 = section_within [OF sec]
  show ?case
  proof (cases x)
    case Must_Wait
    let ?v = "h_wait h s w1" and ?w = "wait_again h d s w1"
    have s1: "s \<in> registered w1 d" using Suc.prems(2) w1(3) by simp
    have o: "shared_core d N ?v" "held ?v = [Db_Mutex d]" "registered w1 d \<subseteq> registered ?v d" "R w1 ?v"
      using others w1(1,2) s1 by (simp_all add: others_ok_def others_within_def)
    have core: "same_core ?v ?w" by (simp add: wait_again_def)
    have "shared_core d N ?w" "s \<in> registered ?w d" "held ?w = [Db_Mutex d]"
      using shared_core_keeps [OF core o(1)] o(2,3) s1
      by (auto simp: same_core_simps [OF core] registered_core [OF core])
    moreover have "lock_shared_retry fuel h d s now ?w = Some (r, w')"
      using Suc.prems(4) sec Must_Wait by (simp add: wait_again_def)
    ultimately have "R ?w w'" by (rule Suc.IH)
    moreover have "R ?v ?w" unfolding wait_again_def by (rule blocked)
    ultimately show ?thesis using trans [OF r1 trans [OF o(4) trans]] by blast
  qed (use Suc.prems(4) sec r1 in auto)
qed

lemma lock_within:
  assumes ready: "shared_ready h d N fuel (Suc n) p w" and others: "others_within R h d N"
    and lock: "lock_redis_context fuel h d p w = Some (c, p', w')"
  shows "R w w'"
proof -
  have st: "shared_state h d N fuel w" and p: "pl_snext p < length (pl_servers p)" "set (pl_servers p) \<subseteq> registered w d"
    using ready by (simp_all add: shared_ready_def)
  obtain now w1 where t: "net_call (h_time h) w = (now, w1)" by fastforce
  have c1: "same_core w w1" using same_core_call [OF t, of w] by simp
  have st1: "shared_state h d N fuel w1" by (rule shared_state_keeps [OF c1 st])
  obtain s where s: "next_server p = Some (s, p\<lparr>pl_snext := (pl_snext p + 1) mod length (pl_servers p)\<rparr>)" "s \<in> set (pl_servers p)"
    by (rule next_server_ok [OF p(1)])
  have s1: "s \<in> registered w1 d" using s(2) p(2) registered_core [OF c1] by auto
  have db: "sv_db (srvs w1 s) = d" using st1 s1 by (auto simp: shared_state_def intro: shared_core_db)
  let ?w = "w1\<lparr>held := [Db_Mutex d]\<rparr>"
  have sh: "shared_connections (dbs w d)" and held: "held w1 = []"
    using st st1 by (simp_all add: shared_state_def shared_core_def)
  obtain r w2 where retry: "lock_shared_retry fuel h d s now ?w = Some (r, w2)" and un: "\<exists>l. w' = w2\<lparr>held := l\<rparr>"
    using lock sh
    by (auto simp: lock_redis_context_def lock_shared_redis_context_def t s(1) db held Lck_Lock_def Lck_Unlock_def bind_Some
        split: if_splits)
  have core: "connects h" "others_ok h d N fuel" "shared_core d N ?w" "s \<in> registered ?w d" "held ?w = [Db_Mutex d]"
    using st1 s1 by (simp_all add: shared_state_def)
  have "R w w1" using t outside by (auto simp: net_call_def split: prod.splits)
  moreover have "R ?w w2" by (rule retry_within [OF core(1,2) others core(3-5) retry])
  moreover have "R w2 w'" using un mutexes by blast
  ultimately show ?thesis using trans mutexes by blast
qed

lemma unlock_within:
  assumes "unlock_redis_context d c w = Some w'"
  shows "R w w'"
proof -
  have "w' = w \<or> w' = upd_pool (cx_server c) (pool_release c) w"
    using assms
    by (auto simp: unlock_redis_context_def unlock_shared_redis_context_def Let_def Lck_Lock_def Lck_Unlock_def bind_Some
        split: if_splits)
  then show ?thesis using pool refl by blast
qed

end

section \<open>The registry while a command is executed\<close>

text \<open>
  A command does not touch the registries. Other threads may register servers meanwhile, which exist then.
\<close>

definition servers_exist :: "'e world \<Rightarrow> bool" where
  "servers_exist w \<longleftrightarrow> (\<forall>x. \<forall>s \<in> registered w x. s < next_srv w)"

definition exec_grow :: "db_ptr \<Rightarrow> 'e world \<Rightarrow> 'e world \<Rightarrow> bool" where
  "exec_grow d w w' \<longleftrightarrow> config w' = config w \<and> cmd_part (task w') = cmd_part (task w) \<and>
     registered w d \<subseteq> registered w' d \<and> (\<forall>x. cluster_enabled (dbs w' x) = cluster_enabled (dbs w x)) \<and>
     (servers_exist w \<longrightarrow> servers_exist w')"

lemma exec_grow_trans: "exec_grow d w w' \<Longrightarrow> exec_grow d w' w'' \<Longrightarrow> exec_grow d w w''"
  unfolding exec_grow_def by (metis subset_trans)

lemma exec_grow_frame: "exec_frame w w' \<Longrightarrow> exec_grow d w w'"
  by (simp add: exec_grow_def exec_frame_def servers_exist_def)

lemma exec_grow_core: "same_core w w' \<Longrightarrow> exec_grow d w w'"
  by (rule exec_grow_frame [OF exec_frame_core])

lemma exec_grow_fields:
  assumes "config w' = config w" and "task w' = task w" and "\<And>x. registered w' x = registered w x"
    and "next_srv w' = next_srv w" and "\<And>x. cluster_enabled (dbs w' x) = cluster_enabled (dbs w x)"
  shows "exec_grow d w w'"
  using assms by (simp add: exec_grow_def servers_exist_def)

interpretation grw: pool_frame "exec_grow d" for d
proof unfold_locales
  show "exec_grow d w w''" if "exec_grow d w w'" "exec_grow d w' w''" for w w' w'' :: "'e world"
    using that by (rule exec_grow_trans)
  show "exec_grow d w w" for w :: "'e world" by (rule exec_grow_fields) simp_all
  show "exec_grow d w (upd_pool s f w)" for w :: "'e world" and s f
    by (rule exec_grow_fields, simp_all) (simp add: upd_pool_def upd_srv_def)
  show "exec_grow d w (free_redis_context h c w)" for w :: "'e world" and h c
    by (rule exec_grow_core) (simp add: free_redis_context_def)
  show "exec_grow d w (w\<lparr>next_ctx := n\<rparr>)" "exec_grow d w (w\<lparr>held := l\<rparr>)" "exec_grow d w (w\<lparr>net := e\<rparr>)"
    for w :: "'e world" and n l e by (rule exec_grow_fields; simp add: registered_def)+
  show "exec_grow d w (upd_stats x (\<lambda>st. st\<lparr>st_workers_blocked := st_workers_blocked st + 1\<rparr>) w)"
    for w :: "'e world" and x by (rule exec_grow_core) simp
qed (auto intro: exec_grow_core is_valid_core new_rcontext_core)

section \<open>Private and shared connections\<close>

text \<open>The attempts of a command, with what the other threads may do during its waits.\<close>

definition grow_ready :: "'e hiredis \<Rightarrow> db_ptr \<Rightarrow> nat \<Rightarrow> nat \<Rightarrow> 'e world \<Rightarrow> nat \<Rightarrow> plan \<Rightarrow> 'e world \<Rightarrow> bool" where
  "grow_ready h d N fuel w0 n p w \<longleftrightarrow>
     shared_ready h d N fuel n p w \<and> others_within (exec_grow d) h d N \<and> exec_grow d w0 w"

definition grow_using :: "'e hiredis \<Rightarrow> db_ptr \<Rightarrow> nat \<Rightarrow> nat \<Rightarrow> 'e world \<Rightarrow> nat \<Rightarrow> redis_context \<Rightarrow> plan \<Rightarrow> 'e world \<Rightarrow> bool" where
  "grow_using h d N fuel w0 n c p w \<longleftrightarrow>
     shared_using h d N fuel n c p w \<and> others_within (exec_grow d) h d N \<and> exec_grow d w0 w"

interpretation shg: connection_source "grow_ready h d N fuel w0" "grow_using h d N fuel w0"
  "lock_redis_context fuel h d" "unlock_redis_context d" d
  for h :: "'e hiredis" and d N fuel w0
proof unfold_locales
  show "\<exists>c p' w'. lock_redis_context fuel h d p w = Some (c, p', w') \<and>
      (case c of None \<Rightarrow> grow_ready h d N fuel w0 n p' w' | Some c \<Rightarrow> grow_using h d N fuel w0 n c p' w')"
    if "grow_ready h d N fuel w0 (Suc n) p w" for n p w
  proof -
    have r: "shared_ready h d N fuel (Suc n) p w" "others_within (exec_grow d) h d N" "exec_grow d w0 w"
      using that by (simp_all add: grow_ready_def)
    obtain c p' w' where l: "lock_redis_context fuel h d p w = Some (c, p', w')"
      and c: "case c of None \<Rightarrow> shared_ready h d N fuel n p' w' | Some c \<Rightarrow> shared_using h d N fuel n c p' w'"
      using shr.lock_ready [OF r(1)] by blast
    have "exec_grow d w0 w'" using exec_grow_trans [OF r(3) grw.lock_within [OF r(1,2) l]] .
    then show ?thesis
      using l c r(2) by (intro exI [of _ c] exI [of _ p'] exI [of _ w']) (auto simp: grow_ready_def grow_using_def split: option.splits)
  qed
  show "\<exists>w'. unlock_redis_context d c w = Some w' \<and> grow_ready h d N fuel w0 n p w'"
    if "grow_using h d N fuel w0 n c p w" for n c p and w :: "'e world"
    using that shr.unlock_using grw.unlock_within exec_grow_trans unfolding grow_using_def grow_ready_def by meson
  show "Db_Mutex d \<notin> set (held w)" if "grow_ready h d N fuel w0 n p w" for n p and w :: "'e world"
    using that shr.ready_free unfolding grow_ready_def by blast
  show "Db_Mutex d \<notin> set (held w)" if "grow_using h d N fuel w0 n c p w" for n c p and w :: "'e world"
    using that shr.using_free unfolding grow_using_def by blast
  show "grow_ready h d N fuel w0 n p w'" if "grow_ready h d N fuel w0 n p w" "only_counts w w'"
    for n p and w w' :: "'e world"
    using that shr.ready_counts exec_grow_trans exec_grow_core unfolding grow_ready_def only_counts_def by blast
  show "grow_using h d N fuel w0 n c p w'" if "grow_using h d N fuel w0 n c p w" "only_counts w w'"
    for n c p and w w' :: "'e world"
    using that shr.using_counts exec_grow_trans exec_grow_core unfolding grow_using_def only_counts_def by blast
  show "grow_ready h d N fuel w0 n p (VRT_fail w)" if "grow_ready h d N fuel w0 n p w" for n p and w :: "'e world"
  proof -
    have "exec_grow d w (VRT_fail w)" by (rule exec_grow_frame) simp
    then show ?thesis using that shr.ready_fail exec_grow_trans unfolding grow_ready_def by blast
  qed
qed

text \<open>
  Private connections, or shared ones with other threads that keep the pools in order and the configuration
  and the task as they are, and unregister no server of the database.
\<close>

definition exec_state :: "'e hiredis \<Rightarrow> db_ptr \<Rightarrow> nat \<Rightarrow> nat \<Rightarrow> 'e world \<Rightarrow> bool" where
  "exec_state h d N fuel w \<longleftrightarrow>
     private_state h d N w \<or> shared_state h d N fuel w \<and> others_within (exec_grow d) h d N"

lemma exec_state_core: "same_core w w' \<Longrightarrow> exec_state h d N fuel w \<Longrightarrow> exec_state h d N fuel w'"
  unfolding exec_state_def using private_state_core shared_state_keeps by blast

lemma exec_state_held: "exec_state h d N fuel w \<Longrightarrow> held w = []"
  by (auto simp: exec_state_def private_state_def task_ok_def shared_state_def)

lemma exec_state_task: "exec_state h d N fuel w \<Longrightarrow> task_ok d w"
  by (cases w) (auto simp: exec_state_def private_state_def shared_state_def shared_core_def)

lemma exec_state_connects: "exec_state h d N fuel w \<Longrightarrow> connects h"
  by (auto simp: exec_state_def private_state_def shared_state_def)

lemma execute_ok:
  assumes st: "exec_state h d N fuel w" and argv: "argv_ok argv" and room: "ws_room h N" "ws_room h (Suc (unat max_retries))"
    and att: "attempts_ok server retries max_retries (registered w d)"
  shows "\<exists>r argv' retries' w'.
    redis_execute fuel h d timeout max_retries argv retries server asking master slot w =
      Some (r, argv', retries', w') \<and>
    retries \<le> retries' \<and> retries' \<le> max_retries \<and> (r = None \<longrightarrow> retries' = max_retries) \<and>
    exec_state h d N fuel w' \<and> exec_grow d w w' \<and> (r \<noteq> None \<longrightarrow> argv_ok argv')"
proof (cases "private_state h d N w")
  case True
  then show ?thesis
    using redis_execute_ok [OF True argv room att, of fuel timeout asking master slot] exec_grow_frame
    unfolding exec_state_def by blast
next
  case False
  then have sh: "shared_state h d N fuel w" and others: "others_within (exec_grow d) h d N"
    using st by (simp_all add: exec_state_def)
  have le: "retries \<le> max_retries" using att by (auto simp: attempts_ok_def split: option.splits)
  let ?size = "if retries > 0 then max_retries - retries else 1 + max_retries - retries"
  obtain p w1 where p: "plan_execution h d ?size server master slot w = Some (Some p, w1)"
    and st1: "shared_state h d N fuel w1" and fr: "exec_frame w w1"
    and ready: "pl_contexts p \<noteq> [] \<or> pl_servers p \<noteq> [] \<Longrightarrow>
      shared_ready h d N fuel (Suc (unat max_retries - unat retries)) p w1"
    by (rule plan_shared [OF sh room att refl, of master slot]) blast
  note grow = exec_grow_frame [OF fr, of d]
  have eq: "redis_execute fuel h d timeout max_retries argv retries server asking master slot w =
    (if pl_contexts p \<noteq> [] \<or> pl_servers p \<noteq> []
     then execute_loop (lock_redis_context fuel h d) (unlock_redis_context d) h d timeout
            max_retries asking argv retries p w1
     else Some (None, argv, max_retries, w1))"
    using p le by (simp add: redis_execute_def assert_that_def)
  show ?thesis
  proof (cases "pl_contexts p \<noteq> [] \<or> pl_servers p \<noteq> []")
    case True
    have "grow_ready h d N fuel w (Suc (unat max_retries - unat retries)) p w1"
      using ready [OF True] others grow by (simp add: grow_ready_def)
    from shg.loop_total [OF this argv le, of h timeout asking] obtain r argv' retries' n p' w' where
      "execute_loop (lock_redis_context fuel h d) (unlock_redis_context d) h d timeout max_retries asking argv retries p w1 =
        Some (r, argv', retries', w')" "retries \<le> retries'" "retries' \<le> max_retries"
      "r = None \<longrightarrow> retries' = max_retries" "grow_ready h d N fuel w n p' w'" "r \<noteq> None \<longrightarrow> argv_ok argv'"
      by blast
    then show ?thesis
      using eq True by (intro exI [of _ r] exI [of _ argv'] exI [of _ retries'] exI [of _ w'])
        (auto simp: grow_ready_def shared_ready_def exec_state_def)
  next
    case False
    then show ?thesis
      using eq st1 others grow le by (intro exI [of _ None] exI [of _ argv] exI [of _ max_retries] exI [of _ w1])
        (auto simp: exec_state_def)
  qed
qed

text \<open>A scenario with shared connections: the other threads have given back all of them after each wait.\<close>

lemma exec_state_back:
  assumes "connects h" and wait: "h_wait h = (\<lambda>s. upd_pool s all_back)"
  shows "exec_state h 0 0 2 (lab_one True clustered)"
proof -
  have "others_within (exec_grow 0) h 0 0" unfolding others_within_def wait using grw.pool by blast
  then show ?thesis using shared_state_back [OF assms] by (simp add: exec_state_def)
qed

end
