(* ===== verification/Execute_Counts.thy ===== *)
theory Execute_Counts
  imports Execute_State
begin

text \<open>
  The counters of commands of a database. Planning, connecting and running a command do not touch
  the counters \<open>total\<close>, \<open>failed\<close> and \<open>retried\<close>; the loop of \<open>redis_execute\<close> counts every attempt once.
\<close>

section \<open>What leaves the counters alone\<close>

definition tally :: "stats \<Rightarrow> uint64 \<times> uint64 \<times> uint64" where
  "tally st = (st_commands_total st, st_commands_failed st, st_commands_retried st)"

definition same_tally :: "'e world \<Rightarrow> 'e world \<Rightarrow> bool" where
  "same_tally w w' \<longleftrightarrow> (\<forall>d. tally (db_stats (dbs w' d)) = tally (db_stats (dbs w d)))"

lemma same_tally_refl [simp, intro]: "same_tally w w"
  by (simp add: same_tally_def)

lemma same_tally_trans [trans]: "same_tally w w' \<Longrightarrow> same_tally w' w'' \<Longrightarrow> same_tally w w''"
  by (simp add: same_tally_def)

lemma same_tally_dbs: "dbs w' = dbs w \<Longrightarrow> same_tally w w'"
  by (simp add: same_tally_def)

lemma same_tally_simps [simp]:
  "same_tally w (w'\<lparr>net := e\<rparr>) \<longleftrightarrow> same_tally w w'" "same_tally w (net_do f w') \<longleftrightarrow> same_tally w w'"
  "same_tally w (w'\<lparr>task := t\<rparr>) \<longleftrightarrow> same_tally w w'" "same_tally w (w'\<lparr>held := l\<rparr>) \<longleftrightarrow> same_tally w w'"
  "same_tally w (upd_srv s g w') \<longleftrightarrow> same_tally w w'" "same_tally w (VRT_fail w') \<longleftrightarrow> same_tally w w'"
  "same_tally w (drop_context h c w') \<longleftrightarrow> same_tally w w'"
  "same_tally w (w'\<lparr>next_ctx := k\<rparr>) \<longleftrightarrow> same_tally w w'"
  "same_tally (net_do f w) w' \<longleftrightarrow> same_tally w w'" "same_tally (VRT_fail w) w' \<longleftrightarrow> same_tally w w'"
  "same_tally (w\<lparr>task := t\<rparr>) w' \<longleftrightarrow> same_tally w w'"
  "same_tally (w\<lparr>net := e\<rparr>) w' \<longleftrightarrow> same_tally w w'" "same_tally (w\<lparr>held := l\<rparr>) w' \<longleftrightarrow> same_tally w w'"
  by (simp_all add: same_tally_def net_do_def upd_srv_def VRT_fail_def drop_context_def free_redis_context_def)

lemma same_tally_stats:
  "(\<And>st. tally (f st) = tally st) \<Longrightarrow> same_tally w (upd_stats d f w') \<longleftrightarrow> same_tally w w'"
  by (auto simp: same_tally_def upd_stats_def upd_db_def)

lemma same_tally_servers [simp]: "same_tally w (upd_servers d wt r f w') \<longleftrightarrow> same_tally w w'"
  by (auto simp: same_tally_def upd_servers_def upd_db_def)

lemma same_tally_net: "only_net w w' \<Longrightarrow> same_tally w w'"
  by (rule same_tally_dbs) (simp add: only_net_fields)

lemma same_tally_call: "net_call f w = (x, w') \<Longrightarrow> same_tally w w'"
  by (auto simp: net_call_def split: prod.splits)

lemma connection_stats_tally: "same_tally w (connection_stats s now eph ok w)"
  by (simp add: connection_stats_def Let_def same_tally_stats tally_def)

lemma new_rcontext_tally:
  assumes "new_rcontext h s now eph dbl w = Some (r, w')"
  shows "same_tally w w'"
  using same_tally_trans [OF connection_stats_tally same_tally_net [OF new_rcontext_effect [OF assms]]] .

lemma is_valid_tally:
  assumes "is_valid_redis_context h c now dbl w = Some (v, w')"
  shows "same_tally w w'"
  using assms unfolding is_valid_redis_context_def Let_def
  by (auto simp: bind_Some with_db_eq [OF lock_free_upd(3)] net_call_def same_tally_stats tally_def
      split: if_splits prod.splits)

section \<open>Plans\<close>

lemma pick_contexts_tally:
  "pick_contexts h now want n free cs acc w = Some (ok, l, w') \<Longrightarrow> same_tally w w'"
proof (induction cs arbitrary: acc w)
  case Nil
  then show ?case by simp
next
  case (Cons c cs)
  show ?case
  proof (cases "want w c")
    case False
    then show ?thesis using Cons by simp
  next
    case True
    obtain v w1 where v: "is_valid_redis_context h c now False w = Some (v, w1)"
      using Cons.prems True by (cases "is_valid_redis_context h c now False w") auto
    note t1 = is_valid_tally [OF v]
    show ?thesis
    proof (cases v)
      case False
      then have "pick_contexts h now want n free cs acc (drop_context h c w1) = Some (ok, l, w')"
        using Cons.prems True v by simp
      from Cons.IH [OF this] show ?thesis using t1 by (auto simp: same_tally_def drop_context_def free_redis_context_def net_do_def)
    next
      case valid: True
      then show ?thesis
        using Cons.prems True v t1 same_tally_trans [OF t1 Cons.IH, of "acc @ [c]"]
        by (auto simp: ws_overflow_def split: if_splits)
    qed
  qed
qed

lemma sweep_tally:
  "sweep d visits wants rot free cs acc remaining w = Some (ok, acc', remaining', w') \<Longrightarrow> same_tally w w'"
proof (induction cs arbitrary: rot acc remaining w)
  case Nil
  then show ?case by simp
next
  case (Cons c cs)
  obtain wt r where c: "c = (wt, r)" by fastforce
  have "same_tally w w'"
    if "sweep d visits wants b free cs a k v = Some (ok, acc', remaining', w')"
      and "v = upd_servers d wt r f w \<or> v = w" for a b k f v
    using Cons.IH [OF that(1)] that(2) by (auto simp: same_tally_def upd_servers_def upd_db_def split: if_splits)
  note step = this
  show ?case
    using Cons.prems by (auto simp: c split: if_splits option.splits bool.splits intro: step [OF _ disjI1 [OF refl]] step [OF _ disjI2 [OF refl]])
qed

lemma fill_servers_tally:
  assumes "fill_servers d now master slot free remaining w = Some (ok, l, w')"
  shows "same_tally w w'"
  using assms unfolding fill_servers_def Let_def
  by (auto simp: bind_Some split: if_splits dest!: sweep_tally)
    ((simp add: same_tally_def)+)?

lemma populate_contexts_tally:
  assumes "populate_contexts h now plan d n master slot w = Some (ok, p, w')"
  shows "same_tally w w'"
  using assms unfolding populate_contexts_def Let_def
  by (auto simp: bind_Some split: if_splits prod.splits dest!: pick_contexts_tally same_tally_call)
    ((simp add: same_tally_def)+)?

lemma populate_servers_tally:
  assumes "populate_servers h now plan d n master slot w = Some (p, w')"
  shows "same_tally w w'"
  using assms unfolding populate_servers_def Let_def
  by (auto simp: bind_Some lock_simps split: if_splits prod.splits dest!: fill_servers_tally same_tally_call)
    ((simp add: same_tally_def)+)?

lemma simple_contexts_tally:
  assumes "simple_contexts h plan d n s w = Some (ok, p, w')"
  shows "same_tally w w'"
  using assms unfolding simple_contexts_def Let_def
  by (auto simp: bind_Some split: if_splits prod.splits dest!: pick_contexts_tally same_tally_call)
    ((simp add: same_tally_def)+)?

lemma populate_tally:
  "populate_execution_plan h plan d n master slot w = Some (p, w') \<Longrightarrow> same_tally w w'"
  "populate_simple_execution_plan h plan d n s w = Some (p, w') \<Longrightarrow> same_tally w w'"
  unfolding populate_execution_plan_def populate_simple_execution_plan_def Let_def ws_overflow_def
  by (auto simp: bind_Some split: if_splits prod.splits
      dest!: populate_contexts_tally populate_servers_tally simple_contexts_tally same_tally_call)
    ((simp add: same_tally_def)+)?

lemma plan_execution_tally:
  assumes "plan_execution h d n server master slot w = Some (p, w')"
  shows "same_tally w w'"
  using assms unfolding plan_execution_def new_execution_plan_def Let_def
  by (auto simp: bind_Some split: if_splits prod.splits option.splits dest!: populate_tally same_tally_call)
    ((simp add: same_tally_def)+)?

section \<open>A command on a connection\<close>

lemma WS_Copy_tally: "WS_Copy h s w = (x, w') \<Longrightarrow> same_tally w w'"
  by (auto simp: WS_Copy_def Let_def net_call_def split: prod.splits)

lemma get_redis_repy_tally: "get_redis_repy h c timeout argv asking w = Some (r, w') \<Longrightarrow> same_tally w w'"
  by (rule same_tally_net [OF get_redis_repy_net])

lemma noscript_tally:
  "with_db b d (upd_stats d (\<lambda>st. st\<lparr>st_commands_noscript := st_commands_noscript st + 1\<rparr>)) w = Some w' \<Longrightarrow>
   same_tally w w'"
  by (auto simp: with_db_eq [OF lock_free_upd(3)] same_tally_stats tally_def split: if_splits)

lemma check_noscript_tally:
  assumes "check_noscript h d c script argv result w = Some (out, w')"
  shows "same_tally w w'"
proof -
  obtain x w1 where ws: "WS_Copy h ''EVAL'' w = (x, w1)" by fastforce
  show ?thesis
    using assms WS_Copy_tally [OF ws]
    by (auto simp: check_noscript_def ws bind_Some Let_def split: if_splits option.splits
        dest!: noscript_tally) ((simp add: same_tally_def)+)?
qed

lemma try_evalsha_tally:
  assumes "try_evalsha h d c timeout argv script asking w = Some (out, w')"
  shows "same_tally w w'"
  using assms unfolding try_evalsha_def Let_def
  by (auto simp: bind_Some split: if_split_asm prod.split_asm option.split_asm
      dest!: WS_Copy_tally get_redis_repy_tally same_tally_call check_noscript_tally)
    ((simp add: same_tally_def)+)?

lemma run_command_tally:
  assumes "run_command h d c timeout argv asking w = Some (out, w')"
  shows "same_tally w w'"
  using assms unfolding run_command_def
  by (auto simp: bind_Some split: if_splits list.splits option.splits
      dest!: try_evalsha_tally get_redis_repy_tally)
    ((simp add: same_tally_def)+)?

lemma evict_first_tally:
  assumes "evict_first h d w = Some w'"
  shows "same_tally w w'"
  using assms
  by (auto simp: evict_first_def with_db_eq [OF lock_free_upd(3)] same_tally_stats tally_def
      split: if_splits list.splits)

lemma lock_private_tally:
  assumes "lock_private_redis_context h d p w = Some (c, p', w')"
  shows "same_tally w w'"
  using assms unfolding lock_private_redis_context_def Let_def
  by (auto simp: bind_Some new_redis_context_def split: if_splits prod.splits option.splits
      dest!: evict_first_tally new_rcontext_tally same_tally_call)
    ((simp add: same_tally_def)+)?

text \<open>Without room in the workspace, an argument is left as \<open>NULL\<close>.\<close>

lemma set_update_None: "i < length argv \<Longrightarrow> None \<in> set (argv[i := None])"
  by (rule set_update_memI)

lemma check_noscript_failed:
  assumes "check_noscript h d c script argv result w = Some ((True, don, r, argv'), w')" and "argv \<noteq> []"
  shows "None \<in> set argv'"
  using assms by (auto simp: check_noscript_def bind_Some Let_def set_update_None split: if_splits option.splits prod.splits)

lemma try_evalsha_failed:
  assumes "try_evalsha h d c timeout argv script asking w = Some ((True, don, r, argv'), w')" and "2 \<le> length argv"
  shows "None \<in> set argv'"
proof -
  have nonempty: "argv \<noteq> []" "0 < length argv" "1 < length argv" using assms(2) by auto
  obtain x w1 where ws: "WS_Copy h ''EVALSHA'' w = (x, w1)" by fastforce
  show ?thesis
  proof (cases x)
    case None
    then show ?thesis using assms(1) nonempty by (auto simp: try_evalsha_def ws set_update_None)
  next
    case (Some cmd)
    obtain ok w2 where a: "net_call (h_ws_alloc h 41) w1 = (ok, w2)" by fastforce
    obtain digest where g: "sha1 ok script = Some digest"
      using assms(1) Some by (auto simp: try_evalsha_def ws a bind_Some Let_def)
    show ?thesis
    proof (cases digest)
      case None
      then show ?thesis using assms(1) Some nonempty by (auto simp: try_evalsha_def ws a g Let_def set_update_None)
    next
      case d: (Some y)
      then show ?thesis using assms(1) Some nonempty
        by (auto simp: try_evalsha_def ws a g Let_def bind_Some dest!: check_noscript_failed)
    qed
  qed
qed

lemma run_command_failed:
  assumes "run_command h d c timeout argv asking w = Some ((True, r, argv'), w')"
  shows "None \<in> set argv'"
  using assms unfolding run_command_def
  by (auto simp: bind_Some split: if_splits list.splits option.splits dest!: try_evalsha_failed)

lemma attempt_failed:
  "attempt lock unlock h d timeout argv asking p w = Some ((True, r, argv'), p', w') \<Longrightarrow> None \<in> set argv'"
  by (auto simp: attempt_def bind_Some split: option.splits prod.splits dest!: run_command_failed)

text \<open>
  The counters after a command: \<open>n\<close> attempts have been counted, the one with the reply as a success and all
  others as failures, and all but the very first of the command as retries.
\<close>

definition counted :: "uint64 \<times> uint64 \<times> uint64 \<Rightarrow> bool \<Rightarrow> uint \<Rightarrow> nat \<Rightarrow> uint64 \<times> uint64 \<times> uint64 \<Rightarrow> bool" where
  "counted old ok retries n new \<longleftrightarrow>
     (case old of (good, failed, retried) \<Rightarrow>
        new = (good + of_bool ok, failed + of_nat (n - of_bool ok), retried + of_nat (n - of_bool (retries = 0))))"

section \<open>The loop\<close>

locale counted_source = connection_source +
  assumes lock_tally: "ready (Suc n) p w \<Longrightarrow> lock p w = Some (c, p', w') \<Longrightarrow> same_tally w w'"
    and unlock_tally: "using_it n cx p w \<Longrightarrow> unlock cx w = Some w' \<Longrightarrow> same_tally w w'"
begin

lemma attempt_tally:
  assumes "ready (Suc n) p w" and "argv_ok argv"
    and "attempt lock unlock h d timeout argv asking p w = Some (out, p', w')"
  shows "same_tally w w'"
proof -
  obtain c p1 w1 where l: "lock p w = Some (c, p1, w1)"
    and c: "case c of None \<Rightarrow> ready n p1 w1 | Some c \<Rightarrow> using_it n c p1 w1"
    using lock_ready [OF assms(1)] by blast
  note t1 = lock_tally [OF assms(1) l]
  show ?thesis
  proof (cases c)
    case None
    then show ?thesis using assms(3) l t1 by (simp add: attempt_def)
  next
    case (Some c')
    then have u: "using_it n c' p1 w1" using c by simp
    obtain fw r argv1 w2 where r: "run_command h d c' timeout argv asking w1 = Some ((fw, r, argv1), w2)"
      and w2: "only_counts w1 w2"
      using run_command_total [OF assms(2) using_free [OF u]] by blast
    have "unlock c' w2 = Some w'"
      using assms(3) l Some r by (simp add: attempt_def bind_Some)
    note t3 = unlock_tally [OF using_counts [OF u w2] this]
    show ?thesis using same_tally_trans [OF t1 same_tally_trans [OF run_command_tally [OF r] t3]] .
  qed
qed

lemma loop_counts:
  assumes "ready (Suc (unat max_retries - unat retries)) p w" and "argv_ok argv" and "retries \<le> max_retries"
    and "execute_loop lock unlock h d timeout max_retries asking argv retries p w = Some (r, argv', retries', w')"
  shows "\<exists>n. counted (tally (db_stats (dbs w d))) (r \<noteq> None) retries n (tally (db_stats (dbs w' d))) \<and>
    (if r \<noteq> None then n = Suc (unat retries' - unat retries)
     else n = Suc (unat max_retries - unat retries) \<or>
       n \<le> unat max_retries - unat retries \<and> None \<in> set argv' \<and> vrt_failed w')"
  using assms
proof (induction "unat max_retries - unat retries" arbitrary: retries argv p w rule: less_induct)
  case less
  let ?n = "unat max_retries - unat retries"
  obtain fw r1 argv1 p1 w1 where
    a: "attempt lock unlock h d timeout argv asking p w = Some ((fw, r1, argv1), p1, w1)"
    and w1: "ready ?n p1 w1" "\<not> fw \<Longrightarrow> argv_ok argv1"
    using attempt_total [OF less.prems(1,2)] by blast
  note loop = execute_loop.simps [of lock unlock h d timeout max_retries asking argv retries p w]
  obtain good failed retried where t0: "tally (db_stats (dbs w d)) = (good, failed, retried)" by (metis surj_pair)
  have t1: "tally (db_stats (dbs w1 d)) = (good, failed, retried)"
    using attempt_tally [OF less.prems(1,2) a] t0 by (simp add: same_tally_def)
  show ?case
  proof (cases fw)
    case True
    then have fin: "r = None" "argv' = argv1" "w' = VRT_fail w1" using less.prems(4) a by (auto simp: loop)
    have "None \<in> set argv1" by (rule attempt_failed) (use a True in simp)
    moreover have "counted (tally (db_stats (dbs w d))) False retries 0 (tally (db_stats (dbs w' d)))"
      using t1 by (simp add: t0 fin counted_def VRT_fail_def)
    ultimately show ?thesis by (intro exI [of _ 0]) (simp add: fin VRT_fail_def)
  next
    case False
    let ?w2 = "upd_stats d (command_stats retries (r1 \<noteq> None)) w1"
    have s: "with_db False d (upd_stats d (command_stats retries (r1 \<noteq> None))) w1 = Some ?w2"
      using ready_free [OF w1(1)] by (simp add: with_db_eq [OF lock_free_upd(3)])
    have r2: "ready ?n p1 ?w2" by (rule ready_counts [OF w1(1)]) simp
    have t2: "tally (db_stats (dbs ?w2 d)) =
      (good + of_bool (r1 \<noteq> None), failed + of_bool (r1 = None), retried + of_bool (retries > 0))"
      using t1 by (auto simp: upd_stats_def upd_db_def command_stats_def tally_def Let_def)
    show ?thesis
    proof (cases "r1 = None \<and> retries < max_retries")
      case True
      note step = word_retry_less [OF conjunct2 [OF True]]
      have n: "?n = Suc (unat max_retries - unat (retries + 1))"
        using conjunct2 [OF True] by (simp add: step(1) word_less_nat_alt Suc_diff_Suc)
      have le: "retries + 1 \<le> max_retries"
        using True by (simp add: word_le_nat_alt step(1) word_less_nat_alt Suc_leI)
      have l: "execute_loop lock unlock h d timeout max_retries asking argv1 (retries + 1) p1 ?w2 =
          Some (r, argv', retries', w')"
        using less.prems(4) a False s True by (simp add: loop)
      have t3: "tally (db_stats (dbs ?w2 d)) = (good, failed + 1, retried + of_bool (retries > 0))"
        using t2 True by simp
      have ge: "retries + 1 \<le> retries'"
        using loop_total [OF r2 [unfolded n] w1(2) [OF False] le, of h timeout asking] l by auto
      then have k: "unat retries' - unat retries = Suc (unat retries' - unat (retries + 1))"
        by (simp add: word_le_nat_alt step(1))
      have pos: "retries + 1 \<noteq> 0" using step(1) by (metis nat.distinct(1) unat_0)
      obtain m where c: "counted (tally (db_stats (dbs ?w2 d))) (r \<noteq> None) (retries + 1) m (tally (db_stats (dbs w' d)))"
        and m: "if r \<noteq> None then m = Suc (unat retries' - unat (retries + 1))
          else m = Suc (unat max_retries - unat (retries + 1)) \<or>
            m \<le> unat max_retries - unat (retries + 1) \<and> None \<in> set argv' \<and> vrt_failed w'"
        using less.hyps [OF step(2) r2 [unfolded n] w1(2) [OF False] le l] by blast
      have "counted (tally (db_stats (dbs w d))) (r \<noteq> None) retries (Suc m) (tally (db_stats (dbs w' d)))"
        using c m pos unfolding t0 t3 by (auto simp: counted_def word_gt_0 split: if_splits)
      then show ?thesis using m unfolding k n by (intro exI [of _ "Suc m"]) auto
    next
      case stop: False
      then have fin: "r = r1" "retries' = retries" "w' = ?w2" "argv' = argv1"
        using less.prems(4) a False s by (auto simp: loop split: if_splits)
      have "counted (tally (db_stats (dbs w d))) (r \<noteq> None) retries 1 (tally (db_stats (dbs w' d)))"
        unfolding fin t0 t2 by (auto simp: counted_def word_gt_0)
      moreover have "unat max_retries - unat retries = 0" if "r = None"
        using stop that less.prems(3) fin(1) by auto
      ultimately show ?thesis using fin(2) by (intro exI [of _ 1]) auto
    qed
  qed
qed

end

interpretation prc: counted_source "private_ready h d N" "private_using h d N"
  "lock_redis_context fuel h d" "unlock_redis_context d" d
  for h :: "'e hiredis" and d N fuel
proof unfold_locales
  show "same_tally w w'" if "private_ready h d N (Suc n) p w"
    "lock_redis_context fuel h d p w = Some (c, p', w')" for n p w c p' w'
    using that lock_private_tally [of h d p w c p' w']
    by (simp add: lock_redis_context_def private_ready_def private_state_def)
  show "same_tally w w'" if "private_using h d N n c p w" "unlock_redis_context d c w = Some w'"
    for n c p and w w' :: "'e world"
    using that by (simp add: unlock_redis_context_def private_using_def private_ready_def private_state_def)
qed

text \<open>Shared connections, when the other threads count no commands while this one waits.\<close>

interpretation tly: pool_frame same_tally
proof unfold_locales
  show "same_tally w w''" if "same_tally w w'" "same_tally w' w''" for w w' w'' :: "'e world"
    using that by (rule same_tally_trans)
  show "same_tally w (upd_pool s f w)" for w :: "'e world" and s f by (simp add: upd_pool_def)
  show "same_tally w (free_redis_context h c w)" for w :: "'e world" and h c by (simp add: free_redis_context_def)
  show "same_tally w (upd_stats x (\<lambda>st. st\<lparr>st_workers_blocked := st_workers_blocked st + 1\<rparr>) w)"
    for w :: "'e world" and x by (simp add: same_tally_stats tally_def)
qed (auto intro: is_valid_tally new_rcontext_tally)

definition tally_ready :: "'e hiredis \<Rightarrow> db_ptr \<Rightarrow> nat \<Rightarrow> nat \<Rightarrow> nat \<Rightarrow> plan \<Rightarrow> 'e world \<Rightarrow> bool" where
  "tally_ready h d N fuel n p w \<longleftrightarrow> shared_ready h d N fuel n p w \<and> others_within same_tally h d N"

definition tally_using :: "'e hiredis \<Rightarrow> db_ptr \<Rightarrow> nat \<Rightarrow> nat \<Rightarrow> nat \<Rightarrow> redis_context \<Rightarrow> plan \<Rightarrow> 'e world \<Rightarrow> bool" where
  "tally_using h d N fuel n c p w \<longleftrightarrow> shared_using h d N fuel n c p w \<and> others_within same_tally h d N"

interpretation shc: counted_source "tally_ready h d N fuel" "tally_using h d N fuel"
  "lock_redis_context fuel h d" "unlock_redis_context d" d
  for h :: "'e hiredis" and d N fuel
proof unfold_locales
  show "\<exists>c p' w'. lock_redis_context fuel h d p w = Some (c, p', w') \<and>
      (case c of None \<Rightarrow> tally_ready h d N fuel n p' w' | Some c \<Rightarrow> tally_using h d N fuel n c p' w')"
    if "tally_ready h d N fuel (Suc n) p w" for n p w
    using that shr.lock_ready [of h d N fuel n p w]
    by (auto simp: tally_ready_def tally_using_def split: option.splits) (metis option.exhaust)
  show "\<exists>w'. unlock_redis_context d c w = Some w' \<and> tally_ready h d N fuel n p w'"
    if "tally_using h d N fuel n c p w" for n c p and w :: "'e world"
    using that shr.unlock_using unfolding tally_using_def tally_ready_def by blast
  show "Db_Mutex d \<notin> set (held w)" if "tally_ready h d N fuel n p w" for n p and w :: "'e world"
    using that shr.ready_free unfolding tally_ready_def by blast
  show "Db_Mutex d \<notin> set (held w)" if "tally_using h d N fuel n c p w" for n c p and w :: "'e world"
    using that shr.using_free unfolding tally_using_def by blast
  show "tally_ready h d N fuel n p w'" if "tally_ready h d N fuel n p w" "only_counts w w'"
    for n p and w w' :: "'e world"
    using that shr.ready_counts unfolding tally_ready_def by blast
  show "tally_using h d N fuel n c p w'" if "tally_using h d N fuel n c p w" "only_counts w w'"
    for n c p and w w' :: "'e world"
    using that shr.using_counts unfolding tally_using_def by blast
  show "tally_ready h d N fuel n p (VRT_fail w)" if "tally_ready h d N fuel n p w" for n p and w :: "'e world"
    using that shr.ready_fail unfolding tally_ready_def by blast
  show "same_tally w w'" if "tally_ready h d N fuel (Suc n) p w" "lock_redis_context fuel h d p w = Some (c, p', w')"
    for n p w c p' w'
    using that tly.lock_within unfolding tally_ready_def by blast
  show "same_tally w w'" if "tally_using h d N fuel n c p w" "unlock_redis_context d c w = Some w'"
    for n c p and w w' :: "'e world"
    by (rule tly.unlock_within [OF that(2)])
qed

section \<open>Properties\<close>

definition count_state :: "'e hiredis \<Rightarrow> db_ptr \<Rightarrow> nat \<Rightarrow> nat \<Rightarrow> 'e world \<Rightarrow> bool" where
  "count_state h d N fuel w \<longleftrightarrow>
     private_state h d N w \<or> shared_state h d N fuel w \<and> others_within same_tally h d N"

text \<open>A plan without a connection or a server; \<open>w'\<close> is the state it leaves.\<close>

definition empty_plan ::
  "'e hiredis \<Rightarrow> db_ptr \<Rightarrow> uint \<Rightarrow> server_ptr option \<Rightarrow> bool \<Rightarrow> nat \<Rightarrow> 'e world \<Rightarrow> 'e world \<Rightarrow> bool" where
  "empty_plan h d max_size server master slot w w' \<longleftrightarrow>
     (\<exists>p. plan_execution h d max_size server master slot w = Some (Some p, w') \<and> pl_contexts p = [] \<and> pl_servers p = [])"

lemma execute_counts_aux:
  assumes src: "\<And>p w1. \<lbrakk>plan_execution h d max_size server master slot w = Some (Some p, w1);
        pl_contexts p \<noteq> [] \<or> pl_servers p \<noteq> [];
        execute_loop (lock_redis_context fuel h d) (unlock_redis_context d) h d timeout max_retries asking argv retries p w1 =
          Some (r, argv', retries', w')\<rbrakk> \<Longrightarrow>
      \<exists>n. counted (tally (db_stats (dbs w1 d))) (r \<noteq> None) retries n (tally (db_stats (dbs w' d))) \<and>
        (if r \<noteq> None then n = Suc (unat retries' - unat retries)
         else n = Suc (unat max_retries - unat retries) \<or>
           n \<le> unat max_retries - unat retries \<and> None \<in> set argv' \<and> vrt_failed w')"
    and planned: "\<exists>p w1. plan_execution h d max_size server master slot w = Some (Some p, w1)"
    and size: "max_size = (if retries > 0 then max_retries - retries else 1 + max_retries - retries)"
    and run: "redis_execute fuel h d timeout max_retries argv retries server asking master slot w =
      Some (r, argv', retries', w')"
  shows "\<exists>n. counted (tally (db_stats (dbs w d))) (r \<noteq> None) retries n (tally (db_stats (dbs w' d))) \<and>
    (if r \<noteq> None then n = Suc (unat retries' - unat retries)
     else n = Suc (unat max_retries - unat retries) \<or>
       n = 0 \<and> empty_plan h d max_size server master slot w w' \<or>
       n \<le> unat max_retries - unat retries \<and> None \<in> set argv' \<and> vrt_failed w')"
proof -
  obtain p w1 where p: "plan_execution h d max_size server master slot w = Some (Some p, w1)" using planned by blast
  have t: "tally (db_stats (dbs w1 d)) = tally (db_stats (dbs w d))"
    using plan_execution_tally [OF p] by (simp add: same_tally_def)
  have out: "(if pl_contexts p \<noteq> [] \<or> pl_servers p \<noteq> []
     then execute_loop (lock_redis_context fuel h d) (unlock_redis_context d) h d timeout
            max_retries asking argv retries p w1
     else Some (None, argv, max_retries, w1)) = Some (r, argv', retries', w')"
    using p run by (auto simp: redis_execute_def assert_that_def size [symmetric] split: if_splits)
  show ?thesis
  proof (cases "pl_contexts p \<noteq> [] \<or> pl_servers p \<noteq> []")
    case True
    then show ?thesis using src [OF p True] out unfolding t by auto
  next
    case False
    then have fin: "r = None" "w' = w1" using out by simp_all
    have "empty_plan h d max_size server master slot w w'" using p False by (simp add: empty_plan_def fin)
    moreover have "counted (tally (db_stats (dbs w d))) False retries 0 (tally (db_stats (dbs w' d)))"
      by (simp add: fin t counted_def split: prod.splits)
    ultimately show ?thesis by (intro exI [of _ 0]) (simp add: fin)
  qed
qed



end
