(* ===== verification/Execute_Protocol.thy ===== *)
theory Execute_Protocol
  imports Execute_Counts
begin

text \<open>
  What goes over the connection: the pipeline of \<open>get_redis_repy\<close> stays in step with its replies, a
  script that is first tried by its digest, and a limit of retries that wraps around.
\<close>

section \<open>Pipelines\<close>

text \<open>
  The documented behaviour of the pipelining of hiredis: commands that are appended to a connection
  wait in a queue, and \<open>redisGetReply\<close> gives the answer to the oldest one.
\<close>

definition fifo ::
  "'e hiredis \<Rightarrow> rcontext \<Rightarrow> ('e \<Rightarrow> string list list) \<Rightarrow> (string list \<Rightarrow> redisReply option) \<Rightarrow> bool" where
  "fifo h rc pending answer \<longleftrightarrow>
     (\<forall>e args. pending (h_append h rc args e) = pending e @ [args]) \<and>
     (\<forall>e args q. pending e = args # q \<longrightarrow>
        fst (h_get_reply h rc e) = answer args \<and> pending (snd (h_get_reply h rc e)) = q) \<and>
     (\<forall>e t. pending (snd (h_set_timeout h rc t e)) = pending e)"

lemma fifo_append:
  "fifo h rc pending answer \<Longrightarrow>
   pending (net (append_if h b rc cmd w)) = pending (net w) @ (if b then [[cmd]] else [])"
  by (simp add: fifo_def append_if_def net_do_def)

lemma fifo_skip:
  assumes "fifo h rc pending answer" and "pending (net w) = (if b then [args] else []) @ q"
  shows "pending (net (skip_reply h b rc w)) = q"
  using assms by (auto simp: fifo_def skip_reply_def)

section \<open>Properties\<close>

text \<open>
  C17. The pipeline of a command stays in step: whether or not the command is wrapped in
  \<open>READONLY\<close> and \<open>READWRITE\<close> and preceded by \<open>ASKING\<close>, the reply that \<open>get_redis_repy\<close> returns is the
  answer to the command itself, and no reply is left behind for the next command.
\<close>

theorem get_redis_repy_in_step:
  assumes "fifo h (cx_rcontext c) pending answer" and "pending (net w) = []"
    and "send_argv argv = Some args"
  shows "\<exists>w'. get_redis_repy h c timeout argv asking w = Some (answer args, w') \<and> pending (net w') = []"
proof -
  let ?rc = "cx_rcontext c"
  define readonly where "readonly \<longleftrightarrow>
    cluster_enabled (dbs w (sv_db (srvs w (cx_server c)))) \<and> sv_role (srvs w (cx_server c)) = SLAVE"
  obtain tr w1 where w1: "net_call (h_set_timeout h ?rc timeout) w = (tr, w1)" by fastforce
  have p1: "pending (net w1) = []"
    using assms(1,2) w1 by (auto simp: fifo_def net_call_def split: prod.splits dest: spec) (metis snd_conv)
  define w2 where "w2 = append_if h asking ?rc ''ASKING'' (append_if h readonly ?rc ''READONLY'' w1)"
  define w3 where "w3 = append_if h readonly ?rc ''READWRITE'' (net_do (h_append h ?rc args) w2)"
  have p3: "pending (net w3) = (if readonly then [[''READONLY'']] else []) @ (if asking then [[''ASKING'']] else []) @
      [args] @ (if readonly then [[''READWRITE'']] else [])"
    using assms(1) by (simp add: w3_def w2_def fifo_append [OF assms(1)] p1 net_do_def fifo_def)
  define w4 where "w4 = skip_reply h asking ?rc (skip_reply h readonly ?rc w3)"
  have p4: "pending (net w4) = args # (if readonly then [[''READWRITE'']] else [])"
    unfolding w4_def by (rule fifo_skip [OF assms(1)], rule fifo_skip [OF assms(1)]) (simp add: p3)
  obtain r w5 where w5: "net_call (h_get_reply h ?rc) w4 = (r, w5)" by fastforce
  have "r = answer args" "pending (net w5) = (if readonly then [[''READWRITE'']] else [])"
    using assms(1) p4 w5 by (auto simp: fifo_def net_call_def split: prod.splits) (metis fst_conv snd_conv)+
  moreover have "pending (net (skip_reply h readonly ?rc w5)) = []"
    by (rule fifo_skip [OF assms(1)]) (simp add: calculation(2))
  moreover have "get_redis_repy h c timeout argv asking w = Some (r, skip_reply h readonly ?rc w5)"
    by (simp add: get_redis_repy_def Let_def readonly_def [symmetric] w1 assms(3)
        w2_def [symmetric] w3_def [symmetric] w4_def [symmetric] w5)
  ultimately show ?thesis by blast
qed

text \<open>An environment that is a queue of commands, and a clustered database with one slave.\<close>

definition lab_queue :: "(string list \<Rightarrow> redisReply option) \<Rightarrow> string list list hiredis" where
  "lab_queue answer =
     \<lparr>h_time = (\<lambda>q. (100, q)), h_connect = (\<lambda>loc t q. (Some 7, q)), h_err = (\<lambda>rc q. False),
      h_set_timeout = (\<lambda>rc t q. (True, q)), h_tls = (\<lambda>rc ssl q. (True, q)),
      h_command = (\<lambda>rc args q. (answer args, q)), h_append = (\<lambda>rc args q. q @ [args]),
      h_get_reply = (\<lambda>rc q. case q of [] \<Rightarrow> (None, []) | args # q \<Rightarrow> (answer args, q)),
      h_free = (\<lambda>rc q. []), h_keepalive = (\<lambda>rc q. (True, q)), h_poll = (\<lambda>rc q. (True, q)),
      h_re_match = (\<lambda>raw vre. False), h_ws_alloc = (\<lambda>n q. (True, q)), h_ws_reserve_all = (\<lambda>q. (64, q)),
      h_ws_release = (\<lambda>n q. q), h_wait = (\<lambda>s w. w)\<rparr>"

definition lab_slave :: "string list list world" where
  "lab_slave =
     \<lparr>net = [], srvs = (\<lambda>s. lab_server ''a:1'' (Host ''a'' 1) SLAVE), next_srv = 1, next_ctx = 1,
      dbs = (\<lambda>d. lab_db False True), task = lab_task, config = \<lparr>weight_rules = [], vcl_dbs = [0]\<rparr>,
      vmod_version = 1, held = [], vrt_failed = False\<rparr>"

theorem get_redis_repy_in_step_witness:
  "\<exists>w'. get_redis_repy (lab_queue (\<lambda>a. Some (Reply_Status (hd a)))) (lab_context 100) \<lparr>tv_sec = 1, tv_usec = 0\<rparr>
      [Some ''GET'', Some ''k''] True lab_slave = Some (Some (Reply_Status ''GET''), w') \<and> net w' = []"
  using get_redis_repy_in_step [of "lab_queue (\<lambda>a. Some (Reply_Status (hd a)))" "lab_context 100" "\<lambda>q. q"
      "\<lambda>a. Some (Reply_Status (hd a))" lab_slave "[Some ''GET'', Some ''k'']" "[''GET'', ''k'']"]
  by (auto simp: fifo_def lab_queue_def lab_slave_def)

text \<open>
  C18. After an attempt of an \<open>EVAL\<close> command that got no reply, the arguments that the caller keeps are
  those of \<open>EVALSHA\<close>, unless the server had already answered that it does not know the script; and
  from then on the command is an ordinary one: a \<open>NOSCRIPT\<close> reply of the next server is what the
  caller gets, and the script is not sent.
\<close>

theorem evalsha_not_restored:
  assumes "run_command h d c timeout (Some cmd # Some script # args) asking w = Some ((False, None, argv'), w')"
    and "strcasecmp_eq cmd ''EVAL''"
    and "st_commands_noscript (db_stats (dbs w' d)) = st_commands_noscript (db_stats (dbs w d))"
  shows "\<exists>digest. argv' = Some ''EVALSHA'' # Some digest # args \<and>
    (\<forall>c t asking v. run_command h d c t argv' asking v =
       map_option (\<lambda>(r, v). ((False, r, argv'), v)) (get_redis_repy h c t argv' asking v))"
proof -
  have same: "dbs w2 = dbs w1" if "get_redis_repy h c timeout a asking w1 = Some (r, w2)" for a r and w1 w2 :: "'a world"
    using only_net_fields(2) [OF get_redis_repy_net [OF that]] .
  have ws: "dbs w2 = dbs w1" if "WS_Copy h s w1 = (x, w2)" for s x and w1 w2 :: "'a world"
    using that by (auto simp: WS_Copy_def Let_def net_call_def split: prod.splits)
  have call: "dbs w2 = dbs w1" if "net_call f w1 = (x, w2)" for f and x :: 'b and w1 w2 :: "'a world"
    using that by (auto simp: net_call_def split: prod.splits)
  obtain dn argv1 r1 w1 where t: "try_evalsha h d c timeout (Some cmd # Some script # args) script asking w =
      Some ((False, dn, r1, argv1), w1)"
    and rest: "if dn then r1 = None \<and> argv' = argv1 \<and> w' = w1
      else get_redis_repy h c timeout argv1 asking w1 = Some (None, w') \<and> argv' = argv1"
    using assms(1,2) by (auto simp: run_command_def bind_Some split: if_splits)
  obtain cmd1 w2 where c1: "WS_Copy h ''EVALSHA'' w = (cmd1, w2)" by fastforce
  obtain ok w3 where c2: "net_call (h_ws_alloc h 41) w2 = (ok, w3)" by fastforce
  have cmd1: "cmd1 = Some ''EVALSHA''"
    using t c1 by (auto simp: try_evalsha_def WS_Copy_def Let_def net_call_def split: prod.splits if_splits)
  obtain digest r2 w4 where g: "get_redis_repy h c timeout (Some ''EVALSHA'' # Some digest # args) asking w3 = Some (r2, w4)"
    and n: "check_noscript h d c script (Some ''EVALSHA'' # Some digest # args) r2 w4 = Some ((False, dn, r1, argv1), w1)"
    using t by (auto simp: try_evalsha_def c1 c2 cmd1 bind_Some Let_def split: if_splits option.splits)
  have dbs4: "dbs w4 = dbs w" using ws [OF c1] call [OF c2] same [OF g] by simp
  obtain cmd2 w5 where c5: "WS_Copy h ''EVAL'' w4 = (cmd2, w5)" by fastforce
  have dn: dn
  proof (rule ccontr)
    assume "\<not> dn"
    then have "st_commands_noscript (db_stats (dbs w1 d)) = st_commands_noscript (db_stats (dbs w5 d)) + 1"
      using n c5 by (auto simp: check_noscript_def bind_Some Let_def with_db_eq [OF lock_free_upd(3)] frame_simps
          split: if_splits option.splits)
    moreover have "dbs w' = dbs w1" using rest \<open>\<not> dn\<close> same by auto
    ultimately show False using assms(3) ws [OF c5] dbs4 by simp
  qed
  then have "argv' = Some ''EVALSHA'' # Some digest # args"
    using n rest by (auto simp: check_noscript_def bind_Some Let_def split: if_splits option.splits prod.splits)
  moreover have "\<not> strcasecmp_eq ''EVALSHA'' ''EVAL''" by code_simp
  ultimately show ?thesis
    by (auto simp: run_command_def map_option_case split: option.splits)
qed

theorem evalsha_not_restored_witness:
  "\<exists>digest w'. run_command (lab (\<lambda>c. None) 64) 0 (lab_context 100) \<lparr>tv_sec = 1, tv_usec = 0\<rparr>
      [Some ''eval'', Some ''return 1'', Some ''0''] False (lab_one False False) =
      Some ((False, None, [Some ''EVALSHA'', Some digest, Some ''0'']), w')"
proof -
  let ?h = "lab (\<lambda>c. None) 64" and ?t = "\<lparr>tv_sec = 1, tv_usec = 0\<rparr>" and ?w = "lab_one False False"
  have "length ''return 1'' + 64 < (2 :: nat) ^ 32" by simp
  then obtain x where "sha1 True ''return 1'' = Some x" using sha1_total by blast
  then obtain a where a: "sha1 True ''return 1'' = Some (Some a)" by (auto simp: sha1_def split: option.splits)
  have e: "strcasecmp_eq ''eval'' ''EVAL''" by code_simp
  have g: "get_redis_repy ?h (lab_context 100) ?t [Some c, Some a, Some ''0''] False ?w = Some (None, ?w)" for c
    by (simp add: get_redis_repy_def append_if_def skip_reply_def net_call_def net_do_def lab_defs)
  have c: "WS_Copy ?h ''EVALSHA'' ?w = (Some ''EVALSHA'', ?w)" "net_call (h_ws_alloc ?h 41) ?w = (True, ?w)"
    by (simp_all add: WS_Copy_def net_call_def lab_defs)
  obtain argv' where r: "run_command ?h 0 (lab_context 100) ?t (Some ''eval'' # Some ''return 1'' # [Some ''0'']) False ?w =
      Some ((False, None, argv'), ?w)"
    by (simp add: run_command_def e try_evalsha_def c a g check_noscript_def)
  show ?thesis using evalsha_not_restored [OF r e refl] r by auto
qed

text \<open>
  \<open>.retries(-1)\<close> stores \<open>UINT_MAX\<close>, and the size of the plan, one more than the retries, wraps
  around to zero: a task without connections of its own, or a database with shared ones, gets an
  empty plan, and \<open>redis_execute\<close> reports that all retries are used up without a single attempt.
\<close>

theorem negative_retries_never_run:
  assumes "task_ok d w" and "shared_connections (dbs w d) \<or> ts_contexts (task w) = []"
    and "ws_room h (length (ts_contexts (task w)))"
  shows "\<exists>w'. redis_execute fuel h d timeout (-1) argv 0 None asking master slot w = Some (None, argv, -1, w') \<and>
    same_tally w w'"
proof -
  have "ws_room h (unat (0 :: uint))" using ws_room_mono [OF assms(3)] by simp
  then obtain p w' now where p: "plan_execution h d 0 None master slot w = Some (Some p, w')"
    and q: "planned h d now 0 master slot w p"
    by (rule plan_execution_planned_aux [OF assms(1,3)]) blast
  have "pl_contexts p = []" "pl_servers p = []"
    using q assms(2) by (auto simp: planned_def planned_contexts_def)
  then have "redis_execute fuel h d timeout (-1) argv 0 None asking master slot w = Some (None, argv, -1, w')"
    using p by (simp add: redis_execute_def assert_that_def)
  then show ?thesis using plan_execution_tally [OF p] by blast
qed

theorem negative_retries_never_run_witness:
  "\<exists>w'. redis_execute 0 (lab (\<lambda>c. Some (Reply_Status ''OK'')) 64) 0 \<lparr>tv_sec = 1, tv_usec = 0\<rparr> (-1)
    [Some ''GET'', Some ''k''] 0 None False True 0 (lab_one False False) =
    Some (None, [Some ''GET'', Some ''k''], -1, w')"
proof -
  have t: "ts_contexts (task (lab_one False False)) = []" by (simp add: lab_defs)
  then have "ws_room (lab (\<lambda>c. Some (Reply_Status ''OK'')) 64) (length (ts_contexts (task (lab_one False False))))"
    using ws_room_lab by simp
  from negative_retries_never_run [OF task_ok_lab disjI2 [OF t] this] show ?thesis by blast
qed

end
