(* ===== verification/Cluster_Discovery.thy ===== *)
theory Cluster_Discovery
  imports Registry
begin

text \<open>
  The discovery of the topology of a cluster (\<open>src/cluster.c\<close>): \<open>parse_slot_range\<close>, \<open>parse_node\<close>,
  \<open>unsafe_reset_slots\<close>, \<open>unsafe_add_node\<close>, \<open>unsafe_discover_slots_aux\<close>, \<open>unsafe_discover_slots\<close> and
  \<open>discover_cluster_slots\<close>. The counter of parse errors is only logged, and is left out. The loop over
  the servers of the database follows the links of the lists as they are when it gets to them, since
  the discoveries in its body may move the servers; it has a bound \<open>fuel\<close>.
\<close>

section \<open>Parsing a reply\<close>

text \<open>The loops that visit the elements of a reply two at a time.\<close>

fun pairs :: "redisReply list \<Rightarrow> (redisReply \<times> redisReply) list" where
  "pairs (a # b # es) = (a, b) # pairs es"
| "pairs es = []"

fun parse_slot_range :: "redisReply \<times> redisReply \<Rightarrow> (nat \<times> nat) option" where
  "parse_slot_range (Reply_Integer start, Reply_Integer end') =
     (if start < 0 \<or> start \<ge> int NREDIS_CLUSTER_SLOTS \<or> end' < 0 \<or> end' \<ge> int NREDIS_CLUSTER_SLOTS \<or>
         start > end'
      then None else Some (nat start, nat end'))"
| "parse_slot_range p = None"

record node =
  nd_endpoint :: string
  nd_port :: nat
  nd_role :: role
  nd_healthy :: bool

text \<open>The local variables of \<open>parse_node\<close>.\<close>

record node_data =
  na_endpoint :: "string option"
  na_port :: nat
  na_tls_port :: nat
  na_role :: role
  na_healthy :: bool

fun port_of :: "redisReply \<Rightarrow> nat \<Rightarrow> nat" where
  "port_of (Reply_Integer i) old = (if 0 < i \<and> i \<le> 65535 then nat i else old)"
| "port_of r old = old"

fun node_field :: "redisReply \<times> redisReply \<Rightarrow> node_data \<Rightarrow> node_data" where
  "node_field (Reply_String name, value) n =
     (if name = ''endpoint'' then
        (case value of
           Reply_String s \<Rightarrow> n\<lparr>na_endpoint := Some s\<rparr>
         | Reply_Nil \<Rightarrow> n\<lparr>na_endpoint := Some []\<rparr>
         | _ \<Rightarrow> n)
      else if name = ''port'' then n\<lparr>na_port := port_of value (na_port n)\<rparr>
      else if name = ''tls-port'' then n\<lparr>na_tls_port := port_of value (na_tls_port n)\<rparr>
      else if name = ''role'' then
        (case value of
           Reply_String s \<Rightarrow>
             if s = ''master'' then n\<lparr>na_role := MASTER\<rparr>
             else if s = ''replica'' then n\<lparr>na_role := SLAVE\<rparr> else n
         | _ \<Rightarrow> n)
      else if name = ''health'' then
        (case value of Reply_String s \<Rightarrow> n\<lparr>na_healthy := (s = ''online'')\<rparr> | _ \<Rightarrow> n)
      else n)"
| "node_field p n = n"

text \<open>\<open>location.parsed.address.host\<close>; in the union it shares its place with \<open>path\<close>.\<close>

fun loc_host :: "location \<Rightarrow> string" where
  "loc_host (Host h p) = h"
| "loc_host (Socket p) = p"

definition parse_node :: "redisReply \<Rightarrow> vmod_redis_db \<Rightarrow> location \<Rightarrow> node option" where
  "parse_node reply db loc =
     (if \<not> is_array_or_map reply then None
      else
        (let n = fold node_field (pairs (elements reply))
                   \<lparr>na_endpoint = None, na_port = 0, na_tls_port = 0, na_role = TBD, na_healthy = True\<rparr>;
             tls = (tls_ssl_ctx db \<noteq> None);
             preferred = (if tls then na_tls_port n else na_port n);
             port = (if preferred = 0 then (if tls then na_port n else na_tls_port n) else preferred)
         in if na_endpoint n = Some ''?'' then None
            else if port = 0 \<or> na_role n = TBD then None
            else Some \<lparr>nd_endpoint = (case na_endpoint n of
                                          Some (c # cs) \<Rightarrow> c # cs
                                        | _ \<Rightarrow> loc_host loc),
                        nd_port = port, nd_role = na_role n, nd_healthy = na_healthy n\<rparr>))"

text \<open>\<open>slots\<close> and \<open>nodes\<close> of a shard, from its key-value pairs.\<close>

fun shard_field ::
  "redisReply \<times> redisReply \<Rightarrow> redisReply list option \<times> redisReply list option \<Rightarrow>
   redisReply list option \<times> redisReply list option" where
  "shard_field (Reply_String key, Reply_Array es) (slots, nodes) =
     (if key = ''slots'' then (Some es, nodes)
      else if key = ''nodes'' \<and> length es \<ge> 1 then (slots, Some es)
      else (slots, nodes))"
| "shard_field p st = st"

text \<open>The slot ranges and the nodes of a shard, or \<open>None\<close> for one that is skipped.\<close>

definition parse_shard :: "redisReply \<Rightarrow> ((nat \<times> nat) list \<times> redisReply list) option" where
  "parse_shard shard =
     (if \<not> is_array_or_map shard then None
      else (case fold shard_field (pairs (elements shard)) (None, None) of
              (Some slots, Some nodes) \<Rightarrow>
                if length slots mod 2 \<noteq> 0 then None
                else Some (List.map_filter parse_slot_range (pairs slots), nodes)
            | _ \<Rightarrow> None))"

section \<open>Registering the topology\<close>

definition unsafe_reset_slots :: "db_ptr \<Rightarrow> 'e world \<Rightarrow> 'e world option" where
  "unsafe_reset_slots d w = do {
     _ \<leftarrow> Lck_AssertHeld (Db_Mutex d) w;
     Some (fold (\<lambda>(iweight, irole). fold (\<lambda>s. upd_srv s (\<lambda>sv. sv\<lparr>sv_slots := (\<lambda>i. False)\<rparr>))
                                        (servers (dbs w d) iweight irole)) cells w)
   }"

definition unsafe_add_node ::
  "'e hiredis \<Rightarrow> db_ptr \<Rightarrow> node \<Rightarrow> 'e world \<Rightarrow> (server_ptr option \<times> 'e world) option" where
  "unsafe_add_node h d node w = do {
     _ \<leftarrow> Lck_AssertHeld Config_Mutex w;
     _ \<leftarrow> Lck_AssertHeld (Db_Mutex d) w;
     let location = nd_endpoint node @ '':'' @ string_of_nat (nd_port node);
     if length location \<ge> 256 then Some (None, w)
     else do {
       (server, w) \<leftarrow> unsafe_add_redis_server h d location (nd_role node) w;
       Some (case server of
               None \<Rightarrow> (None, w)
             | Some s \<Rightarrow>
                 if \<not> nd_healthy node \<and> sickness_ttl (dbs w d) > 0
                 then (let (now, w) = net_call (h_time h) w
                       in (Some s, upd_srv s (\<lambda>sv. sv\<lparr>sick_tst := now,
                                                       sick_exp := now + sickness_ttl (dbs w d)\<rparr>) w))
                 else (Some s, w))
     }
   }"

definition register_range :: "server_ptr \<Rightarrow> nat \<times> nat \<Rightarrow> 'e world \<Rightarrow> 'e world" where
  "register_range s = (\<lambda>(start, end'). upd_srv s (\<lambda>sv. sv\<lparr>sv_slots := (\<lambda>i. start \<le> i \<and> i \<le> end' \<or> sv_slots sv i)\<rparr>))"

text \<open>The loop over the nodes of a shard; \<open>reset\<close> and \<open>slot_ranges\<close> are the variables of the code.\<close>

fun register_nodes ::
  "'e hiredis \<Rightarrow> db_ptr \<Rightarrow> location \<Rightarrow> (nat \<times> nat) list \<Rightarrow> redisReply list \<Rightarrow> bool \<times> nat \<times> 'e world \<Rightarrow>
   (bool \<times> nat \<times> 'e world) option" where
  "register_nodes h d loc ranges [] (reset, slot_ranges, w) = Some (reset, slot_ranges, w)"
| "register_nodes h d loc ranges (n # ns) (reset, slot_ranges, w) =
     (case parse_node n (dbs w d) loc of
        None \<Rightarrow> register_nodes h d loc ranges ns (reset, slot_ranges, w)
      | Some node \<Rightarrow>
          (case unsafe_add_node h d node w of
             None \<Rightarrow> None
           | Some (None, w) \<Rightarrow> register_nodes h d loc ranges ns (reset, slot_ranges, w)
           | Some (Some s, w) \<Rightarrow>
               (case (if ranges \<noteq> [] \<and> \<not> reset then unsafe_reset_slots d w else Some w) of
                  None \<Rightarrow> None
                | Some w \<Rightarrow>
                    register_nodes h d loc ranges ns
                      (reset \<or> ranges \<noteq> [], slot_ranges + length ranges,
                       fold (register_range s) ranges w))))"

fun register_shards ::
  "'e hiredis \<Rightarrow> db_ptr \<Rightarrow> location \<Rightarrow> redisReply list \<Rightarrow> bool \<times> nat \<times> 'e world \<Rightarrow>
   (bool \<times> nat \<times> 'e world) option" where
  "register_shards h d loc [] st = Some st"
| "register_shards h d loc (shard # shards) st =
     (case parse_shard shard of
        None \<Rightarrow> register_shards h d loc shards st
      | Some (ranges, nodes) \<Rightarrow>
          (case register_nodes h d loc ranges nodes st of
             None \<Rightarrow> None
           | Some st \<Rightarrow> register_shards h d loc shards st))"

section \<open>Asking a server\<close>

definition count_discovery :: "db_ptr \<Rightarrow> bool \<Rightarrow> 'e world \<Rightarrow> 'e world" where
  "count_discovery d ok =
     upd_stats d (\<lambda>st. if ok then st\<lparr>st_discoveries_total := st_discoveries_total st + 1\<rparr>
                        else st\<lparr>st_discoveries_failed := st_discoveries_failed st + 1\<rparr>)"

text \<open>The connection and the reply to \<open>CLUSTER SHARDS\<close>; the connection is still to be closed.\<close>

definition ask_topology ::
  "'e hiredis \<Rightarrow> db_ptr \<Rightarrow> server_ptr \<Rightarrow> 'e world \<Rightarrow> (redisReply option \<times> rcontext option) \<times> 'e world" where
  "ask_topology h d server w =
     (let (rcontext, w) = net_call (h_connect h (sv_loc (srvs w server)) (timeout_set (connection_timeout (dbs w d)))) w
      in case rcontext of
           None \<Rightarrow> ((None, None), w)
         | Some rc \<Rightarrow>
             if rc_err h rc w then ((None, Some rc), w)
             else
               (let (tr, w) = net_call (h_set_timeout h rc (command_timeout (dbs w d))) w;
                    (rcontext, w) = REDIS_BLESS_CONTEXT h (dbs w (sv_db (srvs w server))) rc w
                in case rcontext of
                     None \<Rightarrow> ((None, None), w)
                   | Some rc \<Rightarrow>
                       (let (reply, w) = net_call (h_command h rc [''CLUSTER'', ''SHARDS'']) w
                        in ((if rc_err h rc w then None else reply, Some rc), w))))"

definition unsafe_discover_slots_aux ::
  "'e hiredis \<Rightarrow> db_ptr \<Rightarrow> server_ptr \<Rightarrow> 'e world \<Rightarrow> (bool \<times> 'e world) option" where
  "unsafe_discover_slots_aux h d server w = do {
     _ \<leftarrow> Lck_AssertHeld Config_Mutex w;
     _ \<leftarrow> Lck_AssertHeld (Db_Mutex d) w;
     _ \<leftarrow> assert_that (is_host (sv_loc (srvs w server)));
     let ((reply, rcontext), w) = ask_topology h d server w;
     (don, w) \<leftarrow>
       (case reply of
          Some (Reply_Array shards) \<Rightarrow> do {
            (reset, slot_ranges, w) \<leftarrow> register_shards h d (sv_loc (srvs w server)) shards (False, 0, w);
            Some (slot_ranges > 0, count_discovery d (slot_ranges > 0) w)
          }
        | _ \<Rightarrow> Some (False, count_discovery d False w));
     Some (don, case rcontext of None \<Rightarrow> w | Some rc \<Rightarrow> net_do (h_free h rc) w)
   }"

section \<open>Asking the servers of a database\<close>

fun list_next :: "server_ptr \<Rightarrow> server_ptr list \<Rightarrow> server_ptr option option" where
  "list_next s [] = None"
| "list_next s (x # xs) =
     (if x = s then Some (case xs of [] \<Rightarrow> None | y # ys \<Rightarrow> Some y) else list_next s xs)"

text \<open>\<open>VTAILQ_NEXT\<close>: the server after \<open>s\<close> in the list in which \<open>s\<close> is now.\<close>

fun tailq_next :: "db_ptr \<Rightarrow> server_ptr \<Rightarrow> (nat \<times> role) list \<Rightarrow> 'e world \<Rightarrow> server_ptr option" where
  "tailq_next d s [] w = None"
| "tailq_next d s ((iweight, irole) # cs) w =
     (case list_next s (servers (dbs w d) iweight irole) of
        Some n \<Rightarrow> n
      | None \<Rightarrow> tailq_next d s cs w)"

function discover_walk ::
  "nat \<Rightarrow> 'e hiredis \<Rightarrow> db_ptr \<Rightarrow> server_ptr \<Rightarrow> (nat \<times> role) list \<Rightarrow> server_ptr option \<Rightarrow> 'e world \<Rightarrow>
   'e world option" where
  "discover_walk fuel h d server [] None w = Some w"
| "discover_walk fuel h d server ((iweight, irole) # cs) None w =
     (case servers (dbs w d) iweight irole of
        [] \<Rightarrow> discover_walk fuel h d server cs None w
      | s # ss \<Rightarrow>
          (case fuel of
             0 \<Rightarrow> None
           | Suc fuel \<Rightarrow> discover_walk fuel h d server cs (Some s) w))"
| "discover_walk fuel h d server cs (Some s) w =
     (case (if s \<noteq> server then unsafe_discover_slots_aux h d s w else Some (False, w)) of
        None \<Rightarrow> None
      | Some (True, w) \<Rightarrow> Some w
      | Some (False, w) \<Rightarrow>
          (case tailq_next d s cells w of
             None \<Rightarrow> discover_walk fuel h d server cs None w
           | Some n \<Rightarrow>
               (case fuel of
                  0 \<Rightarrow> None
                | Suc fuel \<Rightarrow> discover_walk fuel h d server cs (Some n) w)))"
  by pat_completeness auto
termination
  by (relation "measures [\<lambda>(n, h, d, s, cs, cur, w). n, \<lambda>(n, h, d, s, cs, cur, w). length cs,
        \<lambda>(n, h, d, s, cs, cur, w). if cur = None then 0 else 1]") auto

text \<open>The first server is the one of the caller; if it fails, the others are asked.\<close>

definition unsafe_discover_slots ::
  "nat \<Rightarrow> 'e hiredis \<Rightarrow> db_ptr \<Rightarrow> server_ptr \<Rightarrow> 'e world \<Rightarrow> 'e world option" where
  "unsafe_discover_slots fuel h d server w = do {
     _ \<leftarrow> Lck_AssertHeld Config_Mutex w;
     _ \<leftarrow> Lck_AssertHeld (Db_Mutex d) w;
     (don, w) \<leftarrow> unsafe_discover_slots_aux h d server w;
     if don then Some w else discover_walk fuel h d server cells None w
   }"

definition discover_cluster_slots ::
  "nat \<Rightarrow> 'e hiredis \<Rightarrow> db_ptr \<Rightarrow> server_ptr \<Rightarrow> 'e world \<Rightarrow> 'e world option" where
  "discover_cluster_slots fuel h d server w = do {
     w \<leftarrow> Lck_Lock Config_Mutex w;
     w \<leftarrow> Lck_Lock (Db_Mutex d) w;
     w \<leftarrow> unsafe_discover_slots fuel h d server w;
     w \<leftarrow> Lck_Unlock (Db_Mutex d) w;
     Lck_Unlock Config_Mutex w
   }"

end
