(* ===== verification/Cluster_Topology.thy ===== *)
theory Cluster_Topology
  imports Cluster_Discovery
begin

text \<open>
  What a discovery does to the slots of the servers: the topology of a reply, read off its shards and
  nodes, is what the servers of the database have after the reply has been registered.
\<close>

section \<open>The configuration and the counters of a database\<close>

definition same_conf :: "'e world \<Rightarrow> 'e world \<Rightarrow> bool" where
  "same_conf w w' \<longleftrightarrow>
     (\<forall>d. (dbs w' d)\<lparr>db_stats := undefined, servers := undefined\<rparr> =
          (dbs w d)\<lparr>db_stats := undefined, servers := undefined\<rparr>)"

lemma same_conf_refl [simp]: "same_conf w w"
  by (simp add: same_conf_def)

lemma same_conf_trans: "same_conf w w' \<Longrightarrow> same_conf w' w'' \<Longrightarrow> same_conf w w''"
  by (simp add: same_conf_def)

lemma same_conf_simps [simp]:
  "same_conf w (w'\<lparr>net := e\<rparr>) \<longleftrightarrow> same_conf w w'" "same_conf w (net_do f w') \<longleftrightarrow> same_conf w w'"
  "same_conf w (upd_srv s g w') \<longleftrightarrow> same_conf w w'" "same_conf w (upd_stats d k w') \<longleftrightarrow> same_conf w w'"
  "same_conf w (upd_servers d wt r l w') \<longleftrightarrow> same_conf w w'"
  by (auto simp: same_conf_def net_do_def upd_srv_def upd_stats_def upd_servers_def upd_db_def)

lemma same_conf_dbs: "dbs w' = dbs v \<Longrightarrow> same_conf w w' \<longleftrightarrow> same_conf w v"
  by (simp add: same_conf_def)

text \<open>With the mutexes and the configuration of the VCL.\<close>

definition same_frame :: "'e world \<Rightarrow> 'e world \<Rightarrow> bool" where
  "same_frame w w' \<longleftrightarrow> same_conf w w' \<and> held w' = held w \<and> config w' = config w"

lemma same_frame_refl [simp]: "same_frame w w"
  by (simp add: same_frame_def)

lemma same_frame_trans: "same_frame w w' \<Longrightarrow> same_frame w' w'' \<Longrightarrow> same_frame w w''"
  by (auto simp: same_frame_def intro: same_conf_trans)

lemma same_frame_eq:
  "dbs w' = dbs v \<Longrightarrow> held w' = held v \<Longrightarrow> config w' = config v \<Longrightarrow> same_frame w w' \<longleftrightarrow> same_frame w v"
  by (simp add: same_frame_def same_conf_def)

lemma same_conf_fields:
  assumes "same_conf w w'"
  shows "tls_ssl_ctx (dbs w' d) = tls_ssl_ctx (dbs w d)" "cluster_enabled (dbs w' d) = cluster_enabled (dbs w d)"
    "sickness_ttl (dbs w' d) = sickness_ttl (dbs w d)"
    "max_connections (dbs w' d) = max_connections (dbs w d)"
    "shared_connections (dbs w' d) = shared_connections (dbs w d)" "max_hops (dbs w' d) = max_hops (dbs w d)"
proof -
  have "(dbs w' d)\<lparr>db_stats := undefined, servers := undefined\<rparr> = (dbs w d)\<lparr>db_stats := undefined, servers := undefined\<rparr>"
    using assms by (simp add: same_conf_def)
  then show "tls_ssl_ctx (dbs w' d) = tls_ssl_ctx (dbs w d)" "cluster_enabled (dbs w' d) = cluster_enabled (dbs w d)"
    "sickness_ttl (dbs w' d) = sickness_ttl (dbs w d)"
    "max_connections (dbs w' d) = max_connections (dbs w d)"
    "shared_connections (dbs w' d) = shared_connections (dbs w d)" "max_hops (dbs w' d) = max_hops (dbs w d)"
    by (cases "dbs w' d"; cases "dbs w d"; simp)+
qed

lemma add_conf:
  assumes "unsafe_add_redis_server h d location role w = Some (r, w')"
  shows "same_conf w w'"
proof -
  have filed: "same_conf w v'" if "file_server d s v = Some v'" "same_conf w v" for s v v'
    using that by (auto simp: file_server_def split: if_splits)
  show ?thesis
  proof (cases "find_server w d location cells")
    case None
    obtain r1 w1 where reg: "register_server h d location role w = Some (r1, w1)"
      using assms None by (auto simp: unsafe_add_redis_server_def bind_Some)
    have "same_conf w w1"
    proof (cases r1)
      case None
      then show ?thesis
        using reg by (auto simp: register_server_def new_redis_server_def Let_def bind_Some split: if_splits prod.splits option.splits)
    next
      case (Some s)
      then have "dbs w1 = dbs (upd_stats d (\<lambda>st. st\<lparr>st_servers_total := st_servers_total st + 1\<rparr>) w)"
        using register_server_Some reg by blast
      then show ?thesis by (simp add: same_conf_dbs)
    qed
    then show ?thesis
      using assms None reg filed by (auto simp: unsafe_add_redis_server_def bind_Some split: option.splits)
  next
    case (Some c)
    obtain wt rl s where c: "c = ((wt, rl), s)" by (metis prod.exhaust)
    define w1 where "w1 = upd_servers d wt rl (\<lambda>l. tailq_remove l s) w"
    obtain w2 where w2: "refresh_server h s role w1 = Some w2" and f: "file_server d s w2 = Some w'"
      using assms Some by (auto simp: unsafe_add_redis_server_def bind_Some c w1_def split: option.splits)
    have "dbs w2 = dbs w1" using refresh_server_effect [OF w2] by blast
    then have "same_conf w w2" by (simp add: same_conf_dbs w1_def)
    then show ?thesis using filed f by blast
  qed
qed

definition discoveries :: "stats \<Rightarrow> uint64 \<times> uint64" where
  "discoveries st = (st_discoveries_total st, st_discoveries_failed st)"

section \<open>Adding the server of a node\<close>

definition node_location :: "node \<Rightarrow> string" where
  "node_location nd = nd_endpoint nd @ '':'' @ string_of_nat (nd_port nd)"

text \<open>A state in which the discovery runs.\<close>

definition cluster_ok :: "'e hiredis \<Rightarrow> db_ptr \<Rightarrow> 'e world \<Rightarrow> bool" where
  "cluster_ok h d w \<longleftrightarrow> dir_ok h d w \<and> cluster_enabled (dbs w d)"

lemma cluster_add_host:
  assumes ok: "cluster_ok h d w" and host: "is_host (parse_location location)"
  obtains s w' where "unsafe_add_redis_server h d location role w = Some (Some s, w')" "cluster_ok h d w'"
    "registered w' d = insert s (registered w d)" "sv_raw (srvs w' s) = location"
    "\<And>x. x \<in> registered w d \<Longrightarrow> sv_raw (srvs w' x) = sv_raw (srvs w x) \<and> sv_slots (srvs w' x) = sv_slots (srvs w x)"
    "s \<in> registered w d \<Longrightarrow> sv_raw (srvs w s) = location"
    "s \<notin> registered w d \<Longrightarrow> sv_slots (srvs w' s) = (\<lambda>i. False)" "same_frame w w'"
    "discoveries (db_stats (dbs w' d)) = discoveries (db_stats (dbs w d))"
proof -
  have dir: "dir_ok h d w" and c: "cluster_enabled (dbs w d)" using ok by (simp_all add: cluster_ok_def)
  have h: "connects h" and reg: "reg_ok d w" and l: "locks_held d w" and ru: "rules_ok w"
    using dir by (simp_all add: dir_ok_def)
  show thesis
  proof (cases "\<exists>s \<in> registered w d. sv_raw (srvs w s) = location")
    case True
    then obtain s where s: "s \<in> registered w d" "sv_raw (srvs w s) = location" by blast
    show thesis
    proof (rule add_existing [OF reg h l s, of role], goal_cases)
      case (1 w')
      have "cluster_ok h d w'"
        using 1 dir c by (simp add: cluster_ok_def dir_ok_def locks_held_def rules_ok_def)
      then show ?case
        using that [of s w'] 1 s add_conf [OF 1(1)] by (simp add: insert_absorb same_frame_def)
    qed
  next
    case False
    then have new: "\<forall>s \<in> registered w d. sv_raw (srvs w s) \<noteq> location" by blast
    show thesis
    proof (rule add_new [OF reg h l ru new host, of role], goal_cases)
      case (1 r w')
      have "cluster_ok h d w'"
        using 1 dir c by (simp add: cluster_ok_def dir_ok_def locks_held_def rules_ok_def)
      moreover have n: "next_srv w \<notin> registered w d" by (rule reg_ok_alloc(3) [OF reg])
      moreover have "sv_raw (srvs w' x) = sv_raw (srvs w x) \<and> sv_slots (srvs w' x) = sv_slots (srvs w x)"
        if "x \<in> registered w d" for x
        using srv_core_fields [OF 1(6) [of x]] that n by auto
      moreover have "sv_raw (srvs w' (next_srv w)) = location" "sv_slots (srvs w' (next_srv w)) = (\<lambda>i. False)"
        using srv_core_fields [OF 1(4)] by (simp_all add: server_of_def)
      ultimately show ?case
        using that [of "next_srv w" w'] 1 add_conf [OF 1(1)] by (simp add: discoveries_def same_frame_def)
    qed
  qed
qed

lemma node_host: "nd_port nd < 65536 \<Longrightarrow> is_host (parse_location (node_location nd))"
  by (simp add: node_location_def parse_location_host)

text \<open>An update of a server that leaves alone what the registry looks at.\<close>

definition srv_frame :: "(redis_server \<Rightarrow> redis_server) \<Rightarrow> bool" where
  "srv_frame f \<longleftrightarrow>
     (\<forall>sv. sv_db (f sv) = sv_db sv \<and> sv_raw (f sv) = sv_raw sv \<and> sv_loc (f sv) = sv_loc sv \<and>
           sv_role (f sv) = sv_role sv \<and> sv_weight (f sv) = sv_weight sv)"

lemma cluster_ok_srv:
  assumes "srv_frame f"
  shows "cluster_ok h d (upd_srv s f w) \<longleftrightarrow> cluster_ok h d w" "registered (upd_srv s f w) d = registered w d"
    "sv_raw (srvs (upd_srv s f w) x) = sv_raw (srvs w x)" "dbs (upd_srv s f w) = dbs w"
proof -
  have f: "sv_db (srvs (upd_srv s f w) x) = sv_db (srvs w x)" "sv_raw (srvs (upd_srv s f w) x) = sv_raw (srvs w x)"
    "sv_loc (srvs (upd_srv s f w) x) = sv_loc (srvs w x)" "sv_role (srvs (upd_srv s f w) x) = sv_role (srvs w x)"
    "sv_weight (srvs (upd_srv s f w) x) = sv_weight (srvs w x)" for x
    using assms by (simp_all add: upd_srv_def srv_frame_def)
  have d: "dbs (upd_srv s f w) = dbs w" "next_srv (upd_srv s f w) = next_srv w" "held (upd_srv s f w) = held w"
    "config (upd_srv s f w) = config w"
    by (simp_all add: upd_srv_def)
  show "cluster_ok h d (upd_srv s f w) \<longleftrightarrow> cluster_ok h d w" "registered (upd_srv s f w) d = registered w d"
    "sv_raw (srvs (upd_srv s f w) x) = sv_raw (srvs w x)" "dbs (upd_srv s f w) = dbs w"
    by (simp_all add: cluster_ok_def dir_ok_def reg_ok_def filed_ok_def registered_def locks_held_def rules_ok_def f d)
qed

lemma cluster_ok_net [simp]: "cluster_ok h d (w\<lparr>net := e\<rparr>) \<longleftrightarrow> cluster_ok h d w"
  by (simp add: cluster_ok_def dir_ok_def locks_held_def rules_ok_def reg_ok_def filed_ok_def registered_def)

lemma unsafe_add_node_spec:
  assumes ok: "cluster_ok h d w" and port: "nd_port nd < 65536" and len: "length (node_location nd) < 256"
  obtains s w' where "unsafe_add_node h d nd w = Some (Some s, w')" "cluster_ok h d w'"
    "registered w' d = insert s (registered w d)" "sv_raw (srvs w' s) = node_location nd"
    "\<And>x. x \<in> registered w d \<Longrightarrow> sv_raw (srvs w' x) = sv_raw (srvs w x) \<and> sv_slots (srvs w' x) = sv_slots (srvs w x)"
    "s \<in> registered w d \<Longrightarrow> sv_raw (srvs w s) = node_location nd"
    "s \<notin> registered w d \<Longrightarrow> sv_slots (srvs w' s) = (\<lambda>i. False)" "same_frame w w'"
    "discoveries (db_stats (dbs w' d)) = discoveries (db_stats (dbs w d))"
proof -
  show thesis
  proof (rule cluster_add_host [OF ok node_host [OF port], of "nd_role nd"], goal_cases)
    case (1 s w')
    have held: "Lck_AssertHeld Config_Mutex w = Some ()" "Lck_AssertHeld (Db_Mutex d) w = Some ()"
      using ok by (simp_all add: Lck_AssertHeld_def cluster_ok_def dir_ok_def locks_held_def)
    have op: "unsafe_add_node h d nd w = Some (if \<not> nd_healthy nd \<and> sickness_ttl (dbs w' d) > 0
        then (let (now, w) = net_call (h_time h) w'
              in (Some s, upd_srv s (\<lambda>sv. sv\<lparr>sick_tst := now, sick_exp := now + sickness_ttl (dbs w d)\<rparr>) w))
        else (Some s, w'))"
      using 1(1) [unfolded node_location_def] len [unfolded node_location_def] held
      by (simp add: unsafe_add_node_def)
    show ?case
    proof (cases "\<not> nd_healthy nd \<and> sickness_ttl (dbs w' d) > 0")
      case False
      have "unsafe_add_node h d nd w = Some (Some s, w')" unfolding op if_not_P [OF False] ..
      then show ?thesis by (rule that) (use 1 in auto)
    next
      case True
      obtain now e where t: "h_time h (net w') = (now, e)" by fastforce
      let ?f = "\<lambda>sv. sv\<lparr>sick_tst := now, sick_exp := now + sickness_ttl (dbs w' d)\<rparr>"
      let ?w = "upd_srv s ?f (w'\<lparr>net := e\<rparr>)"
      have "srv_frame ?f" by (simp add: srv_frame_def)
      note u = cluster_ok_srv [OF this]
      have slots: "sv_slots (srvs ?w x) = sv_slots (srvs w' x)" for x by (simp add: upd_srv_def)
      have reg: "registered (w'\<lparr>net := e\<rparr>) d = registered w' d" by (simp add: registered_def)
      have dbs: "dbs ?w = dbs w'" "held ?w = held w'" "config ?w = config w'" by (simp_all add: upd_srv_def)
      have "unsafe_add_node h d nd w = Some (Some s, ?w)"
        unfolding op if_P [OF True] by (simp add: net_call_def t)
      then show ?thesis
        by (rule that) (use 1 in \<open>simp_all add: u slots reg dbs same_frame_eq [OF dbs]\<close>)
    qed
  qed
qed

lemma unsafe_add_node_long:
  assumes "cluster_ok h d w" and "\<not> length (node_location nd) < 256"
  shows "unsafe_add_node h d nd w = Some (None, w)"
  using assms by (simp add: unsafe_add_node_def node_location_def Lck_AssertHeld_def cluster_ok_def dir_ok_def locks_held_def)

lemma parse_node_port:
  assumes "parse_node reply db loc = Some nd"
  shows "nd_port nd < 65536"
proof -
  have port: "port_of r p < 65536" if "p < 65536" for r p
    using that by (cases "(r, p)" rule: port_of.cases) auto
  have step: "na_port (node_field p n) < 65536 \<and> na_tls_port (node_field p n) < 65536"
    if "na_port n < 65536 \<and> na_tls_port n < 65536" for p n
    using that port by (cases "(p, n)" rule: node_field.cases) (auto split: redisReply.splits)
  have "na_port (fold node_field ps n) < 65536 \<and> na_tls_port (fold node_field ps n) < 65536"
    if "na_port n < 65536 \<and> na_tls_port n < 65536" for ps n
    using that by (induction ps arbitrary: n) (simp_all add: step)
  then show ?thesis
    using assms by (auto simp: parse_node_def Let_def split: if_splits)
qed

section \<open>Slots\<close>

text \<open>The reset touches the slots of every registered server, and nothing else.\<close>

definition no_slots :: "redis_server \<Rightarrow> redis_server" where
  "no_slots sv = sv\<lparr>sv_slots := (\<lambda>i. False)\<rparr>"

lemma reset_list:
  "srvs (fold (\<lambda>s. upd_srv s no_slots) ss w) x = (if x \<in> set ss then no_slots (srvs w x) else srvs w x)"
  by (induction ss arbitrary: w) (auto simp: upd_srv_def no_slots_def)

lemma fold_upd_frame:
  assumes "srv_frame f"
  shows "cluster_ok h d (fold (\<lambda>s. upd_srv s f) ss w) \<longleftrightarrow> cluster_ok h d w"
    "registered (fold (\<lambda>s. upd_srv s f) ss w) d = registered w d"
    "sv_raw (srvs (fold (\<lambda>s. upd_srv s f) ss w) x) = sv_raw (srvs w x)"
    "dbs (fold (\<lambda>s. upd_srv s f) ss w) = dbs w" "held (fold (\<lambda>s. upd_srv s f) ss w) = held w"
    "config (fold (\<lambda>s. upd_srv s f) ss w) = config w"
  by (induction ss arbitrary: w) (simp_all add: cluster_ok_srv [OF assms] upd_srv_fields(6,8))

lemma reset_cells:
  fixes l :: "nat \<times> role \<Rightarrow> server_ptr list"
  shows "srvs (fold (\<lambda>c. fold (\<lambda>s. upd_srv s no_slots) (l c)) cs w) x =
      (if \<exists>c \<in> set cs. x \<in> set (l c) then no_slots (srvs w x) else srvs w x)"
    "cluster_ok h d (fold (\<lambda>c. fold (\<lambda>s. upd_srv s no_slots) (l c)) cs w) \<longleftrightarrow> cluster_ok h d w"
    "registered (fold (\<lambda>c. fold (\<lambda>s. upd_srv s no_slots) (l c)) cs w) d = registered w d"
    "dbs (fold (\<lambda>c. fold (\<lambda>s. upd_srv s no_slots) (l c)) cs w) = dbs w"
    "held (fold (\<lambda>c. fold (\<lambda>s. upd_srv s no_slots) (l c)) cs w) = held w"
    "config (fold (\<lambda>c. fold (\<lambda>s. upd_srv s no_slots) (l c)) cs w) = config w"
proof -
  have frame: "srv_frame no_slots" by (simp add: srv_frame_def no_slots_def)
  show "srvs (fold (\<lambda>c. fold (\<lambda>s. upd_srv s no_slots) (l c)) cs w) x =
      (if \<exists>c \<in> set cs. x \<in> set (l c) then no_slots (srvs w x) else srvs w x)"
    by (induction cs arbitrary: w) (auto simp: reset_list no_slots_def)
  show "cluster_ok h d (fold (\<lambda>c. fold (\<lambda>s. upd_srv s no_slots) (l c)) cs w) \<longleftrightarrow> cluster_ok h d w"
    "registered (fold (\<lambda>c. fold (\<lambda>s. upd_srv s no_slots) (l c)) cs w) d = registered w d"
    "dbs (fold (\<lambda>c. fold (\<lambda>s. upd_srv s no_slots) (l c)) cs w) = dbs w"
    "held (fold (\<lambda>c. fold (\<lambda>s. upd_srv s no_slots) (l c)) cs w) = held w"
    "config (fold (\<lambda>c. fold (\<lambda>s. upd_srv s no_slots) (l c)) cs w) = config w"
    by (induction cs arbitrary: w) (simp_all add: fold_upd_frame [OF frame])
qed

lemma unsafe_reset_slots_spec:
  assumes "cluster_ok h d w"
  obtains w' where "unsafe_reset_slots d w = Some w'" "cluster_ok h d w'" "registered w' d = registered w d"
    "\<And>s. sv_raw (srvs w' s) = sv_raw (srvs w s)" "dbs w' = dbs w" "held w' = held w" "config w' = config w"
    "\<And>s. s \<in> registered w d \<Longrightarrow> sv_slots (srvs w' s) = (\<lambda>i. False)"
proof -
  let ?l = "\<lambda>(iweight, irole). servers (dbs w d) iweight irole"
  let ?w = "fold (\<lambda>c. fold (\<lambda>s. upd_srv s no_slots) (?l c)) cells w"
  have ns: "no_slots = (\<lambda>sv. sv\<lparr>sv_slots := (\<lambda>i. False)\<rparr>)" by (simp add: no_slots_def fun_eq_iff)
  have "(\<lambda>c. fold (\<lambda>s. upd_srv s no_slots) (?l c)) =
      (\<lambda>(iweight, irole). fold (\<lambda>s. upd_srv s no_slots) (servers (dbs w d) iweight irole))"
    by (simp add: fun_eq_iff split: prod.splits)
  note e = this
  have "unsafe_reset_slots d w =
      Some (fold (\<lambda>(iweight, irole). fold (\<lambda>s. upd_srv s no_slots) (servers (dbs w d) iweight irole)) cells w)"
    using assms unfolding unsafe_reset_slots_def ns
    by (simp add: Lck_AssertHeld_def cluster_ok_def dir_ok_def locks_held_def)
  then have "unsafe_reset_slots d w = Some ?w" unfolding e .
  moreover have "\<exists>c \<in> set cells. s \<in> set (?l c)" if s: "s \<in> registered w d" for s
  proof -
    obtain wt r where m: "s \<in> set (servers (dbs w d) wt r)" using s by (auto simp: registered_def)
    have "wt < NREDIS_SERVER_WEIGHTS"
      using assms reg_ok_filed m by (fastforce simp: cluster_ok_def dir_ok_def filed_ok_def)
    then show ?thesis using m by (intro bexI [of _ "(wt, r)"]) (simp_all add: set_cells)
  qed
  ultimately show thesis
    using that [of ?w] assms reset_cells [where l = ?l and w = w and cs = cells]
    by (auto simp: no_slots_def)
qed

definition covers :: "(nat \<times> nat) list \<Rightarrow> nat \<Rightarrow> bool" where
  "covers rs i \<longleftrightarrow> (\<exists>(a, b) \<in> set rs. a \<le> i \<and> i \<le> b)"

lemma register_ranges:
  "sv_slots (srvs (fold (register_range s) rs w) x) =
     (if x = s then (\<lambda>i. covers rs i \<or> sv_slots (srvs w s) i) else sv_slots (srvs w x))"
  "cluster_ok h d (fold (register_range s) rs w) \<longleftrightarrow> cluster_ok h d w"
  "registered (fold (register_range s) rs w) d = registered w d"
  "sv_raw (srvs (fold (register_range s) rs w) x) = sv_raw (srvs w x)"
  "dbs (fold (register_range s) rs w) = dbs w" "held (fold (register_range s) rs w) = held w"
  "config (fold (register_range s) rs w) = config w"
proof -
  have step: "cluster_ok h d (register_range s r w) \<longleftrightarrow> cluster_ok h d w"
    "registered (register_range s r w) d = registered w d"
    "sv_raw (srvs (register_range s r w) x) = sv_raw (srvs w x)" "dbs (register_range s r w) = dbs w"
    "held (register_range s r w) = held w" "config (register_range s r w) = config w"
    for r and w :: "'a world" and x
    by (cases r; simp add: register_range_def cluster_ok_srv srv_frame_def frame_simps)+
  show "sv_slots (srvs (fold (register_range s) rs w) x) =
     (if x = s then (\<lambda>i. covers rs i \<or> sv_slots (srvs w s) i) else sv_slots (srvs w x))"
  proof (induction rs arbitrary: w)
    case Nil
    then show ?case by (simp add: covers_def)
  next
    case (Cons r rs)
    then show ?case by (cases r) (auto simp: covers_def register_range_def upd_srv_def)
  qed
  show "cluster_ok h d (fold (register_range s) rs w) \<longleftrightarrow> cluster_ok h d w"
    "registered (fold (register_range s) rs w) d = registered w d"
    "sv_raw (srvs (fold (register_range s) rs w) x) = sv_raw (srvs w x)"
    "dbs (fold (register_range s) rs w) = dbs w" "held (fold (register_range s) rs w) = held w"
    "config (fold (register_range s) rs w) = config w"
    by (induction rs arbitrary: w) (simp_all add: step)
qed

section \<open>The topology of a reply\<close>

definition shard_entries :: "vmod_redis_db \<Rightarrow> location \<Rightarrow> redisReply \<Rightarrow> (string \<times> (nat \<times> nat) list) list" where
  "shard_entries db loc shard =
     (case parse_shard shard of
        None \<Rightarrow> []
      | Some (ranges, nodes) \<Rightarrow>
          map (\<lambda>nd. (node_location nd, ranges))
            (filter (\<lambda>nd. length (node_location nd) < 256) (List.map_filter (\<lambda>n. parse_node n db loc) nodes)))"

definition topology :: "vmod_redis_db \<Rightarrow> location \<Rightarrow> redisReply list \<Rightarrow> (string \<times> (nat \<times> nat) list) list" where
  "topology db loc shards = concat (map (shard_entries db loc) shards)"

text \<open>The server at \<open>loc\<close> has slot \<open>i\<close> in the topology \<open>P\<close>.\<close>

definition owned :: "(string \<times> (nat \<times> nat) list) list \<Rightarrow> string \<Rightarrow> nat \<Rightarrow> bool" where
  "owned P loc i \<longleftrightarrow> (\<exists>rs. (loc, rs) \<in> set P \<and> covers rs i)"

text \<open>The state of the loops after the entries \<open>P\<close> of the topology, from the state \<open>w0\<close>.\<close>

definition topo_inv ::
  "'e hiredis \<Rightarrow> db_ptr \<Rightarrow> 'e world \<Rightarrow> (string \<times> (nat \<times> nat) list) list \<Rightarrow> bool \<times> nat \<times> 'e world \<Rightarrow> bool" where
  "topo_inv h d w0 P = (\<lambda>(reset, slot_ranges, w).
     cluster_ok h d w \<and> same_frame w0 w \<and>
     discoveries (db_stats (dbs w d)) = discoveries (db_stats (dbs w0 d)) \<and>
     registered w0 d \<subseteq> registered w d \<and> (\<forall>s \<in> registered w0 d. sv_raw (srvs w s) = sv_raw (srvs w0 s)) \<and>
     slot_ranges = sum_list (map (\<lambda>(l, rs). length rs) P) \<and> (reset \<longleftrightarrow> slot_ranges > 0) \<and>
     (\<forall>(l, rs) \<in> set P. \<exists>s \<in> registered w d. sv_raw (srvs w s) = l) \<and>
     (if reset then \<forall>s \<in> registered w d. sv_slots (srvs w s) = owned P (sv_raw (srvs w s))
      else (\<forall>s \<in> registered w0 d. sv_slots (srvs w s) = sv_slots (srvs w0 s)) \<and>
        (\<forall>s \<in> registered w d - registered w0 d. sv_slots (srvs w s) = (\<lambda>i. False))))"

lemma owned_snoc: "owned (P @ [(l, rs)]) loc i \<longleftrightarrow> owned P loc i \<or> (loc = l \<and> covers rs i)"
  by (auto simp: owned_def)

lemma owned_none: "sum_list (map (\<lambda>(l, rs). length rs) P) = 0 \<Longrightarrow> \<not> owned P loc i"
  by (force simp: owned_def covers_def)

lemma covers_Nil [simp]: "\<not> covers [] i"
  by (simp add: covers_def)

lemma topo_step:
  assumes inv: "topo_inv h d w0 P (reset, n, w)" and port: "nd_port nd < 65536"
    and len: "length (node_location nd) < 256"
  obtains s w1 w2 where "unsafe_add_node h d nd w = Some (Some s, w1)"
    "(if rs \<noteq> [] \<and> \<not> reset then unsafe_reset_slots d w1 else Some w1) = Some w2"
    "topo_inv h d w0 (P @ [(node_location nd, rs)]) (reset \<or> rs \<noteq> [], n + length rs, fold (register_range s) rs w2)"
proof -
  let ?l = "node_location nd"
  note i = inv [unfolded topo_inv_def prod.case]
  have ok: "cluster_ok h d w" using i by blast
  obtain s w1 where w1: "unsafe_add_node h d nd w = Some (Some s, w1)" and ok1: "cluster_ok h d w1"
    and reg1: "registered w1 d = insert s (registered w d)" and raw1: "sv_raw (srvs w1 s) = ?l"
    and keep: "\<And>x. x \<in> registered w d \<Longrightarrow> sv_raw (srvs w1 x) = sv_raw (srvs w x) \<and> sv_slots (srvs w1 x) = sv_slots (srvs w x)"
    and old: "s \<in> registered w d \<Longrightarrow> sv_raw (srvs w s) = ?l"
    and new: "s \<notin> registered w d \<Longrightarrow> sv_slots (srvs w1 s) = (\<lambda>i. False)"
    and conf1: "same_frame w w1" and disc1: "discoveries (db_stats (dbs w1 d)) = discoveries (db_stats (dbs w d))"
  proof (rule unsafe_add_node_spec [OF ok port len], goal_cases)
    case (1 s w1)
    show ?case by (rule that [of s w1]) (use 1 in simp_all)
  qed
  obtain w2 where w2: "(if rs \<noteq> [] \<and> \<not> reset then unsafe_reset_slots d w1 else Some w1) = Some w2"
    and ok2: "cluster_ok h d w2" and reg2: "registered w2 d = registered w1 d"
    and dbs2: "dbs w2 = dbs w1" "held w2 = held w1" "config w2 = config w1"
    and raw2: "\<And>x. sv_raw (srvs w2 x) = sv_raw (srvs w1 x)"
    and slots2: "\<And>x. x \<in> registered w1 d \<Longrightarrow>
      sv_slots (srvs w2 x) = (if rs \<noteq> [] \<and> \<not> reset then (\<lambda>i. False) else sv_slots (srvs w1 x))"
  proof (cases "rs \<noteq> [] \<and> \<not> reset")
    case True
    then show ?thesis using unsafe_reset_slots_spec [OF ok1] that by (metis (full_types))
  next
    case False
    then show ?thesis using that [of w1] ok1 by auto
  qed
  let ?w = "fold (register_range s) rs w2"
  note r = register_ranges [where s = s and rs = rs and w = w2]
  have raw: "sv_raw (srvs ?w x) = sv_raw (srvs w1 x)" for x by (simp add: r(4) raw2)
  have reg: "registered ?w d = insert s (registered w d)" by (simp add: r(3) reg2 reg1)
  have slots: "sv_slots (srvs ?w x) = (if x = s then (\<lambda>i. covers rs i \<or> sv_slots (srvs w2 s) i) else sv_slots (srvs w2 x))" for x
    by (rule r(1))
  have dbs: "dbs ?w = dbs w1" "held ?w = held w1" "config ?w = config w1" by (simp_all add: r(5-7) dbs2)
  have uniq: "x = s" if "x \<in> registered w1 d" "sv_raw (srvs w1 x) = ?l" for x
    using reg_ok_inj [of d w1 x s] ok1 that raw1 reg1 by (simp add: cluster_ok_def dir_ok_def)
  have conf: "same_frame w0 ?w" using i same_frame_trans [OF _ conf1] by (simp add: same_frame_eq [OF dbs])
  have sub: "registered w0 d \<subseteq> registered w d" using i by blast
  have n: "n = sum_list (map (\<lambda>(l, rs). length rs) P)" "reset \<longleftrightarrow> n > 0" using i by blast+
  have names: "\<exists>x \<in> registered ?w d. sv_raw (srvs ?w x) = l" if m: "(l, q) \<in> set (P @ [(?l, rs)])" for l q
  proof (cases "(l, q) \<in> set P")
    case True
    then obtain x where "x \<in> registered w d" "sv_raw (srvs w x) = l" using i by blast
    then show ?thesis using keep reg raw by (intro bexI [of _ x]) auto
  next
    case False
    then show ?thesis using m raw1 reg raw by (intro bexI [of _ s]) auto
  qed
  have final: "if reset \<or> rs \<noteq> []
      then \<forall>x \<in> registered ?w d. sv_slots (srvs ?w x) = owned (P @ [(?l, rs)]) (sv_raw (srvs ?w x))
      else (\<forall>x \<in> registered w0 d. sv_slots (srvs ?w x) = sv_slots (srvs w0 x)) \<and>
        (\<forall>x \<in> registered ?w d - registered w0 d. sv_slots (srvs ?w x) = (\<lambda>i. False))"
  proof (cases "reset \<or> rs \<noteq> []")
    case False
    then have rs: "rs = []" and nr: "\<not> reset" by simp_all
    have s1: "sv_slots (srvs ?w x) = sv_slots (srvs w1 x)" if "x \<in> registered w1 d" for x
      using slots2 [OF that] rs slots [of x] by (auto simp: fun_eq_iff)
    have "sv_slots (srvs ?w x) = sv_slots (srvs w0 x)" if "x \<in> registered w0 d" for x
      using i nr s1 [of x] keep [of x] sub that reg1 by auto
    moreover have "sv_slots (srvs ?w x) = (\<lambda>i. False)" if x: "x \<in> registered ?w d - registered w0 d" for x
    proof (cases "x \<in> registered w d")
      case True
      then show ?thesis using i nr s1 [of x] keep [of x] x reg1 by auto
    next
      case False
      then show ?thesis using new s1 [of x] x reg reg1 by auto
    qed
    ultimately show ?thesis using False by simp
  next
    case True
    have "sv_slots (srvs ?w x) = owned (P @ [(?l, rs)]) (sv_raw (srvs ?w x))" if x: "x \<in> registered ?w d" for x
    proof -
      have x1: "x \<in> registered w1 d" using x reg reg1 by simp
      have before: "sv_slots (srvs w2 x) = owned P (sv_raw (srvs w1 x))"
      proof (cases reset)
        case False
        then have "owned P l = (\<lambda>i. False)" for l using owned_none [of P l] n by (simp add: fun_eq_iff)
        then show ?thesis using slots2 [OF x1] True False by simp
      next
        case rt: True
        show ?thesis
        proof (cases "x \<in> registered w d")
          case True
          then show ?thesis using i rt slots2 [OF x1] keep [OF True] by simp
        next
          case False
          then have xs: "x = s" using x reg by simp
          have "\<not> owned P ?l j" for j
          proof
            assume "owned P ?l j"
            then obtain q where "(?l, q) \<in> set P" by (auto simp: owned_def)
            then obtain y where y: "y \<in> registered w d" "sv_raw (srvs w y) = ?l" using i by blast
            have "y = s" using uniq [of y] y keep [OF y(1)] reg1 by simp
            then show False using False xs y(1) by simp
          qed
          then have "owned P ?l = (\<lambda>i. False)" by (simp add: fun_eq_iff)
          then show ?thesis using rt slots2 [OF x1] new False xs raw1 by simp
        qed
      qed
      show ?thesis
      proof (rule ext)
        fix j
        show "sv_slots (srvs ?w x) j = owned (P @ [(?l, rs)]) (sv_raw (srvs ?w x)) j"
        proof (cases "x = s")
          case True
          then have "sv_slots (srvs ?w x) j \<longleftrightarrow> covers rs j \<or> owned P ?l j"
            using slots [of x] before raw1 by simp
          moreover have "sv_raw (srvs ?w x) = ?l" using raw raw1 True by simp
          ultimately show ?thesis by (simp only: owned_snoc) blast
        next
          case False
          then have "sv_slots (srvs ?w x) j \<longleftrightarrow> owned P (sv_raw (srvs w1 x)) j"
            using slots [of x] before by simp
          moreover have "sv_raw (srvs w1 x) \<noteq> ?l" using uniq [OF x1] False by blast
          ultimately show ?thesis by (simp only: owned_snoc raw) blast
        qed
      qed
    qed
    then show ?thesis using True by simp
  qed
  have "cluster_ok h d ?w" using ok2 by (simp add: r(2))
  moreover have "discoveries (db_stats (dbs ?w d)) = discoveries (db_stats (dbs w0 d))"
    using i disc1 by (simp add: dbs)
  moreover have "registered w0 d \<subseteq> registered ?w d" using sub by (auto simp: reg)
  moreover have "\<forall>x \<in> registered w0 d. sv_raw (srvs ?w x) = sv_raw (srvs w0 x)"
    using i keep sub by (auto simp: raw)
  moreover have "n + length rs = sum_list (map (\<lambda>(l, rs). length rs) (P @ [(?l, rs)]))"
    by (simp add: n(1))
  moreover have "reset \<or> rs \<noteq> [] \<longleftrightarrow> n + length rs > 0"
    by (simp add: n(2))
  moreover have "\<forall>(l, rs) \<in> set (P @ [(?l, rs)]). \<exists>x \<in> registered ?w d. sv_raw (srvs ?w x) = l"
    using names by blast
  ultimately have "topo_inv h d w0 (P @ [(?l, rs)]) (reset \<or> rs \<noteq> [], n + length rs, ?w)"
    unfolding topo_inv_def prod.case using conf final by simp
  then show thesis using that w1 w2 by blast
qed

end
