(* ===== verification/Cluster_Rediscovery.thy ===== *)
theory Cluster_Rediscovery
  imports Cluster_Topology
begin

text \<open>
  A discovery from its first request to its counters: what it leaves in the registry is the topology
  of the reply, and nothing if there is none. The walk over the servers of a database, when the
  servers do not answer and when they do.
\<close>

section \<open>The loops over shards and nodes\<close>

lemma parse_node_conf:
  assumes "same_conf w w'"
  shows "parse_node n (dbs w' d) loc = parse_node n (dbs w d) loc"
  by (simp add: parse_node_def same_conf_fields [OF assms])

definition node_entries :: "vmod_redis_db \<Rightarrow> location \<Rightarrow> (nat \<times> nat) list \<Rightarrow> redisReply list \<Rightarrow> (string \<times> (nat \<times> nat) list) list" where
  "node_entries db loc ranges nodes =
     map (\<lambda>nd. (node_location nd, ranges))
       (filter (\<lambda>nd. length (node_location nd) < 256) (List.map_filter (\<lambda>n. parse_node n db loc) nodes))"

lemma node_entries_simps [simp]:
  "node_entries db loc ranges [] = []"
  "parse_node n db loc = None \<Longrightarrow> node_entries db loc ranges (n # ns) = node_entries db loc ranges ns"
  "parse_node n db loc = Some nd \<Longrightarrow> node_entries db loc ranges (n # ns) =
     (if length (node_location nd) < 256 then [(node_location nd, ranges)] else []) @ node_entries db loc ranges ns"
  by (simp_all add: node_entries_def List.map_filter_def)

lemma shard_entries_alt:
  "shard_entries db loc shard =
     (case parse_shard shard of None \<Rightarrow> [] | Some (ranges, nodes) \<Rightarrow> node_entries db loc ranges nodes)"
  by (simp add: shard_entries_def node_entries_def split: option.splits prod.splits)

lemma topo_inv_conf: "topo_inv h d w0 P (reset, n, w) \<Longrightarrow> same_conf w0 w \<and> cluster_ok h d w"
  by (simp add: topo_inv_def same_frame_def)

lemma register_nodes_topo:
  assumes "topo_inv h d w0 P st"
  shows "\<exists>st'. register_nodes h d loc ranges ns st = Some st' \<and>
    topo_inv h d w0 (P @ node_entries (dbs w0 d) loc ranges ns) st'"
  using assms
proof (induction ns arbitrary: P st)
  case Nil
  then show ?case by (cases st) simp
next
  case (Cons m ns)
  obtain reset n w where st: "st = (reset, n, w)" by (cases st)
  note inv = Cons.prems [unfolded st]
  have pn: "parse_node m (dbs w d) loc = parse_node m (dbs w0 d) loc"
    using topo_inv_conf [OF inv] by (simp add: parse_node_conf)
  show ?case
  proof (cases "parse_node m (dbs w0 d) loc")
    case None
    then show ?thesis using Cons.IH [OF inv] by (simp add: st pn)
  next
    case (Some nd)
    show ?thesis
    proof (cases "length (node_location nd) < 256")
      case False
      have "unsafe_add_node h d nd w = Some (None, w)"
        using unsafe_add_node_long [OF _ False] topo_inv_conf [OF inv] by blast
      then show ?thesis using Cons.IH [OF inv] by (simp add: st Some pn False)
    next
      case True
      show ?thesis
      proof (rule topo_step [OF inv parse_node_port [OF Some] True, of ranges], goal_cases)
        case (1 s w1 w2)
        then show ?case using Cons.IH [OF 1(3)] by (simp add: st Some pn True)
      qed
    qed
  qed
qed

lemma register_shards_topo:
  assumes "topo_inv h d w0 P st"
  shows "\<exists>st'. register_shards h d loc shards st = Some st' \<and>
    topo_inv h d w0 (P @ topology (dbs w0 d) loc shards) st'"
  using assms
proof (induction shards arbitrary: P st)
  case Nil
  then show ?case by (simp add: topology_def)
next
  case (Cons shard shards)
  show ?case
  proof (cases "parse_shard shard")
    case None
    then show ?thesis using Cons.IH [OF Cons.prems] by (simp add: topology_def shard_entries_alt)
  next
    case (Some rn)
    obtain ranges nodes where rn: "rn = (ranges, nodes)" by (cases rn)
    obtain st' where "register_nodes h d loc ranges nodes st = Some st'"
      and "topo_inv h d w0 (P @ node_entries (dbs w0 d) loc ranges nodes) st'"
      using register_nodes_topo [OF Cons.prems] by blast
    then show ?thesis using Cons.IH [of _ st'] by (fastforce simp: topology_def shard_entries_alt Some rn)
  qed
qed

lemma topo_inv_start: "cluster_ok h d w \<Longrightarrow> topo_inv h d w [] (False, 0, w)"
  by (simp add: topo_inv_def)

section \<open>One discovery\<close>

text \<open>The topology of the reply to a discovery; anything but an array has none.\<close>

fun reply_topology :: "vmod_redis_db \<Rightarrow> location \<Rightarrow> redisReply option \<Rightarrow> (string \<times> (nat \<times> nat) list) list" where
  "reply_topology db loc (Some (Reply_Array shards)) = topology db loc shards"
| "reply_topology db loc r = []"

definition has_slots :: "(string \<times> (nat \<times> nat) list) list \<Rightarrow> bool" where
  "has_slots P \<longleftrightarrow> (\<exists>(l, rs) \<in> set P. rs \<noteq> [])"

lemma has_slots_sum: "has_slots P \<longleftrightarrow> 0 < sum_list (map (\<lambda>(l, rs). length rs) P)"
proof -
  have "sum_list (map (\<lambda>(l, rs). length rs) P) = 0 \<longleftrightarrow> (\<forall>(l, rs) \<in> set P. rs = [])"
    by (induction P) auto
  then show ?thesis by (fastforce simp: has_slots_def simp flip: neq0_conv)
qed

text \<open>The state after a discovery with the topology \<open>P\<close>, from the state \<open>w0\<close>.\<close>

definition discovered ::
  "'e hiredis \<Rightarrow> db_ptr \<Rightarrow> 'e world \<Rightarrow> (string \<times> (nat \<times> nat) list) list \<Rightarrow> 'e world \<Rightarrow> bool" where
  "discovered h d w0 P w \<longleftrightarrow>
     cluster_ok h d w \<and> same_frame w0 w \<and>
     registered w0 d \<subseteq> registered w d \<and> (\<forall>s \<in> registered w0 d. sv_raw (srvs w s) = sv_raw (srvs w0 s)) \<and>
     (\<forall>(l, rs) \<in> set P. \<exists>s \<in> registered w d. sv_raw (srvs w s) = l) \<and>
     (if has_slots P then \<forall>s \<in> registered w d. sv_slots (srvs w s) = owned P (sv_raw (srvs w s))
      else (\<forall>s \<in> registered w0 d. sv_slots (srvs w s) = sv_slots (srvs w0 s)) \<and>
        (\<forall>s \<in> registered w d - registered w0 d. sv_slots (srvs w s) = (\<lambda>i. False)))"

lemma ask_topology_net:
  assumes "ask_topology h d s w = (r, w')"
  shows "only_net w w'"
  using assms
  by (auto simp: ask_topology_def net_call_def Let_def split: prod.splits option.splits if_splits
      dest: REDIS_BLESS_net)

lemma cluster_ok_stats [simp]: "cluster_ok h d (upd_stats d' k w) \<longleftrightarrow> cluster_ok h d w"
  by (simp add: cluster_ok_def dir_ok_def reg_ok_def filed_ok_def registered_def locks_held_def rules_ok_def
      upd_stats_def upd_db_def)

lemma registered_stats [simp]: "registered (upd_stats d' k w) d = registered w d"
  by (simp add: registered_def upd_stats_def upd_db_def)

lemma registered_net [simp]: "registered (w\<lparr>net := e\<rparr>) d = registered w d"
  by (simp add: registered_def)

lemma same_frame_simps [simp]:
  "same_frame (w\<lparr>net := e\<rparr>) w' \<longleftrightarrow> same_frame w w'" "same_frame w (w'\<lparr>net := e\<rparr>) \<longleftrightarrow> same_frame w w'"
  "same_frame w (upd_stats d k w') \<longleftrightarrow> same_frame w w'" "same_frame (upd_stats d k w) w' \<longleftrightarrow> same_frame w w'"
  by (auto simp: same_frame_def same_conf_def upd_stats_def upd_db_def)

lemma discovered_frame [simp]:
  "discovered h d w P (upd_stats d k w') \<longleftrightarrow> discovered h d w P w'"
  "discovered h d w P (w'\<lparr>net := e\<rparr>) \<longleftrightarrow> discovered h d w P w'"
  "discovered h d (w\<lparr>net := e\<rparr>) P w' \<longleftrightarrow> discovered h d w P w'"
proof -
  have "srvs (upd_stats d k w') = srvs w'" by (simp add: upd_stats_def upd_db_def)
  then show "discovered h d w P (upd_stats d k w') \<longleftrightarrow> discovered h d w P w'"
    by (simp add: discovered_def)
  show "discovered h d w P (w'\<lparr>net := e\<rparr>) \<longleftrightarrow> discovered h d w P w'"
    "discovered h d (w\<lparr>net := e\<rparr>) P w' \<longleftrightarrow> discovered h d w P w'"
    by (simp_all add: discovered_def)
qed

lemma discovered_nothing: "cluster_ok h d w \<Longrightarrow> discovered h d w [] w"
  by (simp add: discovered_def has_slots_def)

lemma topo_inv_discovered:
  assumes "topo_inv h d w0 P (reset, n, w)"
  shows "discovered h d w0 P w" "n > 0 \<longleftrightarrow> has_slots P"
    "discoveries (db_stats (dbs w d)) = discoveries (db_stats (dbs w0 d))"
proof -
  note i = assms [unfolded topo_inv_def prod.case]
  show n: "n > 0 \<longleftrightarrow> has_slots P" using i has_slots_sum [of P] by simp
  then have "reset \<longleftrightarrow> has_slots P" using i by simp
  then show "discovered h d w0 P w" unfolding discovered_def using i by simp
  show "discoveries (db_stats (dbs w d)) = discoveries (db_stats (dbs w0 d))" using i by blast
qed

definition count_pair :: "bool \<Rightarrow> uint64 \<times> uint64 \<Rightarrow> uint64 \<times> uint64" where
  "count_pair ok = (\<lambda>(t, f). if ok then (t + 1, f) else (t, f + 1))"

lemma count_discovery_pair:
  "discoveries (db_stats (dbs (count_discovery d ok w) d)) = count_pair ok (discoveries (db_stats (dbs w d)))"
  by (simp add: count_discovery_def count_pair_def discoveries_def upd_stats_def upd_db_def)

lemma registered_host:
  assumes "cluster_ok h d w" and "s \<in> registered w d"
  shows "is_host (sv_loc (srvs w s))"
proof -
  obtain wt r where "s \<in> set (servers (dbs w d) wt r)" using assms(2) by (auto simp: registered_def)
  then show ?thesis using assms(1) by (fastforce simp: cluster_ok_def dir_ok_def reg_ok_def filed_ok_def)
qed

lemma discover_aux_outcome:
  assumes ok: "cluster_ok h d w" and s: "s \<in> registered w d"
    and P: "P = reply_topology (dbs w d) (sv_loc (srvs w s)) (fst (fst (ask_topology h d s w)))"
  shows "\<exists>w'. unsafe_discover_slots_aux h d s w = Some (has_slots P, w') \<and> discovered h d w P w' \<and>
    discoveries (db_stats (dbs w' d)) = count_pair (has_slots P) (discoveries (db_stats (dbs w d)))"
proof -
  obtain reply rc w1 where ask: "ask_topology h d s w = ((reply, rc), w1)" by (metis prod.exhaust)
  obtain e where w1: "w1 = w\<lparr>net := e\<rparr>" using ask_topology_net [OF ask] by (auto simp: only_net_def)
  let ?free = "\<lambda>w. case rc of None \<Rightarrow> w | Some rc \<Rightarrow> net_do (h_free h rc) w"
  have free: "discovered h d w Q (?free v) \<longleftrightarrow> discovered h d w Q v" "dbs (?free v) = dbs v" for v Q
    by (simp_all add: net_do_def split: option.split)
  have ok1: "cluster_ok h d w1" using ok by (simp add: w1)
  have held: "Lck_AssertHeld Config_Mutex w = Some ()" "Lck_AssertHeld (Db_Mutex d) w = Some ()"
    using ok by (simp_all add: Lck_AssertHeld_def cluster_ok_def dir_ok_def locks_held_def)
  have host: "assert_that (is_host (sv_loc (srvs w s))) = Some ()"
    using registered_host [OF ok s] by (simp add: assert_that_def)
  show ?thesis
  proof (cases "\<exists>shards. reply = Some (Reply_Array shards)")
    case True
    then obtain shards where r: "reply = Some (Reply_Array shards)" by blast
    obtain reset n w2 where reg: "register_shards h d (sv_loc (srvs w s)) shards (False, 0, w1) = Some (reset, n, w2)"
      and inv: "topo_inv h d w1 ([] @ topology (dbs w1 d) (sv_loc (srvs w s)) shards) (reset, n, w2)"
      using register_shards_topo [OF topo_inv_start [OF ok1]] by (metis prod.exhaust)
    have PT: "P = topology (dbs w1 d) (sv_loc (srvs w s)) shards" by (simp add: P ask r w1)
    note t = topo_inv_discovered [OF inv, unfolded append_Nil, folded PT]
    have "unsafe_discover_slots_aux h d s w = Some (has_slots P, ?free (count_discovery d (has_slots P) w2))"
      using reg t(2) by (simp add: unsafe_discover_slots_aux_def held host ask r w1)
    then show ?thesis
      using t(1,3) by (auto simp: free count_discovery_pair w1) (simp add: count_discovery_def)
  next
    case False
    then have PN: "P = []" by (simp add: P ask) (cases "(dbs w d, sv_loc (srvs w s), reply)" rule: reply_topology.cases; auto)
    have "unsafe_discover_slots_aux h d s w = Some (False, ?free (count_discovery d False w1))"
      using False by (auto simp: unsafe_discover_slots_aux_def held host ask split: option.split redisReply.split)
    moreover have "discovered h d w P (?free (count_discovery d False w1))"
      using discovered_nothing [OF ok1] by (simp add: free PN count_discovery_def) (simp add: w1)
    ultimately show ?thesis
      by (auto simp: free count_discovery_pair PN has_slots_def) (simp add: w1)
  qed
qed

section \<open>A reply without a topology\<close>

lemma register_nodes_none:
  assumes "cluster_ok h d w" and "node_entries (dbs w d) loc ranges ns = []"
  shows "register_nodes h d loc ranges ns (reset, n, w) = Some (reset, n, w)"
  using assms(2)
proof (induction ns)
  case Nil
  then show ?case by simp
next
  case (Cons m ns)
  show ?case
  proof (cases "parse_node m (dbs w d) loc")
    case None
    then show ?thesis using Cons by simp
  next
    case (Some nd)
    then have "\<not> length (node_location nd) < 256" "node_entries (dbs w d) loc ranges ns = []"
      using Cons.prems by (simp_all split: if_splits)
    then show ?thesis using Cons.IH Some unsafe_add_node_long [OF assms(1), of nd] by simp
  qed
qed

lemma register_shards_none:
  assumes "cluster_ok h d w" and "topology (dbs w d) loc shards = []"
  shows "register_shards h d loc shards (reset, n, w) = Some (reset, n, w)"
  using assms(2)
proof (induction shards)
  case (Cons shard shards)
  then show ?case
    using register_nodes_none [OF assms(1)]
    by (cases "parse_shard shard") (auto simp: topology_def shard_entries_alt)
qed simp

text \<open>The state after \<open>k\<close> discoveries without a topology.\<close>

definition failed_times :: "db_ptr \<Rightarrow> nat \<Rightarrow> 'e \<Rightarrow> 'e world \<Rightarrow> 'e world" where
  "failed_times d k e w =
     (upd_stats d (\<lambda>st. st\<lparr>st_discoveries_failed := st_discoveries_failed st + of_nat k\<rparr>) w)\<lparr>net := e\<rparr>"

lemma failed_times_simps [simp]:
  "failed_times d 0 (net w) w = w"
  "failed_times d k' e' (failed_times d k e w) = failed_times d (k + k') e' w"
  "cluster_ok h d (failed_times d k e w) \<longleftrightarrow> cluster_ok h d w"
  "registered (failed_times d k e w) d = registered w d"
  "srvs (failed_times d k e w) = srvs w"
  "servers (dbs (failed_times d k e w) d) = servers (dbs w d)"
  "discovered h d (failed_times d k e w) P w' \<longleftrightarrow> discovered h d w P w'"
  "discovered h d w P (failed_times d k e w') \<longleftrightarrow> discovered h d w P w'"
  "discoveries (db_stats (dbs (failed_times d k e w) d)) =
     (fst (discoveries (db_stats (dbs w d))), snd (discoveries (db_stats (dbs w d))) + of_nat k)"
proof -
  show "failed_times d 0 (net w) w = w"
    by (simp add: failed_times_def upd_stats_def upd_db_def)
  show "failed_times d k' e' (failed_times d k e w) = failed_times d (k + k') e' w"
    by (simp add: failed_times_def upd_stats_def upd_db_def add.assoc)
  show "cluster_ok h d (failed_times d k e w) \<longleftrightarrow> cluster_ok h d w"
    "registered (failed_times d k e w) d = registered w d"
    "discovered h d w P (failed_times d k e w') \<longleftrightarrow> discovered h d w P w'"
    by (simp_all add: failed_times_def)
  show f: "srvs (failed_times d k e w) = srvs w"
    "servers (dbs (failed_times d k e w) d) = servers (dbs w d)"
    by (simp_all add: failed_times_def upd_stats_def upd_db_def)
  have "same_frame (failed_times d k e w) w' \<longleftrightarrow> same_frame w w'"
    by (simp add: failed_times_def)
  then show "discovered h d (failed_times d k e w) P w' \<longleftrightarrow> discovered h d w P w'"
    by (simp add: discovered_def f registered_def)
  show "discoveries (db_stats (dbs (failed_times d k e w) d)) =
     (fst (discoveries (db_stats (dbs w d))), snd (discoveries (db_stats (dbs w d))) + of_nat k)"
    by (simp add: failed_times_def discoveries_def upd_stats_def upd_db_def)
qed

lemma discover_aux_silent:
  assumes ok: "cluster_ok h d w" and s: "s \<in> registered w d"
    and P: "reply_topology (dbs w d) (sv_loc (srvs w s)) (fst (fst (ask_topology h d s w))) = []"
  shows "\<exists>e. unsafe_discover_slots_aux h d s w = Some (False, failed_times d 1 e w)"
proof -
  obtain reply rc w1 where ask: "ask_topology h d s w = ((reply, rc), w1)" by (metis prod.exhaust)
  obtain e where w1: "w1 = w\<lparr>net := e\<rparr>" using ask_topology_net [OF ask] by (auto simp: only_net_def)
  let ?free = "\<lambda>w. case rc of None \<Rightarrow> w | Some rc \<Rightarrow> net_do (h_free h rc) w"
  have held: "Lck_AssertHeld Config_Mutex w = Some ()" "Lck_AssertHeld (Db_Mutex d) w = Some ()"
    using ok by (simp_all add: Lck_AssertHeld_def cluster_ok_def dir_ok_def locks_held_def)
  have host: "assert_that (is_host (sv_loc (srvs w s))) = Some ()"
    using registered_host [OF ok s] by (simp add: assert_that_def)
  have ok1: "cluster_ok h d w1" using ok by (simp add: w1)
  have "unsafe_discover_slots_aux h d s w = Some (False, ?free (count_discovery d False w1))"
  proof (cases "\<exists>shards. reply = Some (Reply_Array shards)")
    case True
    then obtain shards where r: "reply = Some (Reply_Array shards)" by blast
    have "register_shards h d (sv_loc (srvs w s)) shards (False, 0, w1) = Some (False, 0, w1)"
      by (rule register_shards_none [OF ok1]) (use P in \<open>simp add: ask r w1\<close>)
    then show ?thesis by (simp add: unsafe_discover_slots_aux_def held host ask r) (simp add: w1 cong: option.case_cong)
  next
    case False
    then show ?thesis
      by (auto simp: unsafe_discover_slots_aux_def held host ask split: option.split redisReply.split)
  qed
  moreover have "\<exists>e. ?free (count_discovery d False w1) = failed_times d 1 e w"
    by (rule exI [of _ "case rc of None \<Rightarrow> e | Some rc \<Rightarrow> h_free h rc e"])
      (simp add: count_discovery_def failed_times_def w1 net_do_def upd_stats_def upd_db_def split: option.split)
  ultimately show ?thesis by auto
qed

section \<open>Asking the servers in turn\<close>

text \<open>The servers that the walk has not reached yet.\<close>

definition rest :: "db_ptr \<Rightarrow> 'e world \<Rightarrow> (nat \<times> role) list \<Rightarrow> server_ptr list" where
  "rest d w cs = concat (map (\<lambda>(wt, r). servers (dbs w d) wt r) cs)"

lemma rest_simps [simp]:
  "rest d w [] = []" "rest d w ((wt, r) # cs) = servers (dbs w d) wt r @ rest d w cs"
  "rest d (failed_times d k e w) cs = rest d w cs"
  by (simp_all add: rest_def)

lemma list_next_split:
  "x \<notin> set pre \<Longrightarrow> list_next x (pre @ x # post) = Some (case post of [] \<Rightarrow> None | y # ys \<Rightarrow> Some y)"
  by (induction pre) auto

lemma list_next_absent: "x \<notin> set xs \<Longrightarrow> list_next x xs = None"
  by (induction xs) auto

lemma tailq_next_cells:
  assumes "list_next x (servers (dbs w d) wt r) = Some n" and "(wt, r) \<in> set cs"
    and "\<And>wt' r'. (wt', r') \<noteq> (wt, r) \<Longrightarrow> x \<notin> set (servers (dbs w d) wt' r')"
  shows "tailq_next d x cs w = n"
  using assms(2)
proof (induction cs)
  case (Cons c cs)
  obtain wt' r' where c: "c = (wt', r')" by (cases c)
  show ?case
  proof (cases "c = (wt, r)")
    case True
    then show ?thesis using assms(1) by simp
  next
    case False
    then have "list_next x (servers (dbs w d) wt' r') = None"
      using assms(3) by (intro list_next_absent) (simp add: c)
    moreover have "tailq_next d x cs w = n" using Cons False by simp
    ultimately show ?thesis by (simp add: c)
  qed
qed simp

lemma tailq_next_reg:
  assumes ok: "cluster_ok h d w" and l: "servers (dbs w d) wt r = pre @ x # post"
  shows "tailq_next d x cells w = (case post of [] \<Rightarrow> None | y # ys \<Rightarrow> Some y)"
proof (rule tailq_next_cells)
  have reg: "reg_ok d w" using ok by (simp add: cluster_ok_def dir_ok_def)
  have "distinct (pre @ x # post)" using reg l unfolding reg_ok_def by metis
  then show "list_next x (servers (dbs w d) wt r) = Some (case post of [] \<Rightarrow> None | y # ys \<Rightarrow> Some y)"
    unfolding l by (intro list_next_split) simp
  have f: "filed_ok w d wt' r' y" if "y \<in> set (servers (dbs w d) wt' r')" for wt' r' y
    using reg that unfolding reg_ok_def by blast
  have x: "x \<in> set (servers (dbs w d) wt r)" by (simp add: l)
  show "(wt, r) \<in> set cells" using f [OF x] by (simp add: filed_ok_def set_cells)
  show "x \<notin> set (servers (dbs w d) wt' r')" if "(wt', r') \<noteq> (wt, r)" for wt' r'
    using f [OF x] f [of x wt' r'] that by (auto simp: filed_ok_def)
qed

text \<open>What is left by a walk over the servers \<open>L\<close>: none has a topology, or one gives its slots.\<close>

definition walked ::
  "'e hiredis \<Rightarrow> db_ptr \<Rightarrow> 'e world \<Rightarrow> server_ptr list \<Rightarrow> 'e world \<Rightarrow> bool" where
  "walked h d w L w' \<longleftrightarrow>
     (\<exists>e. w' = failed_times d (length L) e w) \<or>
     (\<exists>pre x post e. L = pre @ x # post \<and>
        unsafe_discover_slots_aux h d x (failed_times d (length pre) e w) = Some (True, w'))"

lemma walked_Nil: "walked h d w [] w"
  by (auto simp: walked_def intro: exI [of _ "net w"])

lemma walked_here:
  "unsafe_discover_slots_aux h d x w = Some (True, w') \<Longrightarrow> walked h d w (x # L) w'"
  unfolding walked_def by (rule disjI2, rule exI [of _ "[]"]) (auto intro: exI [of _ "net w"])

lemma walked_on:
  assumes "walked h d (failed_times d 1 e w) L w'"
  shows "walked h d w (x # L) w'"
  using assms unfolding walked_def
proof (elim disjE exE conjE, goal_cases)
  case (1 e')
  then show ?case by auto
next
  case (2 pre y post e')
  then show ?case
    by (intro disjI2 exI [of _ "x # pre"] exI [of _ y] exI [of _ post] exI [of _ e']) simp
qed

text \<open>Every reply to a command names no server at all, or slots.\<close>

definition whole_topologies :: "'e hiredis \<Rightarrow> bool" where
  "whole_topologies h \<longleftrightarrow>
     (\<forall>rc c e db loc. let P = reply_topology db loc (fst (h_command h rc c e)) in P = [] \<or> has_slots P)"

lemma ask_whole:
  assumes "whole_topologies h"
  shows "reply_topology db loc (fst (fst (ask_topology h d s w))) = [] \<or>
    has_slots (reply_topology db loc (fst (fst (ask_topology h d s w))))"
proof -
  have "fst (fst (ask_topology h d s w)) = None \<or>
      (\<exists>rc c e. fst (fst (ask_topology h d s w)) = fst (h_command h rc c e))"
    by (simp add: ask_topology_def net_call_def Let_def split: prod.split option.split) (metis fst_conv)
  then show ?thesis using assms unfolding whole_topologies_def Let_def
    by (elim disjE exE) (simp, metis)
qed

lemma discover_aux_whole:
  assumes ok: "cluster_ok h d w" and s: "s \<in> registered w d" and h: "whole_topologies h"
  obtains e where "unsafe_discover_slots_aux h d s w = Some (False, failed_times d 1 e w)"
  | w' where "unsafe_discover_slots_aux h d s w = Some (True, w')"
proof (cases "reply_topology (dbs w d) (sv_loc (srvs w s)) (fst (fst (ask_topology h d s w))) = []")
  case True
  then show thesis using discover_aux_silent [OF ok s True] that by blast
next
  case False
  then have "has_slots (reply_topology (dbs w d) (sv_loc (srvs w s)) (fst (fst (ask_topology h d s w))))"
    using ask_whole [OF h] by blast
  then show thesis using discover_aux_outcome [OF ok s refl] that by auto
qed

definition todo :: "db_ptr \<Rightarrow> server_ptr \<Rightarrow> 'e world \<Rightarrow> server_ptr list \<Rightarrow> (nat \<times> role) list \<Rightarrow> server_ptr list" where
  "todo d server w ss cs = filter (\<lambda>x. x \<noteq> server) (ss @ rest d w cs)"

lemma walk_ends:
  assumes "whole_topologies h" and "cluster_ok h d w" and "set cs \<subseteq> set cells"
    and "case cur of None \<Rightarrow> ss = [] \<and> length (rest d w cs) \<le> fuel
         | Some x \<Rightarrow> (\<exists>wt r pre post. servers (dbs w d) wt r = pre @ x # post \<and> ss = x # post \<and>
             length post + length (rest d w cs) \<le> fuel)"
  shows "\<exists>w'. discover_walk fuel h d server cs cur w = Some w' \<and> walked h d w (todo d server w ss cs) w'"
  using assms
proof (induction fuel h d server cs cur w arbitrary: ss rule: discover_walk.induct)
  case (1 fuel h d server w)
  then show ?case using walked_Nil by (simp add: todo_def)
next
  case (2 fuel h d server wt r cs w)
  show ?case
  proof (cases "servers (dbs w d) wt r")
    case Nil
    then show ?thesis using 2 by (simp add: todo_def)
  next
    case (Cons s post)
    then obtain n where n: "fuel = Suc n" using 2 by (cases fuel) auto
    have "\<exists>w'. discover_walk n h d server cs (Some s) w = Some w' \<and> walked h d w (todo d server w (s # post) cs) w'"
      by (rule "2.IH"(2) [OF Cons n]) (use 2 Cons n in \<open>auto intro!: exI [of _ wt] exI [of _ r] exI [of _ "[]"]\<close>)
    then show ?thesis using 2 Cons n by (simp add: todo_def)
  qed
next
  case (3 fuel h d server cs x w)
  then obtain wt r pre post where l: "servers (dbs w d) wt r = pre @ x # post" and ss: "ss = x # post"
    and f: "length post + length (rest d w cs) \<le> fuel" by auto
  have x: "x \<in> registered w d" unfolding registered_def using l by (metis (mono_tags, lifting) in_set_conv_decomp mem_Collect_eq)
  have go: "\<exists>w'. (case tailq_next d x cells v of
        None \<Rightarrow> discover_walk fuel h d server cs None v
      | Some n \<Rightarrow> (case fuel of 0 \<Rightarrow> None | Suc fuel \<Rightarrow> discover_walk fuel h d server cs (Some n) v)) = Some w' \<and>
      walked h d v (todo d server v post cs) w'"
    if v: "(if x \<noteq> server then unsafe_discover_slots_aux h d x w else Some (False, w)) = Some (False, v)"
      and ok: "cluster_ok h d v" and same: "servers (dbs v d) = servers (dbs w d)" for v
  proof -
    have r: "rest d v cs = rest d w cs" by (simp add: rest_def same)
    note next' = tailq_next_reg [OF ok, of wt r pre x post, unfolded same, OF l]
    show ?thesis
    proof (cases post)
      case Nil
      then show ?thesis
        using "3.IH"(1) [OF v refl refl] next' ok f 3 r by simp
    next
      case (Cons y ys)
      then obtain n where n: "fuel = Suc n" using f by (cases fuel) auto
      have nx: "tailq_next d x cells v = Some y" using next' Cons by simp
      have "servers (dbs v d) wt r = (pre @ [x]) @ y # ys" using l same Cons by simp
      moreover have "length ys + length (rest d v cs) \<le> n" using f n Cons r by simp
      ultimately have "\<exists>wt r pre post. servers (dbs v d) wt r = pre @ y # post \<and> y # ys = y # post \<and>
          length post + length (rest d v cs) \<le> n"
        by blast
      then have "\<exists>w'. discover_walk n h d server cs (Some y) v = Some w' \<and>
          walked h d v (todo d server v (y # ys) cs) w'"
        using "3.IH"(2) [OF v refl refl nx n] ok "3.prems"(1,3) by simp
      then show ?thesis by (simp add: nx n Cons del: discover_walk.simps)
    qed
  qed
  show ?case
  proof (cases "x = server")
    case True
    then show ?thesis using go [of w] 3 ss by (simp add: todo_def)
  next
    case False
    show ?thesis
    proof (rule discover_aux_whole [OF "3.prems"(2) x "3.prems"(1)], goal_cases)
      case (1 e)
      define v where "v = failed_times d 1 e w"
      have "cluster_ok h d v" "servers (dbs v d) = servers (dbs w d)" using "3.prems"(2) by (simp_all add: v_def)
      with go [of v] obtain w' where w': "walked h d v (todo d server v post cs) w'"
        "discover_walk fuel h d server cs (Some x) w = Some w'"
        using 1 [folded v_def] False by auto
      have "todo d server w ss cs = x # todo d server v post cs"
        using False ss by (simp add: todo_def v_def)
      then show ?case using w' walked_on [of h d e w _ w' x] by (auto simp: v_def)
    next
      case (2 w')
      then show ?case using False ss by (simp add: todo_def walked_here)
    qed
  qed
qed

lemma rest_registered:
  assumes "cluster_ok h d w"
  shows "set (rest d w cells) = registered w d" "distinct (rest d w cells)"
proof -
  have reg: "reg_ok d w" using assms by (simp add: cluster_ok_def dir_ok_def)
  have f: "filed_ok w d wt r y" if "y \<in> set (servers (dbs w d) wt r)" for wt r y
    using reg that unfolding reg_ok_def by blast
  have s: "set (rest d w cs) = {x. \<exists>(wt, r) \<in> set cs. x \<in> set (servers (dbs w d) wt r)}" for cs
    by (auto simp: rest_def)
  have "(wt, r) \<in> set cells" if "x \<in> set (servers (dbs w d) wt r)" for x wt r
    using f [OF that] by (simp add: filed_ok_def set_cells)
  then show "set (rest d w cells) = registered w d"
    unfolding s registered_def by blast
  have "distinct (rest d w cs)" if "distinct cs" for cs
    using that
  proof (induction cs)
    case (Cons c cs)
    obtain wt r where c: "c = (wt, r)" by (cases c)
    have "distinct (servers (dbs w d) wt r)" using reg by (simp add: reg_ok_def)
    moreover have "False" if x: "x \<in> set (servers (dbs w d) wt r)" "x \<in> set (rest d w cs)" for x
    proof -
      obtain wt' r' where m: "(wt', r') \<in> set cs" "x \<in> set (servers (dbs w d) wt' r')"
        using x(2) s by auto
      have "(wt', r') = (wt, r)" using f [OF x(1)] f [OF m(2)] by (simp add: filed_ok_def)
      then show False using m(1) Cons.prems c by simp
    qed
    ultimately show ?case using Cons c by auto
  qed simp
  then show "distinct (rest d w cells)" using distinct_cells by blast
qed

lemma discover_walked:
  assumes ok: "cluster_ok h d w" and s: "s \<in> registered w d" and h: "whole_topologies h"
    and fuel: "card (registered w d) \<le> fuel"
  obtains w' L where "unsafe_discover_slots fuel h d s w = Some w'" "walked h d w (s # L) w'"
    "set (s # L) = registered w d" "distinct (s # L)"
proof -
  have held: "Lck_AssertHeld Config_Mutex w = Some ()" "Lck_AssertHeld (Db_Mutex d) w = Some ()"
    using ok by (simp_all add: Lck_AssertHeld_def cluster_ok_def dir_ok_def locks_held_def)
  define L where "L = todo d s w [] cells"
  have L: "set (s # L) = registered w d" "distinct (s # L)"
    using rest_registered [OF ok] s by (auto simp: L_def todo_def)
  show thesis
  proof (rule discover_aux_whole [OF ok s h], goal_cases)
    case (1 e)
    let ?v = "failed_times d 1 e w"
    have len: "length (rest d w cells) \<le> fuel"
      using rest_registered [OF ok] fuel by (metis distinct_card)
    obtain w' where "discover_walk fuel h d s cells None ?v = Some w'" "walked h d ?v (todo d s ?v [] cells) w'"
      using walk_ends [where cs = cells and cur = None and ss = "[]" and fuel = fuel and server = s and w = ?v and d = d, OF h] ok len
      by auto
    then show ?case
      using that [of w' L] L 1 walked_on [of h d e w L w' s] by (simp add: unsafe_discover_slots_def held L_def todo_def)
  next
    case (2 w')
    then show ?case
      using that [of w' L] L walked_here [of h d s w w' L] by (simp add: unsafe_discover_slots_def held)
  qed
qed

lemma reply_topology_conf:
  assumes "same_conf w w'"
  shows "reply_topology (dbs w' d) loc r = reply_topology (dbs w d) loc r"
proof -
  have n: "(\<lambda>n. parse_node n (dbs w' d) loc) = (\<lambda>n. parse_node n (dbs w d) loc)"
    by (simp add: parse_node_conf [OF assms])
  have "shard_entries (dbs w' d) loc = shard_entries (dbs w d) loc"
    unfolding shard_entries_def [abs_def] n ..
  then show ?thesis
    by (cases "(dbs w d, loc, r)" rule: reply_topology.cases) (simp_all add: topology_def)
qed

lemma failed_times_conf: "same_conf w (failed_times d k e w)"
  by (auto simp: failed_times_def same_conf_def upd_stats_def upd_db_def)

lemma walked_outcome:
  assumes ok: "cluster_ok h d w" and L: "set L \<subseteq> registered w d" and wk: "walked h d w L w'"
  obtains e where "w' = failed_times d (length L) e w"
  | x v P k where "x \<in> set L" "P = reply_topology (dbs w d) (sv_loc (srvs w x)) (fst (fst (ask_topology h d x v)))"
    "has_slots P" "discovered h d w P w'" "k < length L"
    "discoveries (db_stats (dbs w' d)) =
       (fst (discoveries (db_stats (dbs w d))) + 1, snd (discoveries (db_stats (dbs w d))) + of_nat k)"
  using wk unfolding walked_def
proof (elim disjE exE conjE, goal_cases)
  case (1 e)
  then show ?case by blast
next
  case (2 pre x post e)
  let ?v = "failed_times d (length pre) e w"
  define P where "P = reply_topology (dbs ?v d) (sv_loc (srvs ?v x)) (fst (fst (ask_topology h d x ?v)))"
  have x: "x \<in> registered ?v d" "cluster_ok h d ?v" using 2 L ok by auto
  obtain w1 where a: "unsafe_discover_slots_aux h d x ?v = Some (has_slots P, w1)" "discovered h d ?v P w1"
    "discoveries (db_stats (dbs w1 d)) = count_pair (has_slots P) (discoveries (db_stats (dbs ?v d)))"
    using discover_aux_outcome [OF x(2,1) P_def] by blast
  have "P = reply_topology (dbs w d) (sv_loc (srvs w x)) (fst (fst (ask_topology h d x ?v)))"
    by (simp add: P_def reply_topology_conf [OF failed_times_conf])
  then show ?case
    using 2(2) [of x P ?v "length pre"] 2(3,4) a by (simp add: count_pair_def)
qed

end
