(* ===== verification/Cluster_Refresh.thy ===== *)
theory Cluster_Refresh
  imports Cluster_Rediscovery
begin

text \<open>
  The guarantees of a discovery: the slots are those of the reply and fit the array of a server, the
  discovery ends when the replies name slots or nothing, and it may not end when they name servers
  without slots.
\<close>

section \<open>Slots\<close>

lemma reply_topology_ranges:
  assumes "(l, rs) \<in> set (reply_topology db loc r)" and "(a, b) \<in> set rs"
  shows "a \<le> b \<and> b < NREDIS_CLUSTER_SLOTS"
proof -
  have range: "a \<le> b \<and> b < NREDIS_CLUSTER_SLOTS" if "parse_slot_range p = Some (a, b)" for p
    using that by (cases p rule: parse_slot_range.cases) (auto split: if_splits)
  obtain shards where r: "r = Some (Reply_Array shards)"
    using assms(1) by (cases "(db, loc, r)" rule: reply_topology.cases) auto
  obtain shard where shard: "(l, rs) \<in> set (shard_entries db loc shard)"
    using assms(1) by (auto simp: r topology_def)
  then obtain nodes where "parse_shard shard = Some (rs, nodes)"
    by (cases "parse_shard shard") (auto simp: shard_entries_def)
  then obtain slots where "rs = List.map_filter parse_slot_range (pairs slots)"
    by (auto simp: parse_shard_def split: if_splits option.splits prod.splits)
  then show ?thesis using assms(2) range by (auto simp: List.map_filter_def split: option.splits)
qed

definition slots_bounded :: "db_ptr \<Rightarrow> 'e world \<Rightarrow> bool" where
  "slots_bounded d w \<longleftrightarrow> (\<forall>s \<in> registered w d. \<forall>i. sv_slots (srvs w s) i \<longrightarrow> i < NREDIS_CLUSTER_SLOTS)"

lemma owned_bounded: "owned (reply_topology db loc r) l i \<Longrightarrow> i < NREDIS_CLUSTER_SLOTS"
  unfolding owned_def covers_def using reply_topology_ranges by fastforce

lemma discovered_bounded:
  assumes "slots_bounded d w" and "discovered h d w P w'" and "P = reply_topology db loc r"
  shows "slots_bounded d w'"
proof (cases "has_slots P")
  case True
  then have "sv_slots (srvs w' x) = owned P (sv_raw (srvs w' x))" if "x \<in> registered w' d" for x
    using assms(2) that by (simp add: discovered_def)
  then show ?thesis using owned_bounded unfolding slots_bounded_def assms(3) by fastforce
next
  case False
  have "i < NREDIS_CLUSTER_SLOTS" if "x \<in> registered w' d" "sv_slots (srvs w' x) i" for x i
  proof (cases "x \<in> registered w d")
    case True
    then show ?thesis using assms(1,2) False that(2) by (simp add: discovered_def slots_bounded_def)
  next
    case new: False
    then show ?thesis using assms(2) False that by (simp add: discovered_def)
  qed
  then show ?thesis by (simp add: slots_bounded_def)
qed

section \<open>A cluster to discover\<close>

text \<open>The reply to \<open>CLUSTER SHARDS\<close> of a cluster with two shards, the first with a replica.\<close>

definition lab_node :: "string \<Rightarrow> int \<Rightarrow> string \<Rightarrow> redisReply" where
  "lab_node host port role =
     Reply_Array [Reply_String ''endpoint'', Reply_String host, Reply_String ''port'', Reply_Integer port,
                  Reply_String ''role'', Reply_String role]"

definition lab_shard :: "redisReply list \<Rightarrow> redisReply list \<Rightarrow> redisReply" where
  "lab_shard slots nodes =
     Reply_Array [Reply_String ''slots'', Reply_Array slots, Reply_String ''nodes'', Reply_Array nodes]"

definition lab_cluster :: "string list \<Rightarrow> redisReply option" where
  "lab_cluster c =
     (if c = [''CLUSTER'', ''SHARDS'']
      then Some (Reply_Array
        [lab_shard [Reply_Integer 0, Reply_Integer 8191] [lab_node ''a'' 1 ''master'', lab_node ''b'' 2 ''replica''],
         lab_shard [Reply_Integer 8192, Reply_Integer 16383] [lab_node '''' 3 ''master'']])
      else None)"

definition lab_locked :: "int world" where
  "lab_locked = (lab_one False True)\<lparr>held := [Db_Mutex 0, Config_Mutex]\<rparr>"

definition lab_topology :: "(string \<times> (nat \<times> nat) list) list" where
  "lab_topology = [(''a:1'', [(0, 8191)]), (''b:2'', [(0, 8191)]), (''a:3'', [(8192, 16383)])]"

lemma lab_locked_ok: "cluster_ok (lab f n) 0 lab_locked"
  using dir_ok_lab [of f n False True]
  by (simp add: cluster_ok_def lab_locked_def lab_one_def lab_db_def)

lemma lab_registered: "registered lab_locked 0 = {0}"
  by (auto simp: registered_def lab_locked_def lab_one_def)

lemma lab_ask:
  "fst (fst (ask_topology (lab f n) 0 0 lab_locked)) = f [''CLUSTER'', ''SHARDS'']"
  by (simp add: ask_topology_def net_call_def REDIS_BLESS_CONTEXT_def REDIS_TLS_def rc_err_def lab_locked_def lab_defs)

lemma lab_shard_parsed:
  assumes "List.map_filter parse_slot_range (pairs slots) = rs" and "length slots mod 2 = 0" and "nodes \<noteq> []"
  shows "shard_entries db loc (lab_shard slots nodes) =
    map (\<lambda>nd. (node_location nd, rs))
      (filter (\<lambda>nd. length (node_location nd) < 256) (List.map_filter (\<lambda>n. parse_node n db loc) nodes))"
  using assms by (cases nodes) (simp_all add: shard_entries_def parse_shard_def lab_shard_def)

lemma lab_node_parsed:
  assumes "0 < port" "port < 65536" and "host \<noteq> ''?''"
  shows "parse_node (lab_node host port ''master'') db loc =
      Some \<lparr>nd_endpoint = (if host = [] then loc_host loc else host), nd_port = nat port, nd_role = MASTER, nd_healthy = True\<rparr>"
    "parse_node (lab_node host port ''replica'') db loc =
      Some \<lparr>nd_endpoint = (if host = [] then loc_host loc else host), nd_port = nat port, nd_role = SLAVE, nd_healthy = True\<rparr>"
  using assms by (simp_all add: parse_node_def lab_node_def Let_def split: list.split)

lemma lab_numbers:
  "string_of_nat (Suc 0) = ''1''" "string_of_nat 2 = ''2''" "string_of_nat 3 = ''3''"
  by code_simp+

lemma lab_ranges:
  "parse_slot_range (Reply_Integer 0, Reply_Integer 8191) = Some (0, 8191)"
  "parse_slot_range (Reply_Integer 8192, Reply_Integer 16383) = Some (8192, 16383)"
  by (simp_all add: NREDIS_CLUSTER_SLOTS_def)

lemma lab_reply:
  "reply_topology (dbs lab_locked 0) (sv_loc (srvs lab_locked 0))
     (fst (fst (ask_topology (lab lab_cluster 64) 0 0 lab_locked))) = lab_topology"
proof -
  have loc: "loc_host (sv_loc (srvs lab_locked 0)) = ''a''"
    by (simp add: lab_locked_def lab_defs)
  show ?thesis
    unfolding lab_ask
    by (simp add: lab_cluster_def topology_def lab_shard_parsed [OF refl] lab_node_parsed loc
        node_location_def lab_numbers lab_ranges lab_topology_def List.map_filter_def del: parse_slot_range.simps)
qed

text \<open>
  C20. A discovery does what the reply of the server says. It returns, with the invariant of the
  registry kept and no server lost; if the reply gives slots, every location that it names has a
  server, the slots of every server of the database are exactly those that the reply gives to its
  location, and one discovery is counted; if it does not, the discovery has failed, is counted as
  such, and no slot of an old server has changed. The slots written are within the array of a server.
\<close>

theorem discovery_registers_topology:
  assumes "cluster_ok h d w" and "s \<in> registered w d" and "slots_bounded d w"
    and "P = reply_topology (dbs w d) (sv_loc (srvs w s)) (fst (fst (ask_topology h d s w)))"
  shows "\<exists>w'. unsafe_discover_slots_aux h d s w = Some (has_slots P, w') \<and> cluster_ok h d w' \<and>
    registered w d \<subseteq> registered w' d \<and> slots_bounded d w' \<and>
    (\<forall>(l, rs) \<in> set P. \<exists>x \<in> registered w' d. sv_raw (srvs w' x) = l) \<and>
    (if has_slots P
     then (\<forall>x \<in> registered w' d. sv_slots (srvs w' x) = owned P (sv_raw (srvs w' x)))
     else (\<forall>x \<in> registered w d. sv_slots (srvs w' x) = sv_slots (srvs w x)) \<and>
       (\<forall>x \<in> registered w' d - registered w d. sv_slots (srvs w' x) = (\<lambda>i. False))) \<and>
    discoveries (db_stats (dbs w' d)) =
      (if has_slots P then (fst (discoveries (db_stats (dbs w d))) + 1, snd (discoveries (db_stats (dbs w d))))
       else (fst (discoveries (db_stats (dbs w d))), snd (discoveries (db_stats (dbs w d))) + 1))"
proof -
  obtain w' where w': "unsafe_discover_slots_aux h d s w = Some (has_slots P, w')" "discovered h d w P w'"
    "discoveries (db_stats (dbs w' d)) = count_pair (has_slots P) (discoveries (db_stats (dbs w d)))"
    using discover_aux_outcome [OF assms(1,2,4)] by blast
  have "slots_bounded d w'" by (rule discovered_bounded [OF assms(3) w'(2) assms(4)])
  then show ?thesis
    using w' by (intro exI [of _ w']) (simp add: discovered_def count_pair_def split: prod.split)
qed

theorem discovery_registers_topology_witness:
  "\<exists>w'. unsafe_discover_slots_aux (lab lab_cluster 64) 0 0 lab_locked = Some (True, w') \<and>
     (\<exists>x \<in> registered w' 0. sv_raw (srvs w' x) = ''a:3'' \<and> sv_slots (srvs w' x) 9000 \<and> \<not> sv_slots (srvs w' x) 8000)"
proof -
  have b: "slots_bounded 0 lab_locked"
    by (simp add: slots_bounded_def lab_registered) (simp add: lab_locked_def lab_one_def lab_server_def)
  have s: "has_slots lab_topology" by (simp add: has_slots_def lab_topology_def)
  have o: "owned lab_topology ''a:3'' 9000" "\<not> owned lab_topology ''a:3'' 8000"
    by (auto simp: owned_def lab_topology_def covers_def)
  have n: "(''a:3'', [(8192, 16383)]) \<in> set lab_topology" by (simp add: lab_topology_def)
  obtain w' where w': "unsafe_discover_slots_aux (lab lab_cluster 64) 0 0 lab_locked = Some (has_slots lab_topology, w')"
    "\<forall>(l, rs) \<in> set lab_topology. \<exists>x \<in> registered w' 0. sv_raw (srvs w' x) = l"
    "\<forall>x \<in> registered w' 0. sv_slots (srvs w' x) = owned lab_topology (sv_raw (srvs w' x))"
    using discovery_registers_topology [OF lab_locked_ok _ b lab_reply [symmetric]] s by (auto simp: lab_registered)
  obtain x where "x \<in> registered w' 0" "sv_raw (srvs w' x) = ''a:3''" using w'(2) n by blast
  then show ?thesis using w'(1,3) o s by auto
qed

section \<open>The end of a discovery\<close>

text \<open>A state in which \<open>discover_cluster_slots\<close> may be called.\<close>

definition cluster_free :: "'e hiredis \<Rightarrow> db_ptr \<Rightarrow> 'e world \<Rightarrow> bool" where
  "cluster_free h d w \<longleftrightarrow> connects h \<and> reg_ok d w \<and> rules_ok w \<and> cluster_enabled (dbs w d) \<and>
     Config_Mutex \<notin> set (held w) \<and> Db_Mutex d \<notin> set (held w)"

lemma registry_held:
  "reg_ok d (w\<lparr>held := l\<rparr>) \<longleftrightarrow> reg_ok d w" "rules_ok (w\<lparr>held := l\<rparr>) \<longleftrightarrow> rules_ok w"
  "registered (w\<lparr>held := l\<rparr>) d = registered w d"
  by (simp_all add: reg_ok_def filed_ok_def registered_def rules_ok_def)

lemma discover_locks:
  assumes free: "cluster_free h d w"
    and run: "unsafe_discover_slots fuel h d s (w\<lparr>held := Db_Mutex d # Config_Mutex # held w\<rparr>) = Some v"
    and v: "cluster_ok h d v" "held v = Db_Mutex d # Config_Mutex # held w"
  shows "discover_cluster_slots fuel h d s w = Some (v\<lparr>held := held w\<rparr>)"
    and "cluster_free h d (v\<lparr>held := held w\<rparr>)"
proof -
  show "discover_cluster_slots fuel h d s w = Some (v\<lparr>held := held w\<rparr>)"
    using free run v(2) by (simp add: discover_cluster_slots_def Lck_Lock_def Lck_Unlock_def cluster_free_def)
  show "cluster_free h d (v\<lparr>held := held w\<rparr>)"
    using free v(1) by (simp add: cluster_free_def cluster_ok_def dir_ok_def registry_held)
qed

lemma cluster_free_locked:
  "cluster_free h d w \<Longrightarrow> cluster_ok h d (w\<lparr>held := Db_Mutex d # Config_Mutex # held w\<rparr>)"
  by (simp add: cluster_free_def cluster_ok_def dir_ok_def registry_held locks_held_def)

text \<open>
  C21. A discovery of the topology ends, when no server replies with nodes that have no slots: as many
  steps as there are servers are enough. It keeps the registry in order and gives back both mutexes.
  Either the slots of all servers are those of the reply of some server of the database, and the
  failures counted are those of the servers asked before it; or every server of the database has been
  asked once, in vain, and has the slots it had.
\<close>

theorem discovery_ends:
  assumes "cluster_free h d w" and "s \<in> registered w d" and "whole_topologies h"
    and "card (registered w d) \<le> fuel"
  shows "\<exists>w'. discover_cluster_slots fuel h d s w = Some w' \<and> cluster_free h d w' \<and> held w' = held w \<and>
    registered w d \<subseteq> registered w' d \<and>
    ((\<exists>x v P k. x \<in> registered w d \<and> k < card (registered w d) \<and>
        P = reply_topology (dbs w d) (sv_loc (srvs w x)) (fst (fst (ask_topology h d x v))) \<and> has_slots P \<and>
        (\<forall>y \<in> registered w' d. sv_slots (srvs w' y) = owned P (sv_raw (srvs w' y))) \<and>
        discoveries (db_stats (dbs w' d)) =
          (fst (discoveries (db_stats (dbs w d))) + 1, snd (discoveries (db_stats (dbs w d))) + of_nat k)) \<or>
     (srvs w' = srvs w \<and> servers (dbs w' d) = servers (dbs w d) \<and>
        discoveries (db_stats (dbs w' d)) =
          (fst (discoveries (db_stats (dbs w d))),
           snd (discoveries (db_stats (dbs w d))) + of_nat (card (registered w d)))))"
proof -
  define v where "v = w\<lparr>held := Db_Mutex d # Config_Mutex # held w\<rparr>"
  have ok: "cluster_ok h d v" unfolding v_def by (rule cluster_free_locked [OF assms(1)])
  have v: "registered v d = registered w d" "dbs v = dbs w" "srvs v = srvs w"
      "held v = Db_Mutex d # Config_Mutex # held w"
    by (simp_all add: v_def registry_held)
  obtain v' L where run: "unsafe_discover_slots fuel h d s v = Some v'" and wk: "walked h d v (s # L) v'"
    and L: "set (s # L) = registered w d" "distinct (s # L)"
    using discover_walked [OF ok, of s fuel] assms v by metis
  have len: "length (s # L) = card (registered w d)" using L by (metis distinct_card)
  show ?thesis
  proof (rule walked_outcome [OF ok _ wk], goal_cases)
    case 1
    then show ?case using L v by simp
  next
    case (2 e)
    then have "cluster_ok h d v'" "held v' = Db_Mutex d # Config_Mutex # held w"
      using ok v(4) by (simp, simp add: failed_times_def upd_stats_def upd_db_def)
    note out = discover_locks [OF assms(1) run [unfolded v_def] this]
    have "registered (v'\<lparr>held := held w\<rparr>) d = registered w d" using 2 v by (simp add: registry_held)
    then show ?thesis
      using out len v 2 by (intro exI [of _ "v'\<lparr>held := held w\<rparr>"]) simp
  next
    case (3 x u P k)
    then have "cluster_ok h d v'" "held v' = Db_Mutex d # Config_Mutex # held w"
      using v(4) by (simp_all add: discovered_def same_frame_def)
    note out = discover_locks [OF assms(1) run [unfolded v_def] this]
    have "registered w d \<subseteq> registered v' d" "\<forall>y \<in> registered v' d. sv_slots (srvs v' y) = owned P (sv_raw (srvs v' y))"
      using 3 v by (simp_all add: discovered_def)
    moreover have "x \<in> registered w d" "k < card (registered w d)" using 3 L len by auto
    ultimately show ?thesis
      using out 3 v by (intro exI [of _ "v'\<lparr>held := held w\<rparr>"]) (auto simp: registry_held)
  qed
qed

definition lab_unlocked :: "int world" where
  "lab_unlocked = lab_one False True"

lemma lab_commands: "h_command (lab f n) rc c e = (f c, e)"
  by (simp add: lab_def)

lemma lab_whole: "whole_topologies (lab lab_cluster n)"
proof -
  have "(''a:1'', [(0, 8191)]) \<in> set (reply_topology db loc (lab_cluster [''CLUSTER'', ''SHARDS'']))" for db loc
    by (simp add: lab_cluster_def topology_def lab_shard_parsed [OF refl] lab_node_parsed
        node_location_def lab_numbers lab_ranges List.map_filter_def del: parse_slot_range.simps)
  then have "has_slots (reply_topology db loc (lab_cluster [''CLUSTER'', ''SHARDS'']))" for db loc
    by (fastforce simp: has_slots_def)
  moreover have "lab_cluster c = lab_cluster [''CLUSTER'', ''SHARDS''] \<or> lab_cluster c = None" for c
    by (cases "c = [''CLUSTER'', ''SHARDS'']") (simp_all add: lab_cluster_def)
  ultimately have "reply_topology db loc (lab_cluster c) = [] \<or> has_slots (reply_topology db loc (lab_cluster c))"
    for db loc c
    by (metis reply_topology.simps(2))
  then show ?thesis by (simp add: whole_topologies_def lab_commands)
qed

theorem discovery_ends_witness:
  "\<exists>w'. discover_cluster_slots 1 (lab lab_cluster 64) 0 0 lab_unlocked = Some w' \<and> held w' = []"
proof -
  have l: "lab_locked = lab_unlocked\<lparr>held := [Db_Mutex 0, Config_Mutex]\<rparr>"
    by (simp add: lab_locked_def lab_unlocked_def)
  have "held lab_unlocked = []" by (simp add: lab_unlocked_def lab_one_def lab_empty_def)
  then have "cluster_free (lab lab_cluster 64) 0 lab_unlocked"
    using lab_locked_ok [of lab_cluster 64, unfolded l]
    by (simp add: cluster_free_def cluster_ok_def dir_ok_def registry_held)
  moreover have "registered lab_unlocked 0 = {0}"
    by (auto simp: registered_def lab_unlocked_def lab_one_def)
  moreover have "held lab_unlocked = []" by (simp add: lab_unlocked_def lab_one_def lab_empty_def)
  ultimately show ?thesis using discovery_ends [of "lab lab_cluster 64" 0 lab_unlocked 0 1] lab_whole by auto
qed

end
