(* ===== verification/Cluster_Endless.thy ===== *)
theory Cluster_Endless
  imports Cluster_Refresh
begin

text \<open>
  A discovery that does not end. The loop of \<open>unsafe_discover_slots\<close> follows the links of a list that
  its body may reorder: a reply without slots counts as a failure, but its nodes are registered, and
  registering a server that is known moves it to the end of its list. Two masters without slots that
  list themselves before the other one keep the loop going between them for ever, with the mutexes of
  the configuration and of the database held.
\<close>

section \<open>Three masters without slots\<close>

definition ring_raw :: "server_ptr \<Rightarrow> string" where
  "ring_raw s = ''a:'' @ string_of_nat (Suc s)"

definition ring_shard :: "nat \<Rightarrow> redisReply" where
  "ring_shard port = lab_shard [] [lab_node ''a'' (int port) ''master'']"

definition ring_env :: "int hiredis" where
  "ring_env = (lab (\<lambda>c. None) 64)
     \<lparr>h_connect := (\<lambda>loc t e. (Some (case loc of Host a p \<Rightarrow> unat p | Socket p \<Rightarrow> 0), e)),
      h_command := (\<lambda>rc c e.
        (if rc = 3 then Some (Reply_Array [ring_shard 3, ring_shard 4])
         else if rc = 4 then Some (Reply_Array [ring_shard 4, ring_shard 3])
         else None, e))\<rparr>"

text \<open>The state with the servers in the order \<open>l\<close>, after \<open>k\<close> failed discoveries.\<close>

definition ring_db :: "server_ptr list \<Rightarrow> nat \<Rightarrow> vmod_redis_db" where
  "ring_db l k = (lab_db False True)
     \<lparr>servers := (\<lambda>wt r. if wt = 3 \<and> r = MASTER then l else []),
      db_stats := no_stats\<lparr>st_discoveries_failed := of_nat k\<rparr>\<rparr>"

definition ring :: "server_ptr list \<Rightarrow> nat \<Rightarrow> int world" where
  "ring l k = (lab_empty False True)
     \<lparr>srvs := (\<lambda>s. lab_server (ring_raw s) (Host ''a'' (of_nat (Suc s))) MASTER), next_srv := 4,
      dbs := (\<lambda>d. if d = 0 then ring_db l k else lab_db False True),
      held := [Db_Mutex 0, Config_Mutex]\<rparr>"

lemma ring_simps [simp]:
  "srvs (ring l k) s = lab_server (ring_raw s) (Host ''a'' (of_nat (Suc s))) MASTER"
  "dbs (ring l k) 0 = ring_db l k" "net (ring l k) = 100"
  "held (ring l k) = [Db_Mutex 0, Config_Mutex]"
  by (simp_all add: ring_def lab_empty_def)

lemma ring_raw_eq: "ring_raw 0 = ''a:1''" "ring_raw 2 = ''a:3''" "ring_raw 3 = ''a:4''"
proof -
  have "string_of_nat 4 = ''4''" by code_simp
  then show "ring_raw 0 = ''a:1''" "ring_raw 2 = ''a:3''" "ring_raw 3 = ''a:4''"
    by (simp_all add: ring_raw_def lab_numbers)
qed

lemma ring_move: "upd_servers 0 3 MASTER f (ring l k) = ring (f l) k"
  by (simp add: upd_servers_def upd_db_def ring_def ring_db_def fun_eq_iff)

lemma ring_refresh: "refresh_server ring_env s MASTER (ring l k) = Some (ring l k)"
proof -
  have "upd_srv s (\<lambda>sv. sv\<lparr>sv_role := MASTER\<rparr>) (ring l k) = ring l k"
    by (simp add: upd_srv_def ring_def lab_server_def fun_eq_iff)
  moreover have "flush_sickness ring_env s (ring l k) = ring l k"
    by (simp add: flush_sickness_def net_call_def ring_env_def lab_def ring_def lab_empty_def lab_server_def)
  ultimately show ?thesis by (simp add: refresh_server_def)
qed

lemma ring_add:
  assumes "l = [0, 2, 3] \<or> l = [0, 3, 2]" and "s = 2 \<or> s = 3"
  shows "unsafe_add_redis_server ring_env 0 (ring_raw s) MASTER (ring l k) =
    Some (Some s, ring (remove1 s l @ [s]) k)"
proof -
  have find: "find_server (ring l k) 0 (ring_raw s) cells = Some ((3, MASTER), s)"
    using assms by (elim disjE) (simp_all add: cells_eq ring_db_def lab_server_def ring_raw_eq)
  have "file_server 0 s (ring l' k) = Some (ring (l' @ [s]) k)" for l'
    by (simp add: file_server_def lab_server_def ring_move tailq_insert_tail_def NREDIS_SERVER_WEIGHTS_def)
  then show ?thesis
    by (simp add: unsafe_add_redis_server_def find Lck_AssertHeld_def ring_move ring_refresh tailq_remove_def)
qed

lemma ring_node:
  assumes "l = [0, 2, 3] \<or> l = [0, 3, 2]" and "s = 2 \<or> s = 3"
  shows "unsafe_add_node ring_env 0 \<lparr>nd_endpoint = ''a'', nd_port = Suc s, nd_role = MASTER, nd_healthy = True\<rparr> (ring l k) =
    Some (Some s, ring (remove1 s l @ [s]) k)"
proof -
  have "ring_raw s = ''a'' @ '':'' @ string_of_nat (Suc s)" by (simp add: ring_raw_def)
  moreover have "length (ring_raw s) < 256" using assms(2) by (auto simp: ring_raw_eq)
  ultimately show ?thesis
    using ring_add [OF assms, of k] by (simp add: unsafe_add_node_def Lck_AssertHeld_def)
qed

lemma ring_shards:
  assumes "l = [0, 2, 3] \<or> l = [0, 3, 2]"
  shows "register_shards ring_env 0 loc [ring_shard 3, ring_shard 4] (False, 0, ring l k) = Some (False, 0, ring [0, 2, 3] k)"
    "register_shards ring_env 0 loc [ring_shard 4, ring_shard 3] (False, 0, ring l k) = Some (False, 0, ring [0, 3, 2] k)"
proof -
  have parse: "parse_shard (ring_shard p) = Some ([], [lab_node ''a'' (int p) ''master''])" for p
    by (simp add: ring_shard_def parse_shard_def lab_shard_def List.map_filter_def)
  have one: "register_shards ring_env 0 loc (ring_shard (Suc s) # ss) (False, 0, ring l k) =
      register_shards ring_env 0 loc ss (False, 0, ring (remove1 s l @ [s]) k)"
    if "l = [0, 2, 3] \<or> l = [0, 3, 2]" "s = 2 \<or> s = 3" for l s ss
    using that(2) ring_node [OF that] by (auto simp: parse lab_node_parsed)
  show "register_shards ring_env 0 loc [ring_shard 3, ring_shard 4] (False, 0, ring l k) = Some (False, 0, ring [0, 2, 3] k)"
    using assms one [of _ 2] one [of _ 3] by (elim disjE) simp_all
  show "register_shards ring_env 0 loc [ring_shard 4, ring_shard 3] (False, 0, ring l k) = Some (False, 0, ring [0, 3, 2] k)"
    using assms one [of _ 2] one [of _ 3] by (elim disjE) simp_all
qed

lemma ring_ask:
  "ask_topology ring_env 0 0 (ring l k) = ((None, Some 1), ring l k)"
  "ask_topology ring_env 0 2 (ring l k) = ((Some (Reply_Array [ring_shard 3, ring_shard 4]), Some 3), ring l k)"
  "ask_topology ring_env 0 3 (ring l k) = ((Some (Reply_Array [ring_shard 4, ring_shard 3]), Some 4), ring l k)"
  by (simp_all add: ask_topology_def net_call_def REDIS_BLESS_CONTEXT_def REDIS_TLS_def rc_err_def ring_env_def
      lab_def lab_server_def ring_db_def lab_db_def ring_def lab_empty_def)

lemma ring_count: "count_discovery 0 False (ring l k) = ring l (Suc k)"
  by (simp add: count_discovery_def upd_stats_def upd_db_def ring_def ring_db_def no_stats_def fun_eq_iff add.commute)

lemma ring_free: "net_do (h_free ring_env rc) (ring l k) = ring l k"
  by (simp add: net_do_def ring_env_def lab_def ring_def lab_empty_def)

lemma ring_aux:
  assumes "l = [0, 2, 3] \<or> l = [0, 3, 2]"
  shows "unsafe_discover_slots_aux ring_env 0 0 (ring l k) = Some (False, ring l (Suc k))"
    "unsafe_discover_slots_aux ring_env 0 2 (ring l k) = Some (False, ring [0, 2, 3] (Suc k))"
    "unsafe_discover_slots_aux ring_env 0 3 (ring l k) = Some (False, ring [0, 3, 2] (Suc k))"
  using ring_shards [OF assms]
  by (simp_all add: unsafe_discover_slots_aux_def Lck_AssertHeld_def assert_that_def lab_server_def ring_ask
      ring_count ring_free)

lemma ring_next:
  "tailq_next 0 0 cells (ring [0, 2, 3] k) = Some 2"
  "tailq_next 0 2 cells (ring [0, 2, 3] k) = Some 3" "tailq_next 0 3 cells (ring [0, 3, 2] k) = Some 2"
  by (simp_all add: cells_eq ring_db_def)

lemma ring_walk:
  assumes "l = [0, 2, 3] \<or> l = [0, 3, 2]"
  shows "discover_walk n ring_env 0 0 cs (Some 2) (ring l k) = None \<and>
    discover_walk n ring_env 0 0 cs (Some 3) (ring l k) = None"
  using assms
proof (induction n arbitrary: l k)
  case 0
  show ?case by (simp add: ring_aux [OF 0] ring_next)
next
  case (Suc n)
  show ?case
    using Suc.IH [of "[0, 2, 3]" "Suc k"] Suc.IH [of "[0, 3, 2]" "Suc k"]
    by (simp add: ring_aux [OF Suc.prems] ring_next)
qed

lemma ring_ok: "cluster_ok ring_env 0 (ring [0, 2, 3] 0)"
proof -
  have loc: "parse_location ''a:1'' = Host ''a'' 1" "parse_location ''a:3'' = Host ''a'' 3"
    "parse_location ''a:4'' = Host ''a'' 4"
    by code_simp+
  have "connects ring_env" by (simp add: connects_def ring_env_def)
  moreover have "reg_ok 0 (ring [0, 2, 3] 0)"
    by (auto simp: reg_ok_def filed_ok_def registered_def NREDIS_SERVER_WEIGHTS_def ring_db_def lab_server_def
        lab_db_def ring_raw_eq loc) (simp_all add: ring_def)
  moreover have "rules_ok (ring [0, 2, 3] 0)"
    by (simp add: rules_ok_def ring_def lab_empty_def NREDIS_SERVER_WEIGHTS_def)
  ultimately show ?thesis
    by (simp add: cluster_ok_def dir_ok_def locks_held_def ring_db_def lab_db_def)
qed

text \<open>
  C22. A discovery may never end: in a registry in order, with three masters of which two reply with nodes that have no slots,
  each itself first, and a third that the caller has asked in vain, no number of steps is enough.
\<close>

theorem discovery_may_not_end:
  "cluster_ok ring_env 0 (ring [0, 2, 3] 0) \<and> registered (ring [0, 2, 3] 0) 0 = {0, 2, 3} \<and>
   unsafe_discover_slots n ring_env 0 0 (ring [0, 2, 3] 0) = None"
proof -
  have reg: "registered (ring [0, 2, 3] 0) 0 = {0, 2, 3}"
    by (auto simp: registered_def ring_db_def split: if_splits)
  have "discover_walk n ring_env 0 0 cells None (ring [0, 2, 3] (Suc 0)) = None"
  proof (cases n)
    case 0
    then show ?thesis by (simp add: cells_eq ring_db_def)
  next
    case (Suc m)
    show ?thesis
    proof (cases m)
      case 0
      then show ?thesis using Suc ring_next(1) by (simp add: cells_eq ring_db_def)
    next
      case (Suc m')
      then show ?thesis
        using \<open>n = Suc m\<close> ring_next(1) [of "Suc 0"] ring_walk [of "[0, 2, 3]" m'] by (simp add: cells_eq ring_db_def)
    qed
  qed
  then show ?thesis
    using ring_ok reg by (simp add: unsafe_discover_slots_def Lck_AssertHeld_def ring_aux)
qed

end
