(* ===== verification/Sentinel_Locations.thy ===== *)
theory Sentinel_Locations
  imports Redis_Model
begin

text \<open>
  The list of Sentinels of a configuration (\<open>src/sentinel.c\<close>: \<open>unsafe_set_locations\<close>). The pointers
  of the code are the suffix of the input at \<open>p\<close> and indices from there; past the end of the input
  there is the NUL character, which no test but the one for the end accepts.
\<close>

section \<open>The code\<close>

text \<open>\<open>while (r > p && P(*r)) r--\<close>\<close>

fun scan_back :: "(char \<Rightarrow> bool) \<Rightarrow> string \<Rightarrow> nat \<Rightarrow> nat" where
  "scan_back P s 0 = 0"
| "scan_back P s (Suc n) = (if P (s ! Suc n) then scan_back P s n else Suc n)"

text \<open>The end of a port: a comma, a space or the end of the input.\<close>

fun ends_port :: "string \<Rightarrow> bool" where
  "ends_port [] = True"
| "ends_port (c # cs) = (c = CHR '','' \<or> is_space c)"

text \<open>One item, from its first character on: an error, or its host and port.\<close>

definition parse_item :: "string \<Rightarrow> nat + (string \<times> uint)" where
  "parse_item s =
     (let item = takeWhile (\<lambda>c. c \<noteq> CHR '','') s
      in if item = [] then Inl 10
         else
           (let r = scan_back is_digit item (scan_back is_space item (length item - 1))
            in if item ! r \<noteq> CHR '':'' then Inl 20
               else
                 (let r = r + 1
                  in if r \<ge> length s \<or> \<not> is_digit (s ! r) then Inl 30
                     else
                       (let (value, t) = strtol (drop r s); port = to_int value
                        in if t = drop r s \<or> \<not> ends_port t \<or> port < 0 \<or> port > 65536 then Inl 40
                           else if r \<le> 1 then Inl 50
                           else Inr (take (r - 1) s, word_of_int port)))))"

text \<open>The loop over the items, with the Sentinels stored so far.\<close>

function parse_items :: "string \<Rightarrow> (string \<times> uint) list \<Rightarrow> nat + (string \<times> uint) list" where
  "parse_items p sentinels =
     (if p = [] then Inr sentinels
      else
        (let s = dropWhile is_space p
         in case parse_item s of
              Inl error \<Rightarrow> Inl error
            | Inr sentinel \<Rightarrow>
                parse_items
                  (dropWhile (\<lambda>c. is_space c \<or> c = CHR '','') (dropWhile (\<lambda>c. c \<noteq> CHR '','') s))
                  (sentinels @ [sentinel])))"
  by pat_completeness auto
termination
proof (relation "measure (\<lambda>(p, _). length p)", simp, goal_cases)
  case (1 p sentinels s sentinel)
  have "takeWhile (\<lambda>c. c \<noteq> CHR '','') s \<noteq> []" using 1 by (auto simp: parse_item_def Let_def)
  then have "0 < length (takeWhile (\<lambda>c. c \<noteq> CHR '','') s)" by simp
  moreover have "length s = length (takeWhile (\<lambda>c. c \<noteq> CHR '','') s) + length (dropWhile (\<lambda>c. c \<noteq> CHR '','') s)"
    by (metis length_append takeWhile_dropWhile_id)
  moreover have "length s \<le> length p" using 1 by (simp add: length_dropWhile_le)
  moreover have "length (dropWhile (\<lambda>c. is_space c \<or> c = CHR '','') (dropWhile (\<lambda>c. c \<noteq> CHR '','') s))
      \<le> length (dropWhile (\<lambda>c. c \<noteq> CHR '','') s)"
    by (rule length_dropWhile_le)
  ultimately have "length (dropWhile (\<lambda>c. is_space c \<or> c = CHR '','') (dropWhile (\<lambda>c. c \<noteq> CHR '','') s)) < length p"
    by linarith
  then show ?case by simp
qed

declare parse_items.simps [simp del]

text \<open>After an error the Sentinels parsed so far are released.\<close>

definition unsafe_set_locations :: "string \<Rightarrow> (string \<times> uint) list" where
  "unsafe_set_locations locations =
     (case parse_items locations [] of Inl error \<Rightarrow> [] | Inr sentinels \<Rightarrow> sentinels)"

section \<open>Round trip\<close>

lemma scan_back_skip:
  assumes "xs \<noteq> []" and "\<not> P (last xs)" and "\<forall>y \<in> set ys. P y"
  shows "scan_back P (xs @ ys @ zs) (length xs + length ys - 1) = length xs - 1"
  using assms(3)
proof (induction ys arbitrary: zs rule: rev_induct)
  case Nil
  show ?case
  proof (cases "length xs - 1")
    case 0
    then show ?thesis by simp
  next
    case (Suc n)
    then have "Suc n < length xs" using assms(1) by (cases xs) auto
    then have "(xs @ zs) ! Suc n = last xs" using assms(1) Suc by (simp add: nth_append last_conv_nth)
    then show ?thesis using assms(2) Suc by simp
  qed
next
  case (snoc y ys)
  obtain n where n: "length xs + length (ys @ [y]) - 1 = Suc n" and n': "n = length xs + length ys - 1"
    using assms(1) by (cases xs) auto
  have "(xs @ (ys @ [y]) @ zs) ! Suc n = y" using n assms(1) by (cases xs) (auto simp: nth_append)
  then have "scan_back P (xs @ (ys @ [y]) @ zs) (Suc n) = scan_back P (xs @ (ys @ [y]) @ zs) n"
    using snoc.prems by (simp only: scan_back.simps) simp
  also have "\<dots> = length xs - 1" using snoc.IH [of "y # zs"] snoc.prems by (simp add: n')
  finally show ?case by (simp only: n)
qed

lemma takeWhile_comma:
  assumes "CHR '','' \<notin> set xs" and "rest = [] \<or> hd rest = CHR '',''"
  shows "takeWhile (\<lambda>c. c \<noteq> CHR '','') (xs @ rest) = xs" "dropWhile (\<lambda>c. c \<noteq> CHR '','') (xs @ rest) = rest"
proof -
  have "\<forall>c \<in> set xs. c \<noteq> CHR '',''" using assms(1) by auto
  then show "takeWhile (\<lambda>c. c \<noteq> CHR '','') (xs @ rest) = xs" "dropWhile (\<lambda>c. c \<noteq> CHR '','') (xs @ rest) = rest"
    using assms(2) by (cases rest; simp add: takeWhile_append2 dropWhile_append2)+
qed

lemma comma_class: "\<not> is_digit CHR '',''" "\<not> is_space CHR '',''" "\<not> is_digit CHR '':''"
  by code_simp+

text \<open>An item as it may be written: a host, a colon, a port, and any spaces.\<close>

definition item_ok :: "string \<Rightarrow> nat \<Rightarrow> string \<Rightarrow> bool" where
  "item_ok host port pad \<longleftrightarrow>
     host \<noteq> [] \<and> CHR '','' \<notin> set host \<and> \<not> is_space (hd host) \<and> int port \<le> LONG_MAX \<and> (\<forall>c \<in> set pad. is_space c)"

lemma parse_item_written:
  assumes ok: "item_ok host port pad" and rest: "rest = [] \<or> hd rest = CHR '',''"
  shows "parse_item (host @ CHR '':'' # string_of_nat port @ pad @ rest) =
    (if 0 \<le> to_int (int port) \<and> to_int (int port) \<le> 65536 then Inr (host, word_of_int (to_int (int port))) else Inl 40)"
proof -
  let ?d = "string_of_nat port"
  let ?item = "host @ CHR '':'' # ?d @ pad"
  let ?s = "host @ CHR '':'' # ?d @ pad @ rest"
  have digits: "\<forall>c \<in> set ?d. is_digit c" using digits_string_of_nat by blast
  have pad: "\<forall>c \<in> set pad. is_space c" using ok by (simp add: item_ok_def)
  have "CHR '','' \<notin> set ?item" using ok digits pad comma_class by (auto simp: item_ok_def)
  then have item: "takeWhile (\<lambda>c. c \<noteq> CHR '','') ?s = ?item" using takeWhile_comma(1) [of ?item rest] rest by simp
  have "scan_back is_space ((host @ CHR '':'' # ?d) @ pad @ []) (length (host @ CHR '':'' # ?d) + length pad - 1) =
      length (host @ CHR '':'' # ?d) - 1"
    by (rule scan_back_skip) (use digits not_space_digit pad in auto)
  then have s1: "scan_back is_space ?item (length ?item - 1) = length host + length ?d" by (simp add: add.assoc)
  have "scan_back is_digit ((host @ '':'') @ ?d @ pad) (length (host @ '':'') + length ?d - 1) = length (host @ '':'') - 1"
    by (rule scan_back_skip) (use digits comma_class in auto)
  then have s2: "scan_back is_digit ?item (length host + length ?d) = length host" by simp
  have drop: "drop (length host + 1) ?s = ?d @ pad @ rest" by simp
  have t: "strtol (?d @ pad @ rest) = (int port, pad @ rest)"
  proof (rule strtol_string_of_nat)
    show "int port \<le> LONG_MAX" using ok by (simp add: item_ok_def)
    show "\<not> is_digit c" if "pad @ rest = c # cs" for c cs
      using that pad rest comma_class not_space_digit by (cases pad) auto
  qed
  have ends: "ends_port (pad @ rest)"
    using pad rest by (cases pad; cases rest) auto
  have d0: "is_digit (?s ! (length host + 1))"
    using digits by (simp add: nth_append)
  show ?thesis
    unfolding parse_item_def item Let_def s1 s2 drop t
    using ok d0 ends by (auto simp: item_ok_def)
qed

text \<open>The items of a configuration, with spaces around them, separated by commas.\<close>

type_synonym item = "string \<times> string \<times> nat \<times> string"

fun write_items :: "item list \<Rightarrow> string" where
  "write_items [] = []"
| "write_items ((pre, host, port, pad) # items) =
     pre @ host @ CHR '':'' # string_of_nat port @ pad @
     (if items = [] then [] else CHR '','' # write_items items)"

fun item_sentinel :: "item \<Rightarrow> string \<times> uint" where
  "item_sentinel (pre, host, port, pad) = (host, word_of_nat port)"

fun good_item :: "item \<Rightarrow> bool" where
  "good_item (pre, host, port, pad) = (item_ok host port pad \<and> port \<le> 65535 \<and> (\<forall>c \<in> set pre. is_space c))"

lemma port_int:
  assumes "port \<le> 65535"
  shows "to_int (int port) = int port"
  using to_int_small [of "int port"] assms by simp

lemma parse_items_step:
  assumes "item_ok host port pad" and "\<forall>c \<in> set pre. is_space c" and "rest = [] \<or> hd rest = CHR '',''"
    and "port \<le> 65535"
  shows "parse_items (pre @ host @ CHR '':'' # string_of_nat port @ pad @ rest) acc =
    parse_items (dropWhile (\<lambda>c. is_space c \<or> c = CHR '','') rest) (acc @ [(host, word_of_nat port)])"
proof -
  let ?s = "host @ CHR '':'' # string_of_nat port @ pad @ rest"
  obtain c cs where host: "host = c # cs" "\<not> is_space c" using assms(1) by (cases host) (auto simp: item_ok_def)
  have d: "dropWhile is_space (pre @ ?s) = ?s" using assms(2) host by (simp add: dropWhile_append2)
  have "CHR '','' \<notin> set (host @ CHR '':'' # string_of_nat port @ pad)"
    using assms(1) digits_string_of_nat comma_class by (auto simp: item_ok_def)
  then have r: "dropWhile (\<lambda>c. c \<noteq> CHR '','') ?s = rest"
    using takeWhile_comma(2) [of "host @ CHR '':'' # string_of_nat port @ pad" rest] assms(3) by simp
  have "pre @ ?s \<noteq> []" by simp
  then show ?thesis
    using parse_item_written [OF assms(1,3)] port_int [OF assms(4)] assms(4) unfolding parse_items.simps [of "pre @ ?s"] d Let_def r by simp
qed

lemma parse_items_written:
  assumes "\<forall>i \<in> set items. good_item i"
    and "p = write_items items \<or> p = dropWhile (\<lambda>c. is_space c \<or> c = CHR '','') (write_items items)"
  shows "parse_items p acc = Inr (acc @ map item_sentinel items)"
  using assms
proof (induction items arbitrary: p acc)
  case Nil
  then show ?case by (simp add: parse_items.simps)
next
  case (Cons i items)
  obtain pre host port pad where i: "i = (pre, host, port, pad)" by (cases i)
  have ok: "item_ok host port pad" "\<forall>c \<in> set pre. is_space c" and port: "port \<le> 65535" using Cons.prems(1) i by simp_all
  let ?rest = "if items = [] then [] else CHR '','' # write_items items"
  have rest: "?rest = [] \<or> hd ?rest = CHR '',''" by simp
  obtain c cs where host: "host = c # cs" "\<not> is_space c" "c \<noteq> CHR '',''"
    using ok(1) by (cases host) (auto simp: item_ok_def)
  have "\<forall>c \<in> set pre. is_space c \<or> c = CHR '',''" using ok(2) by blast
  then have "p = pre @ host @ CHR '':'' # string_of_nat port @ pad @ ?rest \<or>
      p = [] @ host @ CHR '':'' # string_of_nat port @ pad @ ?rest"
    using Cons.prems(2) host by (auto simp: i dropWhile_append2)
  then have step: "parse_items p acc =
      parse_items (dropWhile (\<lambda>c. is_space c \<or> c = CHR '','') ?rest) (acc @ [(host, word_of_nat port)])"
    using parse_items_step [OF ok rest port] parse_items_step [OF ok(1) _ rest port, of "[]"] by auto
  have "parse_items (dropWhile (\<lambda>c. is_space c \<or> c = CHR '','') ?rest) (acc @ [(host, word_of_nat port)]) =
      Inr ((acc @ [(host, word_of_nat port)]) @ map item_sentinel items)"
    by (rule Cons.IH) (use Cons.prems(1) in \<open>auto simp: Nil_is_map_conv\<close>)
  then show ?case by (simp add: step i)
qed

text \<open>
  C25. The Sentinels of a configuration are read back as they were written: hosts (IPv6 addresses
  included) and ports, separated by commas, with any spaces around them, and in their order.
\<close>

theorem sentinel_locations_roundtrip:
  assumes "\<forall>i \<in> set items. good_item i"
  shows "unsafe_set_locations (write_items items) = map item_sentinel items"
  using parse_items_written [OF assms, of "write_items items" "[]"] by (simp add: unsafe_set_locations_def)

theorem sentinel_locations_roundtrip_witness:
  "unsafe_set_locations (write_items [('' '', ''::1'', 26379, []), ('' '', ''b'', 7, ''  '')]) =
    [(''::1'', word_of_nat 26379), (''b'', word_of_nat 7)]"
proof -
  have "is_space CHR '' ''" "\<not> is_space CHR '':''" "\<not> is_space CHR ''b''" by code_simp+
  then show ?thesis
    using sentinel_locations_roundtrip [of "[('' '', ''::1'', 26379, []), ('' '', ''b'', 7, ''  '')]"]
    by (simp add: item_ok_def LONG_MAX_def)
qed

text \<open>
  The check of the port of a Sentinel comes after its conversion to \<open>int\<close>, and is off by one: for
  a single Sentinel the port that is stored is the number that is written modulo 2 to the 32, as a
  signed number, whenever that is between 0 and 65536, and only otherwise the item is an error.
\<close>

theorem sentinel_port_truncated:
  assumes "item_ok host port []"
  shows "unsafe_set_locations (host @ CHR '':'' # string_of_nat port) =
    (if 0 \<le> to_int (int port) \<and> to_int (int port) \<le> 65536 then [(host, word_of_int (to_int (int port)))] else [])"
proof -
  let ?s = "host @ CHR '':'' # string_of_nat port"
  have "dropWhile is_space ?s = ?s" using assms by (cases host) (auto simp: item_ok_def)
  moreover have "CHR '','' \<notin> set ?s" using assms digits_string_of_nat comma_class by (auto simp: item_ok_def)
  then have "dropWhile (\<lambda>c. c \<noteq> CHR '','') ?s = []" using takeWhile_comma(2) [of ?s "[]"] by simp
  moreover have "?s \<noteq> []" by simp
  ultimately have "parse_items ?s [] =
      (case parse_item ?s of Inl error \<Rightarrow> Inl error | Inr sentinel \<Rightarrow> parse_items [] [sentinel])"
    unfolding parse_items.simps [of ?s] by (simp only: Let_def if_False dropWhile.simps append_Nil)
  then show ?thesis
    using parse_item_written [OF assms, of "[]"] by (auto simp: unsafe_set_locations_def parse_items.simps [of "[]"])
qed

theorem sentinel_port_truncated_witness:
  "unsafe_set_locations (''a:'' @ string_of_nat 4294967302) = [(''a'', 6)] \<and>
   unsafe_set_locations (''b:'' @ string_of_nat 65536) = [(''b'', 65536)]"
proof -
  have "is_space CHR ''a'' = False" "is_space CHR ''b'' = False" by code_simp+
  then have ok: "item_ok ''a'' 4294967302 []" "item_ok ''b'' 65536 []" by (simp_all add: item_ok_def LONG_MAX_def)
  have "to_int (int 4294967302) = 6" "to_int (int 65536) = 65536" by (simp_all add: to_int_def)
  then show ?thesis
    using sentinel_port_truncated [OF ok(1)] sentinel_port_truncated [OF ok(2)] by simp
qed

end
