(* ===== verification/Sentinel.thy ===== *)
theory Sentinel
  imports Sentinel_Locations Registry
begin

text \<open>
  What the Sentinel thread learns and does with it (\<open>src/sentinel.c\<close>): the inventory of servers
  (\<open>store_sentinel_reply\<close>), the notifications (\<open>parse_sentinel_notification\<close>), the proactive
  discovery (\<open>parse_sentinel_discovery\<close>, \<open>discover_servers\<close>) and the update of the databases
  (\<open>unsafe_update_dbs\<close>, in \<open>Sentinel_Update\<close>). The thread has its own state and shares the configuration
  and the databases; \<open>Sentinel_Thread\<close> has its loop.
\<close>

section \<open>The state of the thread\<close>

record sentinel_server =
  sn_host :: string
  sn_port :: uint
  sn_role :: role
  sn_down :: uint
  sn_sentinel :: "string \<times> uint"

record sentinel_state =
  ss_sentinels :: "(string \<times> uint) list"
  ss_period :: uint
  ss_connection_timeout :: timeval
  ss_command_timeout :: timeval
  ss_protocol :: protocol
  ss_tls_ssl_ctx :: "nat option"
  ss_password :: "string option"
  last_change :: int
  next_discovery :: int
  ss_servers :: "sentinel_server list"

definition new_state ::
  "uint \<Rightarrow> timeval \<Rightarrow> timeval \<Rightarrow> protocol \<Rightarrow> nat option \<Rightarrow> string option \<Rightarrow> sentinel_state" where
  "new_state period ctimeout xtimeout protocol tls password =
     \<lparr>ss_sentinels = [], ss_period = period, ss_connection_timeout = ctimeout,
      ss_command_timeout = xtimeout, ss_protocol = protocol, ss_tls_ssl_ctx = tls,
      ss_password = password, last_change = 0, next_discovery = 0, ss_servers = []\<rparr>"

definition new_server :: "string \<times> uint \<Rightarrow> string \<Rightarrow> uint \<Rightarrow> role \<Rightarrow> uint \<Rightarrow> sentinel_server" where
  "new_server sentinel host port role down =
     \<lparr>sn_host = host, sn_port = port, sn_role = role, sn_down = down, sn_sentinel = sentinel\<rparr>"

text \<open>The first server that matches is changed in place.\<close>

fun update_first :: "('a \<Rightarrow> bool) \<Rightarrow> ('a \<Rightarrow> 'a) \<Rightarrow> 'a list \<Rightarrow> 'a list" where
  "update_first P f [] = []"
| "update_first P f (x # xs) = (if P x then f x # xs else x # update_first P f xs)"

definition store_sentinel_reply ::
  "'e hiredis \<Rightarrow> string \<times> uint \<Rightarrow> string \<Rightarrow> uint \<Rightarrow> role \<Rightarrow> int \<Rightarrow>
   sentinel_state \<times> 'e world \<Rightarrow> sentinel_state \<times> 'e world" where
  "store_sentinel_reply h sentinel host port role down = (\<lambda>(st, w).
     let found = (\<lambda>sv. sn_port sv = port \<and> sn_host sv = host)
     in case List.find found (ss_servers st) of
          None \<Rightarrow>
            (let (now, w) = net_call (h_time h) w
             in (st\<lparr>ss_servers := tailq_insert_tail (ss_servers st)
                                   (new_server sentinel host port role (if down > 0 then 1 else 0)),
                    last_change := now\<rparr>, w))
        | Some sv \<Rightarrow>
            if sn_role sv \<noteq> role \<or> (down \<ge> 0 \<and> sn_down sv \<noteq> word_of_int down)
            then (let change = (\<lambda>sv. sv\<lparr>sn_sentinel := sentinel, sn_role := role,
                                        sn_down := (if down \<ge> 0 then word_of_int down else sn_down sv)\<rparr>);
                      (now, w) = net_call (h_time h) w
                  in (st\<lparr>ss_servers := update_first found change (ss_servers st), last_change := now\<rparr>, w))
            else (st, w))"

section \<open>Notifications\<close>

text \<open>\<open>strtok_r\<close> with a space: the token and what is left, after the space that ends the token.\<close>

definition strtok_r :: "string \<Rightarrow> (string \<times> string) option" where
  "strtok_r s =
     (case dropWhile (\<lambda>c. c = CHR '' '') s of
        [] \<Rightarrow> None
      | t \<Rightarrow> Some (takeWhile (\<lambda>c. c \<noteq> CHR '' '') t, drop 1 (dropWhile (\<lambda>c. c \<noteq> CHR '' '') t)))"

text \<open>\<open>port = atoi(ptr)\<close>, with \<open>port\<close> unsigned.\<close>

definition port_number :: "string \<Rightarrow> uint" where
  "port_number s = word_of_int (atoi s)"

text \<open>The instance that \<open>+sdown\<close>, \<open>-sdown\<close>, \<open>+odown\<close> and \<open>-odown\<close> are about.\<close>

definition parse_instance :: "string \<Rightarrow> (role \<times> string \<times> uint) option" where
  "parse_instance payload = do {
     (kind, rest) \<leftarrow> strtok_r payload;
     role \<leftarrow> (if kind = ''master'' then Some MASTER else if kind = ''slave'' then Some SLAVE else None);
     (name, rest) \<leftarrow> strtok_r rest;
     (ip, rest) \<leftarrow> strtok_r rest;
     (port, rest) \<leftarrow> strtok_r rest;
     Some (role, ip, port_number port)
   }"

text \<open>The old and the new address of \<open>+switch-master\<close>.\<close>

definition parse_switch :: "string \<Rightarrow> ((string \<times> uint) \<times> (string \<times> uint)) option" where
  "parse_switch payload = do {
     (name, rest) \<leftarrow> strtok_r payload;
     (old_ip, rest) \<leftarrow> strtok_r rest;
     (old_port, rest) \<leftarrow> strtok_r rest;
     (new_ip, rest) \<leftarrow> strtok_r rest;
     (new_port, rest) \<leftarrow> strtok_r rest;
     Some ((old_ip, port_number old_port), (new_ip, port_number new_port))
   }"

fun notification_of :: "redisReply option \<Rightarrow> (string \<times> string) option" where
  "notification_of (Some (Reply_Array [Reply_String p, x, Reply_String event, Reply_String payload])) =
     (if p = ''pmessage'' then Some (event, payload) else None)"
| "notification_of (Some (Reply_Push [Reply_String p, x, Reply_String event, Reply_String payload])) =
     (if p = ''pmessage'' then Some (event, payload) else None)"
| "notification_of r = None"

definition parse_sentinel_notification ::
  "'e hiredis \<Rightarrow> string \<times> uint \<Rightarrow> redisReply option \<Rightarrow> sentinel_state \<times> 'e world \<Rightarrow> sentinel_state \<times> 'e world" where
  "parse_sentinel_notification h sentinel reply x =
     (case notification_of reply of
        None \<Rightarrow> x
      | Some (event, payload) \<Rightarrow>
          if event \<in> {''+sdown'', ''-sdown'', ''+odown'', ''-odown''}
          then (case parse_instance payload of
                  None \<Rightarrow> x
                | Some (role, ip, port) \<Rightarrow>
                    store_sentinel_reply h sentinel ip port role (if hd event = CHR ''+'' then 1 else 0) x)
          else if event = ''+switch-master''
          then (case parse_switch payload of
                  None \<Rightarrow> x
                | Some ((old_ip, old_port), (new_ip, new_port)) \<Rightarrow>
                    store_sentinel_reply h sentinel new_ip new_port MASTER 0
                      (store_sentinel_reply h sentinel old_ip old_port SLAVE (- 1) x))
          else x)"

section \<open>Proactive discovery\<close>

text \<open>The local variables of the loop over an element of the reply.\<close>

record instance_data =
  in_name :: "string option"
  in_host :: "string option"
  in_port :: uint
  in_role :: role
  in_down :: bool

fun pairs_of :: "redisReply list \<Rightarrow> (redisReply \<times> redisReply) list" where
  "pairs_of (a # b # es) = (a, b) # pairs_of es"
| "pairs_of es = []"

fun instance_field :: "redisReply \<times> redisReply \<Rightarrow> instance_data \<Rightarrow> instance_data" where
  "instance_field (Reply_String name, Reply_String value) i =
     (if name = ''name'' then i\<lparr>in_name := Some value\<rparr>
      else if name = ''ip'' then i\<lparr>in_host := Some value\<rparr>
      else if name = ''port'' then i\<lparr>in_port := port_number value\<rparr>
      else if name = ''flags'' then
        i\<lparr>in_role := (if strstr value ''slave'' then SLAVE else if strstr value ''master'' then MASTER else in_role i),
          in_down := (strstr value ''s_down'' \<or> strstr value ''o_down'' \<or> in_down i)\<rparr>
      else i)"
| "instance_field p i = i"

definition parse_instance_reply :: "redisReply \<Rightarrow> instance_data option" where
  "parse_instance_reply r =
     (if is_array_or_map r
      then Some (fold instance_field (pairs_of (elements r))
                  \<lparr>in_name = None, in_host = None, in_port = 0, in_role = TBD, in_down = False\<rparr>)
      else None)"

text \<open>The names of masters that the reply gives, and the inventory.\<close>

fun parse_elements ::
  "'e hiredis \<Rightarrow> string \<times> uint \<Rightarrow> redisReply list \<Rightarrow> string list \<times> sentinel_state \<times> 'e world \<Rightarrow>
   string list \<times> sentinel_state \<times> 'e world" where
  "parse_elements h sentinel [] x = x"
| "parse_elements h sentinel (r # rs) (names, x) =
     (case parse_instance_reply r of
        None \<Rightarrow> parse_elements h sentinel rs (names, x)
      | Some i \<Rightarrow>
          parse_elements h sentinel rs
            ((case in_name i of None \<Rightarrow> names | Some n \<Rightarrow> names @ [n]),
             (case in_host i of
                Some host \<Rightarrow>
                  if in_port i > 0 \<and> in_role i \<noteq> TBD
                  then store_sentinel_reply h sentinel host (in_port i) (in_role i) (if in_down i then 1 else 0) x
                  else x
              | None \<Rightarrow> x)))"

fun parse_sentinel_discovery ::
  "'e hiredis \<Rightarrow> string \<times> uint \<Rightarrow> redisReply \<Rightarrow> sentinel_state \<times> 'e world \<Rightarrow>
   string list \<times> sentinel_state \<times> 'e world" where
  "parse_sentinel_discovery h sentinel (Reply_Array rs) x = parse_elements h sentinel rs ([], x)"
| "parse_sentinel_discovery h sentinel r x = ([], x)"

end
