(* ===== verification/Sentinel_Inventory.thy ===== *)
theory Sentinel_Inventory
  imports Sentinel
begin

text \<open>
  The inventory of the Sentinel thread as a map from addresses to a role and the \<open>down\<close> flag, and the
  notifications of a Sentinel as updates of that map.
\<close>

section \<open>The inventory as a map\<close>

definition sn_key :: "sentinel_server \<Rightarrow> string \<times> uint" where
  "sn_key sv = (sn_host sv, sn_port sv)"

type_synonym inventory = "string \<times> uint \<Rightarrow> (role \<times> uint) option"

definition inventory :: "sentinel_state \<Rightarrow> inventory" where
  "inventory st = map_of (map (\<lambda>sv. (sn_key sv, (sn_role sv, sn_down sv))) (ss_servers st))"

definition inventory_ok :: "sentinel_state \<Rightarrow> bool" where
  "inventory_ok st \<longleftrightarrow> distinct (map sn_key (ss_servers st)) \<and> (\<forall>sv \<in> set (ss_servers st). sn_down sv \<in> {0, 1})"

text \<open>A report: a negative \<open>down\<close> says nothing on the state of the server.\<close>

fun learn :: "(string \<times> uint) \<times> role \<times> int \<Rightarrow> inventory \<Rightarrow> inventory" where
  "learn (k, role, down) m =
     m(k \<mapsto> (role, if down \<ge> 0 then word_of_int down else (case m k of None \<Rightarrow> 0 | Some (r, d) \<Rightarrow> d)))"

lemma find_key_None:
  "List.find (\<lambda>sv. sn_port sv = port \<and> sn_host sv = host) svs = None \<longleftrightarrow> (host, port) \<notin> sn_key ` set svs"
  by (auto simp: find_None_iff sn_key_def)

lemma inventory_find:
  "map_of (map (\<lambda>sv. (sn_key sv, (sn_role sv, sn_down sv))) svs) (host, port) =
   map_option (\<lambda>sv. (sn_role sv, sn_down sv)) (List.find (\<lambda>sv. sn_port sv = port \<and> sn_host sv = host) svs)"
  by (induction svs) (auto simp: sn_key_def)

lemma inventory_append:
  assumes "sn_key x \<notin> sn_key ` set svs"
  shows "map_of (map (\<lambda>sv. (sn_key sv, g sv)) (svs @ [x])) =
    (map_of (map (\<lambda>sv. (sn_key sv, g sv)) svs))(sn_key x \<mapsto> g x)"
  using assms by (induction svs) (auto simp: fun_upd_twist)

lemma update_first_keys:
  assumes "\<And>sv. sn_key (f sv) = sn_key sv"
  shows "map sn_key (update_first P f svs) = map sn_key svs"
  using assms by (induction svs) auto

lemma set_update_first: "set (update_first P f svs) \<subseteq> set svs \<union> f ` {sv \<in> set svs. P sv}"
  by (induction svs) auto

lemma update_first_map:
  assumes "\<And>sv. sn_key (f sv) = sn_key sv"
    and "List.find (\<lambda>sv. sn_port sv = port \<and> sn_host sv = host) svs = Some sv"
  shows "map_of (map (\<lambda>sv. (sn_key sv, g sv)) (update_first (\<lambda>sv. sn_port sv = port \<and> sn_host sv = host) f svs)) =
    (map_of (map (\<lambda>sv. (sn_key sv, g sv)) svs))((host, port) \<mapsto> g (f sv))"
proof -
  have key: "sn_host (f x) = sn_host x" "sn_port (f x) = sn_port x" for x
    using assms(1) [of x] by (simp_all add: sn_key_def)
  show ?thesis
    using assms(2) by (induction svs) (auto simp: key sn_key_def fun_upd_twist split: if_splits)
qed

section \<open>The step of the inventory\<close>

lemma store_effect:
  assumes ok: "inventory_ok st" and down: "down \<in> {- 1, 0, 1}"
    and run: "store_sentinel_reply h sentinel host port role down (st, w) = (st', w')"
  shows "inventory st' = learn ((host, port), role, down) (inventory st)" "inventory_ok st'"
    "last_change st' = (if inventory st' = inventory st then last_change st else fst (h_time h (net w)))"
    "st' = st\<lparr>ss_servers := ss_servers st', last_change := last_change st'\<rparr>" "only_net w w'"
proof -
  let ?P = "\<lambda>sv. sn_port sv = port \<and> sn_host sv = host"
  let ?g = "\<lambda>sv. (sn_role sv, sn_down sv)"
  have "inventory st' = learn ((host, port), role, down) (inventory st) \<and> inventory_ok st' \<and>
    last_change st' = (if inventory st' = inventory st then last_change st else fst (h_time h (net w))) \<and>
    st' = st\<lparr>ss_servers := ss_servers st', last_change := last_change st'\<rparr> \<and> only_net w w'"
  proof (cases "List.find ?P (ss_servers st)")
    case None
    let ?sv = "new_server sentinel host port role (if down > 0 then 1 else 0)"
    have key: "sn_key ?sv = (host, port)" by (simp add: sn_key_def new_server_def)
    have st': "st' = st\<lparr>ss_servers := ss_servers st @ [?sv], last_change := fst (h_time h (net w))\<rparr>"
      and w': "only_net w w'"
      using run None by (auto simp: store_sentinel_reply_def net_call_def tailq_insert_tail_def split: prod.splits)
    have new: "(host, port) \<notin> sn_key ` set (ss_servers st)" using None find_key_None by blast
    have n: "inventory st (host, port) = None" unfolding inventory_def inventory_find None by simp
    have i: "inventory st' = (inventory st)((host, port) \<mapsto> ?g ?sv)"
      using inventory_append [of ?sv "ss_servers st" ?g] new by (simp add: inventory_def st' key)
    have "?g ?sv = (role, if down \<ge> 0 then word_of_int down else 0)"
      using down by (auto simp: new_server_def)
    then have "inventory st' = learn ((host, port), role, down) (inventory st)" using i n by simp
    moreover have "inventory_ok st'" using ok new key by (auto simp: inventory_ok_def st' new_server_def)
    moreover have "inventory st' \<noteq> inventory st" using i n by (metis fun_upd_same option.distinct(1))
    ultimately show ?thesis using w' by (simp add: st')
  next
    case (Some sv)
    have n: "inventory st (host, port) = Some (?g sv)" unfolding inventory_def inventory_find Some by simp
    show ?thesis
    proof (cases "sn_role sv \<noteq> role \<or> (down \<ge> 0 \<and> sn_down sv \<noteq> word_of_int down)")
      case False
      then have "st' = st" "w' = w" using run Some by (auto simp: store_sentinel_reply_def)
      moreover have "learn ((host, port), role, down) (inventory st) = inventory st"
        using False n by (auto simp: fun_upd_idem_iff)
      ultimately show ?thesis using ok by simp
    next
      case True
      define f where "f = (\<lambda>sv :: sentinel_server. sv\<lparr>sn_sentinel := sentinel, sn_role := role,
        sn_down := (if down \<ge> 0 then word_of_int down else sn_down sv)\<rparr>)"
      have key: "sn_key (f x) = sn_key x" for x by (simp add: f_def sn_key_def)
      have st': "st' = st\<lparr>ss_servers := update_first ?P f (ss_servers st), last_change := fst (h_time h (net w))\<rparr>"
        and w': "only_net w w'"
        using run Some True
        by (auto simp: store_sentinel_reply_def net_call_def f_def Let_def split: prod.splits)
      have i: "inventory st' = (inventory st)((host, port) \<mapsto> ?g (f sv))"
        using update_first_map [OF key Some, of ?g] by (simp add: inventory_def st')
      then have l: "inventory st' = learn ((host, port), role, down) (inventory st)"
        using n by (simp add: f_def)
      have "?g (f sv) \<noteq> ?g sv" using True by (auto simp: f_def)
      then have "inventory st' \<noteq> inventory st" using i n by (metis fun_upd_same option.inject)
      moreover have "inventory_ok st'"
      proof -
        have f01: "sn_down (f x) \<in> {0, 1}" if "sn_down x \<in> {0, 1}" for x
          using that down by (auto simp: f_def)
        have "sn_down x \<in> {0, 1}" if "x \<in> set (update_first ?P f (ss_servers st))" for x
          using that set_update_first [of ?P f "ss_servers st"] ok f01 by (auto simp: inventory_ok_def)
        then show ?thesis using ok by (simp add: inventory_ok_def st' update_first_keys [OF key])
      qed
      ultimately show ?thesis using w' l by (simp add: st')
    qed
  qed
  then show "inventory st' = learn ((host, port), role, down) (inventory st)" "inventory_ok st'"
    "last_change st' = (if inventory st' = inventory st then last_change st else fst (h_time h (net w)))"
    "st' = st\<lparr>ss_servers := ss_servers st', last_change := last_change st'\<rparr>" "only_net w w'"
    by blast+
qed

text \<open>
  C26. The list of servers of the thread implements a map from addresses to a role and the \<open>down\<close>
  flag: a report registers or updates its server, a report without a state leaves the flag alone, no
  address is listed twice, and the time of the last change is set exactly when the map changes.
  Nothing else of the thread changes, and of the world only the clock is read.
\<close>

theorem inventory_refinement:
  assumes "inventory_ok st" and "down \<in> {- 1, 0, 1}"
    and "store_sentinel_reply h sentinel host port role down (st, w) = (st', w')"
  shows "inventory st' = learn ((host, port), role, down) (inventory st) \<and> inventory_ok st' \<and>
    last_change st' = (if inventory st' = inventory st then last_change st else fst (h_time h (net w))) \<and>
    st' = st\<lparr>ss_servers := ss_servers st', last_change := last_change st'\<rparr> \<and> only_net w w'"
  using store_effect [OF assms] by blast

definition lab_sentinel :: sentinel_state where
  "lab_sentinel =
     (new_state 60 \<lparr>tv_sec = 1, tv_usec = 0\<rparr> \<lparr>tv_sec = 1, tv_usec = 0\<rparr> PROTO_DEFAULT None None)
       \<lparr>ss_sentinels := [(''s'', 26379)],
        ss_servers := [new_server (''s'', 26379) ''a'' 1 MASTER 0, new_server (''s'', 26379) ''b'' 2 SLAVE 1]\<rparr>"

theorem inventory_refinement_witness:
  "inventory (fst (store_sentinel_reply (lab (\<lambda>c. None) 9) (''s'', 26379) ''b'' 2 MASTER (- 1) (lab_sentinel, lab_empty False False)))
     = [(''a'', 1) \<mapsto> (MASTER, 0), (''b'', 2) \<mapsto> (MASTER, 1)] \<and>
   last_change (fst (store_sentinel_reply (lab (\<lambda>c. None) 9) (''s'', 26379) ''b'' 2 MASTER (- 1) (lab_sentinel, lab_empty False False)))
     = 100"
proof -
  let ?run = "store_sentinel_reply (lab (\<lambda>c. None) 9) (''s'', 26379) ''b'' 2 MASTER (- 1) (lab_sentinel, lab_empty False False)"
  have ok: "inventory_ok lab_sentinel"
    by (simp add: inventory_ok_def lab_sentinel_def new_state_def new_server_def sn_key_def)
  have i: "inventory lab_sentinel = [(''a'', 1) \<mapsto> (MASTER, 0), (''b'', 2) \<mapsto> (SLAVE, 1)]"
    by (simp add: inventory_def lab_sentinel_def new_state_def new_server_def sn_key_def fun_upd_twist)
  have "(MASTER, 1) \<noteq> (SLAVE, 1 :: uint)" by simp
  then have "[(''a'', 1) \<mapsto> (MASTER, 0), (''b'', 2) \<mapsto> (MASTER, 1)] \<noteq> inventory lab_sentinel"
    unfolding i by (metis fun_upd_same option.inject)
  then show ?thesis
    using inventory_refinement [OF ok _ surjective_pairing [of ?run]] i by (simp add: lab_def lab_empty_def)
qed

section \<open>Notifications\<close>

lemma store_steps:
  assumes "inventory_ok st" and "down \<in> {- 1, 0, 1}"
  obtains st' w' where "store_sentinel_reply h sentinel host port role down (st, w) = (st', w')"
    "inventory st' = learn ((host, port), role, down) (inventory st)" "inventory_ok st'" "only_net w w'"
    "st' = st\<lparr>ss_servers := ss_servers st', last_change := last_change st'\<rparr>"
proof -
  obtain st' w' where run: "store_sentinel_reply h sentinel host port role down (st, w) = (st', w')" by fastforce
  show thesis using that [OF run] store_effect [OF assms run] by blast
qed

text \<open>The events that change the inventory, and the messages that carry them.\<close>

datatype event =
    Down bool role string string nat "string list"
  | Odown bool role string string nat "string list"
  | Switch string string nat string nat "string list"

fun unwords :: "string list \<Rightarrow> string" where
  "unwords [] = []"
| "unwords [x] = x"
| "unwords (x # y # xs) = x @ CHR '' '' # unwords (y # xs)"

definition word_ok :: "string \<Rightarrow> bool" where
  "word_ok s \<longleftrightarrow> s \<noteq> [] \<and> CHR '' '' \<notin> set s"

fun kind_of :: "role \<Rightarrow> string" where
  "kind_of MASTER = ''master''"
| "kind_of SLAVE = ''slave''"
| "kind_of TBD = ''sentinel''"

fun event_text :: "event \<Rightarrow> string \<times> string" where
  "event_text (Down up role name ip port extra) =
     ((if up then ''-sdown'' else ''+sdown''), unwords ([kind_of role, name, ip, string_of_nat port] @ extra))"
| "event_text (Odown up role name ip port extra) =
     ((if up then ''-odown'' else ''+odown''), unwords ([kind_of role, name, ip, string_of_nat port] @ extra))"
| "event_text (Switch name old_ip old_port new_ip new_port extra) =
     (''+switch-master'',
      unwords ([name, old_ip, string_of_nat old_port, new_ip, string_of_nat new_port] @ extra))"

definition event_reply :: "bool \<Rightarrow> event \<Rightarrow> redisReply" where
  "event_reply push e =
     (let es = [Reply_String ''pmessage'', Reply_String ''*'', Reply_String (fst (event_text e)),
                Reply_String (snd (event_text e))]
      in if push then Reply_Push es else Reply_Array es)"

fun event_ok :: "event \<Rightarrow> bool" where
  "event_ok (Down up role name ip port extra) = (word_ok name \<and> word_ok ip \<and> port \<le> 65535)"
| "event_ok (Odown up role name ip port extra) = (word_ok name \<and> word_ok ip \<and> port \<le> 65535)"
| "event_ok (Switch name old_ip old_port new_ip new_port extra) =
     (word_ok name \<and> word_ok old_ip \<and> word_ok new_ip \<and> old_port \<le> 65535 \<and> new_port \<le> 65535)"

text \<open>What an event means; one about a Sentinel (the kind of \<open>TBD\<close>) means nothing.\<close>

fun event_reports :: "event \<Rightarrow> ((string \<times> uint) \<times> role \<times> int) list" where
  "event_reports (Down up role name ip port extra) =
     (if role = TBD then [] else [((ip, word_of_nat port), role, if up then 0 else 1)])"
| "event_reports (Odown up role name ip port extra) =
     (if role = TBD then [] else [((ip, word_of_nat port), role, if up then 0 else 1)])"
| "event_reports (Switch name old_ip old_port new_ip new_port extra) =
     [((old_ip, word_of_nat old_port), SLAVE, - 1), ((new_ip, word_of_nat new_port), MASTER, 0)]"

lemma strtok_word:
  assumes "word_ok x"
  shows "strtok_r x = Some (x, [])" "strtok_r (x @ CHR '' '' # s) = Some (x, s)"
proof -
  obtain c cs where x: "x = c # cs" "c \<noteq> CHR '' ''" and n: "\<forall>c \<in> set x. c \<noteq> CHR '' ''"
    using assms by (cases x) (auto simp: word_ok_def)
  have "takeWhile (\<lambda>c. c \<noteq> CHR '' '') x = x" "length (dropWhile (\<lambda>c. c \<noteq> CHR '' '') cs) \<le> Suc 0"
    using n x by (simp_all add: takeWhile_eq_all_conv dropWhile_eq_Nil_conv [THEN iffD2])
  moreover have "takeWhile (\<lambda>c. c \<noteq> CHR '' '') (x @ CHR '' '' # s) = x"
    "dropWhile (\<lambda>c. c \<noteq> CHR '' '') (x @ CHR '' '' # s) = CHR '' '' # s"
    using n by (simp_all add: takeWhile_append2 dropWhile_append2)
  ultimately show "strtok_r x = Some (x, [])" "strtok_r (x @ CHR '' '' # s) = Some (x, s)"
    using x by (simp_all add: strtok_r_def)
qed

lemma strtok_unwords:
  assumes "word_ok x"
  shows "strtok_r (unwords (x # xs)) = Some (x, unwords xs)"
  using strtok_word [OF assms] by (cases xs) simp_all

lemma word_ok_simps [simp]:
  "word_ok ''master''" "word_ok ''slave''" "word_ok ''sentinel''" "word_ok (kind_of r)" "word_ok (string_of_nat n)"
proof -
  show *: "word_ok ''master''" "word_ok ''slave''" "word_ok ''sentinel''" by (simp_all add: word_ok_def)
  then show "word_ok (kind_of r)" by (cases r) simp_all
  have "\<not> is_digit CHR '' ''" by code_simp
  then show "word_ok (string_of_nat n)" using digits_string_of_nat by (auto simp: word_ok_def)
qed

lemma port_number_text: "port \<le> 65535 \<Longrightarrow> port_number (string_of_nat port) = word_of_nat port"
  by (simp add: port_number_def atoi_string_of_nat)

lemma parse_instance_text:
  assumes "word_ok name" and "word_ok ip" and "port \<le> 65535"
  shows "parse_instance (unwords (kind_of role # name # ip # string_of_nat port # extra)) =
    (if role = TBD then None else Some (role, ip, word_of_nat port))"
  using assms by (cases role) (simp_all add: parse_instance_def strtok_unwords port_number_text del: unwords.simps)

lemma parse_switch_text:
  assumes "word_ok name" and "word_ok old_ip" and "word_ok new_ip" and "old_port \<le> 65535" and "new_port \<le> 65535"
  shows "parse_switch (unwords (name # old_ip # string_of_nat old_port # new_ip # string_of_nat new_port # extra)) =
    Some ((old_ip, word_of_nat old_port), (new_ip, word_of_nat new_port))"
  using assms by (simp add: parse_switch_def strtok_unwords port_number_text del: unwords.simps)

lemma notification_event: "notification_of (Some (event_reply push e)) = Some (event_text e)"
  by (cases push) (simp_all add: event_reply_def Let_def)

lemma notification_step:
  assumes "event_ok e"
  shows "parse_sentinel_notification h sentinel (Some (event_reply push e)) x =
    fold (\<lambda>((host, port), role, down). store_sentinel_reply h sentinel host port role down) (event_reports e) x"
  using assms
  by (cases e) (simp_all add: parse_sentinel_notification_def notification_event parse_instance_text parse_switch_text
      del: unwords.simps)

fun run_notifications ::
  "'e hiredis \<Rightarrow> ((string \<times> uint) \<times> redisReply option) list \<Rightarrow> sentinel_state \<times> 'e world \<Rightarrow>
   sentinel_state \<times> 'e world" where
  "run_notifications h [] x = x"
| "run_notifications h ((sentinel, reply) # rs) x =
     run_notifications h rs (parse_sentinel_notification h sentinel reply x)"

lemma reports_run:
  assumes "\<forall>(k, role, down) \<in> set rs. down \<in> {- 1, 0, 1}" and "inventory_ok st"
  shows "\<exists>st' w'. fold (\<lambda>((host, port), role, down). store_sentinel_reply h sentinel host port role down) rs (st, w) = (st', w') \<and>
    inventory st' = fold learn rs (inventory st) \<and> inventory_ok st' \<and> only_net w w'"
  using assms
proof (induction rs arbitrary: st w)
  case Nil
  then show ?case by simp
next
  case (Cons r rs)
  obtain host port role down where r: "r = ((host, port), role, down)" by (metis prod.exhaust)
  have down: "down \<in> {- 1, 0, 1}" using Cons.prems(1) r by simp
  obtain st1 w1 where s: "store_sentinel_reply h sentinel host port role down (st, w) = (st1, w1)"
    and i: "inventory st1 = learn r (inventory st)" and ok: "inventory_ok st1" and n: "only_net w w1"
    using store_steps [OF Cons.prems(2) down] r by metis
  have "\<forall>(k, role, down) \<in> set rs. down \<in> {- 1, 0, 1}" using Cons.prems(1) by simp
  from Cons.IH [OF this ok, of w1] obtain st' w' where
    "fold (\<lambda>((host, port), role, down). store_sentinel_reply h sentinel host port role down) rs (st1, w1) = (st', w')"
    "inventory st' = fold learn rs (inventory st1)" "inventory_ok st'" "only_net w1 w'"
    by blast
  then show ?case using only_net_trans [OF n] by (intro exI [of _ st'] exI [of _ w']) (simp add: r s i)
qed

lemma event_reports_down: "\<forall>(k, role, down) \<in> set (event_reports e). down \<in> {- 1, 0, 1}"
  by (cases e) auto

text \<open>
  C27. Any sequence of the notifications a Sentinel sends (\<open>sdown\<close>, \<open>odown\<close> and \<open>switch-master\<close>, for
  servers and for Sentinels, over RESP2 or RESP3, with any further words) updates the inventory as the
  events it carries say: a server goes down or comes up, or after a failover the old master is a slave
  whose state is as it was, and the new one is a master that is up.
\<close>

theorem notifications_are_events:
  assumes "inventory_ok st" and "\<forall>(sentinel, push, e) \<in> set es. event_ok e"
    and "run_notifications h (map (\<lambda>(sentinel, push, e). (sentinel, Some (event_reply push e))) es) (st, w) = (st', w')"
  shows "inventory st' = fold learn (concat (map (\<lambda>(sentinel, push, e). event_reports e) es)) (inventory st) \<and>
    inventory_ok st' \<and> only_net w w'"
  using assms
proof (induction es arbitrary: st w)
  case Nil
  then show ?case by simp
next
  case (Cons x es)
  obtain sentinel push e where x: "x = (sentinel, push, e)" by (metis prod.exhaust)
  have e: "event_ok e" using Cons.prems(2) x by simp
  obtain st1 w1 where s: "parse_sentinel_notification h sentinel (Some (event_reply push e)) (st, w) = (st1, w1)"
    and i: "inventory st1 = fold learn (event_reports e) (inventory st)" and ok: "inventory_ok st1" and n: "only_net w w1"
    using reports_run [OF event_reports_down Cons.prems(1)] notification_step [OF e] by metis
  have es: "\<forall>(sentinel, push, e) \<in> set es. event_ok e" using Cons.prems(2) by simp
  have run: "run_notifications h (map (\<lambda>(sentinel, push, e). (sentinel, Some (event_reply push e))) es) (st1, w1) = (st', w')"
    using Cons.prems(3) by (simp add: x s)
  from Cons.IH [OF ok es run] show ?case using only_net_trans [OF n] by (simp add: x i)
qed

theorem notifications_are_events_witness:
  "inventory (fst (run_notifications (lab (\<lambda>c. None) 9)
      [((''s'', 26379), Some (event_reply True (Down False MASTER ''m'' ''a'' 1 [''@'', ''m'']))),
       ((''s'', 26379), Some (event_reply False (Switch ''m'' ''a'' 1 ''b'' 2 [])))] (lab_sentinel, lab_empty False False)))
     = [(''a'', 1) \<mapsto> (SLAVE, 1), (''b'', 2) \<mapsto> (MASTER, 0)]"
proof -
  let ?es = "[((''s'', 26379 :: uint), True, Down False MASTER ''m'' ''a'' 1 [''@'', ''m'']),
       ((''s'', 26379), False, Switch ''m'' ''a'' 1 ''b'' 2 [])]"
  have ok: "inventory_ok lab_sentinel"
    by (simp add: inventory_ok_def lab_sentinel_def new_state_def new_server_def sn_key_def)
  have i: "inventory lab_sentinel = [(''a'', 1) \<mapsto> (MASTER, 0), (''b'', 2) \<mapsto> (SLAVE, 1)]"
    by (simp add: inventory_def lab_sentinel_def new_state_def new_server_def sn_key_def fun_upd_twist)
  have es: "\<forall>(sentinel, push, e) \<in> set ?es. event_ok e" by (simp add: word_ok_def)
  show ?thesis
    using notifications_are_events [OF ok es surjective_pairing, of "lab (\<lambda>c. None) 9" "lab_empty False False"] i by (simp add: fun_upd_twist)
qed

end
