(* ===== verification/Sentinel_Update.thy ===== *)
theory Sentinel_Update
  imports Sentinel_Inventory
begin

text \<open>
  How the Sentinel thread asks the Sentinels for their servers (\<open>discover_servers\<close>) and brings the
  databases in line with its inventory (\<open>unsafe_update_dbs\<close>). A server that changes its role moves
  to another list of its database while the loop over the lists runs.
\<close>

section \<open>Asking the Sentinels\<close>

definition secure_sentinel ::
  "'e hiredis \<Rightarrow> sentinel_state \<Rightarrow> rcontext \<Rightarrow> 'e world \<Rightarrow> rcontext option \<times> 'e world" where
  "secure_sentinel h st rc w =
     (case ss_tls_ssl_ctx st of
        None \<Rightarrow> (Some rc, w)
      | Some ssl \<Rightarrow>
          (let (ok, w) = net_call (h_tls h rc ssl) w
           in if ok then (Some rc, w) else (None, net_do (h_free h rc) w)))"

definition auth_sentinel ::
  "'e hiredis \<Rightarrow> sentinel_state \<Rightarrow> rcontext \<Rightarrow> 'e world \<Rightarrow> rcontext option \<times> 'e world" where
  "auth_sentinel h st rc w =
     (case ss_password st of
        None \<Rightarrow> (Some rc, w)
      | Some p \<Rightarrow>
          (let (reply, w) = net_call (h_command h rc [''AUTH'', p]) w
           in if rc_err h rc w \<or> reply = None \<or> \<not> is_status_OK (the reply)
              then (None, net_do (h_free h rc) w) else (Some rc, w)))"

definition hello_sentinel ::
  "'e hiredis \<Rightarrow> sentinel_state \<Rightarrow> rcontext \<Rightarrow> 'e world \<Rightarrow> rcontext option \<times> 'e world" where
  "hello_sentinel h st rc w =
     (if ss_protocol st = PROTO_DEFAULT then (Some rc, w)
      else
        (let (reply, w) = net_call (h_command h rc [''HELLO'', string_of_nat (proto_num (ss_protocol st))]) w
         in if rc_err h rc w \<or> reply = None \<or> \<not> is_array_or_map (the reply)
            then (None, net_do (h_free h rc) w) else (Some rc, w)))"

definition connect_sentinel ::
  "'e hiredis \<Rightarrow> sentinel_state \<Rightarrow> string \<times> uint \<Rightarrow> 'e world \<Rightarrow> rcontext option \<times> 'e world" where
  "connect_sentinel h st sentinel w =
     (case net_call (h_connect h (Host (fst sentinel) (snd sentinel)) (timeout_set (ss_connection_timeout st))) w of
        (None, w) \<Rightarrow> (None, w)
      | (Some rc, w) \<Rightarrow>
          if rc_err h rc w then (None, net_do (h_free h rc) w)
          else
            (let (tr, w) = net_call (h_set_timeout h rc (ss_command_timeout st)) w
             in case secure_sentinel h st rc w of
                  (None, w) \<Rightarrow> (None, w)
                | (Some rc, w) \<Rightarrow>
                    (case auth_sentinel h st rc w of
                       (None, w) \<Rightarrow> (None, w)
                     | (Some rc, w) \<Rightarrow> hello_sentinel h st rc w)))"

text \<open>\<open>SENTINEL slaves\<close> for each name of a master; a broken connection ends the loop.\<close>

fun ask_slaves ::
  "'e hiredis \<Rightarrow> string \<times> uint \<Rightarrow> rcontext \<Rightarrow> string list \<Rightarrow> sentinel_state \<times> 'e world \<Rightarrow>
   sentinel_state \<times> 'e world" where
  "ask_slaves h sentinel rc [] x = x"
| "ask_slaves h sentinel rc (name # names) (st, w) =
     (if rc_err h rc w then (st, w)
      else
        (case net_call (h_command h rc [''SENTINEL'', ''slaves'', name]) w of
           (None, w) \<Rightarrow> ask_slaves h sentinel rc names (st, w)
         | (Some reply, w) \<Rightarrow>
             ask_slaves h sentinel rc names (snd (parse_sentinel_discovery h sentinel reply (st, w)))))"

definition ask_sentinel ::
  "'e hiredis \<Rightarrow> string \<times> uint \<Rightarrow> sentinel_state \<times> 'e world \<Rightarrow> sentinel_state \<times> 'e world" where
  "ask_sentinel h sentinel = (\<lambda>(st, w).
     (case connect_sentinel h st sentinel w of
        (None, w) \<Rightarrow> (st, w)
      | (Some rc, w) \<Rightarrow>
          (let (st, w) =
                 (case net_call (h_command h rc [''SENTINEL'', ''masters'']) w of
                    (None, w) \<Rightarrow> (st, w)
                  | (Some reply, w) \<Rightarrow>
                      (let (names, x) = parse_sentinel_discovery h sentinel reply (st, w)
                       in ask_slaves h sentinel rc names x))
           in (st, net_do (h_free h rc) w))))"

definition discover_servers :: "'e hiredis \<Rightarrow> sentinel_state \<times> 'e world \<Rightarrow> sentinel_state \<times> 'e world" where
  "discover_servers h x = fold (ask_sentinel h) (ss_sentinels (fst x)) x"

section \<open>Updating the databases\<close>

definition UINT_MAX :: int where "UINT_MAX = 4294967295"

fun entry_for :: "location \<Rightarrow> sentinel_server \<Rightarrow> bool" where
  "entry_for (Host host port) is = (port = sn_port is \<and> host = sn_host is)"
| "entry_for (Socket path) is = False"

definition change_role :: "server_ptr \<Rightarrow> role \<Rightarrow> 'e world \<Rightarrow> 'e world option" where
  "change_role s r w =
     (if sv_role (srvs w s) \<noteq> r
      then file_server (sv_db (srvs w s)) s
             (upd_srv s (\<lambda>sv. sv\<lparr>sv_role := r\<rparr>)
               (upd_servers (sv_db (srvs w s)) (sv_weight (srvs w s)) (sv_role (srvs w s))
                 (\<lambda>l. tailq_remove l s) w))
      else Some w)"

definition change_sickness :: "'e hiredis \<Rightarrow> server_ptr \<Rightarrow> bool \<Rightarrow> 'e world \<Rightarrow> 'e world" where
  "change_sickness h s down w =
     (let (now, w) = net_call (h_time h) w
      in if sick_exp (srvs w s) \<le> now
         then (if down then upd_srv s (\<lambda>sv. sv\<lparr>sick_exp := UINT_MAX\<rparr>) w else w)
         else (if \<not> down then upd_srv s (\<lambda>sv. sv\<lparr>sick_exp := now\<rparr>) w else w))"

definition unsafe_update_dbs_aux ::
  "'e hiredis \<Rightarrow> sentinel_state \<Rightarrow> server_ptr \<Rightarrow> 'e world \<Rightarrow> 'e world option" where
  "unsafe_update_dbs_aux h st s w = do {
     _ \<leftarrow> Lck_AssertHeld Config_Mutex w;
     _ \<leftarrow> Lck_AssertHeld (Db_Mutex (sv_db (srvs w s))) w;
     (case List.find (entry_for (sv_loc (srvs w s))) (ss_servers st) of
        None \<Rightarrow> Some w
      | Some is \<Rightarrow> do {
          w \<leftarrow> change_role s (sn_role is) w;
          Some (change_sickness h s (sn_down is \<noteq> 0) w)
        })
   }"

text \<open>
  \<open>VTAILQ_FOREACH_SAFE\<close> takes the next server before the body, which unlinks no other server: the
  loop visits the servers of the list as it is when the loop starts.
\<close>

fun update_servers ::
  "'e hiredis \<Rightarrow> sentinel_state \<Rightarrow> server_ptr list \<Rightarrow> 'e world \<Rightarrow> 'e world option" where
  "update_servers h st [] w = Some w"
| "update_servers h st (s # ss) w =
     (case (if is_host (sv_loc (srvs w s)) then unsafe_update_dbs_aux h st s w else Some w) of
        None \<Rightarrow> None
      | Some w \<Rightarrow> update_servers h st ss w)"

fun update_cells ::
  "'e hiredis \<Rightarrow> sentinel_state \<Rightarrow> db_ptr \<Rightarrow> (nat \<times> role) list \<Rightarrow> 'e world \<Rightarrow> 'e world option" where
  "update_cells h st d [] w = Some w"
| "update_cells h st d ((iweight, irole) # cs) w =
     (case update_servers h st (servers (dbs w d) iweight irole) w of
        None \<Rightarrow> None
      | Some w \<Rightarrow> update_cells h st d cs w)"

fun update_databases ::
  "'e hiredis \<Rightarrow> sentinel_state \<Rightarrow> db_ptr list \<Rightarrow> 'e world \<Rightarrow> 'e world option" where
  "update_databases h st [] w = Some w"
| "update_databases h st (d # ds) w = do {
     w \<leftarrow> (if \<not> cluster_enabled (dbs w d)
           then do {
             w \<leftarrow> Lck_Lock (Db_Mutex d) w;
             w \<leftarrow> update_cells h st d cells w;
             Lck_Unlock (Db_Mutex d) w
           }
           else Some w);
     update_databases h st ds w
   }"

definition unsafe_update_dbs :: "'e hiredis \<Rightarrow> sentinel_state \<Rightarrow> 'e world \<Rightarrow> 'e world option" where
  "unsafe_update_dbs h st w = do {
     _ \<leftarrow> Lck_AssertHeld Config_Mutex w;
     update_databases h st (vcl_dbs (config w)) w
   }"

end
