(* ===== verification/Sentinel_Agreement.thy ===== *)
theory Sentinel_Agreement
  imports Sentinel_Update
begin

text \<open>
  The databases agree with the inventory after an update. The loop over the lists moves servers between
  them; it misses none, since a server that moves has just been settled.
\<close>

section \<open>What an update may change\<close>

text \<open>The states of the outside, and the times read, as the clock is read again and again.\<close>

definition later :: "'e hiredis \<Rightarrow> 'e \<Rightarrow> 'e set" where
  "later h e0 = {((snd \<circ> h_time h) ^^ n) e0 | n. True}"

definition clock_times :: "'e hiredis \<Rightarrow> 'e \<Rightarrow> int set" where
  "clock_times h e0 = (fst \<circ> h_time h) ` later h e0"

lemma later_refl [simp]: "e0 \<in> later h e0"
  unfolding later_def by (rule CollectI, rule exI [of _ 0]) simp

lemma later_step: "e \<in> later h e0 \<Longrightarrow> snd (h_time h e) \<in> later h e0"
proof -
  assume "e \<in> later h e0"
  then obtain n where "e = ((snd \<circ> h_time h) ^^ n) e0" by (auto simp: later_def)
  then have "snd (h_time h e) = ((snd \<circ> h_time h) ^^ Suc n) e0" by simp
  then show ?thesis unfolding later_def by blast
qed

lemma times_later: "e \<in> later h e0 \<Longrightarrow> fst (h_time h e) \<in> clock_times h e0"
  by (simp add: clock_times_def)

definition sick_as :: "'e hiredis \<Rightarrow> 'e \<Rightarrow> bool \<Rightarrow> int \<Rightarrow> bool" where
  "sick_as h e0 down x \<longleftrightarrow>
     (if down then x = UINT_MAX \<or> (\<exists>t \<in> clock_times h e0. t < x) else (\<exists>t \<in> clock_times h e0. x \<le> t))"

definition entry_of :: "sentinel_state \<Rightarrow> redis_server \<Rightarrow> sentinel_server option" where
  "entry_of st sv = List.find (entry_for (sv_loc sv)) (ss_servers st)"

text \<open>A server agrees with the inventory, and what becomes of one that is changed.\<close>

definition agreed :: "'e hiredis \<Rightarrow> 'e \<Rightarrow> sentinel_state \<Rightarrow> redis_server \<Rightarrow> bool" where
  "agreed h e0 st sv \<longleftrightarrow>
     (\<forall>is. entry_of st sv = Some is \<longrightarrow> sv_role sv = sn_role is \<and> sick_as h e0 (sn_down is \<noteq> 0) (sick_exp sv))"

definition settled :: "'e hiredis \<Rightarrow> 'e \<Rightarrow> sentinel_state \<Rightarrow> redis_server \<Rightarrow> redis_server \<Rightarrow> bool" where
  "settled h e0 st sv sv' \<longleftrightarrow>
     sv' = sv \<or> sv' = sv\<lparr>sv_role := sv_role sv', sick_exp := sick_exp sv'\<rparr> \<and> entry_of st sv \<noteq> None \<and> agreed h e0 st sv'"

definition same_but_lists :: "db_ptr \<Rightarrow> 'e world \<Rightarrow> 'e world \<Rightarrow> bool" where
  "same_but_lists d w w' \<longleftrightarrow>
     next_srv w' = next_srv w \<and> next_ctx w' = next_ctx w \<and> task w' = task w \<and> config w' = config w \<and>
     vmod_version w' = vmod_version w \<and> held w' = held w \<and> vrt_failed w' = vrt_failed w \<and>
     dbs w' d = (dbs w d)\<lparr>servers := servers (dbs w' d)\<rparr> \<and> (\<forall>d'. d' \<noteq> d \<longrightarrow> dbs w' d' = dbs w d')"

definition update_frame :: "'e hiredis \<Rightarrow> 'e \<Rightarrow> sentinel_state \<Rightarrow> db_ptr \<Rightarrow> 'e world \<Rightarrow> 'e world \<Rightarrow> bool" where
  "update_frame h e0 st d w w' \<longleftrightarrow>
     same_but_lists d w w' \<and> net w' \<in> later h e0 \<and>
     reg_ok d w' \<and> registered w' d = registered w d \<and>
     (\<forall>s. settled h e0 st (srvs w s) (srvs w' s)) \<and>
     (\<forall>s. s \<notin> registered w d \<longrightarrow> srvs w' s = srvs w s)"

lemma settled_refl [simp]: "settled h e0 st sv sv"
  by (simp add: settled_def)

lemma settled_loc: "settled h e0 st sv sv' \<Longrightarrow> sv_loc sv' = sv_loc sv \<and> sv_db sv' = sv_db sv \<and> sv_weight sv' = sv_weight sv"
  by (auto simp: settled_def) (metis redis_server.select_convs(1,3,5) redis_server.surjective redis_server.update_convs(4,9))+

lemma settled_entry: "settled h e0 st sv sv' \<Longrightarrow> entry_of st sv' = entry_of st sv"
  by (simp add: entry_of_def settled_loc)

lemma settled_trans:
  assumes "settled h e0 st a b" and "settled h e0 st b c"
  shows "settled h e0 st a c"
proof -
  have "c = a\<lparr>sv_role := sv_role c, sick_exp := sick_exp c\<rparr>"
    if "b = a\<lparr>sv_role := sv_role b, sick_exp := sick_exp b\<rparr>" "c = b\<lparr>sv_role := sv_role c, sick_exp := sick_exp c\<rparr>"
    using that by (metis redis_server.surjective redis_server.update_convs(4,9))
  then show ?thesis
    using assms settled_entry [OF assms(1)] by (auto simp: settled_def)
qed

lemma settled_agreed: "settled h e0 st sv sv' \<Longrightarrow> agreed h e0 st sv \<Longrightarrow> agreed h e0 st sv'"
  by (auto simp: settled_def)

lemma db_servers_trans:
  "b = a\<lparr>servers := servers b\<rparr> \<Longrightarrow> c = b\<lparr>servers := servers c\<rparr> \<Longrightarrow> c = a\<lparr>servers := servers c\<rparr>"
  for a :: vmod_redis_db
  by (cases a, cases b, cases c) simp

lemma same_but_lists_trans:
  assumes "same_but_lists d a b" and "same_but_lists d b c"
  shows "same_but_lists d a c"
proof -
  have "dbs c d = (dbs a d)\<lparr>servers := servers (dbs c d)\<rparr>"
    using assms db_servers_trans [of "dbs b d" "dbs a d" "dbs c d"] unfolding same_but_lists_def by blast
  then show ?thesis using assms unfolding same_but_lists_def by simp
qed

lemma same_but_lists_refl [simp]: "same_but_lists d w w"
  by (simp add: same_but_lists_def)

section \<open>One server\<close>

lemma change_sickness_effect:
  assumes "net w \<in> later h e0"
  obtains x where "sick_as h e0 down x"
    "srvs (change_sickness h s down w) = (srvs w)(s := (srvs w s)\<lparr>sick_exp := x\<rparr>)"
    "same_but_lists d w (change_sickness h s down w)" "same_core w (change_sickness h s down w)"
    "dbs (change_sickness h s down w) = dbs w" "net (change_sickness h s down w) \<in> later h e0"
proof -
  let ?w = "change_sickness h s down w"
  define now where "now = fst (h_time h (net w))"
  define x where "x = (if sick_exp (srvs w s) \<le> now then (if down then UINT_MAX else sick_exp (srvs w s))
    else (if down then sick_exp (srvs w s) else now))"
  have "srvs ?w = (srvs w)(s := (srvs w s)\<lparr>sick_exp := x\<rparr>)"
    by (auto simp: change_sickness_def net_call_def x_def now_def upd_srv_def split: prod.splits)
  moreover have "sick_as h e0 down x"
    using times_later [OF assms] unfolding sick_as_def x_def now_def by (smt (verit))
  moreover have "same_but_lists d w ?w"
    by (auto simp: change_sickness_def net_call_def upd_srv_def same_but_lists_def split: prod.splits)
  moreover have "same_core w ?w" "dbs ?w = dbs w"
    by (auto simp: change_sickness_def net_call_def same_core_sick frame_simps split: prod.splits)
  moreover have "net ?w = snd (h_time h (net w))"
    by (auto simp: change_sickness_def net_call_def frame_simps split: prod.splits)
  then have "net ?w \<in> later h e0" using later_step [OF assms] by simp
  ultimately show thesis using that by blast
qed

lemma change_role_effect:
  assumes ok: "reg_ok d w" and s: "s \<in> registered w d"
  obtains w' where "change_role s r w = Some w'" "reg_ok d w'" "registered w' d = registered w d"
    "srvs w' = (srvs w)(s := (srvs w s)\<lparr>sv_role := r\<rparr>)"
    "same_but_lists d w w'" "net w' = net w"
proof (cases "sv_role (srvs w s) = r")
  case True
  then show thesis using that [of w] ok by (auto simp: change_role_def)
next
  case False
  have m: "s \<in> set (servers (dbs w d) (sv_weight (srvs w s)) (sv_role (srvs w s)))"
    using registered_iff [OF ok] s by blast
  have fo: "filed_ok w d (sv_weight (srvs w s)) (sv_role (srvs w s)) s" by (rule reg_ok_filed [OF ok m])
  then have d: "sv_db (srvs w s) = d" by (simp add: filed_ok_def)
  define w1 where "w1 = upd_servers d (sv_weight (srvs w s)) (sv_role (srvs w s)) (\<lambda>l. tailq_remove l s) w"
  define w2 where "w2 = upd_srv s (\<lambda>sv. sv\<lparr>sv_role := r\<rparr>) w1"
  define w3 where "w3 = upd_servers d (sv_weight (srvs w2 s)) (sv_role (srvs w2 s)) (\<lambda>l. tailq_insert_tail l s) w2"
  have reg1: "registered w1 d = registered w d - {s}" unfolding w1_def by (rule registered_remove [OF ok m])
  have ok2: "reg_ok d w2"
    unfolding w2_def using reg_ok_remove [OF ok] reg1 by (intro reg_ok_upd_srv) (simp_all add: w1_def)
  have reg2: "registered w2 d = registered w d - {s}" using reg1 by (simp add: w2_def)
  have fo2: "filed_ok w2 d (sv_weight (srvs w2 s)) (sv_role (srvs w2 s)) s"
    using fo by (simp add: filed_ok_def w2_def w1_def frame_simps upd_servers_db)
  have "sv_raw (srvs w2 x) \<noteq> sv_raw (srvs w2 s)" if "x \<in> registered w2 d" for x
    using that reg_ok_inj [OF ok _ s, of x] unfolding reg2 by (auto simp: w2_def w1_def frame_simps)
  then have ok3: "reg_ok d w3"
    unfolding w3_def using reg_ok_insert [OF ok2 _ fo2] reg2 by simp
  have "change_role s r w = Some w3"
    using False fo2 by (simp add: change_role_def d file_server_def filed_ok_def w3_def w2_def w1_def)
  moreover have "registered w3 d = registered w d"
    using s unfolding w3_def registered_insert reg2 by blast
  moreover have "srvs w3 = (srvs w)(s := (srvs w s)\<lparr>sv_role := r\<rparr>)"
    by (simp add: w3_def w2_def w1_def frame_simps)
  moreover have "net w3 = net w" by (simp add: w3_def w2_def w1_def frame_simps)
  moreover have "same_but_lists d w w3"
    by (simp add: w3_def w2_def w1_def upd_servers_def upd_db_def upd_srv_def same_but_lists_def)
  ultimately show thesis using that ok3 by blast
qed

lemma update_frame_refl: "reg_ok d w \<Longrightarrow> net w \<in> later h e0 \<Longrightarrow> update_frame h e0 st d w w"
  by (simp add: update_frame_def)

lemma update_frame_trans:
  assumes "update_frame h e0 st d a b" and "update_frame h e0 st d b c"
  shows "update_frame h e0 st d a c"
proof -
  show ?thesis
    using assms settled_trans same_but_lists_trans unfolding update_frame_def by metis
qed

lemma update_frame_fields:
  assumes "update_frame h e0 st d w w'"
  shows "held w' = held w" "config w' = config w" "next_srv w' = next_srv w"
    "cluster_enabled (dbs w' d') = cluster_enabled (dbs w d')" "d' \<noteq> d \<Longrightarrow> dbs w' d' = dbs w d'"
proof -
  have f: "same_but_lists d w w'" using assms by (simp add: update_frame_def)
  then show "held w' = held w" "config w' = config w" "next_srv w' = next_srv w" "d' \<noteq> d \<Longrightarrow> dbs w' d' = dbs w d'"
    by (simp_all add: same_but_lists_def)
  have "cluster_enabled (dbs w' d) = cluster_enabled ((dbs w d)\<lparr>servers := servers (dbs w' d)\<rparr>)"
    using f unfolding same_but_lists_def by metis
  then show "cluster_enabled (dbs w' d') = cluster_enabled (dbs w d')"
    using f by (cases "d' = d") (simp_all add: same_but_lists_def)
qed

lemma update_aux:
  assumes ok: "reg_ok d w" and s: "s \<in> registered w d" and l: "locks_held d w" and e: "net w \<in> later h e0"
  obtains w' where "unsafe_update_dbs_aux h st s w = Some w'" "update_frame h e0 st d w w'" "agreed h e0 st (srvs w' s)"
proof -
  have d: "sv_db (srvs w s) = d"
    using reg_ok_filed [OF ok registered_iff [OF ok, THEN iffD1, OF s]] unfolding filed_ok_def by blast
  show thesis
  proof (cases "entry_of st (srvs w s)")
    case None
    then show thesis
      using that [of w] update_frame_refl [OF ok e] l d
      by (simp add: unsafe_update_dbs_aux_def Lck_AssertHeld_def locks_held_def entry_of_def agreed_def)
  next
    case (Some e)
    obtain w1 where r: "change_role s (sn_role e) w = Some w1" "reg_ok d w1" "registered w1 d = registered w d"
      "srvs w1 = (srvs w)(s := (srvs w s)\<lparr>sv_role := sn_role e\<rparr>)"
      and w1: "same_but_lists d w w1" and n1: "net w1 = net w"
      using change_role_effect [OF ok s] by blast
    define w2 where "w2 = change_sickness h s (sn_down e \<noteq> 0) w1"
    obtain x where x: "sick_as h e0 (sn_down e \<noteq> 0) x" and srvs2: "srvs w2 = (srvs w1)(s := (srvs w1 s)\<lparr>sick_exp := x\<rparr>)"
      and w2: "same_but_lists d w1 w2" and core: "same_core w1 w2" and n2: "net w2 \<in> later h e0"
      using change_sickness_effect [of w1 h e0 "sn_down e \<noteq> 0" s d] e n1 unfolding w2_def by auto
    have new: "srvs w2 s = (srvs w s)\<lparr>sv_role := sn_role e, sick_exp := x\<rparr>" by (simp add: srvs2 r(4))
    have e2: "entry_of st (srvs w2 s) = Some e" using Some by (simp add: new entry_of_def)
    have ag: "agreed h e0 st (srvs w2 s)" using e2 x by (simp add: agreed_def new)
    have other: "srvs w2 y = srvs w y" if "y \<noteq> s" for y using that by (simp add: srvs2 r(4))
    have role: "sv_role (srvs w2 s) = sn_role e" "sick_exp (srvs w2 s) = x" by (simp_all add: new)
    have "settled h e0 st (srvs w s) (srvs w2 s)"
      unfolding settled_def role using ag Some new by simp
    then have "settled h e0 st (srvs w y) (srvs w2 y)" for y using other by (cases "y = s") simp_all
    moreover have "same_but_lists d w w2" using same_but_lists_trans [OF w1 w2] .
    moreover have "reg_ok d w2" "registered w2 d = registered w d"
      using reg_ok_core [OF core] registered_core [OF core] r by simp_all
    moreover have "srvs w2 y = srvs w y" if "y \<notin> registered w d" for y using that s other [of y] by blast
    ultimately have "update_frame h e0 st d w w2"
      using n2 by (simp add: update_frame_def)
    moreover have "unsafe_update_dbs_aux h st s w = Some w2"
      using l d Some r(1) by (simp add: unsafe_update_dbs_aux_def Lck_AssertHeld_def locks_held_def entry_of_def w2_def)
    ultimately show thesis using that ag by blast
  qed
qed

section \<open>The loops\<close>

text \<open>What a server, a list and a cell of the database guarantee.\<close>

lemma locks_frame: "update_frame h e0 st d w w' \<Longrightarrow> locks_held d w' = locks_held d w"
  by (simp add: locks_held_def update_frame_fields)

lemma update_frame_reg:
  "update_frame h e0 st d w w' \<Longrightarrow> reg_ok d w' \<and> registered w' d = registered w d \<and> net w' \<in> later h e0"
  by (simp add: update_frame_def)

lemma frame_agreed: "update_frame h e0 st d w w' \<Longrightarrow> agreed h e0 st (srvs w s) \<Longrightarrow> agreed h e0 st (srvs w' s)"
  using settled_agreed unfolding update_frame_def by metis

text \<open>A server on a socket has no entry.\<close>

lemma socket_agreed: "\<not> is_host (sv_loc sv) \<Longrightarrow> agreed h e0 st sv"
proof -
  assume "\<not> is_host (sv_loc sv)"
  then obtain path where "sv_loc sv = Socket path" by (cases "sv_loc sv") auto
  moreover have "List.find (entry_for (Socket path)) es = None" for es by (simp add: find_None_iff)
  ultimately show ?thesis by (simp add: agreed_def entry_of_def)
qed

lemma update_servers_ok:
  assumes "reg_ok d w" and "set ss \<subseteq> registered w d" and "locks_held d w" and "net w \<in> later h e0"
  shows "\<exists>w'. update_servers h st ss w = Some w' \<and> update_frame h e0 st d w w' \<and> (\<forall>s \<in> set ss. agreed h e0 st (srvs w' s))"
  using assms
proof (induction ss arbitrary: w)
  case Nil
  then show ?case using update_frame_refl by auto
next
  case (Cons s ss)
  have "\<exists>w1. (if is_host (sv_loc (srvs w s)) then unsafe_update_dbs_aux h st s w else Some w) = Some w1 \<and>
      update_frame h e0 st d w w1 \<and> agreed h e0 st (srvs w1 s)"
  proof (cases "is_host (sv_loc (srvs w s))")
    case True
    obtain w1 where "unsafe_update_dbs_aux h st s w = Some w1" "update_frame h e0 st d w w1" "agreed h e0 st (srvs w1 s)"
      by (rule update_aux [of d w s h e0 st]) (use Cons.prems in simp_all)
    with True show ?thesis by simp
  next
    case False
    with Cons.prems(1,4) show ?thesis using update_frame_refl socket_agreed by auto
  qed
  then obtain w1 where s: "(if is_host (sv_loc (srvs w s)) then unsafe_update_dbs_aux h st s w else Some w) = Some w1"
    and f: "update_frame h e0 st d w w1" and a: "agreed h e0 st (srvs w1 s)" by blast
  have "set ss \<subseteq> registered w1 d" using Cons.prems(2) update_frame_reg [OF f] by simp
  then obtain w2 where "update_servers h st ss w1 = Some w2" "update_frame h e0 st d w1 w2" "\<forall>s \<in> set ss. agreed h e0 st (srvs w2 s)"
    using Cons.IH [of w1] Cons.prems(3) update_frame_reg [OF f] locks_frame [OF f] by blast
  then show ?case using s update_frame_trans [OF f] frame_agreed a by auto
qed

lemma settled_cell:
  assumes "settled h e0 st sv sv'" and "\<not> agreed h e0 st sv'"
  shows "sv' = sv"
  using assms by (auto simp: settled_def)

text \<open>A server that does not agree yet has not been changed, so it is still in its list.\<close>

lemma update_cells_ok:
  assumes "reg_ok d w" and "locks_held d w" and "net w \<in> later h e0"
    and "\<forall>s \<in> registered w d. agreed h e0 st (srvs w s) \<or> (sv_weight (srvs w s), sv_role (srvs w s)) \<in> set cs"
  shows "\<exists>w'. update_cells h st d cs w = Some w' \<and> update_frame h e0 st d w w' \<and> (\<forall>s \<in> registered w d. agreed h e0 st (srvs w' s))"
  using assms
proof (induction cs arbitrary: w)
  case Nil
  then show ?case using update_frame_refl by auto
next
  case (Cons c cs)
  obtain wt r where c: "c = (wt, r)" by fastforce
  have "set (servers (dbs w d) wt r) \<subseteq> registered w d" by (auto simp: registered_def)
  then obtain w1 where s: "update_servers h st (servers (dbs w d) wt r) w = Some w1" and f: "update_frame h e0 st d w w1"
    and a: "\<forall>s \<in> set (servers (dbs w d) wt r). agreed h e0 st (srvs w1 s)"
    using update_servers_ok [OF Cons.prems(1) _ Cons.prems(2,3)] by blast
  have reg: "reg_ok d w1" "registered w1 d = registered w d" "net w1 \<in> later h e0" using update_frame_reg [OF f] by simp_all
  have "agreed h e0 st (srvs w1 x) \<or> (sv_weight (srvs w1 x), sv_role (srvs w1 x)) \<in> set cs" if x: "x \<in> registered w1 d" for x
  proof (cases "agreed h e0 st (srvs w1 x)")
    case False
    have same: "srvs w1 x = srvs w x"
      by (rule settled_cell [OF _ False]) (use f in \<open>simp add: update_frame_def\<close>)
    have "\<not> agreed h e0 st (srvs w x)" using False same by simp
    then have "(sv_weight (srvs w x), sv_role (srvs w x)) \<in> set (c # cs)" using Cons.prems(4) x reg by blast
    moreover have "(sv_weight (srvs w x), sv_role (srvs w x)) \<noteq> c"
    proof
      assume "(sv_weight (srvs w x), sv_role (srvs w x)) = c"
      then have "x \<in> set (servers (dbs w d) wt r)"
        using registered_iff [OF Cons.prems(1), THEN iffD1, of x] x reg(2) c by auto
      with a False show False by blast
    qed
    ultimately show ?thesis by (simp add: same)
  qed simp
  then obtain w2 where "update_cells h st d cs w1 = Some w2" "update_frame h e0 st d w1 w2"
    "\<forall>s \<in> registered w1 d. agreed h e0 st (srvs w2 s)"
    using Cons.IH [OF reg(1) _ reg(3)] locks_frame [OF f] Cons.prems(2) by blast
  then show ?case using s update_frame_trans [OF f] reg by (auto simp: c)
qed

lemma update_database:
  assumes "reg_ok d w" and "locks_held d w" and "net w \<in> later h e0"
  shows "\<exists>w'. update_cells h st d cells w = Some w' \<and> update_frame h e0 st d w w' \<and> (\<forall>s \<in> registered w d. agreed h e0 st (srvs w' s))"
proof (rule update_cells_ok [OF assms])
  have "sv_weight (srvs w s) < NREDIS_SERVER_WEIGHTS" if "s \<in> registered w d" for s
    using reg_ok_filed [OF assms(1) registered_iff [OF assms(1), THEN iffD1, OF that]] by (simp add: filed_ok_def)
  then show "\<forall>s \<in> registered w d. agreed h e0 st (srvs w s) \<or> (sv_weight (srvs w s), sv_role (srvs w s)) \<in> set cells"
    by (simp add: set_cells)
qed

section \<open>All databases\<close>

lemma world_held:
  "reg_ok d (w\<lparr>held := l\<rparr>) = reg_ok d w" "registered (w\<lparr>held := l\<rparr>) d = registered w d"
  by (simp_all add: reg_ok_def filed_ok_def registered_def)

text \<open>The servers that the thread looks after.\<close>

definition looked_after :: "db_ptr list \<Rightarrow> 'e world \<Rightarrow> server_ptr set" where
  "looked_after ds w = (\<Union>d \<in> {d \<in> set ds. \<not> cluster_enabled (dbs w d)}. registered w d)"

text \<open>The databases are well formed and nobody holds their mutexes.\<close>

definition updatable :: "db_ptr list \<Rightarrow> 'e world \<Rightarrow> bool" where
  "updatable ds w \<longleftrightarrow> Config_Mutex \<in> set (held w) \<and> (\<forall>d \<in> set ds. reg_ok d w \<and> Db_Mutex d \<notin> set (held w))"

definition updated :: "'e hiredis \<Rightarrow> 'e \<Rightarrow> sentinel_state \<Rightarrow> db_ptr list \<Rightarrow> 'e world \<Rightarrow> 'e world \<Rightarrow> bool" where
  "updated h e0 st ds w w' \<longleftrightarrow>
     held w' = held w \<and> config w' = config w \<and> net w' \<in> later h e0 \<and> (\<forall>d. reg_ok d w \<longrightarrow> reg_ok d w') \<and>
     (\<forall>d. registered w' d = registered w d \<and> cluster_enabled (dbs w' d) = cluster_enabled (dbs w d)) \<and>
     (\<forall>s. settled h e0 st (srvs w s) (srvs w' s)) \<and>
     (\<forall>s. s \<notin> looked_after ds w \<longrightarrow> srvs w' s = srvs w s) \<and>
     (\<forall>s \<in> looked_after ds w. agreed h e0 st (srvs w' s))"

lemma registered_db:
  assumes "reg_ok d w" and "s \<in> registered w d"
  shows "sv_db (srvs w s) = d"
  using reg_ok_filed [OF assms(1) registered_iff [OF assms(1), THEN iffD1, OF assms(2)]] unfolding filed_ok_def by blast

lemma update_frame_other:
  assumes f: "update_frame h e0 st d w w'" and ok: "reg_ok d w"
  shows "registered w' d' = registered w d'" "reg_ok d' w \<Longrightarrow> reg_ok d' w'"
proof -
  show reg: "registered w' d' = registered w d'"
    using update_frame_reg [OF f] update_frame_fields(5) [OF f] by (cases "d' = d") (simp_all add: registered_def)
  assume ok': "reg_ok d' w"
  show "reg_ok d' w'"
  proof (cases "d' = d")
    case True
    then show ?thesis using update_frame_reg [OF f] by simp
  next
    case False
    have dbs: "dbs w' d' = dbs w d'" using update_frame_fields(5) [OF f False] .
    have same: "srvs w' s = srvs w s" if "s \<in> registered w d'" for s
    proof -
      have "s \<notin> registered w d" using registered_db [OF ok] registered_db [OF ok' that] False by blast
      then show ?thesis using f by (simp add: update_frame_def)
    qed
    show ?thesis
    proof (rule reg_okI)
      show "distinct (servers (dbs w' d') wt r)" for wt r using reg_ok_distinct [OF ok'] by (simp add: dbs)
      show "filed_ok w' d' wt r s" if "s \<in> set (servers (dbs w' d') wt r)" for wt r s
      proof -
        have "s \<in> registered w d'" using that dbs by (auto simp: registered_def)
        then show ?thesis
          using reg_ok_filed [OF ok'] that same dbs update_frame_fields(3) [OF f] by (simp add: filed_ok_def)
      qed
      show "x = y" if "x \<in> registered w' d'" "y \<in> registered w' d'" "sv_raw (srvs w' x) = sv_raw (srvs w' y)" for x y
        using reg_ok_inj [OF ok'] that same reg by simp
    qed
  qed
qed

lemma update_section:
  assumes ok: "updatable (d # ds) w" and e: "net w \<in> later h e0" and plain: "\<not> cluster_enabled (dbs w d)"
  obtains w1 where "do { w \<leftarrow> Lck_Lock (Db_Mutex d) w; w \<leftarrow> update_cells h st d cells w; Lck_Unlock (Db_Mutex d) w } = Some w1"
    "updated h e0 st [d] w w1"
proof -
  let ?v = "w\<lparr>held := Db_Mutex d # held w\<rparr>"
  have reg: "reg_ok d w" using ok by (simp add: updatable_def)
  have "locks_held d ?v" using ok by (simp add: updatable_def locks_held_def)
  then obtain v where c: "update_cells h st d cells ?v = Some v" and f: "update_frame h e0 st d ?v v"
    and a: "\<forall>s \<in> registered ?v d. agreed h e0 st (srvs v s)"
    using update_database [of d ?v h e0 st] reg e by (auto simp: world_held)
  have held: "held v = Db_Mutex d # held w" using update_frame_fields(1) [OF f] by simp
  have o: "registered v d' = registered w d'" "reg_ok d' w \<longrightarrow> reg_ok d' v" for d'
    using update_frame_other [OF f] reg by (simp_all add: world_held)
  have "do { w \<leftarrow> Lck_Lock (Db_Mutex d) w; w \<leftarrow> update_cells h st d cells w; Lck_Unlock (Db_Mutex d) w } =
      Some (v\<lparr>held := held w\<rparr>)"
    using ok c by (simp add: Lck_Lock_def Lck_Unlock_def updatable_def held)
  moreover have "updated h e0 st [d] w (v\<lparr>held := held w\<rparr>)"
    using f a o plain update_frame_fields [OF f]
    by (simp add: updated_def world_held looked_after_def update_frame_def)
  ultimately show thesis by (rule that)
qed

lemma updated_trans:
  assumes 1: "updated h e0 st [d] w w1" and 2: "updated h e0 st ds w1 w2"
  shows "updated h e0 st (d # ds) w w2"
proof -
  have eq: "looked_after ds w1 = looked_after ds w" "looked_after (d # ds) w = looked_after [d] w \<union> looked_after ds w"
    using 1 by (auto simp: looked_after_def updated_def)
  have "settled h e0 st (srvs w s) (srvs w2 s)" for s
    using 1 2 settled_trans [of h e0 st "srvs w s" "srvs w1 s" "srvs w2 s"] by (simp add: updated_def)
  moreover have "srvs w2 s = srvs w s" if "s \<notin> looked_after (d # ds) w" for s
    using 1 2 that eq unfolding updated_def by simp
  moreover have "agreed h e0 st (srvs w2 s)" if "s \<in> looked_after (d # ds) w" for s
  proof (cases "s \<in> looked_after ds w")
    case True
    then show ?thesis using 2 eq by (simp add: updated_def)
  next
    case False
    then have "agreed h e0 st (srvs w1 s)" using 1 that eq by (auto simp: updated_def)
    then show ?thesis using 2 settled_agreed [of h e0 st "srvs w1 s" "srvs w2 s"] by (simp add: updated_def)
  qed
  ultimately show ?thesis using 1 2 by (simp add: updated_def)
qed

lemma update_databases_ok:
  assumes "updatable ds w" and "net w \<in> later h e0"
  shows "\<exists>w'. update_databases h st ds w = Some w' \<and> updated h e0 st ds w w'"
  using assms
proof (induction ds arbitrary: w)
  case Nil
  then show ?case by (simp add: updated_def updatable_def looked_after_def)
next
  case (Cons d ds)
  obtain w1 where s: "(if \<not> cluster_enabled (dbs w d)
      then do { w \<leftarrow> Lck_Lock (Db_Mutex d) w; w \<leftarrow> update_cells h st d cells w; Lck_Unlock (Db_Mutex d) w }
      else Some w) = Some w1" and u: "updated h e0 st [d] w w1"
  proof (cases "cluster_enabled (dbs w d)")
    case True
    moreover have "updated h e0 st [d] w w"
      using Cons.prems True by (simp add: updated_def updatable_def looked_after_def)
    ultimately show thesis using that by simp
  next
    case False
    with update_section [OF Cons.prems, of st] that show thesis by auto
  qed
  have "updatable ds w1" using Cons.prems u by (simp add: updatable_def updated_def)
  from Cons.IH [OF this] u obtain w2 where "update_databases h st ds w1 = Some w2" "updated h e0 st ds w1 w2"
    by (auto simp: updated_def)
  then show ?case using s updated_trans [OF u] by (intro exI [of _ w2]) simp
qed

text \<open>
  C28. The update of the databases ends, keeps every registry well formed and the same servers in it,
  and leaves every server of a database that is not a cluster in agreement with the inventory: a server
  that Sentinel knows has the role that Sentinel gives it, is sick if it is down and is not sick
  otherwise, at a time read during the update (one that was sick before keeps its time); nothing else of it changes. Other servers and the databases of clusters are as before.
\<close>

theorem databases_agree_with_sentinel:
  assumes "updatable (vcl_dbs (config w)) w"
  shows "\<exists>w'. unsafe_update_dbs h st w = Some w' \<and> updated h (net w) st (vcl_dbs (config w)) w w'"
  using update_databases_ok [OF assms, of h "net w" st] assms by (simp add: unsafe_update_dbs_def Lck_AssertHeld_def updatable_def)

theorem databases_agree_with_sentinel_witness:
  "\<exists>w'. unsafe_update_dbs (lab (\<lambda>c. None) 9) (lab_sentinel\<lparr>ss_servers := [new_server (''s'', 26379) ''a'' 1 SLAVE 1]\<rparr>)
      ((lab_one False False)\<lparr>held := [Config_Mutex]\<rparr>) = Some w' \<and>
    sv_role (srvs w' 0) = SLAVE \<and> 100 < sick_exp (srvs w' 0)"
proof -
  let ?h = "lab (\<lambda>c. None) 9"
  let ?st = "lab_sentinel\<lparr>ss_servers := [new_server (''s'', 26379) ''a'' 1 SLAVE 1]\<rparr>"
  let ?w = "(lab_one False False)\<lparr>held := [Config_Mutex]\<rparr>"
  have loc: "parse_location ''a:1'' = Host ''a'' 1" by code_simp
  have "reg_ok 0 ?w"
    by (rule reg_okI) (auto simp: filed_ok_def registered_def lab_defs loc NREDIS_SERVER_WEIGHTS_def split: if_splits)
  then have ok: "updatable (vcl_dbs (config ?w)) ?w" by (simp add: updatable_def lab_defs)
  from databases_agree_with_sentinel [OF this, of ?h ?st] obtain w' where w': "unsafe_update_dbs ?h ?st ?w = Some w'"
    and u: "updated ?h (net ?w) ?st (vcl_dbs (config ?w)) ?w w'" by blast
  have "(0 :: nat) \<in> looked_after (vcl_dbs (config ?w)) ?w"
    by (auto simp: looked_after_def registered_def lab_defs)
  then have "agreed ?h (net ?w) ?st (srvs w' 0)" "settled ?h (net ?w) ?st (srvs ?w 0) (srvs w' 0)"
    using u by (simp_all add: updated_def)
  moreover from this(2) have "entry_of ?st (srvs w' 0) = Some (new_server (''s'', 26379) ''a'' 1 SLAVE 1)"
    by (simp add: settled_entry) (simp add: entry_of_def lab_defs new_server_def)
  moreover have "clock_times ?h (net ?w) \<subseteq> {100}"
  proof -
    have "((snd \<circ> h_time ?h) ^^ n) e = e" for n and e :: int
      by (induction n) (simp_all add: lab_def)
    then show ?thesis by (auto simp: clock_times_def later_def) (simp add: lab_defs)
  qed
  ultimately have "sv_role (srvs w' 0) = SLAVE \<and> 100 < sick_exp (srvs w' 0)"
    by (auto simp: agreed_def sick_as_def new_server_def UINT_MAX_def)
  with w' show ?thesis by blast
qed

end
