(* ===== verification/Vmod_Weights.thy ===== *)
theory Vmod_Weights
  imports Registry
begin

text \<open>
  The rules that give a server its weight (\<open>src/vmod_redis.c\<close>: \<open>unsafe_set_weight_rules\<close> and
  \<open>vmod_weights\<close>). A rule is a line with a weight and a regular expression; \<open>compile\<close> is
  \<open>VRE_compile\<close>, which returns \<open>NULL\<close> for an invalid expression.
\<close>

section \<open>The code\<close>

text \<open>The weight, an \<open>int\<close>, is converted to \<open>unsigned\<close>.\<close>

definition new_weight_rule :: "(string \<Rightarrow> vre option) \<Rightarrow> int \<Rightarrow> string \<Rightarrow> weight_rule option" where
  "new_weight_rule compile weight regexp =
     map_option (\<lambda>vre. \<lparr>wr_weight = unat (word_of_int weight :: uint), wr_vre = vre\<rparr>) (compile regexp)"

text \<open>\<open>while (r > p && P(*(r - 1))) r--\<close>\<close>

definition trim_back :: "(char \<Rightarrow> bool) \<Rightarrow> string \<Rightarrow> string" where
  "trim_back P s = rev (dropWhile P (rev s))"

text \<open>One rule, from \<open>p\<close> on: an error, or the rule and the place of the next one.\<close>

definition parse_rule :: "(string \<Rightarrow> vre option) \<Rightarrow> string \<Rightarrow> nat + (weight_rule \<times> string)" where
  "parse_rule compile p =
     (let (value, q) = strtol p; weight = to_int value
      in if q = p \<or> weight < 0 \<or> weight \<ge> int NREDIS_SERVER_WEIGHTS then Inl 10
         else
           (let p = dropWhile is_blank q;
                line = takeWhile (\<lambda>c. c \<noteq> CHR 0x0A) p;
                q = dropWhile (\<lambda>c. c \<noteq> CHR 0x0A) p;
                regexp = trim_back (\<lambda>c. is_blank c \<or> c = CHR 0x0D) line
            in if regexp = [] then Inl 20
               else (case new_weight_rule compile weight regexp of
                       None \<Rightarrow> Inl 30
                     | Some rule \<Rightarrow> Inr (rule, dropWhile (\<lambda>c. is_blank c \<or> c = CHR 0x0A) q))))"

lemma digits_value_length: "length (snd (digits_value acc s)) \<le> length s"
  by (induction acc s rule: digits_value.induct) auto

lemma strtol_length: "length (snd (strtol s)) \<le> length s"
proof -
  define t where "t = dropWhile is_space s"
  define u where "u = (case t of c # cs \<Rightarrow> if c = CHR ''-'' \<or> c = CHR ''+'' then cs else t | [] \<Rightarrow> [])"
  have t: "length t \<le> length s" by (simp add: t_def length_dropWhile_le)
  have "length u \<le> length t" by (cases t) (auto simp: u_def)
  then have "length (snd (digits_value 0 u)) \<le> length s" using t digits_value_length [of 0 u] by linarith
  moreover have "snd (strtol s) = s \<or> snd (strtol s) = snd (digits_value 0 u)"
    unfolding strtol_def Let_def t_def [symmetric] u_def [symmetric]
    by (cases u) (auto split: prod.splits simp: t_def [symmetric] simp del: digits_value.simps)
  ultimately show ?thesis by auto
qed

lemma parse_rule_shorter:
  assumes "parse_rule compile p = Inr (rule, rest)"
  shows "length rest < length p"
proof -
  define p' where "p' = dropWhile is_blank (snd (strtol p))"
  define q where "q = dropWhile (\<lambda>c. c \<noteq> CHR 0x0A) p'"
  have "takeWhile (\<lambda>c. c \<noteq> CHR 0x0A) p' \<noteq> []" and rest: "rest = dropWhile (\<lambda>c. is_blank c \<or> c = CHR 0x0A) q"
    using assms by (auto simp: parse_rule_def Let_def trim_back_def p'_def q_def split: prod.splits if_splits option.splits)
  moreover have "length p' = length (takeWhile (\<lambda>c. c \<noteq> CHR 0x0A) p') + length q"
    unfolding q_def by (metis length_append takeWhile_dropWhile_id)
  moreover have "length p' \<le> length p"
    using strtol_length [of p] length_dropWhile_le [of is_blank "snd (strtol p)"] by (simp add: p'_def)
  moreover have "length rest \<le> length q" by (simp add: rest length_dropWhile_le)
  ultimately show ?thesis by (cases "takeWhile (\<lambda>c. c \<noteq> CHR 0x0A) p'") auto
qed

function parse_rules :: "(string \<Rightarrow> vre option) \<Rightarrow> string \<Rightarrow> weight_rule list \<Rightarrow> nat + weight_rule list" where
  "parse_rules compile p rules =
     (if p = [] then Inr rules
      else (case parse_rule compile p of
              Inl error \<Rightarrow> Inl error
            | Inr (rule, p) \<Rightarrow> parse_rules compile p (tailq_insert_tail rules rule)))"
  by pat_completeness auto
termination
  by (relation "measure (\<lambda>(_, p, _). length p)") (auto dest: parse_rule_shorter)

declare parse_rules.simps [simp del]

text \<open>On an error all rules of the configuration are released.\<close>

definition unsafe_set_weight_rules :: "(string \<Rightarrow> vre option) \<Rightarrow> string \<Rightarrow> 'e world \<Rightarrow> 'e world option" where
  "unsafe_set_weight_rules compile rules w = do {
     _ \<leftarrow> Lck_AssertHeld Config_Mutex w;
     Some (w\<lparr>config := (config w)\<lparr>weight_rules :=
             (case parse_rules compile rules (weight_rules (config w)) of Inl error \<Rightarrow> [] | Inr rs \<Rightarrow> rs)\<rparr>\<rparr>)
   }"

text \<open>A \<open>NULL\<close> string is \<open>None\<close>; \<open>env\<close> is the environment variable \<open>VMOD_REDIS_WEIGHTS\<close>.\<close>

fun given :: "string option \<Rightarrow> bool" where
  "given None = False"
| "given (Some s) = (s \<noteq> [])"

definition vmod_weights ::
  "(string \<Rightarrow> vre option) \<Rightarrow> string option \<Rightarrow> string option \<Rightarrow> 'e world \<Rightarrow> 'e world option" where
  "vmod_weights compile env rules w = do {
     w \<leftarrow> Lck_Lock Config_Mutex w;
     w \<leftarrow> (if vcl_dbs (config w) = [] \<and> weight_rules (config w) = []
           then (let value = (if given rules then rules else env)
                 in if given value then unsafe_set_weight_rules compile (the value) w else Some w)
           else Some w);
     Lck_Unlock Config_Mutex w
   }"

section \<open>The rules of a configuration are valid\<close>

lemma weight_unsigned: "0 \<le> weight \<Longrightarrow> weight < 4 \<Longrightarrow> unat (word_of_int weight :: uint) = nat weight"
  by (simp add: unsigned_of_int take_bit_int_eq_self)

lemma parse_rule_weight:
  assumes "parse_rule compile p = Inr (rule, rest)"
  shows "wr_weight rule < NREDIS_SERVER_WEIGHTS"
  using assms
  by (auto simp: parse_rule_def Let_def new_weight_rule_def NREDIS_SERVER_WEIGHTS_def weight_unsigned
      split: prod.splits if_splits option.splits)

lemma parse_rules_weights:
  assumes "\<forall>r \<in> set acc. wr_weight r < NREDIS_SERVER_WEIGHTS" and "parse_rules compile p acc = Inr rs"
  shows "\<forall>r \<in> set rs. wr_weight r < NREDIS_SERVER_WEIGHTS"
  using assms
proof (induction compile p acc rule: parse_rules.induct)
  case (1 compile p rules)
  show ?case
  proof (cases "p = []")
    case True
    then show ?thesis using 1(2,3) by (simp add: parse_rules.simps)
  next
    case False
    then obtain rule rest where r: "parse_rule compile p = Inr (rule, rest)"
      and rs: "parse_rules compile rest (tailq_insert_tail rules rule) = Inr rs"
      using 1(3) by (subst (asm) parse_rules.simps) (auto split: sum.splits)
    show ?thesis
      using 1(1) [OF False r refl _ rs] 1(2) parse_rule_weight [OF r] by simp
  qed
qed

text \<open>The lines of a configuration.\<close>

definition regexp_ok :: "string \<Rightarrow> bool" where
  "regexp_ok s \<longleftrightarrow> s \<noteq> [] \<and> CHR 0x0A \<notin> set s \<and> \<not> is_blank (hd s) \<and> \<not> is_blank (last s) \<and> last s \<noteq> CHR 0x0D"

fun write_rules :: "(nat \<times> string \<times> string) list \<Rightarrow> string" where
  "write_rules [] = []"
| "write_rules ((weight, regexp, pad) # rules) =
     string_of_nat weight @ CHR '' '' # regexp @ pad @ CHR 0x0A # write_rules rules"

fun line_ok :: "(string \<Rightarrow> vre option) \<Rightarrow> nat \<times> string \<times> string \<Rightarrow> bool" where
  "line_ok compile (weight, regexp, pad) =
     (weight < NREDIS_SERVER_WEIGHTS \<and> regexp_ok regexp \<and> compile regexp \<noteq> None \<and>
      (\<forall>c \<in> set pad. is_blank c \<or> c = CHR 0x0D))"

fun line_rule :: "(string \<Rightarrow> vre option) \<Rightarrow> nat \<times> string \<times> string \<Rightarrow> weight_rule" where
  "line_rule compile (weight, regexp, pad) = \<lparr>wr_weight = weight, wr_vre = the (compile regexp)\<rparr>"

lemma char_classes:
  "is_blank CHR '' ''" "\<not> is_digit CHR '' ''" "\<not> is_blank CHR 0x0A" "CHR 0x0A \<noteq> CHR 0x0D"
  by code_simp+

lemma blank_not_digit: "is_digit c \<Longrightarrow> \<not> is_blank c"
  by (auto simp: is_digit_def is_blank_def)

lemma trim_back_pad:
  assumes "s \<noteq> []" and "\<not> P (last s)" and "\<forall>c \<in> set pad. P c"
  shows "trim_back P (s @ pad) = s"
proof (cases s rule: rev_cases)
  case (snoc ys y)
  then show ?thesis
    using assms(2,3) dropWhile_append2 [of "rev pad" P "y # rev ys"] by (simp add: trim_back_def)
qed (use assms(1) in simp)

lemma parse_rule_line:
  assumes "line_ok compile (weight, regexp, pad)" and "rest = [] \<or> is_digit (hd rest)"
  shows "parse_rule compile (string_of_nat weight @ CHR '' '' # regexp @ pad @ CHR 0x0A # rest) =
    Inr (line_rule compile (weight, regexp, pad), rest)"
proof -
  let ?p = "string_of_nat weight @ CHR '' '' # regexp @ pad @ CHR 0x0A # rest"
  have w: "weight < 4" using assms(1) by (simp add: NREDIS_SERVER_WEIGHTS_def)
  have r: "regexp \<noteq> []" "CHR 0x0A \<notin> set regexp" "\<not> is_blank (hd regexp)"
    "\<not> (is_blank (last regexp) \<or> last regexp = CHR 0x0D)" and pad: "\<forall>c \<in> set pad. is_blank c \<or> c = CHR 0x0D"
    using assms(1) by (auto simp: regexp_ok_def)
  have s: "strtol ?p = (int weight, CHR '' '' # regexp @ pad @ CHR 0x0A # rest)"
    by (rule strtol_string_of_nat) (use w char_classes in \<open>auto simp: LONG_MAX_def\<close>)
  have q: "(CHR '' '' # regexp @ pad @ CHR 0x0A # rest) \<noteq> ?p"
    using arg_cong [of _ _ length] by fastforce
  have d: "dropWhile is_blank (CHR '' '' # regexp @ pad @ CHR 0x0A # rest) = regexp @ pad @ CHR 0x0A # rest"
    using r(1,3) char_classes by (cases regexp) simp_all
  have nl: "\<forall>c \<in> set (regexp @ pad). c \<noteq> CHR 0x0A" using r(2) pad char_classes by auto
  then have line: "takeWhile (\<lambda>c. c \<noteq> CHR 0x0A) (regexp @ pad @ CHR 0x0A # rest) = regexp @ pad"
    and tail: "dropWhile (\<lambda>c. c \<noteq> CHR 0x0A) (regexp @ pad @ CHR 0x0A # rest) = CHR 0x0A # rest"
    using takeWhile_append2 [of "regexp @ pad" "\<lambda>c. c \<noteq> CHR 0x0A" "CHR 0x0A # rest"]
      dropWhile_append2 [of "regexp @ pad" "\<lambda>c. c \<noteq> CHR 0x0A" "CHR 0x0A # rest"] by simp_all
  have trim: "trim_back (\<lambda>c. is_blank c \<or> c = CHR 0x0D) (regexp @ pad) = regexp"
    by (rule trim_back_pad) (use r pad in auto)
  have "is_digit CHR 0x0A = False" by code_simp
  then have rest: "dropWhile (\<lambda>c. is_blank c \<or> c = CHR 0x0A) (CHR 0x0A # rest) = rest"
    using assms(2) blank_not_digit by (cases rest) auto
  have u: "unat (word_of_nat weight :: uint) = weight" using weight_unsigned [of "int weight"] w by simp
  have "to_int (int weight) = int weight" using w by (intro to_int_small) simp_all
  moreover obtain v where "compile regexp = Some v" using assms(1) by auto
  ultimately show ?thesis
    using w q r(1) unfolding parse_rule_def s Let_def d prod.case line tail trim rest
    by (simp add: new_weight_rule_def NREDIS_SERVER_WEIGHTS_def u)
qed

lemma write_rules_head: "write_rules rules = [] \<or> is_digit (hd (write_rules rules))"
proof (cases rules)
  case (Cons l ls)
  obtain weight regexp pad where l: "l = (weight, regexp, pad)" by (cases l)
  have "hd (string_of_nat weight) \<in> set (string_of_nat weight)" by simp
  then have "is_digit (hd (string_of_nat weight))" by (rule digits_string_of_nat)
  then show ?thesis by (simp add: Cons l)
qed simp

lemma parse_rules_written:
  assumes "\<forall>l \<in> set rules. line_ok compile l"
  shows "parse_rules compile (write_rules rules) acc = Inr (acc @ map (line_rule compile) rules)"
  using assms
proof (induction rules arbitrary: acc)
  case Nil
  then show ?case by (simp add: parse_rules.simps)
next
  case (Cons l rules)
  obtain weight regexp pad where l: "l = (weight, regexp, pad)" by (cases l)
  have ok: "line_ok compile (weight, regexp, pad)" using Cons.prems l by simp
  have step: "parse_rule compile (write_rules (l # rules)) = Inr (line_rule compile l, write_rules rules)"
    using parse_rule_line [OF ok write_rules_head] by (simp add: l)
  have "write_rules (l # rules) \<noteq> []" by (simp add: l)
  then have "parse_rules compile (write_rules (l # rules)) acc =
      parse_rules compile (write_rules rules) (acc @ [line_rule compile l])"
    by (subst parse_rules.simps) (simp add: step tailq_insert_tail_def del: write_rules.simps)
  also have "\<dots> = Inr ((acc @ [line_rule compile l]) @ map (line_rule compile) rules)"
    using Cons.prems by (intro Cons.IH) simp
  finally show ?case by simp
qed

text \<open>
  C32. Whatever string is given as rules, \<open>redis.weights()\<close> leaves rules whose weights are within the
  array of lists (which the registry relies on), changes nothing else and returns the mutex; and for
  rules that are well written, one per line, with any blanks and carriage returns at the end of a line,
  they are those rules, in their order.
\<close>

theorem weights_valid:
  assumes "rules_ok w" and "Config_Mutex \<notin> set (held w)"
  shows "(\<exists>rs. vmod_weights compile env rules w = Some (w\<lparr>config := (config w)\<lparr>weight_rules := rs\<rparr>\<rparr>) \<and>
      rules_ok (w\<lparr>config := (config w)\<lparr>weight_rules := rs\<rparr>\<rparr>)) \<and>
    (vcl_dbs (config w) = [] \<and> weight_rules (config w) = [] \<and> lines \<noteq> [] \<and> (\<forall>l \<in> set lines. line_ok compile l) \<longrightarrow>
      vmod_weights compile env (Some (write_rules lines)) w =
        Some (w\<lparr>config := (config w)\<lparr>weight_rules := map (line_rule compile) lines\<rparr>\<rparr>))"
proof -
  have set: "vmod_weights compile env s w = Some (w\<lparr>config := (config w)\<lparr>weight_rules :=
      (if vcl_dbs (config w) = [] \<and> weight_rules (config w) = [] \<and> given (if given s then s else env)
       then (case parse_rules compile (the (if given s then s else env)) [] of Inl error \<Rightarrow> [] | Inr rs \<Rightarrow> rs)
       else weight_rules (config w))\<rparr>\<rparr>)" for s
    using assms(2)
    by (simp add: vmod_weights_def Lck_Lock_def Lck_Unlock_def unsafe_set_weight_rules_def Lck_AssertHeld_def Let_def)
  have valid: "wr_weight r < NREDIS_SERVER_WEIGHTS" if "Inr rs = parse_rules compile s []" "r \<in> set rs" for s rs r
    using parse_rules_weights [of "[]" compile s rs] that by simp
  then have "rules_ok (w\<lparr>config := (config w)\<lparr>weight_rules :=
      (if vcl_dbs (config w) = [] \<and> weight_rules (config w) = [] \<and> given (if given rules then rules else env)
       then (case parse_rules compile (the (if given rules then rules else env)) [] of Inl error \<Rightarrow> [] | Inr rs \<Rightarrow> rs)
       else weight_rules (config w))\<rparr>\<rparr>)"
    using assms(1) by (auto simp: rules_ok_def split: sum.splits if_splits intro: valid)
  with set [of rules] have "\<exists>rs. vmod_weights compile env rules w = Some (w\<lparr>config := (config w)\<lparr>weight_rules := rs\<rparr>\<rparr>) \<and>
      rules_ok (w\<lparr>config := (config w)\<lparr>weight_rules := rs\<rparr>\<rparr>)" by blast
  moreover have "vmod_weights compile env (Some (write_rules lines)) w =
      Some (w\<lparr>config := (config w)\<lparr>weight_rules := map (line_rule compile) lines\<rparr>\<rparr>)"
    if "vcl_dbs (config w) = []" "weight_rules (config w) = []" "lines \<noteq> []" "\<forall>l \<in> set lines. line_ok compile l"
  proof -
    have "given (Some (write_rules lines))" using that(3) by (cases lines rule: write_rules.cases) simp_all
    then show ?thesis
      using set [of "Some (write_rules lines)"] parse_rules_written [OF that(4), of "[]"] that(1,2) by simp
  qed
  ultimately show ?thesis by blast
qed

theorem weights_valid_witness:
  "vmod_weights (\<lambda>s. Some (length s)) None (Some (write_rules [(2, ''^a.*'', [CHR 0x0D]), (0, ''b'', [])])) 
      ((lab_empty False False)\<lparr>config := \<lparr>weight_rules = [], vcl_dbs = []\<rparr>\<rparr>) =
    Some ((lab_empty False False)\<lparr>config := \<lparr>weight_rules = [\<lparr>wr_weight = 2, wr_vre = 4\<rparr>, \<lparr>wr_weight = 0, wr_vre = 1\<rparr>],
      vcl_dbs = []\<rparr>\<rparr>)"
proof -
  let ?w = "(lab_empty False False)\<lparr>config := \<lparr>weight_rules = [], vcl_dbs = []\<rparr>\<rparr>"
  have c: "\<not> is_blank CHR ''^''" "\<not> is_blank CHR ''*''" "\<not> is_blank CHR ''b''" by code_simp+
  have "rules_ok ?w" "Config_Mutex \<notin> set (held ?w)" by (simp_all add: rules_ok_def lab_empty_def)
  from weights_valid [OF this, of "\<lambda>s. Some (length s)" None None "[(2, ''^a.*'', [CHR 0x0D]), (0, ''b'', [])]"]
  show ?thesis using c by (simp add: regexp_ok_def NREDIS_SERVER_WEIGHTS_def del: write_rules.simps)
qed

end
