(* ===== verification/Sentinel_Thread.thy ===== *)
theory Sentinel_Thread
  imports Sentinel_Agreement
begin

text \<open>
  The Sentinel thread of a VCL (\<open>src/sentinel.c\<close>): starting and stopping it
  (\<open>unsafe_sentinel_start\<close>, \<open>unsafe_sentinel_discovery\<close>, \<open>unsafe_sentinel_stop\<close>), the loop of the
  thread (\<open>sentinel_loop\<close>), its asynchronous Pub/Sub connections, the callbacks on them, and the end
  of its state (\<open>free_state\<close>). Other threads run between the critical sections of the loop, so the loop
  is cut there: a thread stands at a \<open>place\<close> and \<open>thread_step\<close> takes it to the next one.
  Two things are coarser than the code: the update of all databases is one step, although the code locks
  them one after the other, and the lock that the loop takes first, to read what it logs, is left out.
  The asynchronous interface of hiredis and its event loop are the record \<open>async\<close>, a parameter.
  The release of memory has no effect on the state. Messages to the log are left out, and so is
  the flag \<open>debug\<close>, which only they look at.
\<close>

section \<open>Settings and state\<close>

text \<open>
  The field \<open>sentinels\<close> of a VCL. \<open>se_tls_names\<close> are the five fields \<open>tls_cafile\<close> to \<open>tls_sni\<close>, and
  the thread is \<open>None\<close> for 0.
\<close>

record sentinels =
  se_locations :: "string option"
  se_period :: uint
  se_connection_timeout :: timeval
  se_command_timeout :: timeval
  se_protocol :: protocol
  se_tls :: bool
  se_tls_names :: "string option list"
  se_password :: "string option"
  se_thread :: "nat option"
  se_active :: bool
  se_discovery :: bool

text \<open>What the event loop calls; a Sentinel is its position in the list of the thread.\<close>

datatype async_event =
    Connected bool
  | Disconnected bool
  | Authorized "redisReply option"
  | Greeted "redisReply option"
  | Message "redisReply option"

text \<open>
  \<open>a_connect\<close> is \<open>redisAsyncConnect\<close>, \<open>a_err\<close> tells whether \<open>context->err\<close> is set, \<open>a_attach\<close> is
  \<open>redisLibevAttach\<close> with the two callbacks, \<open>a_command\<close> is \<open>redisAsyncCommand\<close> and \<open>a_events cs\<close> is a
  pass of \<open>ev_loop\<close> that does not wait, on the loop the connections \<open>cs\<close> are attached to: the
  callbacks that are due.
\<close>

record 'e async =
  a_connect :: "string \<Rightarrow> uint \<Rightarrow> 'e \<Rightarrow> nat option \<times> 'e"
  a_err :: "nat \<Rightarrow> 'e \<Rightarrow> bool"
  a_tls :: "nat \<Rightarrow> nat \<Rightarrow> 'e \<Rightarrow> bool \<times> 'e"
  a_keepalive :: "nat \<Rightarrow> 'e \<Rightarrow> bool \<times> 'e"
  a_attach :: "nat \<Rightarrow> 'e \<Rightarrow> 'e"
  a_command :: "nat \<Rightarrow> string list \<Rightarrow> 'e \<Rightarrow> bool \<times> 'e"
  a_free :: "nat \<Rightarrow> 'e \<Rightarrow> 'e"
  a_events :: "nat option list \<Rightarrow> 'e \<Rightarrow> (nat \<times> async_event) list \<times> 'e"

text \<open>The places of a thread, with the time at which the pass of the loop began.\<close>

datatype place = At_Top | To_Discover int | Discovered int | To_Listen int | To_Update int | Ended

text \<open>\<open>th_contexts\<close> are the connections of the Sentinels of \<open>th_state\<close>, one for each.\<close>

record sentinel_thread =
  th_config :: nat
  th_place :: place
  th_state :: sentinel_state
  th_contexts :: "nat option list"

section \<open>Starting and stopping\<close>

text \<open>The answer of \<open>pthread_create\<close> is an argument: the new thread, or \<open>None\<close> for an error.\<close>

definition unsafe_sentinel_start ::
  "(string option list \<Rightarrow> nat option) \<Rightarrow> nat option \<Rightarrow> nat \<Rightarrow> 'e world \<Rightarrow> sentinels \<Rightarrow>
   (sentinels \<times> (nat \<times> sentinel_thread) option) option" where
  "unsafe_sentinel_start create_ssl created v w se = do {
     _ \<leftarrow> Lck_AssertHeld Config_Mutex w;
     locations \<leftarrow> se_locations se;
     _ \<leftarrow> assert_that (se_thread se = None);
     _ \<leftarrow> assert_that (\<not> se_active se);
     let ssl_ctx = (if se_tls se then create_ssl (se_tls_names se) else None);
     (if se_tls se \<and> ssl_ctx = None then Some (se, None)
      else
        (let state = (new_state (se_period se) (se_connection_timeout se) (se_command_timeout se)
               (se_protocol se) ssl_ctx (se_password se))\<lparr>ss_sentinels := unsafe_set_locations locations\<rparr>
         in if ss_sentinels state \<noteq> []
            then do {
              t \<leftarrow> created;
              Some (se\<lparr>se_thread := Some t, se_active := True, se_discovery := True\<rparr>,
                Some (t, \<lparr>th_config = v, th_place = At_Top, th_state = state,
                          th_contexts = replicate (length (ss_sentinels state)) None\<rparr>))
            }
            else Some (se, None)))
   }"

definition unsafe_sentinel_discovery :: "'e world \<Rightarrow> sentinels \<Rightarrow> sentinels option" where
  "unsafe_sentinel_discovery w se = do {
     _ \<leftarrow> Lck_AssertHeld Config_Mutex w;
     _ \<leftarrow> se_locations se;
     _ \<leftarrow> se_thread se;
     _ \<leftarrow> assert_that (se_active se);
     Some (se\<lparr>se_discovery := True\<rparr>)
   }"

definition unsafe_sentinel_stop :: "'e world \<Rightarrow> sentinels \<Rightarrow> sentinels option" where
  "unsafe_sentinel_stop w se = do {
     _ \<leftarrow> Lck_AssertHeld Config_Mutex w;
     _ \<leftarrow> se_locations se;
     _ \<leftarrow> se_thread se;
     _ \<leftarrow> assert_that (se_active se);
     Some (se\<lparr>se_active := False\<rparr>)
   }"

section \<open>Subscriptions\<close>

definition enqueue :: "'e async \<Rightarrow> nat \<Rightarrow> string list \<Rightarrow> 'e world \<Rightarrow> nat option \<times> 'e world" where
  "enqueue a c args w =
     (let (ok, w) = net_call (a_command a c args) w
      in if ok then (Some c, w) else (None, net_do (a_free a c) w))"

definition secure_subscription ::
  "'e async \<Rightarrow> sentinel_state \<Rightarrow> nat \<Rightarrow> 'e world \<Rightarrow> nat option \<times> 'e world" where
  "secure_subscription a st c w =
     (case ss_tls_ssl_ctx st of
        None \<Rightarrow> (Some c, w)
      | Some ssl \<Rightarrow>
          (let (ok, w) = net_call (a_tls a c ssl) w
           in if ok then (Some c, w) else (None, net_do (a_free a c) w)))"

text \<open>Keep-alive, the callbacks and \<open>AUTH\<close>; a keep-alive that fails is only logged.\<close>

definition attach_subscription ::
  "'e async \<Rightarrow> sentinel_state \<Rightarrow> nat \<Rightarrow> 'e world \<Rightarrow> nat option \<times> 'e world" where
  "attach_subscription a st c w =
     (let (ok, w) = net_call (a_keepalive a c) w;
          w = net_do (a_attach a c) w
      in case ss_password st of None \<Rightarrow> (Some c, w) | Some p \<Rightarrow> enqueue a c [''AUTH'', p] w)"

definition hello_subscription ::
  "'e async \<Rightarrow> sentinel_state \<Rightarrow> nat \<Rightarrow> 'e world \<Rightarrow> nat option \<times> 'e world" where
  "hello_subscription a st c w =
     (if ss_protocol st \<noteq> PROTO_DEFAULT
      then enqueue a c [''HELLO'', string_of_nat (proto_num (ss_protocol st))] w else (Some c, w))"

definition SUBSCRIPTION_COMMAND :: "string list" where
  "SUBSCRIPTION_COMMAND = [''PSUBSCRIBE'', ''+sdown'', ''-sdown'', ''+odown'', ''-odown'', ''+switch-master'']"

text \<open>\<open>if (context != NULL) { ... }\<close>, where the body may give the context up.\<close>

definition if_open ::
  "nat option \<times> 'e world \<Rightarrow> (nat \<Rightarrow> 'e world \<Rightarrow> nat option \<times> 'e world) \<Rightarrow> nat option \<times> 'e world" where
  "if_open r f = (case r of (None, w) \<Rightarrow> (None, w) | (Some c, w) \<Rightarrow> f c w)"

definition open_subscription ::
  "'e async \<Rightarrow> sentinel_state \<Rightarrow> string \<times> uint \<Rightarrow> 'e world \<Rightarrow> nat option \<times> 'e world" where
  "open_subscription a st sentinel w =
     if_open (net_call (a_connect a (fst sentinel) (snd sentinel)) w)
       (\<lambda>c w. if a_err a c (net w) then (None, net_do (a_free a c) w)
              else if_open (if_open (if_open (secure_subscription a st c w) (attach_subscription a st))
                     (hello_subscription a st)) (\<lambda>c. enqueue a c SUBSCRIPTION_COMMAND))"

fun open_subscriptions ::
  "'e async \<Rightarrow> sentinel_state \<Rightarrow> ((string \<times> uint) \<times> nat option) list \<Rightarrow> 'e world \<Rightarrow>
   nat option list \<times> 'e world" where
  "open_subscriptions a st [] w = ([], w)"
| "open_subscriptions a st ((sentinel, context) # xs) w =
     (let (c, w) = (if context = None then open_subscription a st sentinel w else (context, w));
          (cs, w) = open_subscriptions a st xs w
      in (c # cs, w))"

text \<open>
  The callbacks. hiredis releases the context of a connection that fails or is lost, after the callback.
  Those that \<open>redisAsyncFree\<close> calls (the end of the connection, and the answers that never came as
  \<open>NULL\<close>) change nothing: the context is set to \<open>NULL\<close> right after it.
\<close>

fun async_callback ::
  "'e hiredis \<Rightarrow> nat \<times> async_event \<Rightarrow> nat option list \<times> sentinel_state \<times> 'e world \<Rightarrow>
   nat option list \<times> sentinel_state \<times> 'e world" where
  "async_callback h (i, Connected ok) (cs, x) = ((if ok then cs else cs[i := None]), x)"
| "async_callback h (i, Disconnected ok) (cs, x) = (cs[i := None], x)"
| "async_callback h (i, Authorized reply) y = y"
| "async_callback h (i, Greeted reply) y = y"
| "async_callback h (i, Message reply) (cs, st, w) =
     (cs, parse_sentinel_notification h (ss_sentinels st ! i) reply (st, w))"

definition listen ::
  "'e hiredis \<Rightarrow> 'e async \<Rightarrow> nat option list \<times> sentinel_state \<times> 'e world \<Rightarrow>
   nat option list \<times> sentinel_state \<times> 'e world" where
  "listen h a = (\<lambda>(cs, st, w).
     let (cs, w) = open_subscriptions a st (zip (ss_sentinels st) cs) w;
         (events, w) = net_call (a_events a cs) w
     in fold (async_callback h) events (cs, st, w))"

section \<open>The loop\<close>

fun free_sentinels :: "'e async \<Rightarrow> nat option list \<Rightarrow> 'e world \<Rightarrow> 'e world" where
  "free_sentinels a [] w = w"
| "free_sentinels a (None # cs) w = free_sentinels a cs w"
| "free_sentinels a (Some c # cs) w = free_sentinels a cs (net_do (a_free a c) w)"

definition free_state :: "'e async \<Rightarrow> sentinel_thread \<Rightarrow> 'e world \<Rightarrow> sentinel_thread \<times> 'e world" where
  "free_state a th w =
     (let w = free_sentinels a (th_contexts th) w;
          t0 = \<lparr>tv_sec = 0, tv_usec = 0\<rparr>
      in (th\<lparr>th_contexts := [], th_state := new_state 0 t0 t0 PROTO_DEFAULT None None\<rparr>, w))"

text \<open>The mutex is taken once more on the way out, for the message to the log.\<close>

definition leave_loop :: "'e async \<Rightarrow> sentinel_thread \<Rightarrow> 'e world \<Rightarrow> (sentinel_thread \<times> 'e world) option" where
  "leave_loop a th w = do {
     w \<leftarrow> Lck_Unlock Config_Mutex w;
     w \<leftarrow> Lck_Lock Config_Mutex w;
     w \<leftarrow> Lck_Unlock Config_Mutex w;
     let (th, w) = free_state a th w;
     Some (th\<lparr>th_place := Ended\<rparr>, w)
   }"

text \<open>
  A step of the thread: the settings of its VCL, itself and the world. The test whether the thread is
  still active is made twice in a pass; when no discovery is due, both are in one critical section.
\<close>

definition thread_step ::
  "'e hiredis \<Rightarrow> 'e async \<Rightarrow> sentinels \<Rightarrow> sentinel_thread \<Rightarrow> 'e world \<Rightarrow>
   (sentinels \<times> sentinel_thread \<times> 'e world) option" where
  "thread_step h a se th w =
     (let st = th_state th in
      case th_place th of
        At_Top \<Rightarrow> do {
          w \<leftarrow> Lck_Lock Config_Mutex w;
          (if \<not> se_active se then do { (th, w) \<leftarrow> leave_loop a th w; Some (se, th, w) }
           else do {
             let (now, w) = net_call (h_time h) w;
             w \<leftarrow> Lck_Unlock Config_Mutex w;
             Some (se, th\<lparr>th_place :=
               (if se_discovery se \<or> ss_period st > 0 \<and> next_discovery st \<le> now
                then To_Discover now else To_Listen now)\<rparr>, w)
           })
        }
      | To_Discover now \<Rightarrow>
          (let (st, w) = discover_servers h (st, w)
           in Some (se, th\<lparr>th_place := Discovered now, th_state := st\<rparr>, w))
      | Discovered now \<Rightarrow> do {
          w \<leftarrow> Lck_Lock Config_Mutex w;
          let th = th\<lparr>th_state := st\<lparr>next_discovery := now + uint (ss_period st)\<rparr>\<rparr>;
          (if \<not> se_active se then do { (th, w) \<leftarrow> leave_loop a th w; Some (se, th, w) }
           else do { w \<leftarrow> Lck_Unlock Config_Mutex w; Some (se, th\<lparr>th_place := To_Listen now\<rparr>, w) })
        }
      | To_Listen now \<Rightarrow>
          (let (cs, st, w) = listen h a (th_contexts th, st, w)
           in Some (se, th\<lparr>th_place := To_Update now, th_contexts := cs, th_state := st\<rparr>, w))
      | To_Update now \<Rightarrow> do {
          w \<leftarrow> Lck_Lock Config_Mutex w;
          (se, w) \<leftarrow>
            (if se_discovery se \<or> last_change st \<ge> now
             then do { w \<leftarrow> unsafe_update_dbs h st w; Some (se\<lparr>se_discovery := False\<rparr>, w) }
             else Some (se, w));
          w \<leftarrow> Lck_Unlock Config_Mutex w;
          Some (se, th\<lparr>th_place := At_Top\<rparr>, w)
        }
      | Ended \<Rightarrow> Some (se, th, w))"

end
