(* ===== verification/Sentinel_Subscriptions.thy ===== *)
theory Sentinel_Subscriptions
  imports Sentinel_Thread
begin

text \<open>
  What a step of the Sentinel thread may change, and its Pub/Sub connections: what the thread has on
  record is what hiredis has open. The connections that are open are a function \<open>alive\<close> of the
  outside; \<open>ledger\<close> is what the documentation of hiredis says of them.
\<close>

section \<open>Connections that are open\<close>

text \<open>The synchronous calls have connections of their own.\<close>

definition quiet :: "'e hiredis \<Rightarrow> ('e \<Rightarrow> nat set) \<Rightarrow> bool" where
  "quiet h alive \<longleftrightarrow>
     (\<forall>e. alive (snd (h_time h e)) = alive e) \<and>
     (\<forall>loc t e. alive (snd (h_connect h loc t e)) = alive e) \<and>
     (\<forall>rc t e. alive (snd (h_set_timeout h rc t e)) = alive e) \<and>
     (\<forall>rc ssl e. alive (snd (h_tls h rc ssl e)) = alive e) \<and>
     (\<forall>rc args e. alive (snd (h_command h rc args e)) = alive e) \<and>
     (\<forall>rc e. alive (h_free h rc e) = alive e)"

text \<open>The Sentinels whose connection an event reports as gone.\<close>

fun goes :: "nat \<times> async_event \<Rightarrow> nat option" where
  "goes (i, Connected ok) = (if ok then None else Some i)"
| "goes (i, Disconnected ok) = Some i"
| "goes (i, e) = None"

definition gone :: "(nat \<times> async_event) list \<Rightarrow> nat set" where
  "gone evs = {i. Some i \<in> goes ` set evs}"

definition recorded :: "nat option list \<Rightarrow> nat list" where
  "recorded cs = map the (filter (\<lambda>c. c \<noteq> None) cs)"

text \<open>
  A new connection is open, the calls on it leave it open, \<open>redisAsyncFree\<close> closes it, and so does
  hiredis when the event loop reports that it failed or was lost.
\<close>

definition ledger :: "'e async \<Rightarrow> ('e \<Rightarrow> nat set) \<Rightarrow> bool" where
  "ledger a alive \<longleftrightarrow>
     (\<forall>host port e. case a_connect a host port e of
        (None, e') \<Rightarrow> alive e' = alive e
      | (Some c, e') \<Rightarrow> c \<notin> alive e \<and> alive e' = insert c (alive e)) \<and>
     (\<forall>c ssl e. alive (snd (a_tls a c ssl e)) = alive e) \<and>
     (\<forall>c e. alive (snd (a_keepalive a c e)) = alive e) \<and>
     (\<forall>c e. alive (a_attach a c e) = alive e) \<and>
     (\<forall>c args e. alive (snd (a_command a c args e)) = alive e) \<and>
     (\<forall>c e. alive (a_free a c e) = alive e - {c}) \<and>
     (\<forall>cs e. alive (snd (a_events a cs e)) =
        alive e - {c. \<exists>i \<in> gone (fst (a_events a cs e)). i < length cs \<and> cs ! i = Some c})"

definition still :: "('e \<Rightarrow> nat set) \<Rightarrow> 'e world \<Rightarrow> 'e world \<Rightarrow> bool" where
  "still alive w w' \<longleftrightarrow> only_net w w' \<and> alive (net w') = alive (net w)"

lemma still_refl [simp]: "still alive w w"
  by (simp add: still_def)

lemma still_trans: "still alive w w' \<Longrightarrow> still alive w' w'' \<Longrightarrow> still alive w w''"
  unfolding still_def using only_net_trans by fastforce

lemma still_right [simp]:
  "still alive w (net_do f w') \<longleftrightarrow> only_net w w' \<and> alive (f (net w')) = alive (net w)"
  "still alive w (w'\<lparr>net := e\<rparr>) \<longleftrightarrow> only_net w w' \<and> alive e = alive (net w)"
  by (simp_all add: still_def net_do_def)

lemma net_net_do [simp]: "net (net_do f w) = f (net w)"
  by (simp add: net_do_def)

section \<open>The synchronous part of the thread\<close>

lemma quiet_simps:
  assumes "quiet h alive"
  shows "alive (snd (h_time h e)) = alive e" "alive (snd (h_connect h loc t e)) = alive e"
    "alive (snd (h_set_timeout h rc tv e)) = alive e" "alive (snd (h_tls h rc ssl e)) = alive e"
    "alive (snd (h_command h rc args e)) = alive e" "alive (h_free h rc e) = alive e"
  using assms by (simp_all add: quiet_def)

definition st_still :: "('e \<Rightarrow> nat set) \<Rightarrow> sentinel_state \<times> 'e world \<Rightarrow> sentinel_state \<times> 'e world \<Rightarrow> bool" where
  "st_still alive x y \<longleftrightarrow> still alive (snd x) (snd y) \<and> ss_sentinels (fst y) = ss_sentinels (fst x)"

lemma st_still_refl [simp]: "st_still alive x x"
  by (simp add: st_still_def)

lemma st_still_trans: "st_still alive x y \<Longrightarrow> st_still alive y z \<Longrightarrow> st_still alive x z"
  unfolding st_still_def using still_trans by metis

lemma store_still:
  assumes "quiet h alive"
  shows "st_still alive x (store_sentinel_reply h s host port role down x)"
  by (cases x) (simp add: st_still_def store_sentinel_reply_def Let_def quiet_simps [OF assms] prod.case_eq_if
      split: option.splits)

lemma notification_still:
  assumes "quiet h alive"
  shows "st_still alive x (parse_sentinel_notification h s reply x)"
proof -
  note store = store_still [OF assms]
  have "st_still alive x (store_sentinel_reply h s a b c d (store_sentinel_reply h s a' b' c' d' x))" for a b c d a' b' c' d'
    using st_still_trans [OF store store] .
  then show ?thesis
    using store by (auto simp: parse_sentinel_notification_def split: option.splits prod.splits)
qed

lemma elements_still:
  assumes "quiet h alive"
  shows "st_still alive x (snd (parse_elements h s rs (names, x)))"
proof (induction rs arbitrary: names x)
  case Nil
  show ?case by simp
next
  case (Cons r rs)
  have "st_still alive x (snd (parse_elements h s rs (n, store_sentinel_reply h s a b c d x)))" for n a b c d
    using st_still_trans [OF store_still [OF assms] Cons.IH] .
  then show ?case using Cons.IH by (simp split: option.splits)
qed

lemma discovery_still:
  assumes "quiet h alive"
  shows "st_still alive x (snd (parse_sentinel_discovery h s reply x))"
  using elements_still [OF assms] by (cases "(h, s, reply, x)" rule: parse_sentinel_discovery.cases) auto

lemma connect_sentinel_still:
  assumes "quiet h alive"
  shows "still alive w (snd (connect_sentinel h st s w))"
proof -
  note simps = quiet_simps [OF assms] prod.case_eq_if Let_def
  have 1: "still alive w (snd (secure_sentinel h st rc v)) \<longleftrightarrow> still alive w v" for rc v
    by (simp add: secure_sentinel_def still_def simps split: option.splits)
  have 2: "still alive w (snd (auth_sentinel h st rc v)) \<longleftrightarrow> still alive w v" for rc v
    by (simp add: auth_sentinel_def still_def simps split: option.splits)
  have 3: "still alive w (snd (hello_sentinel h st rc v)) \<longleftrightarrow> still alive w v" for rc v
    by (simp add: hello_sentinel_def still_def simps)
  show ?thesis
    by (simp add: connect_sentinel_def simps 1 2 3 split: option.splits)
qed

lemma slaves_still:
  assumes "quiet h alive"
  shows "st_still alive x (ask_slaves h s rc names x)"
proof (induction names arbitrary: x)
  case Nil
  show ?case by simp
next
  case (Cons name names)
  obtain st w where x: "x = (st, w)" by fastforce
  let ?w = "snd (net_call (h_command h rc [''SENTINEL'', ''slaves'', name]) w)"
  have w: "st_still alive (st, w) (st, ?w)" by (simp add: st_still_def quiet_simps [OF assms])
  have "st_still alive (st, w) (ask_slaves h s rc names (snd (parse_sentinel_discovery h s reply (st, ?w))))" for reply
    using st_still_trans [OF w st_still_trans [OF discovery_still [OF assms] Cons.IH]] .
  moreover have "st_still alive (st, w) (ask_slaves h s rc names (st, ?w))"
    using st_still_trans [OF w Cons.IH] .
  ultimately show ?case by (simp add: x prod.case_eq_if split: option.splits)
qed

lemma ask_sentinel_still:
  assumes "quiet h alive"
  shows "st_still alive x (ask_sentinel h s x)"
proof -
  obtain st w where x: "x = (st, w)" by fastforce
  let ?w = "snd (connect_sentinel h st s w)"
  have c: "still alive w ?w" by (rule connect_sentinel_still [OF assms])
  have m: "st_still alive (st, w) (st, snd (net_call (h_command h rc args) ?w))" for rc args
    using c by (simp add: st_still_def still_def quiet_simps [OF assms])
  have "st_still alive (st, w) (ask_slaves h s rc names (snd (parse_sentinel_discovery h s reply (st, snd (net_call (h_command h rc args) ?w)))))"
    for rc names reply args
    using st_still_trans [OF m st_still_trans [OF discovery_still [OF assms] slaves_still [OF assms]]] .
  then show ?thesis using c m
    by (simp add: x ask_sentinel_def Let_def prod.case_eq_if st_still_def still_def quiet_simps [OF assms] split: option.splits)
qed

lemma discover_still:
  assumes "quiet h alive"
  shows "st_still alive x (discover_servers h x)"
proof -
  have "st_still alive x (fold (ask_sentinel h) ss x)" for ss
  proof (induction ss arbitrary: x)
    case Nil
    show ?case by simp
  next
    case (Cons s ss)
    show ?case using st_still_trans [OF ask_sentinel_still [OF assms] Cons.IH] by simp
  qed
  then show ?thesis by (simp add: discover_servers_def)
qed

section \<open>Opening a subscription\<close>

lemma recorded_simps [simp]:
  "recorded [] = []" "recorded (None # cs) = recorded cs" "recorded (Some c # cs) = c # recorded cs"
  "recorded (replicate n None) = []"
  by (simp_all add: recorded_def)

lemma set_recorded: "set (recorded cs) = {c. Some c \<in> set cs}"
  by (induction cs rule: induct_list012) (auto simp: recorded_def)

text \<open>What a step on a connection that is open makes of it, and what the opening of one makes.\<close>

definition kept :: "('e \<Rightarrow> nat set) \<Rightarrow> nat \<Rightarrow> 'e world \<Rightarrow> nat option \<times> 'e world \<Rightarrow> bool" where
  "kept alive c w r \<longleftrightarrow> only_net w (snd r) \<and>
     (case fst r of None \<Rightarrow> alive (net (snd r)) = alive (net w) - {c}
      | Some c' \<Rightarrow> c' = c \<and> alive (net (snd r)) = alive (net w))"

definition opened :: "('e \<Rightarrow> nat set) \<Rightarrow> 'e world \<Rightarrow> nat option \<times> 'e world \<Rightarrow> bool" where
  "opened alive w r \<longleftrightarrow> only_net w (snd r) \<and>
     (case fst r of None \<Rightarrow> alive (net (snd r)) = alive (net w)
      | Some c \<Rightarrow> c \<notin> alive (net w) \<and> alive (net (snd r)) = insert c (alive (net w)))"

lemma kept_if_open:
  assumes "kept alive c w r" and "\<And>w. kept alive c w (f c w)"
  shows "kept alive c w (if_open r f)"
proof (cases r)
  case (Pair x v)
  show ?thesis
  proof (cases x)
    case None
    then show ?thesis using assms(1) by (simp add: Pair if_open_def)
  next
    case (Some c')
    then have "c' = c" "only_net w v" "alive (net v) = alive (net w)" using assms(1) by (simp_all add: Pair kept_def)
    then show ?thesis using assms(2) [of v] only_net_trans [of w v "snd (f c v)"]
      by (cases "fst (f c v)") (simp_all add: Pair Some if_open_def kept_def)
  qed
qed

lemma ledger_simps:
  assumes "ledger a alive"
  shows "alive (snd (a_tls a c ssl e)) = alive e" "alive (snd (a_keepalive a c e)) = alive e"
    "alive (a_attach a c e) = alive e" "alive (snd (a_command a c args e)) = alive e"
    "alive (a_free a c e) = alive e - {c}"
  using assms by (simp_all add: ledger_def)

lemma ledger_events:
  assumes "ledger a alive"
  shows "alive (snd (a_events a cs e)) =
    alive e - {c. \<exists>i \<in> gone (fst (a_events a cs e)). i < length cs \<and> cs ! i = Some c}"
  using assms unfolding ledger_def by blast

lemma kept_steps:
  assumes "ledger a alive"
  shows "kept alive c w (enqueue a c args w)" "kept alive c w (secure_subscription a st c w)"
    "kept alive c w (attach_subscription a st c w)" "kept alive c w (hello_subscription a st c w)"
  by (simp_all add: kept_def enqueue_def secure_subscription_def attach_subscription_def hello_subscription_def
      Let_def prod.case_eq_if ledger_simps [OF assms] split: option.splits)

lemma open_subscription_opened:
  assumes "ledger a alive"
  shows "opened alive w (open_subscription a st sentinel w)"
proof -
  obtain r v where conn: "net_call (a_connect a (fst sentinel) (snd sentinel)) w = (r, v)" by fastforce
  have v: "only_net w v" "a_connect a (fst sentinel) (snd sentinel) (net w) = (r, net v)"
    using conn by (auto simp: net_call_def split: prod.splits)
  have law: "case a_connect a host port e of (None, e') \<Rightarrow> alive e' = alive e
      | (Some c, e') \<Rightarrow> c \<notin> alive e \<and> alive e' = insert c (alive e)" for host port e
    using assms by (simp add: ledger_def)
  show ?thesis
  proof (cases r)
    case None
    then show ?thesis using v law [where host = "fst sentinel" and port = "snd sentinel" and e = "net w"]
      by (simp add: open_subscription_def conn if_open_def opened_def)
  next
    case (Some c)
    have new: "c \<notin> alive (net w)" "alive (net v) = insert c (alive (net w))"
      using law [where host = "fst sentinel" and port = "snd sentinel" and e = "net w"] v(2) by (simp_all add: Some)
    let ?r = "if_open (if_open (if_open (secure_subscription a st c v) (attach_subscription a st))
      (hello_subscription a st)) (\<lambda>c. enqueue a c SUBSCRIPTION_COMMAND)"
    have "kept alive c v ?r" by (intro kept_if_open kept_steps [OF assms])
    moreover have "open_subscription a st sentinel w = (if a_err a c (net v) then (None, net_do (a_free a c) v) else ?r)"
      by (simp add: open_subscription_def conn Some if_open_def)
    moreover have "kept alive c v (None, net_do (a_free a c) v)" by (simp add: kept_def ledger_simps [OF assms])
    ultimately have "kept alive c v (open_subscription a st sentinel w)" by simp
    then show ?thesis using v(1) new only_net_trans [OF v(1)] by (auto simp: kept_def opened_def split: option.splits)
  qed
qed

text \<open>The connections on record are open, each is there once, and the others that are open are \<open>F\<close>.\<close>

definition accounted :: "('e \<Rightarrow> nat set) \<Rightarrow> nat set \<Rightarrow> nat option list \<Rightarrow> 'e \<Rightarrow> bool" where
  "accounted alive F cs e \<longleftrightarrow>
     distinct (recorded cs) \<and> F \<inter> set (recorded cs) = {} \<and> alive e = F \<union> set (recorded cs)"

lemma open_subscriptions_accounted:
  assumes l: "ledger a alive" and "accounted alive F (map snd xs) (net w)"
    and "open_subscriptions a st xs w = (cs, w')"
  shows "accounted alive F cs (net w') \<and> only_net w w' \<and> length cs = length xs"
  using assms(2,3)
proof (induction xs arbitrary: F w cs)
  case Nil
  then show ?case by simp
next
  case (Cons x xs)
  obtain sentinel c0 where x: "x = (sentinel, c0)" by fastforce
  obtain c v where o: "(if c0 = None then open_subscription a st sentinel w else (c0, w)) = (c, v)" by fastforce
  obtain cs1 where rest: "open_subscriptions a st xs v = (cs1, w')" and cs: "cs = c # cs1"
    using Cons.prems(2) o by (auto simp: x Let_def split: prod.splits)
  have "only_net w v \<and> accounted alive (F \<union> set (recorded [c])) (map snd xs) (net v) \<and> F \<inter> set (recorded [c]) = {}"
  proof (cases c0)
    case None
    then have "opened alive w (c, v)" using open_subscription_opened [OF l] o by (metis (full_types))
    then show ?thesis using Cons.prems(1) None
      by (cases c) (auto simp: opened_def accounted_def x)
  next
    case (Some c')
    then show ?thesis using Cons.prems(1) o by (auto simp: accounted_def x)
  qed
  then have n: "only_net w v" and acc: "accounted alive (F \<union> set (recorded [c])) (map snd xs) (net v)"
    and new: "F \<inter> set (recorded [c]) = {}" by blast+
  from Cons.IH [OF acc rest] have ih: "accounted alive (F \<union> set (recorded [c])) cs1 (net w')" "only_net v w'" "length cs1 = length xs"
    by blast+
  have "accounted alive F cs (net w')" using ih(1) new by (cases c) (auto simp: accounted_def cs)
  then show ?case using only_net_trans [OF n ih(2)] ih(3) by (simp add: cs)
qed

section \<open>The callbacks\<close>

lemma recorded_inj:
  assumes "distinct (recorded cs)" and "i < length cs" and "j < length cs" and "cs ! i = Some c" and "cs ! j = Some c"
  shows "i = j"
  using assms
proof (induction cs arbitrary: i j)
  case Nil
  then show ?case by simp
next
  case (Cons x cs)
  have new: "Some c \<notin> set cs" if "x = Some c" using Cons.prems(1) that by (simp add: set_recorded)
  have "distinct (recorded cs)" using Cons.prems(1) by (cases x) simp_all
  note ih = Cons.IH [OF this]
  show ?case
    using Cons.prems(2-5) new ih by (cases i; cases j) (auto simp: in_set_conv_nth)
qed

lemma recorded_drop:
  assumes "distinct (recorded cs)"
  shows "distinct (recorded (cs[i := None]))"
  using assms
proof (induction cs arbitrary: i)
  case Nil
  then show ?case by simp
next
  case (Cons x cs)
  have sub: "set (recorded (cs[k := None])) \<subseteq> set (recorded cs)" for k
    using set_update_subset_insert [of cs k None] by (auto simp: set_recorded)
  show ?case
  proof (cases i)
    case 0
    then show ?thesis using Cons.prems by (cases x) simp_all
  next
    case (Suc k)
    then show ?thesis using Cons sub [of k] by (cases x) (auto simp: subset_iff)
  qed
qed

lemma callbacks_effect:
  assumes "quiet h alive" and "fold (async_callback h) evs (cs, x) = (cs', x')" and "distinct (recorded cs)"
  shows "length cs' = length cs \<and> distinct (recorded cs') \<and> st_still alive x x' \<and>
    (\<forall>i < length cs. cs' ! i = (if i \<in> gone evs then None else cs ! i))"
  using assms(2,3)
proof (induction evs arbitrary: cs x)
  case Nil
  then show ?case by (simp add: gone_def)
next
  case (Cons e evs)
  obtain i ev where e: "e = (i, ev)" by fastforce
  obtain cs1 x1 where step: "async_callback h e (cs, x) = (cs1, x1)" by (metis surj_pair)
  have one: "cs1 = (if goes e = Some i then cs[i := None] else cs) \<and> st_still alive x x1"
    using step notification_still [OF assms(1), of x "ss_sentinels (fst x) ! i"]
    by (cases x; cases ev) (auto simp: e split: if_splits)
  have gone: "gone (e # evs) = (if goes e = Some i then insert i (gone evs) else gone evs)"
    by (cases ev) (auto simp: gone_def e)
  have "distinct (recorded cs1)" using one recorded_drop [OF Cons.prems(2)] Cons.prems(2) by simp
  with Cons.IH [of cs1 x1] Cons.prems(1) step
  have ih: "length cs' = length cs1" "distinct (recorded cs')" "st_still alive x1 x'"
    "\<forall>i < length cs1. cs' ! i = (if i \<in> gone evs then None else cs1 ! i)" by simp_all
  then show ?case using one st_still_trans [of alive x x1 x'] by (auto simp: gone nth_list_update)
qed

lemma listen_accounted:
  assumes q: "quiet h alive" and l: "ledger a alive"
    and len: "length cs = length (ss_sentinels st)" and acc: "accounted alive F cs (net w)"
    and run: "listen h a (cs, st, w) = (cs', st', w')"
  shows "accounted alive F cs' (net w')" "only_net w w'" "ss_sentinels st' = ss_sentinels st" "length cs' = length cs"
proof -
  obtain cs1 w1 where o: "open_subscriptions a st (zip (ss_sentinels st) cs) w = (cs1, w1)" by fastforce
  obtain evs w2 where e: "net_call (a_events a cs1) w1 = (evs, w2)" by fastforce
  have fold: "fold (async_callback h) evs (cs1, st, w2) = (cs', st', w')"
    using run by (simp add: listen_def o e)
  have 1: "accounted alive F cs1 (net w1)" "only_net w w1" "length cs1 = length cs"
    using open_subscriptions_accounted [OF l _ o, of F] acc len by simp_all
  have 2: "a_events a cs1 (net w1) = (evs, net w2)" "only_net w1 w2"
    using e by (auto simp: net_call_def split: prod.splits)
  have alive2: "alive (net w2) = alive (net w1) - {c. \<exists>i \<in> gone evs. i < length cs1 \<and> cs1 ! i = Some c}"
    using ledger_events [OF l, of cs1 "net w1"] by (simp add: 2(1))
  have 3: "length cs' = length cs1" "distinct (recorded cs')" "st_still alive (st, w2) (st', w')"
    "\<forall>i < length cs1. cs' ! i = (if i \<in> gone evs then None else cs1 ! i)"
    using callbacks_effect [OF q fold] 1(1) by (simp_all add: accounted_def)
  have "c \<in> set (recorded cs') \<longleftrightarrow> c \<in> set (recorded cs1) \<and> \<not> (\<exists>i \<in> gone evs. i < length cs1 \<and> cs1 ! i = Some c)" for c
  proof -
    have "c \<in> set (recorded cs') \<longleftrightarrow> (\<exists>i < length cs1. i \<notin> gone evs \<and> cs1 ! i = Some c)"
      using 3(1,4) unfolding set_recorded by (simp add: in_set_conv_nth) (metis option.distinct(1))
    then show ?thesis
      using recorded_inj [of cs1 _ _ c] 1(1) by (auto simp: set_recorded in_set_conv_nth accounted_def)
  qed
  then have R: "set (recorded cs') = set (recorded cs1) - {c. \<exists>i \<in> gone evs. i < length cs1 \<and> cs1 ! i = Some c}"
    by blast
  have alive': "alive (net w') = alive (net w2)" using 3(3) by (simp add: st_still_def still_def)
  have X: "{c. \<exists>i \<in> gone evs. i < length cs1 \<and> cs1 ! i = Some c} \<subseteq> set (recorded cs1)"
    by (auto simp: set_recorded in_set_conv_nth)
  have F: "F \<inter> set (recorded cs1) = {}" "alive (net w1) = F \<union> set (recorded cs1)"
    using 1(1) by (simp_all add: accounted_def)
  show "accounted alive F cs' (net w')"
    unfolding accounted_def alive' alive2 F(2) R using 3(2) F(1) X by (intro conjI; blast)
  show "only_net w w'" using only_net_trans [OF only_net_trans [OF 1(2) 2(2)]] 3(3) by (simp add: st_still_def still_def)
  show "ss_sentinels st' = ss_sentinels st" "length cs' = length cs" using 3(1,3) 1(3) by (simp_all add: st_still_def)
qed

text \<open>The end of the thread closes what it has on record, once.\<close>

lemma free_sentinels_eq: "free_sentinels a cs w = w\<lparr>net := fold (a_free a) (recorded cs) (net w)\<rparr>"
  by (induction a cs w rule: free_sentinels.induct) (simp_all add: net_do_def)

lemma freed_alive:
  assumes "ledger a alive"
  shows "alive (fold (a_free a) cs e) = alive e - set cs"
  by (induction cs arbitrary: e) (auto simp: ledger_simps [OF assms])

section \<open>A step of the thread\<close>

lemma quiet_none [simp]: "quiet h (\<lambda>e. {})"
  by (simp add: quiet_def)

lemma open_subscription_net: "only_net w (snd (open_subscription a st sentinel w))"
proof -
  have i: "only_net w (snd (if_open r f))" if "only_net w (snd r)" "\<And>c w. only_net w (snd (f c w))" for w r f
    using that only_net_trans by (auto simp: if_open_def split: prod.splits option.splits) blast
  have e: "only_net w (snd (enqueue a c args w))" for c args w
    by (simp add: enqueue_def Let_def prod.case_eq_if)
  have s: "only_net w (snd (secure_subscription a st c w))" for c w
    by (simp add: secure_subscription_def Let_def prod.case_eq_if split: option.splits)
  have t: "only_net w (snd (attach_subscription a st c w))" for c w
    by (simp add: attach_subscription_def enqueue_def Let_def prod.case_eq_if split: option.splits)
  have u: "only_net w (snd (hello_subscription a st c w))" for c w
    by (simp add: hello_subscription_def e)
  have "only_net w (snd (if_open (if_open (if_open (secure_subscription a st c w) (attach_subscription a st))
      (hello_subscription a st)) (\<lambda>c. enqueue a c SUBSCRIPTION_COMMAND)))" for c w
    by (intro i s t u e)
  then show ?thesis
    unfolding open_subscription_def by (intro i) simp_all
qed

lemma open_subscriptions_net:
  "only_net w (snd (open_subscriptions a st xs w)) \<and> length (fst (open_subscriptions a st xs w)) = length xs"
proof (induction xs arbitrary: w)
  case Nil
  show ?case by simp
next
  case (Cons x xs)
  show ?case
    using Cons.IH only_net_trans [OF open_subscription_net conjunct1 [OF Cons.IH]]
    by (cases x) (auto simp: Let_def prod.case_eq_if)
qed

lemma callbacks_net:
  "only_net (snd x) (snd (snd (fold (async_callback h) evs (cs, x)))) \<and>
   ss_sentinels (fst (snd (fold (async_callback h) evs (cs, x)))) = ss_sentinels (fst x) \<and>
   length (fst (fold (async_callback h) evs (cs, x))) = length cs"
proof (induction evs arbitrary: cs x)
  case Nil
  show ?case by simp
next
  case (Cons e evs)
  obtain i ev where e: "e = (i, ev)" by fastforce
  obtain cs1 x1 where step: "async_callback h e (cs, x) = (cs1, x1)" by (metis surj_pair)
  have "st_still (\<lambda>e. {}) x x1 \<and> length cs1 = length cs"
    using step notification_still [OF quiet_none, of x h "ss_sentinels (fst x) ! i"]
    by (cases x; cases ev) (auto simp: e split: if_splits)
  then show ?case
    using Cons.IH [of x1 cs1] step only_net_trans by (auto simp: st_still_def still_def)
qed

lemma listen_net:
  assumes "listen h a (cs, st, w) = (cs', st', w')" and "length cs = length (ss_sentinels st)"
  shows "only_net w w' \<and> ss_sentinels st' = ss_sentinels st \<and> length cs' = length cs"
proof -
  obtain cs1 w1 where o: "open_subscriptions a st (zip (ss_sentinels st) cs) w = (cs1, w1)" by fastforce
  obtain evs w2 where e: "net_call (a_events a cs1) w1 = (evs, w2)" by fastforce
  have "fold (async_callback h) evs (cs1, st, w2) = (cs', st', w')" using assms(1) by (simp add: listen_def o e)
  moreover have "only_net w1 w2" using e by (auto simp: net_call_def split: prod.splits)
  moreover have "only_net w w1" "length cs1 = length cs"
    using open_subscriptions_net [of w a st "zip (ss_sentinels st) cs"] assms(2) o by simp_all
  ultimately show ?thesis
    using callbacks_net [of "(st, w2)" h evs cs1] only_net_trans [of w w1 w2] only_net_trans [of w w2 w'] by simp
qed

text \<open>A thread that is to stop is this many steps of its own away from its end.\<close>

fun steps_left :: "place \<Rightarrow> nat" where
  "steps_left Ended = 0"
| "steps_left At_Top = 1"
| "steps_left (Discovered now) = 1"
| "steps_left (To_Discover now) = 2"
| "steps_left (To_Update now) = 2"
| "steps_left (To_Listen now) = 3"

definition thread_fits :: "sentinel_thread \<Rightarrow> bool" where
  "thread_fits th \<longleftrightarrow>
     length (th_contexts th) = (if th_place th = Ended then 0 else length (ss_sentinels (th_state th)))"

text \<open>The world as a step of a thread finds it and leaves it.\<close>

definition world_rests :: "'e world \<Rightarrow> bool" where
  "world_rests w \<longleftrightarrow> held w = [] \<and> (\<forall>d \<in> set (vcl_dbs (config w)). reg_ok d w)"

definition thread_frame :: "'e world \<Rightarrow> 'e world \<Rightarrow> bool" where
  "thread_frame w w' \<longleftrightarrow>
     held w' = [] \<and> config w' = config w \<and> (\<forall>d. (reg_ok d w \<longrightarrow> reg_ok d w') \<and> registered w' d = registered w d)"

lemma world_net: "reg_ok d (w\<lparr>net := e\<rparr>) = reg_ok d w" "registered (w\<lparr>net := e\<rparr>) d = registered w d"
  by (simp_all add: reg_ok_def filed_ok_def registered_def)

lemma thread_frame_net:
  assumes "only_net w w'" and "held w = []"
  shows "thread_frame w w'"
proof -
  obtain e where "w' = w\<lparr>net := e\<rparr>" using assms(1) by (auto simp: only_net_def)
  then show ?thesis using assms(2) by (simp add: thread_frame_def world_net)
qed

text \<open>The loop is left.\<close>

lemma leave_loop_eq:
  assumes "held w = [Config_Mutex]"
  shows "leave_loop a th w =
    Some (th\<lparr>th_contexts := [], th_state := th_state (fst (free_state a th w)), th_place := Ended\<rparr>,
      w\<lparr>held := [], net := fold (a_free a) (recorded (th_contexts th)) (net w)\<rparr>)"
  by (simp add: leave_loop_def Lck_Lock_def Lck_Unlock_def assms free_state_def Let_def free_sentinels_eq)

lemma freed_accounted:
  assumes "ledger a alive" and "accounted alive F cs e"
  shows "accounted alive F [] (fold (a_free a) (recorded cs) e)"
  using assms(2) by (auto simp: accounted_def freed_alive [OF assms(1)])

text \<open>The update at the end of a pass.\<close>

lemma update_section_rests:
  assumes "world_rests w"
  shows "\<exists>w'. unsafe_update_dbs h st (w\<lparr>held := [Config_Mutex]\<rparr>) = Some w' \<and> held w' = [Config_Mutex] \<and>
    thread_frame w (w'\<lparr>held := []\<rparr>) \<and> (\<forall>alive. quiet h alive \<longrightarrow> alive (net w') = alive (net w))"
proof -
  let ?w = "w\<lparr>held := [Config_Mutex]\<rparr>"
  have "updatable (vcl_dbs (config ?w)) ?w" using assms by (simp add: updatable_def world_rests_def world_held)
  from update_databases_ok [OF this, of h "net ?w" st] obtain w' where
    w': "update_databases h st (vcl_dbs (config ?w)) ?w = Some w'" "updated h (net ?w) st (vcl_dbs (config ?w)) ?w w'" by auto
  have "alive (net w') = alive (net w)" if "quiet h alive" for alive
  proof -
    have "alive (((snd \<circ> h_time h) ^^ n) (net w)) = alive (net w)" for n
      by (induction n) (simp_all add: quiet_simps [OF that])
    then show ?thesis using w'(2) by (auto simp: updated_def later_def)
  qed
  then show ?thesis
    using w' by (intro exI [of _ w']) (simp add: unsafe_update_dbs_def Lck_AssertHeld_def updated_def thread_frame_def world_held)
qed

definition step_ok ::
  "'e hiredis \<Rightarrow> 'e async \<Rightarrow> sentinels \<Rightarrow> sentinel_thread \<Rightarrow> 'e world \<Rightarrow> sentinels \<times> sentinel_thread \<times> 'e world \<Rightarrow> bool" where
  "step_ok h a se th w = (\<lambda>(se', th', w').
     thread_frame w w' \<and> se' = se\<lparr>se_discovery := se_discovery se'\<rparr> \<and> th_config th' = th_config th \<and> thread_fits th' \<and>
     (th_place th' = Ended \<longrightarrow> th_place th = Ended \<or> \<not> se_active se) \<and>
     (\<not> se_active se \<longrightarrow> steps_left (th_place th') = steps_left (th_place th) - 1) \<and>
     (\<forall>alive F. quiet h alive \<and> ledger a alive \<and> accounted alive F (th_contexts th) (net w) \<longrightarrow>
        accounted alive F (th_contexts th') (net w')))"

lemma step_leaves:
  assumes w: "world_rests w" and inactive: "\<not> se_active se" and place: "steps_left (th_place th) = 1"
    and th: "th_contexts th1 = th_contexts th" "th_config th1 = th_config th"
  shows "\<exists>r. leave_loop a th1 (w\<lparr>held := [Config_Mutex]\<rparr>) = Some r \<and> step_ok h a se th w (se, r)"
proof -
  let ?w = "w\<lparr>held := [], net := fold (a_free a) (recorded (th_contexts th)) (net w)\<rparr>"
  have "only_net w ?w" using w by (cases w) (simp add: only_net_def world_rests_def)
  then have "thread_frame w ?w" using w by (intro thread_frame_net) (simp_all add: world_rests_def)
  then show ?thesis
    using inactive place by (auto simp: leave_loop_eq th step_ok_def thread_fits_def intro: freed_accounted)
qed

lemma thread_step_ok:
  assumes w: "world_rests w" and fits: "thread_fits th"
  shows "\<exists>r. thread_step h a se th w = Some r \<and> step_ok h a se th w r"
proof -
  let ?v = "w\<lparr>held := [Config_Mutex]\<rparr>"
  have lock: "Lck_Lock Config_Mutex w = Some ?v" and rests: "held w = []"
    using w by (simp_all add: Lck_Lock_def world_rests_def)
  have unheld: "w\<lparr>held := []\<rparr> = w" using rests by (cases w) simp
  show ?thesis
  proof (cases "th_place th")
    case At_Top
    show ?thesis
    proof (cases "se_active se")
      case False
      from step_leaves [OF w False, of th th a h] show ?thesis
        using False At_Top lock by (auto simp: thread_step_def split: prod.splits)
    next
      case True
      let ?w = "w\<lparr>net := snd (h_time h (net w))\<rparr>"
      obtain p where "thread_step h a se th w = Some (se, th\<lparr>th_place := p\<rparr>, ?w\<lparr>held := []\<rparr>)" and p: "p \<noteq> Ended"
        using At_Top True lock by (simp add: thread_step_def prod.case_eq_if Let_def Lck_Unlock_def)
      moreover have "?w\<lparr>held := []\<rparr> = ?w" using rests by (cases w) simp
      moreover have "thread_frame w ?w" using rests by (intro thread_frame_net) simp_all
      moreover have "\<forall>alive F. quiet h alive \<and> ledger a alive \<and> accounted alive F (th_contexts th) (net w) \<longrightarrow>
          accounted alive F (th_contexts th) (net ?w)"
        by (auto simp: accounted_def quiet_simps)
      ultimately show ?thesis
        using True At_Top p fits by (simp add: step_ok_def thread_fits_def)
    qed
  next
    case (To_Discover now)
    obtain st w1 where d: "discover_servers h (th_state th, w) = (st, w1)" by fastforce
    have k: "st_still alive (th_state th, w) (st, w1)" if "quiet h alive" for alive
      using discover_still [OF that, of "(th_state th, w)"] by (simp add: d)
    have "thread_frame w w1" using k [OF quiet_none] rests by (intro thread_frame_net) (simp_all add: st_still_def still_def)
    moreover have "\<forall>alive F. quiet h alive \<and> ledger a alive \<and> accounted alive F (th_contexts th) (net w) \<longrightarrow>
        accounted alive F (th_contexts th) (net w1)"
      using k by (auto simp: accounted_def st_still_def still_def)
    moreover have "ss_sentinels st = ss_sentinels (th_state th)" using k [OF quiet_none] by (simp add: st_still_def)
    ultimately show ?thesis
      using To_Discover d fits by (simp add: thread_step_def step_ok_def thread_fits_def)
  next
    case (Discovered now)
    let ?th = "th\<lparr>th_state := (th_state th)\<lparr>next_discovery := now + uint (ss_period (th_state th))\<rparr>\<rparr>"
    show ?thesis
    proof (cases "se_active se")
      case False
      from step_leaves [OF w False, of th ?th a h] show ?thesis
        using False Discovered lock by (auto simp: thread_step_def Let_def split: prod.splits)
    next
      case True
      have "thread_frame w w" using rests by (intro thread_frame_net) simp_all
      then show ?thesis
        using Discovered True lock unheld fits
        by (auto simp: thread_step_def Let_def Lck_Unlock_def step_ok_def thread_fits_def)
    qed
  next
    case (To_Listen now)
    obtain cs st w1 where l: "listen h a (th_contexts th, th_state th, w) = (cs, st, w1)" by (metis surj_pair)
    have len: "length (th_contexts th) = length (ss_sentinels (th_state th))" using fits To_Listen by (simp add: thread_fits_def)
    have n: "only_net w w1" "ss_sentinels st = ss_sentinels (th_state th)" "length cs = length (th_contexts th)"
      using listen_net [OF l len] by blast+
    have "thread_frame w w1" using n(1) rests by (intro thread_frame_net)
    moreover have "\<forall>alive F. quiet h alive \<and> ledger a alive \<and> accounted alive F (th_contexts th) (net w) \<longrightarrow>
        accounted alive F cs (net w1)"
      using listen_accounted(1) [OF _ _ len _ l] by blast
    ultimately show ?thesis
      using To_Listen l n fits by (simp add: thread_step_def step_ok_def thread_fits_def)
  next
    case (To_Update now)
    show ?thesis
    proof (cases "se_discovery se \<or> now \<le> last_change (th_state th)")
      case True
      obtain w1 where u: "unsafe_update_dbs h (th_state th) ?v = Some w1" "held w1 = [Config_Mutex]"
        "thread_frame w (w1\<lparr>held := []\<rparr>)" "\<forall>alive. quiet h alive \<longrightarrow> alive (net w1) = alive (net w)"
        using update_section_rests [OF w, of h "th_state th"] by blast
      moreover have "\<forall>alive F. quiet h alive \<and> ledger a alive \<and> accounted alive F (th_contexts th) (net w) \<longrightarrow>
          accounted alive F (th_contexts th) (net w1)"
        using u(4) by (auto simp: accounted_def)
      ultimately show ?thesis
        using To_Update True lock fits
        by (simp add: thread_step_def Lck_Unlock_def step_ok_def thread_fits_def)
    next
      case False
      have "thread_frame w w" using rests by (intro thread_frame_net) simp_all
      then show ?thesis
        using To_Update False lock unheld fits
        by (auto simp: thread_step_def Let_def Lck_Unlock_def step_ok_def thread_fits_def)
    qed
  next
    case Ended
    have "thread_frame w w" using rests by (intro thread_frame_net) simp_all
    then show ?thesis using Ended fits by (simp add: thread_step_def Let_def step_ok_def)
  qed
qed

end
