(* ===== verification/Cluster_Frame.thy ===== *)
theory Cluster_Frame
  imports Cluster_Refresh Execute_State
begin

text \<open>
  What the registration of servers leaves to the tasks and to the other databases, on every path: the
  connections of the task, the database and the pool of every server that exists, and the other registries. And
  a discovery with more steps at its disposal does the same.
\<close>

section \<open>What a discovery leaves alone\<close>

definition add_frame :: "db_ptr \<Rightarrow> 'e world \<Rightarrow> 'e world \<Rightarrow> bool" where
  "add_frame d w w' \<longleftrightarrow>
     task w' = task w \<and> next_ctx w' = next_ctx w \<and> next_srv w \<le> next_srv w' \<and>
     (\<forall>s < next_srv w. sv_db (srvs w' s) = sv_db (srvs w s) \<and> sv_pool (srvs w' s) = sv_pool (srvs w s)) \<and>
     (\<forall>s. next_srv w \<le> s \<and> s < next_srv w' \<longrightarrow> sv_pool (srvs w' s) = empty_pool) \<and>
     registered w' d \<subseteq> registered w d \<union> {s. next_srv w \<le> s} \<and>
     (\<forall>x. x \<noteq> d \<longrightarrow> registered w' x = registered w x)"

lemma add_frame_refl [simp]: "add_frame d w w"
  by (auto simp: add_frame_def)

lemma add_frame_trans: "add_frame d w w' \<Longrightarrow> add_frame d w' w'' \<Longrightarrow> add_frame d w w''"
proof -
  assume 1: "add_frame d w w'" and 2: "add_frame d w' w''"
  have le: "next_srv w \<le> next_srv w'" using 1 by (simp add: add_frame_def)
  have "sv_db (srvs w'' s) = sv_db (srvs w s) \<and> sv_pool (srvs w'' s) = sv_pool (srvs w s)" if "s < next_srv w" for s
    using 1 2 that le by (simp add: add_frame_def)
  moreover have "sv_pool (srvs w'' s) = empty_pool" if "next_srv w \<le> s" "s < next_srv w''" for s
    using 1 2 that by (cases "s < next_srv w'") (simp_all add: add_frame_def)
  moreover have "registered w'' d \<subseteq> registered w d \<union> {s. next_srv w \<le> s}"
    using 1 2 le unfolding add_frame_def by fastforce
  ultimately show ?thesis using 1 2 by (simp add: add_frame_def)
qed

lemma add_frame_simps [simp]:
  "add_frame d w (w'\<lparr>net := e\<rparr>) \<longleftrightarrow> add_frame d w w'" "add_frame d w (net_do f w') \<longleftrightarrow> add_frame d w w'"
  "add_frame d w (upd_stats d k w') \<longleftrightarrow> add_frame d w w'"
  "add_frame d w (w'\<lparr>held := l\<rparr>) \<longleftrightarrow> add_frame d w w'"
  by (auto simp: add_frame_def net_do_def upd_stats_def upd_db_def registered_def)

lemma add_frame_fields:
  assumes "task w'' = task w'" and "next_ctx w'' = next_ctx w'" and "next_srv w'' = next_srv w'"
    and "\<And>s. sv_db (srvs w'' s) = sv_db (srvs w' s)" and "\<And>s. sv_pool (srvs w'' s) = sv_pool (srvs w' s)"
    and "registered w'' d \<subseteq> registered w' d \<union> (registered w d \<union> {s. next_srv w \<le> s})"
    and "\<And>x. x \<noteq> d \<Longrightarrow> registered w'' x = registered w' x"
  shows "add_frame d w w' \<Longrightarrow> add_frame d w w''"
  using assms unfolding add_frame_def by auto

lemma upd_srv_world:
  "task (upd_srv s f w) = task w" "next_ctx (upd_srv s f w) = next_ctx w" "next_srv (upd_srv s f w) = next_srv w"
  "registered (upd_srv s f w) x = registered w x"
  by (simp_all add: upd_srv_def registered_def)

lemma add_frame_srv:
  assumes "\<And>sv. sv_db (f sv) = sv_db sv" and "\<And>sv. sv_pool (f sv) = sv_pool sv"
  shows "add_frame d w (upd_srv s f w') \<longleftrightarrow> add_frame d w w'"
proof -
  have eq: "sv_db (srvs (upd_srv s f w') x) = sv_db (srvs w' x)" "sv_pool (srvs (upd_srv s f w') x) = sv_pool (srvs w' x)" for x
    using assms by (simp_all add: upd_srv_def)
  show ?thesis by (simp only: add_frame_def upd_srv_world eq)
qed

lemma add_frame_core: "same_core w w' \<Longrightarrow> add_frame d w w'"
  by (rule add_frame_fields [OF _ _ _ _ _ _ _ add_frame_refl]) (auto simp: same_core_simps registered_core)

lemma add_frame_list:
  assumes "set (g (servers (dbs w d) wt r)) \<subseteq> insert s (set (servers (dbs w d) wt r))"
    and "s \<in> registered v d \<or> next_srv v \<le> s"
  shows "add_frame d v w \<Longrightarrow> add_frame d v (upd_servers d wt r g w)"
proof (rule add_frame_fields)
  have "registered (upd_servers d wt r g w) d \<subseteq> insert s (registered w d)"
    using assms(1) by (fastforce simp: registered_def upd_servers_def upd_db_def split: if_splits)
  then show "registered (upd_servers d wt r g w) d \<subseteq> registered w d \<union> (registered v d \<union> {s. next_srv v \<le> s})"
    using assms(2) by blast
qed (simp_all add: upd_servers_def upd_db_def registered_def)

lemma file_frame:
  assumes "file_server d s w = Some w'" and "s \<in> registered v d \<or> next_srv v \<le> s" and "add_frame d v w"
  shows "add_frame d v w'"
  using assms by (auto simp: file_server_def intro!: add_frame_list split: if_splits)

lemma register_frame:
  assumes "register_server h d location role w = Some (r, w')"
  shows "add_frame d w w'" and "\<And>s. r = Some s \<Longrightarrow> s = next_srv w"
proof -
  have "add_frame d w w' \<and> (\<forall>s. r = Some s \<longrightarrow> s = next_srv w)"
  proof (cases r)
    case None
    then show ?thesis
      using assms by (auto simp: register_server_def new_redis_server_def Let_def bind_Some split: if_splits prod.splits option.splits)
  next
    case (Some s)
    then obtain rr where s: "s = next_srv w" and core: "same_core (alloc_server (server_of h w d location rr) w) w'"
      using register_server_Some assms by blast
    have "add_frame d w (alloc_server (server_of h w d location rr) w)"
      by (auto simp: add_frame_def alloc_server_def registered_def server_of_def)
    then show ?thesis using add_frame_core [OF core] add_frame_trans s Some by blast
  qed
  then show "add_frame d w w'" "\<And>s. r = Some s \<Longrightarrow> s = next_srv w" by blast+
qed

lemma unsafe_add_frame:
  assumes "unsafe_add_redis_server h d location role w = Some (r, w')"
  shows "add_frame d w w'"
proof (cases "find_server w d location cells")
  case None
  obtain r1 w1 where reg: "register_server h d location role w = Some (r1, w1)"
    using assms None by (auto simp: unsafe_add_redis_server_def bind_Some)
  note fr = register_frame [OF reg]
  show ?thesis
  proof (cases r1)
    case None
    then show ?thesis
      using assms \<open>find_server w d location cells = None\<close> reg fr(1) by (auto simp: unsafe_add_redis_server_def bind_Some)
  next
    case (Some s)
    then have f: "file_server d s w1 = Some w'"
      using assms \<open>find_server w d location cells = None\<close> reg by (auto simp: unsafe_add_redis_server_def bind_Some)
    have "s = next_srv w" using fr(2) Some .
    then show ?thesis using file_frame [OF f _ fr(1)] by simp
  qed
next
  case (Some c)
  obtain wt rl s where c: "c = ((wt, rl), s)" by (metis prod.exhaust)
  have s: "s \<in> registered w d" using find_server_Some [OF Some [unfolded c]] by (auto simp: registered_def)
  define w1 where "w1 = upd_servers d wt rl (\<lambda>l. tailq_remove l s) w"
  obtain w2 where w2: "refresh_server h s role w1 = Some w2" and f: "file_server d s w2 = Some w'"
    using assms Some by (auto simp: unsafe_add_redis_server_def bind_Some c w1_def split: option.splits)
  obtain rr where core: "same_core (upd_srv s (\<lambda>sv. sv\<lparr>sv_role := rr\<rparr>) w1) w2"
    using refresh_server_effect [OF w2] by blast
  have "add_frame d w w1"
    unfolding w1_def using s by (intro add_frame_list [where s = s]) (auto simp: tailq_remove_def dest: set_remove1_subset [THEN subsetD])
  then have "add_frame d w (upd_srv s (\<lambda>sv. sv\<lparr>sv_role := rr\<rparr>) w1)" by (simp add: add_frame_srv)
  then have "add_frame d w w2" using add_frame_core [OF core] add_frame_trans by blast
  then show ?thesis using file_frame [OF f] s by blast
qed

lemma add_node_frame:
  assumes "unsafe_add_node h d nd w = Some (r, w')"
  shows "add_frame d w w'"
proof (cases "length (nd_endpoint nd @ '':'' @ string_of_nat (nd_port nd)) \<ge> 256")
  case True
  then show ?thesis using assms by (auto simp: unsafe_add_node_def bind_Some)
next
  case False
  then obtain r1 w1 where a: "unsafe_add_redis_server h d (nd_endpoint nd @ '':'' @ string_of_nat (nd_port nd)) (nd_role nd) w = Some (r1, w1)"
    and w': "w' = w1 \<or> (\<exists>s t e. w' = upd_srv s (\<lambda>sv. sv\<lparr>sick_tst := t, sick_exp := t + sickness_ttl (dbs w1 d)\<rparr>) (w1\<lparr>net := e\<rparr>))"
    using assms by (fastforce simp: unsafe_add_node_def Let_def bind_Some net_call_def
      split: if_split_asm option.split_asm prod.split_asm)
  show ?thesis using unsafe_add_frame [OF a] w' by (auto simp: add_frame_srv)
qed

lemma fold_frame:
  assumes "\<And>x v. add_frame d v (f x v)"
  shows "add_frame d w (fold f xs w)"
  by (induction xs arbitrary: w) (auto intro: add_frame_trans assms)

lemma reset_frame: "unsafe_reset_slots d w = Some w' \<Longrightarrow> add_frame d w w'"
  by (auto simp: unsafe_reset_slots_def bind_Some add_frame_srv split: prod.splits intro!: fold_frame)

lemma range_frame: "add_frame d w (fold (register_range s) rs w)"
  by (rule fold_frame) (auto simp: register_range_def add_frame_srv split: prod.splits)

lemma register_nodes_frame:
  "register_nodes h d loc ranges ns (reset, n, w) = Some (reset', n', w') \<Longrightarrow> add_frame d w w'"
proof (induction ns arbitrary: reset n w)
  case (Cons m ns)
  show ?case
  proof (cases "parse_node m (dbs w d) loc")
    case None
    then show ?thesis using Cons by simp
  next
    case (Some nd)
    then obtain r w1 where a: "unsafe_add_node h d nd w = Some (r, w1)"
      using Cons.prems by (auto split: option.splits prod.splits)
    note f = add_node_frame [OF a]
    show ?thesis
    proof (cases r)
      case None
      then show ?thesis using Cons a f Some by (auto intro: add_frame_trans)
    next
      case (Some s)
      then obtain w2 where w2: "(if ranges \<noteq> [] \<and> \<not> reset then unsafe_reset_slots d w1 else Some w1) = Some w2"
        and rest: "register_nodes h d loc ranges ns (reset \<or> ranges \<noteq> [], n + length ranges, fold (register_range s) ranges w2) =
          Some (reset', n', w')"
        using Cons.prems \<open>parse_node m (dbs w d) loc = Some nd\<close> a by (auto split: option.splits)
      have "add_frame d w1 w2" using w2 reset_frame by (auto split: if_splits)
      from add_frame_trans [OF f add_frame_trans [OF this add_frame_trans [OF range_frame Cons.IH [OF rest]]]]
      show ?thesis .
    qed
  qed
qed simp

lemma register_shards_frame:
  "register_shards h d loc shards st = Some st' \<Longrightarrow> add_frame d (snd (snd st)) (snd (snd st'))"
proof (induction shards arbitrary: st)
  case (Cons shard shards)
  show ?case
  proof (cases "parse_shard shard")
    case None
    then show ?thesis using Cons by simp
  next
    case (Some rn)
    then obtain ranges nodes st1 where "rn = (ranges, nodes)"
      and r: "register_nodes h d loc ranges nodes st = Some st1" "register_shards h d loc shards st1 = Some st'"
      using Cons.prems by (auto split: option.splits prod.splits)
    have "add_frame d (snd (snd st)) (snd (snd st1))"
      using register_nodes_frame r(1) by (cases st; cases st1) fastforce
    then show ?thesis using Cons.IH [OF r(2)] add_frame_trans by blast
  qed
qed simp

lemma aux_frame:
  assumes "unsafe_discover_slots_aux h d s w = Some (don, w')"
  shows "add_frame d w w'"
proof -
  obtain reply rc w1 where ask: "ask_topology h d s w = ((reply, rc), w1)" by (metis prod.exhaust)
  have f: "add_frame d w w1" by (rule add_frame_core [OF only_net_core [OF ask_topology_net [OF ask]]])
  let ?free = "\<lambda>w. case rc of None \<Rightarrow> w | Some rc \<Rightarrow> net_do (h_free h rc) w"
  have free: "add_frame d w (?free (count_discovery d b v)) \<longleftrightarrow> add_frame d w v" for b v
    by (simp add: count_discovery_def split: option.split)
  show ?thesis
  proof (cases "\<exists>shards. reply = Some (Reply_Array shards)")
    case True
    then obtain shards where r: "reply = Some (Reply_Array shards)" by blast
    then obtain reset n w2 where reg: "register_shards h d (sv_loc (srvs w s)) shards (False, 0, w1) = Some (reset, n, w2)"
      and w': "w' = ?free (count_discovery d (n > 0) w2)"
      using assms ask only_net_fields(1) [OF ask_topology_net [OF ask]]
      by (auto simp: unsafe_discover_slots_aux_def bind_Some split: prod.splits)
    show ?thesis
      using add_frame_trans [OF f] register_shards_frame [OF reg] by (simp add: w' free)
  next
    case False
    then have "w' = ?free (count_discovery d False w1)"
      using assms ask by (auto simp: unsafe_discover_slots_aux_def bind_Some split: option.splits redisReply.splits)
    then show ?thesis using f by (simp add: free)
  qed
qed

lemma walk_frame:
  "discover_walk n h d server cs cur w = Some w' \<Longrightarrow> add_frame d w w'"
proof (induction n h d server cs cur w rule: discover_walk.induct)
  case (1 fuel h d server w)
  then show ?case by simp
next
  case (2 fuel h d server wt r cs w)
  then show ?case by (auto split: list.splits nat.splits)
next
  case (3 fuel h d server cs s w)
  obtain b w1 where step: "(if s \<noteq> server then unsafe_discover_slots_aux h d s w else Some (False, w)) = Some (b, w1)"
    using "3.prems" by (auto split: option.splits simp del: not_None_eq) 
  have f: "add_frame d w w1" using step aux_frame by (auto split: if_splits)
  show ?case
  proof (cases b)
    case True
    then show ?thesis using "3.prems" step f by simp
  next
    case False
    have "add_frame d w1 w'"
    proof (cases "tailq_next d s cells w1")
      case None
      then show ?thesis using "3.IH"(1) [OF step refl] "3.prems" step False by simp
    next
      case (Some n)
      then obtain m where m: "fuel = Suc m" using "3.prems" step False by (cases fuel) auto
      then show ?thesis using "3.IH"(2) [OF step refl _ Some m] "3.prems" step False Some by simp
    qed
    then show ?thesis using add_frame_trans [OF f] by blast
  qed
qed

lemma discover_frame:
  assumes "unsafe_discover_slots n h d s w = Some w'"
  shows "add_frame d w w'"
  using assms
  by (auto simp: unsafe_discover_slots_def bind_Some split: if_splits
      dest!: aux_frame walk_frame intro: add_frame_trans)

text \<open>The pools of the servers stay in order: those that are new are empty.\<close>

lemma pools_frame:
  assumes fr: "add_frame d w v" and conf: "max_connections (dbs v d) = max_connections (dbs w d)"
    and old: "pools_in_order d w" and new: "\<forall>s \<in> registered v d. s < next_srv v"
  shows "pools_in_order d v"
  unfolding pools_in_order_def
proof
  fix s assume s: "s \<in> registered v d"
  have nc: "next_ctx v = next_ctx w" using fr by (simp add: add_frame_def)
  show "pool_ok (max_connections (dbs v d)) (sv_pool (srvs v s)) \<and>
    (\<forall>c \<in> pool_conns (sv_pool (srvs v s)). cx_server c = s \<and> cx_id c < next_ctx v)"
  proof (cases "s < next_srv w")
    case True
    then have "s \<in> registered w d" "sv_pool (srvs v s) = sv_pool (srvs w s)"
      using fr s by (auto simp: add_frame_def)
    then show ?thesis using old by (simp add: pools_in_order_def conf nc)
  next
    case False
    then have "sv_pool (srvs v s) = empty_pool" using fr s new by (simp add: add_frame_def)
    then show ?thesis by (simp add: empty_pool_def pool_ok_def pool_conns_def)
  qed
qed

section \<open>More steps\<close>

lemma walk_mono:
  "discover_walk n h d server cs cur w = Some w' \<Longrightarrow> n \<le> m \<Longrightarrow> discover_walk m h d server cs cur w = Some w'"
proof (induction n h d server cs cur w arbitrary: m rule: discover_walk.induct)
  case (1 fuel h d server w)
  then show ?case by simp
next
  case (2 fuel h d server wt r cs w)
  show ?case
  proof (cases "servers (dbs w d) wt r")
    case Nil
    then show ?thesis using 2 by simp
  next
    case (Cons s ss)
    obtain k where k: "fuel = Suc k" using "2.prems"(1) Cons by (cases fuel) simp_all
    obtain j where j: "m = Suc j" using "2.prems"(2) k by (cases m) simp_all
    have "discover_walk k h d server cs (Some s) w = Some w'" using "2.prems"(1) by (simp only: discover_walk.simps(2) Cons k list.case nat.case)
    then have "discover_walk j h d server cs (Some s) w = Some w'" using "2.IH"(2) [OF Cons k] "2.prems"(2) k j by blast
    then show ?thesis by (simp only: discover_walk.simps(2) Cons j list.case nat.case)
  qed
next
  case (3 fuel h d server cs s w)
  obtain b w1 where step: "(if s \<noteq> server then unsafe_discover_slots_aux h d s w else Some (False, w)) = Some (b, w1)"
    using "3.prems" by (auto split: option.splits simp del: not_None_eq)
  show ?case
  proof (cases b)
    case True
    then show ?thesis using "3.prems" step by simp
  next
    case False
    show ?thesis
    proof (cases "tailq_next d s cells w1")
      case None
      then show ?thesis using "3.IH"(1) [OF step refl] "3.prems" step False by simp
    next
      case (Some n)
      then obtain k j where k: "fuel = Suc k" and j: "m = Suc j" using "3.prems" step False by (cases fuel; cases m) auto
      then show ?thesis using "3.IH"(2) [OF step refl _ Some k, of j] "3.prems" step False Some by simp
    qed
  qed
qed

lemma discover_mono:
  assumes "unsafe_discover_slots n h d s w = Some w'" and "n \<le> m"
  shows "unsafe_discover_slots m h d s w = Some w'"
proof -
  obtain don w1 where "unsafe_discover_slots_aux h d s w = Some (don, w1)"
    and "if don then w1 = w' else discover_walk n h d s cells None w1 = Some w'"
    and "Lck_AssertHeld Config_Mutex w = Some ()" "Lck_AssertHeld (Db_Mutex d) w = Some ()"
    using assms(1) by (auto simp: unsafe_discover_slots_def bind_Some split: if_splits)
  then show ?thesis
    using walk_mono [OF _ assms(2)] by (auto simp: unsafe_discover_slots_def split: if_splits)
qed

end
