(* ===== verification/Crc16.thy ===== *)
theory Crc16
  imports Streaming
begin

text \<open>
  \<open>src/crc16.c\<close>: the table-driven CRC-16/XMODEM that Redis Cluster uses to map a key to a slot.
  The reference is the bit-by-bit division by the polynomial \<open>0x1021\<close>; the table lookup is proved
  to be eight steps of it. A \<open>char\<close> is a byte that C sign-extends when it is promoted to \<open>int\<close>.
\<close>

section \<open>The code\<close>

definition crc16tab :: "uint16 list" where
  "crc16tab =
    [0x0000, 0x1021, 0x2042, 0x3063, 0x4084, 0x50a5, 0x60c6, 0x70e7,
     0x8108, 0x9129, 0xa14a, 0xb16b, 0xc18c, 0xd1ad, 0xe1ce, 0xf1ef,
     0x1231, 0x0210, 0x3273, 0x2252, 0x52b5, 0x4294, 0x72f7, 0x62d6,
     0x9339, 0x8318, 0xb37b, 0xa35a, 0xd3bd, 0xc39c, 0xf3ff, 0xe3de,
     0x2462, 0x3443, 0x0420, 0x1401, 0x64e6, 0x74c7, 0x44a4, 0x5485,
     0xa56a, 0xb54b, 0x8528, 0x9509, 0xe5ee, 0xf5cf, 0xc5ac, 0xd58d,
     0x3653, 0x2672, 0x1611, 0x0630, 0x76d7, 0x66f6, 0x5695, 0x46b4,
     0xb75b, 0xa77a, 0x9719, 0x8738, 0xf7df, 0xe7fe, 0xd79d, 0xc7bc,
     0x48c4, 0x58e5, 0x6886, 0x78a7, 0x0840, 0x1861, 0x2802, 0x3823,
     0xc9cc, 0xd9ed, 0xe98e, 0xf9af, 0x8948, 0x9969, 0xa90a, 0xb92b,
     0x5af5, 0x4ad4, 0x7ab7, 0x6a96, 0x1a71, 0x0a50, 0x3a33, 0x2a12,
     0xdbfd, 0xcbdc, 0xfbbf, 0xeb9e, 0x9b79, 0x8b58, 0xbb3b, 0xab1a,
     0x6ca6, 0x7c87, 0x4ce4, 0x5cc5, 0x2c22, 0x3c03, 0x0c60, 0x1c41,
     0xedae, 0xfd8f, 0xcdec, 0xddcd, 0xad2a, 0xbd0b, 0x8d68, 0x9d49,
     0x7e97, 0x6eb6, 0x5ed5, 0x4ef4, 0x3e13, 0x2e32, 0x1e51, 0x0e70,
     0xff9f, 0xefbe, 0xdfdd, 0xcffc, 0xbf1b, 0xaf3a, 0x9f59, 0x8f78,
     0x9188, 0x81a9, 0xb1ca, 0xa1eb, 0xd10c, 0xc12d, 0xf14e, 0xe16f,
     0x1080, 0x00a1, 0x30c2, 0x20e3, 0x5004, 0x4025, 0x7046, 0x6067,
     0x83b9, 0x9398, 0xa3fb, 0xb3da, 0xc33d, 0xd31c, 0xe37f, 0xf35e,
     0x02b1, 0x1290, 0x22f3, 0x32d2, 0x4235, 0x5214, 0x6277, 0x7256,
     0xb5ea, 0xa5cb, 0x95a8, 0x8589, 0xf56e, 0xe54f, 0xd52c, 0xc50d,
     0x34e2, 0x24c3, 0x14a0, 0x0481, 0x7466, 0x6447, 0x5424, 0x4405,
     0xa7db, 0xb7fa, 0x8799, 0x97b8, 0xe75f, 0xf77e, 0xc71d, 0xd73c,
     0x26d3, 0x36f2, 0x0691, 0x16b0, 0x6657, 0x7676, 0x4615, 0x5634,
     0xd94c, 0xc96d, 0xf90e, 0xe92f, 0x99c8, 0x89e9, 0xb98a, 0xa9ab,
     0x5844, 0x4865, 0x7806, 0x6827, 0x18c0, 0x08e1, 0x3882, 0x28a3,
     0xcb7d, 0xdb5c, 0xeb3f, 0xfb1e, 0x8bf9, 0x9bd8, 0xabbb, 0xbb9a,
     0x4a75, 0x5a54, 0x6a37, 0x7a16, 0x0af1, 0x1ad0, 0x2ab3, 0x3a92,
     0xfd2e, 0xed0f, 0xdd6c, 0xcd4d, 0xbdaa, 0xad8b, 0x9de8, 0x8dc9,
     0x7c26, 0x6c07, 0x5c64, 0x4c45, 0x3ca2, 0x2c83, 0x1ce0, 0x0cc1,
     0xef1f, 0xff3e, 0xcf5d, 0xdf7c, 0xaf9b, 0xbfba, 0x8fd9, 0x9ff8,
     0x6e17, 0x7e36, 0x4e55, 0x5e74, 0x2e93, 0x3eb2, 0x0ed1, 0x1ef0]"

definition crc16_step :: "uint16 \<Rightarrow> byte \<Rightarrow> uint16" where
  "crc16_step crc b =
     (let i = (ucast (drop_bit 8 crc) XOR scast b) AND (0x00FF :: uint32)
      in ucast (push_bit 8 (ucast crc :: uint32) XOR ucast (crc16tab ! unat i)))"

text \<open>With a negative length (an \<open>int\<close>) the loop does not run.\<close>

definition crc16 :: "byte list \<Rightarrow> int \<Rightarrow> uint16" where
  "crc16 buf len = foldl crc16_step 0 (take (nat len) buf)"

section \<open>The reference: polynomial division, one bit at a time\<close>

definition crc_shift :: "uint16 \<Rightarrow> uint16" where
  "crc_shift x = (if bit x 15 then push_bit 1 x XOR 0x1021 else push_bit 1 x)"

definition crc_byte :: "uint16 \<Rightarrow> byte \<Rightarrow> uint16" where
  "crc_byte crc b = (crc_shift ^^ 8) (crc XOR push_bit 8 (ucast b))"

definition crc16_spec :: "byte list \<Rightarrow> uint16" where
  "crc16_spec bs = foldl crc_byte 0 bs"

section \<open>The table is the reference\<close>

lemma length_crc16tab: "length crc16tab = 256"
  by (simp add: crc16tab_def)

lemma crc_shift_xor: "crc_shift (x XOR y) = crc_shift x XOR crc_shift y"
proof -
  have "push_bit 1 (x XOR y) = push_bit 1 x XOR push_bit 1 y" by (rule push_bit_xor)
  moreover have "a XOR c XOR (b XOR c) = a XOR b" for a b c :: uint16
    by (rule bit_word_eqI) (auto simp: bit_simps)
  ultimately show ?thesis
    unfolding crc_shift_def bit_xor_iff
    by (cases "bit x 15"; cases "bit y 15")
      (simp_all only: simp_thms if_True if_False xor.assoc, simp_all only: xor.commute xor.left_commute)
qed

lemma crc_shift_iter_xor: "(crc_shift ^^ n) (x XOR y) = (crc_shift ^^ n) x XOR (crc_shift ^^ n) y"
  by (induction n) (simp_all add: crc_shift_xor)

lemma crc_shift_low:
  "(\<And>k. 16 - n \<le> k \<Longrightarrow> \<not> bit x k) \<Longrightarrow> n \<le> 16 \<Longrightarrow> (crc_shift ^^ n) x = push_bit n x"
proof (induction n)
  case 0
  then show ?case by simp
next
  case (Suc n)
  then have "(crc_shift ^^ n) x = push_bit n x" by simp
  moreover have "\<not> bit (push_bit n x) 15"
    using Suc.prems by (auto simp: bit_push_bit_iff)
  ultimately have "crc_shift ((crc_shift ^^ n) x) = push_bit 1 (push_bit n x)"
    by (simp add: crc_shift_def del: push_bit_of_1 push_bit_push_bit)
  also have "\<dots> = push_bit (Suc n) x"
    by (simp only: push_bit_push_bit plus_1_eq_Suc)
  finally show ?case by simp
qed

lemma crc_shift8:
  "(crc_shift ^^ 8) x =
     crc_shift (crc_shift (crc_shift (crc_shift (crc_shift (crc_shift (crc_shift (crc_shift x)))))))"
  by (simp add: numeral_eq_Suc)

text \<open>
  The table entry of \<open>2 ^ i + j\<close> is the xor of the entries of \<open>2 ^ i\<close> and \<open>j\<close>, so the eight powers
  of two determine all 256 entries.
\<close>

lemma crc16tab_double:
  "i < 8 \<Longrightarrow> map (\<lambda>t. crc16tab ! (2 ^ i) XOR t) (take (2 ^ i) crc16tab) = take (2 ^ i) (drop (2 ^ i) crc16tab)"
proof -
  assume "i < 8"
  then consider "i = 0" | "i = 1" | "i = 2" | "i = 3" | "i = 4" | "i = 5" | "i = 6" | "i = 7"
    by arith
  then show ?thesis by cases (simp_all add: crc16tab_def)
qed

lemma crc16tab_power: "i < 8 \<Longrightarrow> crc16tab ! (2 ^ i) = (crc_shift ^^ 8) (push_bit 8 (2 ^ i))"
proof -
  assume "i < 8"
  then consider "i = 0" | "i = 1" | "i = 2" | "i = 3" | "i = 4" | "i = 5" | "i = 6" | "i = 7"
    by arith
  then show ?thesis by cases (simp_all only: crc_shift8, simp_all add: crc16tab_def crc_shift_def)
qed

lemma xor_power_add: "j < 2 ^ i \<Longrightarrow> (2 :: nat) ^ i + j = 2 ^ i XOR j"
proof (rule disjunctive_add_eq_xor, rule bit_eqI)
  fix n assume j: "j < 2 ^ i"
  then have "take_bit i j = j" by (simp add: take_bit_nat_eq_self)
  then have "\<not> bit j i" by (metis bit_take_bit_iff less_irrefl)
  then show "bit ((2 :: nat) ^ i AND j) n = bit (0 :: nat) n"
    by (auto simp: bit_simps)
qed

lemma crc16tab_nth: "i \<le> 8 \<Longrightarrow> h < 2 ^ i \<Longrightarrow> crc16tab ! h = (crc_shift ^^ 8) (push_bit 8 (word_of_nat h))"
proof (induction i arbitrary: h)
  case 0
  then show ?case unfolding crc_shift8 by (simp add: crc16tab_def crc_shift_def)
next
  case (Suc i)
  show ?case
  proof (cases "h < 2 ^ i")
    case True
    with Suc show ?thesis by simp
  next
    case False
    define j where "j = h - 2 ^ i"
    have j: "j < 2 ^ i" and h: "h = 2 ^ i + j"
      using False Suc.prems(2) by (simp_all add: j_def)
    have i: "i < 8" using Suc.prems by simp
    from i have "(2 :: nat) ^ Suc i \<le> 2 ^ 8" by (intro power_increasing) auto
    then have len: "2 * 2 ^ i \<le> length crc16tab" by (simp add: length_crc16tab)
    have "crc16tab ! h = take (2 ^ i) (drop (2 ^ i) crc16tab) ! j"
      using j len by (simp add: h)
    also have "\<dots> = crc16tab ! (2 ^ i) XOR crc16tab ! j"
      using j len by (simp flip: crc16tab_double [OF i])
    also have "\<dots> = (crc_shift ^^ 8) (push_bit 8 (2 ^ i)) XOR (crc_shift ^^ 8) (push_bit 8 (word_of_nat j))"
      using Suc.IH [OF _ j] i by (simp add: crc16tab_power)
    also have "\<dots> = (crc_shift ^^ 8) (push_bit 8 (2 ^ i XOR word_of_nat j))"
      by (simp only: push_bit_xor crc_shift_iter_xor)
    also have "(2 ^ i XOR word_of_nat j :: uint16) = word_of_nat h"
      using j by (simp only: h xor_power_add of_nat_xor_eq of_nat_power of_nat_numeral)
    finally show ?thesis .
  qed
qed

text \<open>
  One table step: the index is the high byte of the register xor the byte (the sign extension
  of \<open>char\<close> is masked away), and the low byte only moves up.
\<close>

lemma crc_index:
  "unat ((ucast (drop_bit 8 (crc :: uint16)) XOR scast (b :: byte)) AND (0x00FF :: uint32)) =
     unat (drop_bit 8 (crc XOR push_bit 8 (ucast b)))"
proof -
  have "(ucast (drop_bit 8 crc) XOR scast b) AND (mask 8 :: uint32) =
      ucast (drop_bit 8 (crc XOR push_bit 8 (ucast b)))"
  proof (rule bit_word_eqI)
    fix n assume "n < LENGTH(32)"
    consider "n < 7" | "n = 7" | "8 \<le> n" by arith
    then show "bit ((ucast (drop_bit 8 crc) XOR scast b) AND (mask 8 :: uint32)) n =
        bit (ucast (drop_bit 8 (crc XOR push_bit 8 (ucast b))) :: uint32) n"
      by cases (auto simp: bit_simps min_def dest: bit_imp_le_length)
  qed
  moreover have "(mask 8 :: uint32) = 0x00FF" by (simp add: mask_eq_exp_minus_1)
  ultimately have "(ucast (drop_bit 8 crc) XOR scast b) AND (0x00FF :: uint32) =
      ucast (drop_bit 8 (crc XOR push_bit 8 (ucast b)))" by simp
  then show ?thesis
    by (simp add: unsigned_ucast_eq take_bit_nat_eq_self unat_less_pow
        order_less_trans [OF unat_less_pow])
qed

lemma crc16_step_eq: "crc16_step crc b = crc_byte crc b"
proof -
  let ?x = "crc XOR push_bit 8 (ucast b)" 
  let ?h = "unat (drop_bit 8 ?x)"
  have "?h = drop_bit 8 (unat ?x)" by (rule unat_drop_bit_eq)
  then have "?h = unat ?x div 2 ^ 8" by (simp only: drop_bit_nat_def)
  with unat_less_pow [of ?x] have h: "?h < 2 ^ 8" by simp
  have split: "?x = take_bit 8 ?x XOR push_bit 8 (drop_bit 8 ?x)"
    by (rule bit_word_eqI) (auto simp: bit_simps)
  have low: "push_bit 8 (take_bit 8 ?x) = push_bit 8 crc"
    by (rule bit_word_eqI) (auto simp: bit_simps)
  have "crc_byte crc b =
      (crc_shift ^^ 8) (take_bit 8 ?x) XOR (crc_shift ^^ 8) (push_bit 8 (drop_bit 8 ?x))"
    unfolding crc_byte_def by (subst split) (rule crc_shift_iter_xor)
  also have "(crc_shift ^^ 8) (take_bit 8 ?x) = push_bit 8 crc"
    by (subst crc_shift_low) (simp_all add: low bit_take_bit_iff del: take_bit_xor)
  also have "(crc_shift ^^ 8) (push_bit 8 (drop_bit 8 ?x)) = crc16tab ! ?h"
    using h by (simp add: crc16tab_nth [of 8])
  finally have "crc_byte crc b = push_bit 8 crc XOR crc16tab ! ?h" .
  moreover have "crc16_step crc b = push_bit 8 crc XOR crc16tab ! ?h"
    unfolding crc16_step_def Let_def crc_index
    by (rule bit_word_eqI) (auto simp: bit_simps)
  ultimately show ?thesis by simp
qed

section \<open>The digest\<close>

text \<open>The loop of \<open>crc16\<close> is a streaming digest whose context is the register itself.\<close>

interpretation crc: streaming_digest 0 "foldl crc16_step" id
    "\<lambda>c m. c = foldl crc_byte 0 m" "\<lambda>_. True" crc16_spec
  by unfold_locales (simp_all add: crc16_step_eq [abs_def] crc16_spec_def)

lemma crc16_eq_spec: "crc16 buf len = crc16_spec (take (nat len) buf)"
  using crc.digest_once [of "take (nat len) buf"] by (simp add: crc16_def)

text \<open>
  C1. For every buffer and every length, negative ones included, \<open>crc16()\<close> computes the remainder of the bit-by-bit
  division by the CRC-16/XMODEM polynomial (initial value 0, nothing reflected): the 256-entry
  table and its sign-extended index are an exact optimisation of it.
\<close>

theorem crc16_equiv_division:
  "crc16 buf len = foldl (\<lambda>crc b. (crc_shift ^^ 8) (crc XOR push_bit 8 (ucast b))) 0 (take (nat len) buf)"
  by (simp add: crc16_eq_spec crc16_spec_def crc_byte_def [abs_def])

lemma crc16_check_value:
  "crc16 (map of_char ''123456789'') 9 = 0x31C3"
  by code_simp

end
