(* ===== verification/Cluster_Keys.thy ===== *)
theory Cluster_Keys
  imports Crc16 Redis_Model
begin

text \<open>
  Which key a clustered command is about, and the slot of the key (\<open>src/cluster.c\<close>: \<open>get_key_index\<close>
  and \<open>get_cluster_slot\<close>). Lengths are those of C strings shorter than 2 GiB, so the \<open>int\<close> indices
  of the code are natural numbers here.
\<close>

section \<open>The code\<close>

definition BANNED_COMMANDS :: string where
  "BANNED_COMMANDS = ''|INFO|MULTI|EXEC|SLAVEOF|REPLICAOF|CONFIG|SHUTDOWN|SCRIPT|''"

definition KEY_INDEX3_COMMANDS :: string where
  "KEY_INDEX3_COMMANDS = ''|EVAL|EVALSHA|EVAL_RO|EVALSHA_RO|''"

text \<open>\<open>snprintf\<close> writes at most 63 characters and the terminating NUL.\<close>

definition get_key_index :: "string \<Rightarrow> int" where
  "get_key_index command =
     (let buffer = take 63 (''|'' @ command @ ''|'')
      in if strcasestr BANNED_COMMANDS buffer then - 1
         else if strcasestr KEY_INDEX3_COMMANDS buffer then 3
         else 1)"

text \<open>The loops over the characters of the key: the index of the first \<open>c\<close> from \<open>i\<close> on, or the length.\<close>

function scan_for :: "string \<Rightarrow> char \<Rightarrow> nat \<Rightarrow> nat" where
  "scan_for key c i =
     (if i < length key then if key ! i = c then i else scan_for key c (i + 1) else i)"
  by pat_completeness auto
termination by (relation "measure (\<lambda>(key, c, i). length key - i)") auto

declare scan_for.simps [simp del]

definition slot_of :: "string \<Rightarrow> nat \<Rightarrow> nat" where
  "slot_of key len = unat (crc16 (map of_char key) (int len) AND (word_of_nat (NREDIS_CLUSTER_SLOTS - 1)))"

definition get_cluster_slot :: "string \<Rightarrow> nat" where
  "get_cluster_slot key =
     (let keylen = length key; s = scan_for key (CHR ''{'') 0
      in if s = keylen then slot_of key keylen
         else (let e = scan_for key (CHR ''}'') (s + 1)
               in if e = keylen \<or> e = s + 1 then slot_of key keylen
                  else slot_of (drop (s + 1) key) (e - s - 1)))"

section \<open>Words between bars\<close>

definition bars :: "string list \<Rightarrow> string" where
  "bars ws = CHR ''|'' # concat (map (\<lambda>w. w @ ''|'') ws)"

lemma starts_with_append: "starts_with (p @ s) p"
  by (simp add: starts_with_def)

lemma strstr_skip:
  assumes "CHR ''|'' \<notin> set w"
  shows "strstr (w @ s) (CHR ''|'' # p) = strstr s (CHR ''|'' # p)"
  using assms by (induction w) (auto simp: starts_with_def)

lemma starts_with_bar:
  assumes "CHR ''|'' \<notin> set w" and "CHR ''|'' \<notin> set c"
  shows "starts_with (CHR ''|'' # w @ CHR ''|'' # s) (CHR ''|'' # c @ ''|'') \<longleftrightarrow> w = c"
proof
  assume "starts_with (CHR ''|'' # w @ CHR ''|'' # s) (CHR ''|'' # c @ ''|'')"
  then have t: "take (length c + 1) (w @ CHR ''|'' # s) = c @ ''|''" by (simp add: starts_with_def)
  show "w = c"
  proof (rule linorder_cases [of "length w" "length c"])
    assume lt: "length w < length c"
    then have "(w @ CHR ''|'' # s) ! length w = (c @ ''|'') ! length w" by (metis t nth_take less_Suc_eq add.commute plus_1_eq_Suc)
    then have "c ! length w = CHR ''|''" using lt by (simp add: nth_append)
    then show ?thesis using assms(2) lt by (metis nth_mem)
  next
    assume "length w = length c"
    then show ?thesis using t by simp
  next
    assume lt: "length c < length w"
    then have "(w @ CHR ''|'' # s) ! length c = (c @ ''|'') ! length c" by (metis t nth_take lessI Suc_eq_plus1)
    then have "w ! length c = CHR ''|''" using lt by (simp add: nth_append)
    then show ?thesis using assms(1) lt by (metis nth_mem)
  qed
qed (simp add: starts_with_def)

lemma strstr_bars:
  assumes "CHR ''|'' \<notin> set c" and "\<forall>w \<in> set ws. CHR ''|'' \<notin> set w" and "c \<noteq> []"
  shows "strstr (bars ws) (CHR ''|'' # c @ ''|'') \<longleftrightarrow> c \<in> set ws"
  using assms(2)
proof (induction ws)
  case Nil
  then show ?case using assms(3) by (simp add: bars_def starts_with_def)
next
  case (Cons w ws)
  have b: "bars (w # ws) = CHR ''|'' # w @ bars ws" by (simp add: bars_def)
  obtain s where s: "bars ws = CHR ''|'' # s" by (simp add: bars_def)
  have "strstr (bars (w # ws)) (CHR ''|'' # c @ ''|'') \<longleftrightarrow>
      starts_with (CHR ''|'' # w @ CHR ''|'' # s) (CHR ''|'' # c @ ''|'') \<or> strstr (bars ws) (CHR ''|'' # c @ ''|'')"
    unfolding b s using Cons.prems by (simp add: strstr_skip)
  also have "\<dots> \<longleftrightarrow> c = w \<or> c \<in> set ws"
    using Cons starts_with_bar [of w c s] assms(1) by auto
  finally show ?case by simp
qed

lemma to_lower_bar: "to_lower c = CHR ''|'' \<longleftrightarrow> c = CHR ''|''"
  by (cases c) (auto simp: to_lower_def code_def char_of_eq_iff)

lemma lower_bar_free: "CHR ''|'' \<in> set (map to_lower w) \<longleftrightarrow> CHR ''|'' \<in> set w"
  by (induction w) (simp_all add: to_lower_bar eq_commute [of "CHR ''|''"])

lemma strstr_length: "strstr s p \<Longrightarrow> length p \<le> length s"
proof (induction s)
  case Nil
  then show ?case by simp
next
  case (Cons x s)
  then show ?case by (auto simp: starts_with_def) (metis length_Cons length_take min.cobounded1)
qed

lemma strcasestr_bars:
  assumes "CHR ''|'' \<notin> set c" and "c \<noteq> []" and "\<forall>w \<in> set ws. CHR ''|'' \<notin> set w"
    and "length (bars ws) < 63"
  shows "strcasestr (bars ws) (take 63 (''|'' @ c @ ''|'')) \<longleftrightarrow> (\<exists>w \<in> set ws. strcasecmp_eq c w)"
proof -
  let ?l = "map to_lower"
  have lb: "to_lower CHR ''|'' = CHR ''|''" by (simp add: to_lower_bar)
  have bars: "?l (bars ws) = bars (map ?l ws)"
    by (simp add: bars_def map_concat lb o_def)
  have low: "CHR ''|'' \<notin> set (?l c)" "\<forall>w \<in> set (map ?l ws). CHR ''|'' \<notin> set w"
    using assms(1,3) lower_bar_free by auto
  show ?thesis
  proof (cases "length c \<le> 61")
    case True
    then have "?l (take 63 (''|'' @ c @ ''|'')) = CHR ''|'' # ?l c @ ''|''" by (simp add: lb)
    then have "strcasestr (bars ws) (take 63 (''|'' @ c @ ''|'')) \<longleftrightarrow> ?l c \<in> set (map ?l ws)"
      unfolding strcasestr_def bars using strstr_bars [OF low] assms(2) by simp
    then show ?thesis by (auto simp: strcasecmp_eq_def)
  next
    case False
    have "\<not> strcasestr (bars ws) (take 63 (''|'' @ c @ ''|''))"
      using False assms(4) strstr_length [of "?l (bars ws)"] unfolding strcasestr_def by fastforce
    moreover have "\<not> strcasecmp_eq c w" if "w \<in> set ws" for w
    proof
      assume "strcasecmp_eq c w"
      then have "length c = length w" unfolding strcasecmp_eq_def by (rule map_eq_imp_length_eq)
      moreover have "length w < length (bars ws)"
        using that by (induction ws) (auto simp: bars_def)
      ultimately show False using False assms(4) by simp
    qed
    ultimately show ?thesis by blast
  qed
qed

section \<open>Hash tags\<close>

lemma scan_for_eq: "i \<le> length key \<Longrightarrow> scan_for key c i = i + length (takeWhile (\<lambda>x. x \<noteq> c) (drop i key))"
proof (induction key c i rule: scan_for.induct)
  case (1 key c i)
  show ?case
  proof (cases "i < length key")
    case True
    then have d: "drop i key = key ! i # drop (Suc i) key" by (simp add: Cons_nth_drop_Suc)
    show ?thesis
    proof (cases "key ! i = c")
      case True
      then show ?thesis using \<open>i < length key\<close> by (subst scan_for.simps) (simp add: d)
    next
      case False
      then show ?thesis using "1.IH" True by (subst scan_for.simps) (simp add: d)
    qed
  next
    case False
    then show ?thesis using 1 by (subst scan_for.simps) simp
  qed
qed

lemma slot_of_eq: "n = length t \<Longrightarrow> slot_of (t @ rest) n = unat (crc16_spec (map of_char t)) mod 16384"
proof -
  assume n: "n = length t"
  have "word_of_nat (NREDIS_CLUSTER_SLOTS - 1) = (mask 14 :: uint16)"
    by (simp add: NREDIS_CLUSTER_SLOTS_def mask_eq_exp_minus_1)
  then show ?thesis
    by (simp add: slot_of_def n crc16_eq_spec take_bit_eq_mask [symmetric] take_bit_eq_mod unat_mod)
qed

lemma takeWhile_first: "c \<notin> set p \<Longrightarrow> takeWhile (\<lambda>x. x \<noteq> c) (p @ c # q) = p"
  by (induction p) auto

definition hash_tagged :: "string \<Rightarrow> string \<Rightarrow> bool" where
  "hash_tagged key tag \<longleftrightarrow>
     (\<exists>pre post. key = pre @ ''{'' @ tag @ ''}'' @ post \<and> CHR ''{'' \<notin> set pre \<and> CHR ''}'' \<notin> set tag \<and> tag \<noteq> [])"

lemma get_cluster_slot_tag:
  assumes "hash_tagged key tag"
  shows "get_cluster_slot key = slot_of tag (length tag)"
proof -
  obtain pre post where k: "key = pre @ ''{'' @ tag @ ''}'' @ post"
    and n: "CHR ''{'' \<notin> set pre" "CHR ''}'' \<notin> set tag" "tag \<noteq> []"
    using assms by (auto simp: hash_tagged_def)
  have "takeWhile (\<lambda>x. x \<noteq> CHR ''{'') key = pre" using n(1) by (simp add: k takeWhile_first)
  then have s: "scan_for key (CHR ''{'') 0 = length pre" by (simp add: scan_for_eq)
  have "takeWhile (\<lambda>x. x \<noteq> CHR ''}'') (drop (length pre + 1) key) = tag"
    using n(2) by (simp add: k takeWhile_first)
  then have e: "scan_for key (CHR ''}'') (Suc (length pre)) = Suc (length pre + length tag)"
    by (subst scan_for_eq) (simp_all add: k)
  have "slot_of (tag @ ''}'' @ post) (length tag) = slot_of tag (length tag)"
    using slot_of_eq [of "length tag" tag] slot_of_eq [of "length tag" tag "[]"] by simp
  then show ?thesis
    using n(3) e by (simp add: get_cluster_slot_def s Let_def) (simp add: k)
qed

lemma takeWhile_split:
  assumes "length (takeWhile (\<lambda>x. x \<noteq> c) s) < length s"
  shows "s = takeWhile (\<lambda>x. x \<noteq> c) s @ c # drop (length (takeWhile (\<lambda>x. x \<noteq> c) s) + 1) s"
proof -
  let ?n = "length (takeWhile (\<lambda>x. x \<noteq> c) s)"
  have "s ! ?n = c" using nth_length_takeWhile [OF assms] by simp
  then have "drop ?n s = c # drop (?n + 1) s" using assms by (simp add: Cons_nth_drop_Suc [symmetric])
  then show ?thesis by (metis append_take_drop_id takeWhile_eq_take)
qed

lemma get_cluster_slot_whole:
  assumes "\<nexists>tag. hash_tagged key tag"
  shows "get_cluster_slot key = slot_of key (length key)"
proof -
  let ?s = "length (takeWhile (\<lambda>x. x \<noteq> CHR ''{'') key)"
  have s: "scan_for key (CHR ''{'') 0 = ?s" by (simp add: scan_for_eq)
  show ?thesis
  proof (cases "?s = length key")
    case True
    then show ?thesis by (simp add: get_cluster_slot_def s)
  next
    case False
    then have lt: "?s < length key" using length_takeWhile_le [of "\<lambda>x. x \<noteq> CHR ''{''" key] by simp
    let ?rest = "drop (?s + 1) key"
    define tag where "tag = takeWhile (\<lambda>x. x \<noteq> CHR ''}'') ?rest"
    have e: "scan_for key (CHR ''}'') (Suc ?s) = Suc (?s + length tag)"
      using lt by (simp add: scan_for_eq tag_def)
    have "tag = [] \<or> ?s + 1 + length tag = length key"
    proof (rule ccontr)
      assume "\<not> ?thesis"
      then have ne: "tag \<noteq> []" and short: "length tag < length ?rest"
        using lt length_takeWhile_le [of "\<lambda>x. x \<noteq> CHR ''}''" ?rest] by (auto simp: tag_def)
      have "?rest = tag @ ''}'' @ drop (length tag + 1) ?rest"
        using takeWhile_split [OF short [unfolded tag_def]] by (simp add: tag_def)
      then have "key = takeWhile (\<lambda>x. x \<noteq> CHR ''{'') key @ ''{'' @ tag @ ''}'' @ drop (length tag + 1) ?rest"
        using takeWhile_split [OF lt] by simp
      moreover have "CHR ''{'' \<notin> set (takeWhile (\<lambda>x. x \<noteq> CHR ''{'') key)" "CHR ''}'' \<notin> set tag"
        by (auto simp: tag_def dest: set_takeWhileD)
      ultimately show False using assms ne unfolding hash_tagged_def by blast
    qed
    then show ?thesis by (auto simp: get_cluster_slot_def s e Let_def)
  qed
qed

section \<open>Properties\<close>

text \<open>
  C19. The slot of a key is that of the specification of Redis Cluster: the CRC-16 remainder, modulo
  16384, of the first non-empty hash tag of the key (what is between the first opening brace and the
  first closing brace after it), or of the whole key if there is none. So keys with the same tag
  share a slot, and the slot indexes the array of slots of a server.
\<close>

theorem cluster_slot_hash_tag:
  "get_cluster_slot key < NREDIS_CLUSTER_SLOTS \<and>
   (\<forall>tag. hash_tagged key tag \<longrightarrow> get_cluster_slot key = unat (crc16_spec (map of_char tag)) mod 16384) \<and>
   ((\<nexists>tag. hash_tagged key tag) \<longrightarrow> get_cluster_slot key = unat (crc16_spec (map of_char key)) mod 16384)"
proof -
  have eq: "slot_of t (length t) = unat (crc16_spec (map of_char t)) mod 16384" for t
    using slot_of_eq [of "length t" t "[]"] by simp
  show ?thesis
    using get_cluster_slot_tag [of key] get_cluster_slot_whole [of key]
    by (cases "\<exists>tag. hash_tagged key tag") (auto simp: eq NREDIS_CLUSTER_SLOTS_def)
qed

theorem cluster_slot_hash_tag_witness:
  "get_cluster_slot ''{user1}.name'' = unat (crc16_spec (map of_char ''user1'')) mod 16384"
proof -
  have "hash_tagged ''{user1}.name'' ''user1''"
    unfolding hash_tagged_def by (intro exI [of _ "[]"] exI [of _ "''.name''"]) simp
  then show ?thesis using cluster_slot_hash_tag [of "''{user1}.name''"] by blast
qed

text \<open>
  Which argument of a command is its key: none (the command is refused) for the banned commands,
  the third for the commands that run scripts, and the first for all others, whatever the case of
  the letters and however long the name.
\<close>

theorem key_index_cases:
  assumes "CHR ''|'' \<notin> set command" and "command \<noteq> []"
  shows "get_key_index command =
    (if \<exists>b \<in> set [''INFO'', ''MULTI'', ''EXEC'', ''SLAVEOF'', ''REPLICAOF'', ''CONFIG'', ''SHUTDOWN'', ''SCRIPT''].
          strcasecmp_eq command b then - 1
     else if \<exists>b \<in> set [''EVAL'', ''EVALSHA'', ''EVAL_RO'', ''EVALSHA_RO'']. strcasecmp_eq command b then 3
     else 1)"
proof -
  have b: "BANNED_COMMANDS = bars [''INFO'', ''MULTI'', ''EXEC'', ''SLAVEOF'', ''REPLICAOF'', ''CONFIG'', ''SHUTDOWN'', ''SCRIPT'']"
    "KEY_INDEX3_COMMANDS = bars [''EVAL'', ''EVALSHA'', ''EVAL_RO'', ''EVALSHA_RO'']"
    by (simp_all add: BANNED_COMMANDS_def KEY_INDEX3_COMMANDS_def bars_def)
  have
    "strcasestr BANNED_COMMANDS (take 63 (''|'' @ command @ ''|'')) \<longleftrightarrow>
     (\<exists>b \<in> set [''INFO'', ''MULTI'', ''EXEC'', ''SLAVEOF'', ''REPLICAOF'', ''CONFIG'', ''SHUTDOWN'', ''SCRIPT''].
        strcasecmp_eq command b)"
    unfolding b by (rule strcasestr_bars [OF assms]) (simp_all add: bars_def)
  moreover have "strcasestr KEY_INDEX3_COMMANDS (take 63 (''|'' @ command @ ''|'')) \<longleftrightarrow>
     (\<exists>b \<in> set [''EVAL'', ''EVALSHA'', ''EVAL_RO'', ''EVALSHA_RO'']. strcasecmp_eq command b)"
    unfolding b by (rule strcasestr_bars [OF assms]) (simp_all add: bars_def)
  ultimately show ?thesis by (simp only: get_key_index_def Let_def)
qed

theorem key_index_cases_witness: "get_key_index ''evalsha'' = 3"
proof -
  have "\<not> (\<exists>b \<in> set [''INFO'', ''MULTI'', ''EXEC'', ''SLAVEOF'', ''REPLICAOF'', ''CONFIG'', ''SHUTDOWN'', ''SCRIPT''].
      strcasecmp_eq ''evalsha'' b)"
    "\<exists>b \<in> set [''EVAL'', ''EVALSHA'', ''EVAL_RO'', ''EVALSHA_RO'']. strcasecmp_eq ''evalsha'' b"
    by code_simp+
  then show ?thesis by (subst key_index_cases) simp_all
qed

end
