(* ===== verification/Cluster_Execute.thy ===== *)
theory Cluster_Execute
  imports Cluster_Frame Cluster_Keys
begin

text \<open>
  The execution of a command in a cluster (\<open>src/cluster.c\<close>: \<open>cluster_execute\<close>): the slot of its key
  chooses the servers, and redirections are followed up to a limit. The result tells as well whether
  "Too many redirections" has been logged. \<open>dfuel\<close> is the bound of the discoveries and \<open>fuel\<close> that of
  the waits for shared connections.
\<close>

section \<open>The code\<close>

definition is_redirection :: "string \<Rightarrow> bool" where
  "is_redirection text \<longleftrightarrow> starts_with text ''MOVED'' \<or> starts_with text ''ASK''"

text \<open>What follows the second space; \<open>None\<close> is a failed \<open>AN\<close>.\<close>

definition redirection_location :: "string \<Rightarrow> string option" where
  "redirection_location text = do {
     ptr \<leftarrow> strchr text CHR '' '';
     location \<leftarrow> strchr (tl ptr) CHR '' '';
     Some (tl location)
   }"

text \<open>The server and the flag \<open>asking\<close> of the next attempt.\<close>

definition follow_redirection ::
  "nat \<Rightarrow> 'e hiredis \<Rightarrow> db_ptr \<Rightarrow> string \<Rightarrow> 'e world \<Rightarrow> ((server_ptr \<times> bool) \<times> 'e world) option" where
  "follow_redirection dfuel h d text w = do {
     location \<leftarrow> redirection_location text;
     w \<leftarrow> Lck_Lock Config_Mutex w;
     w \<leftarrow> Lck_Lock (Db_Mutex d) w;
     (server, w) \<leftarrow> unsafe_add_redis_server h d location TBD w;
     s \<leftarrow> server;
     w \<leftarrow> (if starts_with text ''MOVED''
           then unsafe_discover_slots dfuel h d s
                  (upd_stats d (\<lambda>st. st\<lparr>st_replies_moved := st_replies_moved st + 1\<rparr>) w)
           else Some (upd_stats d (\<lambda>st. st\<lparr>st_replies_ask := st_replies_ask st + 1\<rparr>) w));
     w \<leftarrow> Lck_Unlock (Db_Mutex d) w;
     w \<leftarrow> Lck_Unlock Config_Mutex w;
     Some ((s, \<not> starts_with text ''MOVED''), w)
   }"

text \<open>A reply that the loop must follow.\<close>

fun redirection_of :: "redisReply option \<Rightarrow> string option" where
  "redirection_of (Some (Reply_Error text)) = (if is_redirection text then Some text else None)"
| "redirection_of r = None"

lemma word_dec_less:
  fixes x :: uint
  assumes "0 < x"
  shows "unat (x - 1) = unat x - 1" "unat (x - 1) < unat x"
proof -
  have pos: "0 < unat x" using assms by (simp add: word_less_nat_alt)
  have "(1 :: uint) \<le> x" using pos by (simp add: word_le_nat_alt)
  then show "unat (x - 1) = unat x - 1" by (simp add: unat_sub)
  then show "unat (x - 1) < unat x" using pos by simp
qed

function cluster_loop ::
  "nat \<Rightarrow> nat \<Rightarrow> 'e hiredis \<Rightarrow> db_ptr \<Rightarrow> timeval \<Rightarrow> uint \<Rightarrow> bool \<Rightarrow> nat \<Rightarrow> server_ptr option \<Rightarrow> bool \<Rightarrow> uint \<Rightarrow>
   argv \<Rightarrow> uint \<Rightarrow> 'e world \<Rightarrow> (redisReply option \<times> argv \<times> uint \<times> uint \<times> 'e world) option" where
  "cluster_loop dfuel fuel h d timeout max_retries master slot server asking hops argv retries w =
     (case redis_execute fuel h d timeout max_retries argv retries server asking master slot w of
        None \<Rightarrow> None
      | Some (result, argv, retries, w) \<Rightarrow>
          (case redirection_of result of
             None \<Rightarrow> Some (result, argv, retries, hops, w)
           | Some text \<Rightarrow>
               (case follow_redirection dfuel h d text w of
                  None \<Rightarrow> None
                | Some ((s, asking), w) \<Rightarrow>
                    if hops > 0 \<and> retries \<le> max_retries
                    then cluster_loop dfuel fuel h d timeout max_retries master slot (Some s) asking
                           (hops - 1) argv retries w
                    else Some (None, argv, retries, hops, w))))"
  by pat_completeness auto
termination
  by (relation "measure (\<lambda>(_, _, _, _, _, _, _, _, _, _, hops, _). unat hops)")
    (auto dest: word_dec_less)

declare cluster_loop.simps [simp del]

definition cluster_execute ::
  "nat \<Rightarrow> nat \<Rightarrow> 'e hiredis \<Rightarrow> db_ptr \<Rightarrow> timeval \<Rightarrow> uint \<Rightarrow> argv \<Rightarrow> uint \<Rightarrow> bool \<Rightarrow> 'e world \<Rightarrow>
   (redisReply option \<times> argv \<times> uint \<times> bool \<times> 'e world) option" where
  "cluster_execute dfuel fuel h d timeout max_retries argv retries master w =
     (case argv of
        Some cmd # args \<Rightarrow>
          (let index = get_key_index cmd
           in if index > 0 \<and> nat index < length argv
              then (case argv ! nat index of
                      None \<Rightarrow> None
                    | Some key \<Rightarrow> do {
                        (result, argv, retries, hops, w) \<leftarrow>
                          cluster_loop dfuel fuel h d timeout max_retries master (get_cluster_slot key)
                            None False (if max_hops (dbs w d) > 0 then max_hops (dbs w d) else - 1)
                            argv retries w;
                        Some (result, argv, retries, hops = 0, w)
                      })
              else Some (None, argv, retries, False, w))
      | _ \<Rightarrow> None)"

end
