(* ===== verification/Cluster_Redirections.thy ===== *)
theory Cluster_Redirections
  imports Cluster_Execute
begin

text \<open>
  What following redirections guarantees: a clustered command ends with a reply that is not a
  redirection, or without one, and keeps the registry and the task in order; and where it fails.
\<close>

section \<open>Where a reply comes from\<close>

definition from_server :: "'e hiredis \<Rightarrow> redisReply option \<Rightarrow> bool" where
  "from_server h r \<longleftrightarrow> r = None \<or> (\<exists>rc e. r = fst (h_get_reply h rc e))"

lemma from_server_None [simp]: "from_server h None"
  by (simp add: from_server_def)

lemma get_redis_repy_from:
  assumes "get_redis_repy h c timeout argv asking w = Some (r, w')"
  shows "from_server h r"
proof -
  obtain v v' where "net_call (h_get_reply h (cx_rcontext c)) v = (r, v')"
    using assms by (auto simp: get_redis_repy_def Let_def bind_Some split: prod.splits) (metis surj_pair)
  then show ?thesis by (auto simp: net_call_def from_server_def split: prod.splits) (metis fst_conv)
qed

lemma check_noscript_from:
  "check_noscript h d c script argv x v = Some ((fw, don, r, argv'), w') \<Longrightarrow> from_server h x \<Longrightarrow> from_server h r"
  by (auto simp: check_noscript_def bind_Some split: if_splits option.splits prod.splits)

lemma try_evalsha_from:
  assumes "try_evalsha h d c timeout argv script asking w = Some ((fw, don, r, argv'), w')"
  shows "from_server h r"
  using assms
  by (auto simp: try_evalsha_def Let_def bind_Some split: if_split_asm option.split_asm prod.split_asm
      dest!: check_noscript_from get_redis_repy_from)

lemma run_command_from:
  assumes "run_command h d c timeout argv asking w = Some ((fw, r, argv'), w')"
  shows "from_server h r"
  using assms
  by (auto simp: run_command_def bind_Some split: if_splits list.splits option.splits
      dest!: try_evalsha_from get_redis_repy_from)

lemma attempt_from:
  assumes "attempt lock unlock h d timeout argv asking p w = Some ((fw, r, argv'), p', w')"
  shows "from_server h r"
  using assms by (auto simp: attempt_def bind_Some split: option.splits prod.splits dest!: run_command_from)

lemma execute_loop_from:
  "execute_loop lock unlock h d timeout m asking argv retries p w = Some (r, argv', retries', w') \<Longrightarrow> from_server h r"
proof (induction "unat m - unat retries" arbitrary: retries argv p w rule: less_induct)
  case less
  note loop = execute_loop.simps [of lock unlock h d timeout m asking argv retries p w]
  obtain fw r1 argv1 p1 w1 where a: "attempt lock unlock h d timeout argv asking p w = Some ((fw, r1, argv1), p1, w1)"
    using less.prems by (auto simp: loop split: option.splits)
  note from1 = attempt_from [OF a]
  have again: "from_server h r"
    if "retries < m" "execute_loop lock unlock h d timeout m asking argv1 (retries + 1) p1 v = Some (r, argv', retries', w')" for v
    using less.hyps [OF word_retry_less(2) [OF that(1)] that(2)] .
  show ?case
    using less.prems a from1 again by (auto simp: loop split: option.splits bool.splits if_splits)
qed

lemma redis_execute_from:
  assumes "redis_execute fuel h d timeout m argv retries server asking master slot w = Some (r, argv', retries', w')"
  shows "from_server h r"
  using assms by (auto simp: redis_execute_def bind_Some split: option.splits if_splits dest!: execute_loop_from)

section \<open>The state of a clustered database\<close>

definition cluster_state :: "'e hiredis \<Rightarrow> db_ptr \<Rightarrow> nat \<Rightarrow> nat \<Rightarrow> 'e world \<Rightarrow> bool" where
  "cluster_state h d N fuel w \<longleftrightarrow>
     exec_state h d N fuel w \<and> rules_ok w \<and> cluster_enabled (dbs w d) \<and> servers_exist w"

lemma cluster_state_exec:
  assumes "cluster_state h d N fuel w" and "exec_grow d w w'" and "exec_state h d N fuel w'"
  shows "cluster_state h d N fuel w'"
  using assms by (simp add: cluster_state_def exec_grow_def rules_ok_def)

lemma cluster_held: "cluster_state h d N fuel w \<Longrightarrow> held w = []"
  using exec_state_held by (auto simp: cluster_state_def)

lemma cluster_state_locked:
  assumes "cluster_state h d N fuel w"
  shows "cluster_ok h d (w\<lparr>held := [Db_Mutex d, Config_Mutex]\<rparr>)"
proof -
  have "task_ok d w" "connects h" using assms exec_state_task exec_state_connects by (auto simp: cluster_state_def)
  then show ?thesis
    using assms by (simp add: cluster_state_def task_ok_def cluster_ok_def dir_ok_def locks_held_def registry_held)
qed

text \<open>What the code does under both mutexes keeps the state, if it keeps the registry.\<close>

lemma exec_state_added:
  assumes st: "exec_state h d N fuel w" and reg: "reg_ok d v" and conf: "same_conf w v"
    and fr: "add_frame d w v" and held: "held v = []" and sub: "registered w d \<subseteq> registered v d" and ex: "servers_exist w"
  shows "exec_state h d N fuel v"
proof -
  have ok: "task_ok d w" by (rule exec_state_task [OF st])
  have same: "task v = task w" "next_ctx v = next_ctx w" "next_srv w \<le> next_srv v"
    "\<And>s. s < next_srv w \<Longrightarrow> sv_db (srvs v s) = sv_db (srvs w s)" "\<And>x. x \<noteq> d \<Longrightarrow> registered v x = registered w x"
    using fr by (simp_all add: add_frame_def)
  have "cx_server c \<in> registered v (sv_db (srvs v (cx_server c)))" if c: "c \<in> set (ts_contexts (task w))" for c
  proof -
    have r: "cx_server c \<in> registered w (sv_db (srvs w (cx_server c)))" using ok c by (simp add: task_ok_def)
    then have "cx_server c < next_srv w" using ex by (auto simp: servers_exist_def)
    then show ?thesis using r sub same(4,5) by (cases "sv_db (srvs w (cx_server c)) = d") auto
  qed
  then have okv: "task_ok d v" using ok reg held by (simp add: task_ok_def private_ok_def same(1))
  note cf = same_conf_fields [OF conf, of d]
  show ?thesis
  proof (cases "private_state h d N w")
    case True
    then show ?thesis using okv same(1,2) cf by (simp add: exec_state_def private_state_def)
  next
    case False
    then have sh: "shared_state h d N fuel w" "others_within (exec_grow d) h d N" using st by (simp_all add: exec_state_def)
    have "\<forall>s \<in> registered v d. s < next_srv v" using reg by (auto simp: registered_def reg_ok_def filed_ok_def)
    then have "pools_in_order d v"
      using pools_frame [OF fr] cf sh(1) by (simp add: shared_state_def shared_core_def)
    moreover have "task_ok d (v\<lparr>held := []\<rparr>)" using okv held by (cases v) simp
    ultimately have "shared_state h d N fuel v"
      using sh(1) okv held same(1) cf by (simp add: shared_state_def shared_core_def)
    then show ?thesis using sh(2) by (simp add: exec_state_def)
  qed
qed

lemma servers_exist_added:
  assumes "add_frame d w v" and "reg_ok d v" and "servers_exist w"
  shows "servers_exist v"
  unfolding servers_exist_def
proof (intro allI ballI)
  fix x s assume s: "s \<in> registered v x"
  show "s < next_srv v"
  proof (cases "x = d")
    case True
    then show ?thesis using assms(2) s by (auto simp: registered_def reg_ok_def filed_ok_def)
  next
    case False
    then have "s < next_srv w" "next_srv w \<le> next_srv v" using assms(1,3) s by (simp_all add: servers_exist_def add_frame_def)
    then show ?thesis by linarith
  qed
qed

lemma cluster_state_unlocked:
  assumes st: "cluster_state h d N fuel w"
    and v: "cluster_ok h d v" "same_frame (w\<lparr>held := [Db_Mutex d, Config_Mutex]\<rparr>) v"
      "add_frame d (w\<lparr>held := [Db_Mutex d, Config_Mutex]\<rparr>) v" "registered w d \<subseteq> registered v d"
  shows "cluster_state h d N fuel (v\<lparr>held := []\<rparr>)"
proof -
  have ex: "exec_state h d N fuel w" "servers_exist w" using st by (simp_all add: cluster_state_def)
  have conf: "same_conf w (v\<lparr>held := []\<rparr>)" and cfg: "config v = config w"
    using v(2) by (simp_all add: same_frame_def same_conf_def)
  have reg: "reg_ok d (v\<lparr>held := []\<rparr>)" using v(1) by (simp add: cluster_ok_def dir_ok_def registry_held)
  have fr: "add_frame d w (v\<lparr>held := []\<rparr>)" using v(3) by (simp add: add_frame_def registered_def)
  have sub: "registered w d \<subseteq> registered (v\<lparr>held := []\<rparr>) d" using v(4) by (simp add: registry_held)
  have "exec_state h d N fuel (v\<lparr>held := []\<rparr>)"
    by (rule exec_state_added [OF ex(1) reg conf fr _ sub ex(2)]) simp
  then show ?thesis
    using st cfg servers_exist_added [OF fr reg ex(2)] same_conf_fields(2) [OF conf, of d]
    by (simp add: cluster_state_def rules_ok_def)
qed

section \<open>Following a redirection\<close>

text \<open>The redirections of a server name a location that a clustered database accepts.\<close>

definition sound_redirections :: "'e hiredis \<Rightarrow> bool" where
  "sound_redirections h \<longleftrightarrow>
     (\<forall>rc e text. redirection_of (fst (h_get_reply h rc e)) = Some text \<longrightarrow>
        (\<exists>location. redirection_location text = Some location \<and> is_host (parse_location location)))"

lemma discover_some:
  assumes ok: "cluster_ok h d w" and s: "s \<in> registered w d" and h: "whole_topologies h"
  obtains F w' where "\<And>f. F \<le> f \<Longrightarrow> unsafe_discover_slots f h d s w = Some w'"
    "cluster_ok h d w'" "same_frame w w'" "registered w d \<subseteq> registered w' d"
    "\<forall>x \<in> registered w d. sv_raw (srvs w' x) = sv_raw (srvs w x)"
proof -
  obtain w' L where run: "unsafe_discover_slots (card (registered w d)) h d s w = Some w'"
    and wk: "walked h d w (s # L) w'" and L: "set (s # L) = registered w d" "distinct (s # L)"
    by (rule discover_walked [OF ok s h order_refl])
  have sub: "set (s # L) \<subseteq> registered w d" using L(1) by simp
  have "cluster_ok h d w' \<and> same_frame w w' \<and> registered w d \<subseteq> registered w' d \<and>
    (\<forall>x \<in> registered w d. sv_raw (srvs w' x) = sv_raw (srvs w x))"
  proof (rule walked_outcome [OF ok sub wk], goal_cases)
    case (1 e)
    moreover have "srvs w' = srvs w" using 1 by (simp add: failed_times_def upd_stats_def upd_db_def)
    ultimately show ?case using ok by (simp add: failed_times_def)
  next
    case (2 x v P k)
    then show ?case by (simp add: discovered_def)
  qed
  then show thesis using that [of "card (registered w d)" w'] discover_mono [OF run] by blast
qed

lemma follow_ok:
  assumes st: "cluster_state h d N fuel w" and h: "whole_topologies h"
    and loc: "redirection_location text = Some location" "is_host (parse_location location)"
  obtains F s w' where "\<And>f. F \<le> f \<Longrightarrow>
      follow_redirection f h d text w = Some ((s, \<not> starts_with text ''MOVED''), w')"
    "cluster_state h d N fuel w'" "s \<in> registered w' d" "registered w d \<subseteq> registered w' d" "task w' = task w"
proof -
  note conclude = that
  let ?v = "w\<lparr>held := [Db_Mutex d, Config_Mutex]\<rparr>"
  have held: "held w = []" by (rule cluster_held [OF st])
  have locks: "Lck_Lock Config_Mutex w = Some (w\<lparr>held := [Config_Mutex]\<rparr>)"
    "Lck_Lock (Db_Mutex d) (w\<lparr>held := [Config_Mutex]\<rparr>) = Some ?v"
    by (simp_all add: Lck_Lock_def held)
  obtain s v1 where a: "unsafe_add_redis_server h d location TBD ?v = Some (Some s, v1)"
    and v1: "cluster_ok h d v1" "registered v1 d = insert s (registered ?v d)" "same_frame ?v v1"
    by (rule cluster_add_host [OF cluster_state_locked [OF st] loc(2), of TBD]) blast
  have f1: "add_frame d ?v v1" by (rule unsafe_add_frame [OF a])
  have sub1: "registered w d \<subseteq> registered v1 d" using v1(2) by (auto simp: registry_held)
  have finish: thesis
    if run: "\<And>f. F \<le> f \<Longrightarrow> (if starts_with text ''MOVED''
        then unsafe_discover_slots f h d s (upd_stats d (\<lambda>st. st\<lparr>st_replies_moved := st_replies_moved st + 1\<rparr>) v1)
        else Some (upd_stats d (\<lambda>st. st\<lparr>st_replies_ask := st_replies_ask st + 1\<rparr>) v1)) = Some v2"
      and v2: "cluster_ok h d v2" "same_frame ?v v2" "add_frame d ?v v2" "registered v1 d \<subseteq> registered v2 d"
    for F v2
  proof (rule conclude [of F s "v2\<lparr>held := []\<rparr>"])
    have h2: "held v2 = [Db_Mutex d, Config_Mutex]" using v2(2) by (simp add: same_frame_def)
    show "follow_redirection f h d text w = Some ((s, \<not> starts_with text ''MOVED''), v2\<lparr>held := []\<rparr>)" if "F \<le> f" for f
      using run [OF that] by (simp add: follow_redirection_def loc(1) locks a Lck_Unlock_def h2)
    show "cluster_state h d N fuel (v2\<lparr>held := []\<rparr>)"
      by (rule cluster_state_unlocked [OF st v2(1-3)]) (use sub1 v2(4) in blast)
    show "task (v2\<lparr>held := []\<rparr>) = task w" using v2(3) by (simp add: add_frame_def)
    show "s \<in> registered (v2\<lparr>held := []\<rparr>) d" "registered w d \<subseteq> registered (v2\<lparr>held := []\<rparr>) d"
      using v1(2) sub1 v2(4) by (auto simp: registry_held)
  qed
  show thesis
  proof (cases "starts_with text ''MOVED''")
    case False
    show thesis
      by (rule finish [of 0 "upd_stats d (\<lambda>st. st\<lparr>st_replies_ask := st_replies_ask st + 1\<rparr>) v1"])
        (use False v1 f1 in simp_all)
  next
    case True
    let ?v1 = "upd_stats d (\<lambda>st. st\<lparr>st_replies_moved := st_replies_moved st + 1\<rparr>) v1"
    have ok: "cluster_ok h d ?v1" "s \<in> registered ?v1 d" using v1 by simp_all
    show thesis
    proof (rule discover_some [OF ok h], goal_cases)
      case (1 F v2)
      have "same_frame ?v v2" using same_frame_trans [of ?v ?v1 v2] v1(3) 1(3) by simp
      moreover have "add_frame d ?v v2"
        using add_frame_trans [of d ?v ?v1 v2] f1 discover_frame [OF 1(1) [OF order_refl]] by simp
      ultimately show ?case
        using finish [of F v2] 1 True by simp
    qed
  qed
qed

section \<open>The loop\<close>

lemma cluster_loop_ok:
  assumes "cluster_state h d N fuel w" and "argv_ok argv"
    and room: "ws_room h N" "ws_room h (Suc (unat max_retries))"
    and "attempts_ok server retries max_retries (registered w d)"
    and h: "sound_redirections h" "whole_topologies h"
  shows "\<exists>F r argv' retries' hops' w'.
    (\<forall>f \<ge> F. cluster_loop f fuel h d timeout max_retries master slot server asking hops argv retries w =
       Some (r, argv', retries', hops', w')) \<and>
    redirection_of r = None \<and> retries \<le> retries' \<and> retries' \<le> max_retries \<and>
    cluster_state h d N fuel w' \<and> registered w d \<subseteq> registered w' d \<and> cmd_part (task w') = cmd_part (task w)"
  using assms(1,2,5)
proof (induction "unat hops" arbitrary: server asking hops argv retries w rule: less_induct)
  case less
  have p: "exec_state h d N fuel w" using less.prems(1) by (simp add: cluster_state_def)
  obtain r argv1 retries1 w1 where
    e: "redis_execute fuel h d timeout max_retries argv retries server asking master slot w = Some (r, argv1, retries1, w1)"
    and le: "retries \<le> retries1" "retries1 \<le> max_retries"
    and p1: "exec_state h d N fuel w1" and fr: "exec_grow d w w1" and av: "r \<noteq> None \<Longrightarrow> argv_ok argv1"
    using execute_ok [OF p less.prems(2) room less.prems(3)] by blast
  have st1: "cluster_state h d N fuel w1" by (rule cluster_state_exec [OF less.prems(1) fr p1])
  have reg1: "registered w d \<subseteq> registered w1 d" "cmd_part (task w1) = cmd_part (task w)"
    using fr by (simp_all add: exec_grow_def)
  note loop = cluster_loop.simps [of _ fuel h d timeout max_retries master slot server asking hops argv retries w]
  show ?case
  proof (cases "redirection_of r")
    case None
    then have "cluster_loop f fuel h d timeout max_retries master slot server asking hops argv retries w =
        Some (r, argv1, retries1, hops, w1)" for f
      by (simp add: loop e)
    then show ?thesis using None le st1 reg1 by blast
  next
    case (Some msg)
    then have r: "r \<noteq> None" by (cases r) auto
    then obtain rc e0 where "r = fst (h_get_reply h rc e0)"
      using redis_execute_from [OF e] by (auto simp: from_server_def)
    then obtain location where location: "redirection_location msg = Some location" "is_host (parse_location location)"
      using h(1) Some unfolding sound_redirections_def by metis
    obtain F s w2 where f: "\<And>f. F \<le> f \<Longrightarrow>
        follow_redirection f h d msg w1 = Some ((s, \<not> starts_with msg ''MOVED''), w2)"
      and w2: "cluster_state h d N fuel w2" "s \<in> registered w2 d" "registered w1 d \<subseteq> registered w2 d" "task w2 = task w1"
      by (rule follow_ok [OF st1 h(2) location]) blast
    show ?thesis
    proof (cases "hops > 0")
      case False
      then have "cluster_loop f fuel h d timeout max_retries master slot server asking hops argv retries w =
          Some (None, argv1, retries1, hops, w2)" if "F \<le> f" for f
        using f [OF that] by (simp add: loop e Some)
      then show ?thesis using le w2 reg1 by (intro exI [of _ F] exI) auto
    next
      case True
      have att: "attempts_ok (Some s) retries1 max_retries (registered w2 d)"
        using w2(2) le(2) by (simp add: attempts_ok_def)
      obtain G r' argv' retries' hops' w' where
        g: "\<forall>f \<ge> G. cluster_loop f fuel h d timeout max_retries master slot (Some s) (\<not> starts_with msg ''MOVED'')
          (hops - 1) argv1 retries1 w2 = Some (r', argv', retries', hops', w')"
        and res: "redirection_of r' = None" "retries1 \<le> retries'" "retries' \<le> max_retries"
          "cluster_state h d N fuel w'" "registered w2 d \<subseteq> registered w' d" "cmd_part (task w') = cmd_part (task w2)"
        using less.hyps [OF word_dec_less(2) [OF True] w2(1) av [OF r] att] by blast
      have "cluster_loop f fuel h d timeout max_retries master slot server asking hops argv retries w =
          Some (r', argv', retries', hops', w')" if "max F G \<le> f" for f
        using f [of f] g that True le(2) by (simp add: loop e Some)
      moreover have "retries \<le> retries'" using le(1) res(2) by (rule order.trans)
      moreover have "registered w d \<subseteq> registered w' d" using reg1(1) w2(3) res(5) by blast
      moreover have "cmd_part (task w') = cmd_part (task w)" using reg1(2) w2(4) res(6) by simp
      ultimately show ?thesis using res by blast
    qed
  qed
qed

lemma argv_ok_nth: "argv_ok argv \<Longrightarrow> i < length argv \<Longrightarrow> argv ! i \<noteq> None"
  unfolding argv_ok_def by (metis nth_mem)

lemma cluster_execute_ok:
  assumes "cluster_state h d N fuel w" and "argv_ok argv"
    and "ws_room h N" and "ws_room h (Suc (unat max_retries))" and "max_retries + 1 \<noteq> 0"
    and "sound_redirections h" and "whole_topologies h"
  shows "\<exists>F r argv' retries' many w'.
    (\<forall>f \<ge> F. cluster_execute f fuel h d timeout max_retries argv 0 master w = Some (r, argv', retries', many, w')) \<and>
    redirection_of r = None \<and> retries' \<le> max_retries \<and>
    cluster_state h d N fuel w' \<and> held w' = [] \<and> registered w d \<subseteq> registered w' d \<and>
    cmd_part (task w') = cmd_part (task w)"
proof -
  obtain cmd args where argv: "argv = Some cmd # args"
    using assms(2) by (cases argv; cases "hd argv") (auto simp: argv_ok_def)
  note held = cluster_held
  show ?thesis
  proof (cases "get_key_index cmd > 0 \<and> nat (get_key_index cmd) < length argv")
    case False
    then have "cluster_execute f fuel h d timeout max_retries argv 0 master w = Some (None, argv, 0, False, w)" for f
      by (auto simp: cluster_execute_def argv Let_def)
    then show ?thesis using assms(1) held [OF assms(1)] by (intro exI [of _ 0] exI) auto
  next
    case True
    then obtain key where key: "argv ! nat (get_key_index cmd) = Some key"
      using argv_ok_nth [OF assms(2)] by blast
    have att: "attempts_ok None 0 max_retries (registered w d)" using assms(5) by (simp add: attempts_ok_def)
    let ?hops = "if max_hops (dbs w d) > 0 then max_hops (dbs w d) else - 1"
    obtain F r argv' retries' hops' w' where
      "\<forall>f \<ge> F. cluster_loop f fuel h d timeout max_retries master (get_cluster_slot key) None False ?hops argv 0 w =
        Some (r, argv', retries', hops', w')"
      and res: "redirection_of r = None" "retries' \<le> max_retries" "cluster_state h d N fuel w'" "registered w d \<subseteq> registered w' d"
        "cmd_part (task w') = cmd_part (task w)"
      using cluster_loop_ok [OF assms(1-4) att assms(6,7)] by blast
    then have "\<forall>f \<ge> F. cluster_execute f fuel h d timeout max_retries argv 0 master w =
        Some (r, argv', retries', hops' = 0, w')"
      using True key by (simp add: cluster_execute_def argv Let_def)
    then show ?thesis using res held [OF res(3)] by blast
  qed
qed

text \<open>
  C23. A command in a cluster, with private or with shared connections, comes to an end if its servers
  answer as documented: their redirections name a host, and a reply with a topology names slots, or no
  server at all. Then, with a registry in order, room in the workspace, arguments that can be sent and a limit
  of retries below \<open>UINT_MAX\<close> (and, for shared connections, other threads that keep the pools in order, free a
  connection in the end, unregister no server and leave the configuration and this task alone),
  \<open>cluster_execute\<close> returns, as soon as the discoveries have enough steps. The caller never gets a redirection as its reply;
  the retries are within their limit, the mutexes are free, the registry and the connections are in order,
  and no server has been lost. Without the conditions on the replies it may fail: a redirection that names
  no host panics, and a discovery may not end.
\<close>

theorem cluster_execute_returns:
  assumes "cluster_state h d N fuel w" and "argv_ok argv"
    and "ws_room h N" and "ws_room h (Suc (unat max_retries))" and "max_retries + 1 \<noteq> 0"
    and "sound_redirections h" and "whole_topologies h"
  shows "\<exists>F r argv' retries' many w'.
    (\<forall>f \<ge> F. cluster_execute f fuel h d timeout max_retries argv 0 master w = Some (r, argv', retries', many, w')) \<and>
    redirection_of r = None \<and> retries' \<le> max_retries \<and>
    cluster_state h d N fuel w' \<and> held w' = [] \<and> registered w d \<subseteq> registered w' d"
  using cluster_execute_ok [OF assms] by blast

text \<open>A cluster in which every command is moved, once or for ever.\<close>

definition lab_moved :: "string \<Rightarrow> int hiredis" where
  "lab_moved msg = (lab lab_cluster 64)\<lparr>h_get_reply := (\<lambda>rc e. (Some (Reply_Error msg), e))\<rparr>"

lemma cluster_state_lab: "cluster_state (lab_moved msg) 0 2 fuel (lab_one False True)"
proof -
  have "private_state (lab_moved msg) 0 2 (lab_one False True)"
    using private_state_lab [of lab_cluster 64 True] by (simp add: private_state_def connects_def lab_moved_def)
  moreover have "registered (lab_one False True) x = {0}" for x
    by (auto simp: registered_def lab_one_def)
  ultimately show ?thesis
    by (simp add: cluster_state_def exec_state_def servers_exist_def rules_ok_def lab_one_def lab_empty_def lab_db_def
        NREDIS_SERVER_WEIGHTS_def)
qed

lemma lab_moved_room: "ws_room (lab_moved msg) 3" "ws_room (lab_moved msg) 2"
  using ws_room_lab [of 3 lab_cluster] ws_room_lab [of 2 lab_cluster] by (simp_all add: ws_room_def lab_moved_def)

text \<open>With shared connections, and other threads that give back theirs.\<close>

definition lab_shared :: "string \<Rightarrow> int hiredis" where
  "lab_shared msg = (lab_moved msg)\<lparr>h_wait := \<lambda>s. upd_pool s all_back\<rparr>"

lemma cluster_state_shared: "cluster_state (lab_shared msg) 0 0 2 (lab_one True True)"
proof -
  have "exec_state (lab_shared msg) 0 0 2 (lab_one True True)"
    by (rule exec_state_back) (simp_all add: lab_shared_def lab_moved_def connects_def lab_def)
  moreover have "registered (lab_one True True) x = {0}" for x
    by (auto simp: registered_def lab_one_def)
  ultimately show ?thesis
    by (simp add: cluster_state_def servers_exist_def rules_ok_def lab_one_def lab_empty_def lab_db_def NREDIS_SERVER_WEIGHTS_def)
qed

lemma lab_shared_env:
  "sound_redirections (lab_shared ''MOVED 7 b:2'')" "whole_topologies (lab_shared msg)"
  "n \<le> 3 \<Longrightarrow> ws_room (lab_shared msg) n"
proof -
  have "redirection_location ''MOVED 7 b:2'' = Some ''b:2''" "is_host (parse_location ''b:2'')" by code_simp+
  then show "sound_redirections (lab_shared ''MOVED 7 b:2'')"
    by (simp add: sound_redirections_def lab_shared_def lab_moved_def)
  show "whole_topologies (lab_shared msg)"
    using lab_whole [of 64] by (simp add: whole_topologies_def lab_shared_def lab_moved_def)
  show "ws_room (lab_shared msg) n" if "n \<le> 3"
    using ws_room_mono [OF lab_moved_room(1) that] by (simp add: ws_room_def lab_shared_def)
qed

theorem cluster_execute_returns_witness:
  "\<exists>F r argv' retries' many w'.
    (\<forall>f \<ge> F. cluster_execute f 2 (lab_shared ''MOVED 7 b:2'') 0 \<lparr>tv_sec = 1, tv_usec = 0\<rparr> 2 [Some ''GET'', Some ''k''] 0 True
      (lab_one True True) = Some (r, argv', retries', many, w')) \<and> redirection_of r = None \<and> held w' = []"
proof -
  have "argv_ok [Some ''GET'', Some ''k'']" "(2 :: uint) + 1 \<noteq> 0" by (auto simp: argv_ok_def)
  moreover have "ws_room (lab_shared ''MOVED 7 b:2'') 0" "ws_room (lab_shared ''MOVED 7 b:2'') (Suc (unat (2 :: uint)))"
    by (simp_all add: lab_shared_env(3))
  ultimately show ?thesis
    using cluster_execute_returns [OF cluster_state_shared _ _ _ _ lab_shared_env(1,2)] by blast
qed

section \<open>Where it fails\<close>

text \<open>A redirection that names no location, or one that a cluster cannot have.\<close>

definition bad_redirection :: "string \<Rightarrow> bool" where
  "bad_redirection msg \<longleftrightarrow>
     (case redirection_location msg of None \<Rightarrow> True | Some location \<Rightarrow> \<not> is_host (parse_location location))"

lemma follow_bad:
  assumes st: "cluster_state h d N fuel w" and bad: "bad_redirection msg"
  shows "follow_redirection f h d msg w = None"
proof (cases "redirection_location msg")
  case None
  then show ?thesis by (simp add: follow_redirection_def)
next
  case (Some location)
  let ?v = "w\<lparr>held := [Db_Mutex d, Config_Mutex]\<rparr>"
  have held: "held w = []" by (rule cluster_held [OF st])
  have ok: "cluster_ok h d ?v" by (rule cluster_state_locked [OF st])
  have "\<not> is_host (parse_location location)" using bad Some by (simp add: bad_redirection_def)
  then have "unsafe_add_redis_server h d location TBD ?v =
      Some (None, upd_stats d (\<lambda>st. st\<lparr>st_servers_failed := st_servers_failed st + 1\<rparr>) ?v)"
    using add_invalid [of d ?v location h TBD] ok by (simp add: cluster_ok_def dir_ok_def)
  then show ?thesis by (simp add: follow_redirection_def Some Lck_Lock_def held)
qed

text \<open>
  C24. A reply that only looks like a redirection brings the worker down: if the first attempt gets an
  error whose text starts with \<open>MOVED\<close> or \<open>ASK\<close> (a script may return one) and names no location, or
  one without a port, an assertion fails, whatever the limits.
\<close>

theorem bad_redirection_panics:
  assumes "cluster_state h d N fuel w" and "argv_ok (Some cmd # args)"
    and "ws_room h N" and "ws_room h (Suc (unat max_retries))" and "max_retries + 1 \<noteq> 0"
    and key: "get_key_index cmd > 0" "(Some cmd # args) ! nat (get_key_index cmd) = Some key"
      "nat (get_key_index cmd) < Suc (length args)"
    and run: "redis_execute fuel h d timeout max_retries (Some cmd # args) 0 None False master (get_cluster_slot key) w =
      Some (Some (Reply_Error msg), argv', retries', w')"
    and bad: "is_redirection msg" "bad_redirection msg"
  shows "cluster_execute dfuel fuel h d timeout max_retries (Some cmd # args) 0 master w = None"
proof -
  have p: "exec_state h d N fuel w" using assms(1) by (simp add: cluster_state_def)
  have att: "attempts_ok None 0 max_retries (registered w d)" using assms(5) by (simp add: attempts_ok_def)
  have "exec_state h d N fuel w'" "exec_grow d w w'"
    using execute_ok [OF p assms(2-4) att, of timeout False master "get_cluster_slot key"] run by auto
  then have "cluster_state h d N fuel w'" using cluster_state_exec [OF assms(1)] by blast
  from follow_bad [OF this bad(2)] show ?thesis
    using key bad(1)
    by (simp add: cluster_execute_def Let_def cluster_loop.simps [of _ _ _ _ _ _ _ _ None] run)
qed

lemma lab_asked:
  "map_option (\<lambda>(r, a, n, w). r) (redis_execute 0 (lab_moved ''ASK me'') 0 \<lparr>tv_sec = 1, tv_usec = 0\<rparr> 2
      [Some ''GET'', Some ''k''] 0 None False True slot (lab_one False True)) = Some (Some (Reply_Error ''ASK me''))"
  by code_simp

theorem bad_redirection_panics_witness:
  "cluster_execute 5 0 (lab_moved ''ASK me'') 0 \<lparr>tv_sec = 1, tv_usec = 0\<rparr> 2 [Some ''GET'', Some ''k''] 0 True
    (lab_one False True) = None"
proof -
  let ?argv = "[Some ''GET'', Some ''k'']"
  have "map_option (\<lambda>(r, a, n, w). r) (redis_execute 0 (lab_moved ''ASK me'') 0 \<lparr>tv_sec = 1, tv_usec = 0\<rparr> 2 ?argv
      0 None False True (get_cluster_slot ''k'') (lab_one False True)) = Some (Some (Reply_Error ''ASK me''))"
    by (rule lab_asked)
  then obtain argv' n' w' where run: "redis_execute 0 (lab_moved ''ASK me'') 0 \<lparr>tv_sec = 1, tv_usec = 0\<rparr> 2 ?argv
      0 None False True (get_cluster_slot ''k'') (lab_one False True) = Some (Some (Reply_Error ''ASK me''), argv', n', w')"
    by auto
  have pre: "argv_ok ?argv" "(2 :: uint) + 1 \<noteq> 0" "ws_room (lab_moved ''ASK me'') (Suc (unat (2 :: uint)))"
    using lab_moved_room [of "''ASK me''"] by (auto simp: argv_ok_def)
  have key: "get_key_index ''GET'' = 1" by code_simp
  have bad: "is_redirection ''ASK me''" "bad_redirection ''ASK me''" by code_simp+
  show ?thesis
    by (rule bad_redirection_panics [OF cluster_state_lab pre(1) lab_moved_room(2) pre(3,2) _ _ _ run bad])
      (simp_all add: key)
qed

end
