(* ===== verification/Vmod_Command.thy ===== *)
theory Vmod_Command
  imports Cluster_Redirections "HOL-Library.Signed_Division"
begin

text \<open>
  The functions of the VCL interface that build and run a command (\<open>src/vmod_redis.c\<close>): \<open>.command()\<close>,
  \<open>.timeout()\<close>, \<open>.retries()\<close>, \<open>.push()\<close>, \<open>.execute()\<close>, \<open>.easy_execute()\<close> and \<open>.free()\<close>, with
  \<open>get_task_state\<close>, and the functions of the module that find their database by name. The state of
  the task is created on its first use as \<open>new_task_state\<close>, here the value it has until then. A \<open>NULL\<close>
  string of VCL is \<open>None\<close>.
\<close>

section \<open>The code\<close>

definition MAX_REDIS_COMMAND_ARGS :: nat where "MAX_REDIS_COMMAND_ARGS = 128"

definition new_task_state :: task_state where
  "new_task_state =
     \<lparr>ts_ncontexts = 0, ts_contexts = [], ts_db = None, cmd_db = None,
      cmd_timeout = \<lparr>tv_sec = 0, tv_usec = 0\<rparr>, cmd_max_retries = 0, cmd_argv = [], cmd_reply = None\<rparr>"

definition flush_task_state :: "task_state \<Rightarrow> task_state" where
  "flush_task_state t =
     t\<lparr>cmd_db := None, cmd_timeout := \<lparr>tv_sec = 0, tv_usec = 0\<rparr>, cmd_max_retries := 0, cmd_argv := [],
       cmd_reply := None\<rparr>"

definition get_task_state :: "bool \<Rightarrow> 'e world \<Rightarrow> 'e world" where
  "get_task_state flush w = (if flush then w\<lparr>task := flush_task_state (task w)\<rparr> else w)"

definition validate_command_state :: "db_ptr \<Rightarrow> task_state \<Rightarrow> bool" where
  "validate_command_state d t \<longleftrightarrow> length (cmd_argv t) \<ge> 1 \<and> cmd_db t = Some d"

text \<open>Milliseconds; \<open>/\<close> and \<open>%\<close> round towards zero.\<close>

definition timeval_ms :: "int \<Rightarrow> timeval" where
  "timeval_ms ms = \<lparr>tv_sec = ms sdiv 1000, tv_usec = (ms smod 1000) * 1000\<rparr>"

definition vmod_db_command :: "db_ptr \<Rightarrow> string option \<Rightarrow> 'e world \<Rightarrow> 'e world" where
  "vmod_db_command d name w =
     (case name of
        Some (c # cs) \<Rightarrow>
          (let w = get_task_state True w
           in w\<lparr>task := (task w)\<lparr>cmd_db := Some d, cmd_timeout := command_timeout (dbs w d),
                                  cmd_max_retries := max_command_retries (dbs w d),
                                  cmd_argv := [Some (c # cs)]\<rparr>\<rparr>)
      | _ \<Rightarrow> w)"

definition vmod_db_timeout :: "db_ptr \<Rightarrow> int \<Rightarrow> 'e world \<Rightarrow> 'e world" where
  "vmod_db_timeout d ms w =
     (let w = get_task_state False w
      in if validate_command_state d (task w)
         then w\<lparr>task := (task w)\<lparr>cmd_timeout := timeval_ms ms\<rparr>\<rparr> else w)"

definition vmod_db_retries :: "db_ptr \<Rightarrow> int \<Rightarrow> 'e world \<Rightarrow> 'e world" where
  "vmod_db_retries d n w =
     (let w = get_task_state False w
      in if validate_command_state d (task w)
         then w\<lparr>task := (task w)\<lparr>cmd_max_retries := word_of_int n\<rparr>\<rparr> else w)"

definition vmod_db_push :: "'e hiredis \<Rightarrow> db_ptr \<Rightarrow> string option \<Rightarrow> 'e world \<Rightarrow> 'e world" where
  "vmod_db_push h d arg w =
     (let w = get_task_state False w
      in if validate_command_state d (task w) \<and> length (cmd_argv (task w)) < MAX_REDIS_COMMAND_ARGS
         then
           (case (case arg of None \<Rightarrow> WS_Copy h [] w | Some a \<Rightarrow> (Some a, w)) of
              (None, w) \<Rightarrow> VRT_fail w
            | (Some a, w) \<Rightarrow> w\<lparr>task := (task w)\<lparr>cmd_argv := cmd_argv (task w) @ [Some a]\<rparr>\<rparr>)
         else w)"

text \<open>
  Scripts are sent to masters in a cluster; slaves may be ignored altogether. \<open>strcasecmp\<close> is only
  called when it matters.
\<close>

definition forced_master :: "vmod_redis_db \<Rightarrow> argv \<Rightarrow> bool \<Rightarrow> bool option" where
  "forced_master db argv master =
     (if master \<or> ignore_slaves db then Some True
      else if cluster_enabled db
      then (case hd argv of
              None \<Rightarrow> None
            | Some cmd \<Rightarrow> Some (strcasecmp_eq cmd ''EVAL'' \<or> strcasecmp_eq cmd ''EVALSHA''))
      else Some False)"

definition execute_command ::
  "nat \<Rightarrow> nat \<Rightarrow> 'e hiredis \<Rightarrow> db_ptr \<Rightarrow> timeval \<Rightarrow> uint \<Rightarrow> argv \<Rightarrow> bool \<Rightarrow> 'e world \<Rightarrow>
   (redisReply option \<times> argv \<times> 'e world) option" where
  "execute_command dfuel fuel h d timeout max_retries argv master w =
     (if cluster_enabled (dbs w d)
      then map_option (\<lambda>(reply, argv, retries, many, w). (reply, argv, w))
             (cluster_execute dfuel fuel h d timeout max_retries argv 0 master w)
      else map_option (\<lambda>(reply, argv, retries, w). (reply, argv, w))
             (redis_execute fuel h d timeout max_retries argv 0 None False master 0 w))"

fun is_error :: "redisReply option \<Rightarrow> bool" where
  "is_error (Some (Reply_Error s)) = True"
| "is_error r = False"

text \<open>\<open>argv\<close> is overwritten in place.\<close>

definition vmod_db_execute ::
  "nat \<Rightarrow> nat \<Rightarrow> 'e hiredis \<Rightarrow> db_ptr \<Rightarrow> bool \<Rightarrow> 'e world \<Rightarrow> 'e world option" where
  "vmod_db_execute dfuel fuel h d master w =
     (let w = get_task_state False w; t = task w
      in if \<not> validate_command_state d t then Some w
         else do {
           master \<leftarrow> forced_master (dbs w d) (cmd_argv t) master;
           (reply, argv, w) \<leftarrow>
             execute_command dfuel fuel h d (cmd_timeout t) (cmd_max_retries t) (cmd_argv t) master w;
           let w = w\<lparr>task := (task w)\<lparr>cmd_argv := argv, cmd_reply := reply\<rparr>\<rparr>;
           if is_error reply
           then with_db False d (upd_stats d (\<lambda>st. st\<lparr>st_commands_error := st_commands_error st + 1\<rparr>)) w
           else Some w
         })"

text \<open>\<open>valid_cmd_arg1\<close> and \<open>cmd_arg1\<close> are the first element of \<open>args\<close>, and so on.\<close>

fun handle_args :: "'e hiredis \<Rightarrow> db_ptr \<Rightarrow> string option option list \<Rightarrow> 'e world \<Rightarrow> 'e world" where
  "handle_args h d [] w = w"
| "handle_args h d (None # args) w = handle_args h d args w"
| "handle_args h d (Some arg # args) w = handle_args h d args (vmod_db_push h d arg w)"

definition vmod_db_easy_execute ::
  "nat \<Rightarrow> nat \<Rightarrow> 'e hiredis \<Rightarrow> db_ptr \<Rightarrow> string option \<Rightarrow> string option option list \<Rightarrow> int option \<Rightarrow> int option \<Rightarrow>
   bool \<Rightarrow> 'e world \<Rightarrow> 'e world option" where
  "vmod_db_easy_execute dfuel fuel h d command args timeout retries master w =
     (case command of
        Some (c # cs) \<Rightarrow>
          (let w = vmod_db_command d command w;
               w = handle_args h d args w;
               w = (case timeout of Some ms \<Rightarrow> vmod_db_timeout d ms w | None \<Rightarrow> w);
               w = (case retries of Some n \<Rightarrow> vmod_db_retries d n w | None \<Rightarrow> w)
           in vmod_db_execute dfuel fuel h d master w)
      | _ \<Rightarrow> Some w)"

definition vmod_db_free :: "'e world \<Rightarrow> 'e world" where
  "vmod_db_free w = get_task_state True w"

section \<open>The functions of the module\<close>

definition get_db_instance :: "string \<Rightarrow> 'e world \<Rightarrow> (db_ptr option \<times> 'e world) option" where
  "get_db_instance db w = do {
     w \<leftarrow> Lck_Lock Config_Mutex w;
     let result = List.find (\<lambda>d. db_name (dbs w d) = db) (vcl_dbs (config w));
     w \<leftarrow> Lck_Unlock Config_Mutex w;
     Some (result, w)
   }"

definition vmod_use :: "string option \<Rightarrow> 'e world \<Rightarrow> 'e world option" where
  "vmod_use db w =
     (let w = get_task_state True w
      in case db of
           Some (c # cs) \<Rightarrow> do {
             (d, w) \<leftarrow> get_db_instance (c # cs) w;
             Some (w\<lparr>task := (task w)\<lparr>ts_db := d\<rparr>\<rparr>)
           }
         | _ \<Rightarrow> Some (w\<lparr>task := (task w)\<lparr>ts_db := None\<rparr>\<rparr>))"

text \<open>\<open>VMOD_PROXIED_METHOD\<close>: the method of the database that is named, or of the one in use.\<close>

definition proxied ::
  "string option \<Rightarrow> 'a \<Rightarrow> (db_ptr \<Rightarrow> 'e world \<Rightarrow> ('a \<times> 'e world) option) \<Rightarrow> 'e world \<Rightarrow> ('a \<times> 'e world) option" where
  "proxied db fallback method w = do {
     (d, w) \<leftarrow>
       (case db of
          Some (c # cs) \<Rightarrow> get_db_instance (c # cs) w
        | _ \<Rightarrow> (let w = get_task_state False w in Some (ts_db (task w), w)));
     (case d of None \<Rightarrow> Some (fallback, w) | Some d \<Rightarrow> method d w)
   }"

definition vmod_easy_execute ::
  "nat \<Rightarrow> nat \<Rightarrow> 'e hiredis \<Rightarrow> string option \<Rightarrow> string option \<Rightarrow> string option option list \<Rightarrow> int option \<Rightarrow>
   int option \<Rightarrow> bool \<Rightarrow> 'e world \<Rightarrow> 'e world option" where
  "vmod_easy_execute dfuel fuel h db command args timeout retries master w =
     map_option snd (proxied db ()
       (\<lambda>d w. map_option (Pair ()) (vmod_db_easy_execute dfuel fuel h d command args timeout retries master w)) w)"

end
