(* ===== verification/Vmod_Calls.thy ===== *)
theory Vmod_Calls
  imports Vmod_Command
begin

text \<open>
  What \<open>.easy_execute()\<close> does, on databases and on clusters: it sends the command with its arguments,
  and comes back.
\<close>

section \<open>Building the command\<close>

text \<open>The array that the calls of \<open>.command()\<close> and \<open>.push()\<close> build.\<close>

definition call_argv :: "string \<Rightarrow> string option option list \<Rightarrow> argv" where
  "call_argv name args =
     Some name # map (\<lambda>a. Some (case a of None \<Rightarrow> [] | Some s \<Rightarrow> s)) (List.map_filter (\<lambda>x. x) args)"

definition call_ok :: "string \<Rightarrow> string option option list \<Rightarrow> bool" where
  "call_ok name args \<longleftrightarrow> name \<noteq> [] \<and> length args < MAX_REDIS_COMMAND_ARGS \<and> argv_ok (call_argv name args)"

definition queued :: "'e world \<Rightarrow> 'e world \<Rightarrow> argv \<Rightarrow> bool" where
  "queued w w' argv \<longleftrightarrow> (\<exists>e. w' = w\<lparr>net := e, task := (task w)\<lparr>cmd_argv := argv\<rparr>\<rparr>)"

lemma push_step:
  assumes "\<forall>e. fst (h_ws_alloc h 1 e)" and "validate_command_state d (task w)"
    and "length (cmd_argv (task w)) < MAX_REDIS_COMMAND_ARGS"
  shows "queued w (vmod_db_push h d arg w) (cmd_argv (task w) @ [Some (case arg of None \<Rightarrow> [] | Some s \<Rightarrow> s)])"
proof (cases arg)
  case None
  obtain e where "h_ws_alloc h 1 (net w) = (True, e)" using assms(1) by (metis prod.collapse)
  then show ?thesis
    using assms(2,3) None by (auto simp: vmod_db_push_def get_task_state_def queued_def WS_Copy_def net_call_def Let_def)
next
  case (Some a)
  then show ?thesis
    using assms(2,3) unfolding queued_def
    by (intro exI [of _ "net w"]) (simp add: vmod_db_push_def get_task_state_def Let_def)
qed

lemma queued_trans: "queued w w1 a \<Longrightarrow> queued w1 w2 b \<Longrightarrow> queued w w2 b"
  by (auto simp: queued_def)

lemma handle_args_queued:
  assumes "\<forall>e. fst (h_ws_alloc h 1 e)" and "validate_command_state d (task w)"
    and "length (cmd_argv (task w)) + length args \<le> MAX_REDIS_COMMAND_ARGS"
  shows "queued w (handle_args h d args w)
    (cmd_argv (task w) @ map (\<lambda>a. Some (case a of None \<Rightarrow> [] | Some s \<Rightarrow> s)) (List.map_filter (\<lambda>x. x) args))"
  using assms(2,3)
proof (induction args arbitrary: w)
  case Nil
  show ?case unfolding queued_def by (intro exI [of _ "net w"]) (simp add: map_filter_simps)
next
  case (Cons a args)
  show ?case
  proof (cases a)
    case None
    then show ?thesis using Cons by (simp add: map_filter_simps)
  next
    case (Some arg)
    let ?w = "vmod_db_push h d arg w"
    have q: "queued w ?w (cmd_argv (task w) @ [Some (case arg of None \<Rightarrow> [] | Some s \<Rightarrow> s)])"
      by (rule push_step [OF assms(1) Cons.prems(1)]) (use Cons.prems(2) in simp)
    have t: "task ?w = (task w)\<lparr>cmd_argv := cmd_argv (task w) @ [Some (case arg of None \<Rightarrow> [] | Some s \<Rightarrow> s)]\<rparr>"
      using q by (auto simp: queued_def)
    have "queued ?w (handle_args h d args ?w)
      (cmd_argv (task ?w) @ map (\<lambda>a. Some (case a of None \<Rightarrow> [] | Some s \<Rightarrow> s)) (List.map_filter (\<lambda>x. x) args))"
      by (rule Cons.IH) (use Cons.prems t in \<open>simp_all add: validate_command_state_def\<close>)
    then show ?thesis using queued_trans [OF q] by (simp add: Some t map_filter_simps)
  qed
qed

section \<open>Running it\<close>

definition vmod_state :: "'e hiredis \<Rightarrow> db_ptr \<Rightarrow> nat \<Rightarrow> nat \<Rightarrow> 'e world \<Rightarrow> bool" where
  "vmod_state h d N fuel w \<longleftrightarrow>
     (if cluster_enabled (dbs w d) then cluster_state h d N fuel w else exec_state h d N fuel w)"

text \<open>What a cluster relies on.\<close>

definition vmod_env :: "'e hiredis \<Rightarrow> db_ptr \<Rightarrow> 'e world \<Rightarrow> bool" where
  "vmod_env h d w \<longleftrightarrow> (cluster_enabled (dbs w d) \<longrightarrow> sound_redirections h \<and> whole_topologies h)"

lemma exec_state_change:
  assumes "ts_contexts t = ts_contexts (task w)" and "ts_ncontexts t = ts_ncontexts (task w)"
  shows "exec_state h d N fuel (w\<lparr>net := e, task := t\<rparr>) \<longleftrightarrow> exec_state h d N fuel w"
  using assms
  by (simp add: exec_state_def private_state_def shared_state_def shared_core_def pools_in_order_def task_ok_def
      private_ok_def reg_ok_def filed_ok_def registered_def)

lemma vmod_state_task:
  assumes "ts_contexts t = ts_contexts (task w)" and "ts_ncontexts t = ts_ncontexts (task w)"
  shows "vmod_state h d N fuel (w\<lparr>net := e, task := t\<rparr>) \<longleftrightarrow> vmod_state h d N fuel w"
  using exec_state_change [OF assms, of h d N fuel e]
  by (simp add: vmod_state_def cluster_state_def rules_ok_def servers_exist_def registered_def)

lemma vmod_state_stats:
  assumes "vmod_state h d N fuel w"
  shows "vmod_state h d N fuel (upd_stats d f w)"
proof -
  have c: "same_core w (upd_stats d f w)" by simp
  show ?thesis
    using assms exec_state_core [OF c, of h d N fuel]
    by (auto simp: vmod_state_def cluster_state_def rules_ok_def servers_exist_def registered_core [OF c] same_core_simps [OF c])
qed

lemma vmod_state_held: "vmod_state h d N fuel w \<Longrightarrow> held w = []"
  using exec_state_held cluster_held by (auto simp: vmod_state_def split: if_splits)

lemma execute_command_ok:
  assumes st: "vmod_state h d N fuel w" and argv: "argv_ok argv"
    and room: "ws_room h N" "ws_room h (Suc (unat max_retries))" "max_retries + 1 \<noteq> 0" and env: "vmod_env h d w"
  shows "\<exists>F r argv' w'. (\<forall>f \<ge> F. execute_command f fuel h d timeout max_retries argv master w = Some (r, argv', w')) \<and>
    vmod_state h d N fuel w' \<and> cmd_part (task w') = cmd_part (task w) \<and>
    (cluster_enabled (dbs w d) \<longrightarrow> redirection_of r = None)"
proof (cases "cluster_enabled (dbs w d)")
  case True
  have "cluster_state h d N fuel w" "sound_redirections h" "whole_topologies h"
    using st env True by (simp_all add: vmod_state_def vmod_env_def)
  then obtain F r argv' retries' many w' where
    "\<forall>f \<ge> F. cluster_execute f fuel h d timeout max_retries argv 0 master w = Some (r, argv', retries', many, w')"
    and "redirection_of r = None" "cluster_state h d N fuel w'" "cmd_part (task w') = cmd_part (task w)"
    using cluster_execute_ok [OF _ argv room] by blast
  then show ?thesis
    using True by (intro exI [of _ F] exI [of _ r] exI [of _ argv'] exI [of _ w'])
      (simp add: execute_command_def vmod_state_def cluster_state_def)
next
  case False
  then have p: "exec_state h d N fuel w" using st by (simp add: vmod_state_def)
  have "attempts_ok None 0 max_retries (registered w d)" using room(3) by (simp add: attempts_ok_def)
  then obtain r argv' retries' w' where
    "redis_execute fuel h d timeout max_retries argv 0 None False master 0 w = Some (r, argv', retries', w')"
    and "exec_state h d N fuel w'" "exec_grow d w w'"
    using execute_ok [OF p argv room(1,2)] by blast
  then show ?thesis
    using False by (intro exI [of _ 0] exI [of _ r] exI [of _ argv'] exI [of _ w'])
      (simp add: execute_command_def vmod_state_def exec_grow_def)
qed

text \<open>The limit of retries and the timeout of the call.\<close>

definition call_retries :: "vmod_redis_db \<Rightarrow> int option \<Rightarrow> uint" where
  "call_retries db retries = (case retries of None \<Rightarrow> max_command_retries db | Some n \<Rightarrow> word_of_int n)"

definition call_timeout :: "vmod_redis_db \<Rightarrow> int option \<Rightarrow> timeval" where
  "call_timeout db timeout = (case timeout of None \<Rightarrow> command_timeout db | Some ms \<Rightarrow> timeval_ms ms)"

definition call_task :: "db_ptr \<Rightarrow> timeval \<Rightarrow> uint \<Rightarrow> argv \<Rightarrow> task_state \<Rightarrow> task_state" where
  "call_task d timeout retries argv t =
     t\<lparr>cmd_db := Some d, cmd_timeout := timeout, cmd_max_retries := retries, cmd_argv := argv, cmd_reply := None\<rparr>"

lemma easy_execute_built:
  assumes "call_ok name args" and "\<forall>e. fst (h_ws_alloc h 1 e)"
  shows "\<exists>e. \<forall>f. vmod_db_easy_execute f fuel h d (Some name) args timeout retries master w =
    vmod_db_execute f fuel h d master
      (w\<lparr>net := e, task := call_task d (call_timeout (dbs w d) timeout) (call_retries (dbs w d) retries)
          (call_argv name args) (task w)\<rparr>)"
proof -
  obtain c cs where name: "name = c # cs" using assms(1) by (cases name) (auto simp: call_ok_def)
  define w1 where "w1 = vmod_db_command d (Some name) w"
  have t1: "w1 = w\<lparr>task := call_task d (command_timeout (dbs w d)) (max_command_retries (dbs w d)) [Some name] (task w)\<rparr>"
    by (simp add: w1_def vmod_db_command_def name get_task_state_def flush_task_state_def call_task_def Let_def)
  have "queued w1 (handle_args h d args w1) (call_argv name args)"
    using handle_args_queued [OF assms(2), of d w1 args] assms(1)
    by (simp add: t1 call_task_def validate_command_state_def call_ok_def call_argv_def)
  then obtain e where q: "handle_args h d args w1 = w1\<lparr>net := e, task := (task w1)\<lparr>cmd_argv := call_argv name args\<rparr>\<rparr>"
    by (auto simp: queued_def)
  have "vmod_db_easy_execute f fuel h d (Some name) args timeout retries master w =
      (let w = w1\<lparr>net := e, task := (task w1)\<lparr>cmd_argv := call_argv name args\<rparr>\<rparr>;
           w = (case timeout of Some ms \<Rightarrow> vmod_db_timeout d ms w | None \<Rightarrow> w);
           w = (case retries of Some n \<Rightarrow> vmod_db_retries d n w | None \<Rightarrow> w)
       in vmod_db_execute f fuel h d master w)" for f
    unfolding q [symmetric] by (simp add: vmod_db_easy_execute_def name w1_def)
  then have "vmod_db_easy_execute f fuel h d (Some name) args timeout retries master w =
    vmod_db_execute f fuel h d master
      (w\<lparr>net := e, task := call_task d (call_timeout (dbs w d) timeout) (call_retries (dbs w d) retries)
          (call_argv name args) (task w)\<rparr>)" for f
    by (cases "task w"; cases timeout; cases retries)
      (simp_all add: t1 call_task_def call_timeout_def call_retries_def vmod_db_timeout_def vmod_db_retries_def
        get_task_state_def validate_command_state_def call_argv_def)
  then show ?thesis by blast
qed

text \<open>
  C33. \<open>.easy_execute()\<close>, and so the sequence of \<open>.command()\<close>, \<open>.push()\<close>, \<open>.timeout()\<close>, \<open>.retries()\<close> and
  \<open>.execute()\<close>, returns on a database that is ready for commands (\<open>vmod_state\<close>: with shared connections, the
  other threads keep the pools in order, free a connection in the end, unregister no server and leave the
  configuration and this task alone), with room in the workspace, arguments that can be sent (\<open>call_ok\<close>) and a
  limit of retries below \<open>UINT_MAX\<close>; on a cluster, if the redirections of its servers name a host, and their topologies name slots or no server
  at all (\<open>vmod_env\<close>). It executes exactly the command with the arguments that are given, in their order
  (\<open>NULL\<close> as the empty string), with the limits of the call or those of the database; the reply it leaves
  for the task is that of the execution, never a redirection in a cluster; an error reply is counted once;
  and the state it leaves is one in which the next call can be made.
\<close>

theorem easy_execute_returns:
  assumes "vmod_state h d N fuel w" and "call_ok name args" and "vmod_env h d w"
    and "ws_room h N" and "ws_room h (Suc (unat (call_retries (dbs w d) retries)))"
    and "call_retries (dbs w d) retries + 1 \<noteq> 0"
  shows "\<exists>F e m w1 w'.
    (\<forall>f \<ge> F. vmod_db_easy_execute f fuel h d (Some name) args timeout retries master w = Some w' \<and>
      execute_command f fuel h d (call_timeout (dbs w d) timeout) (call_retries (dbs w d) retries) (call_argv name args) m
        (w\<lparr>net := e, task := call_task d (call_timeout (dbs w d) timeout) (call_retries (dbs w d) retries)
            (call_argv name args) (task w)\<rparr>) = Some (cmd_reply (task w'), cmd_argv (task w'), w1)) \<and>
    forced_master (dbs w d) (call_argv name args) master = Some m \<and>
    cmd_db (task w') = Some d \<and> (cluster_enabled (dbs w d) \<longrightarrow> redirection_of (cmd_reply (task w')) = None) \<and>
    st_commands_error (db_stats (dbs w' d)) =
      st_commands_error (db_stats (dbs w1 d)) + (if is_error (cmd_reply (task w')) then 1 else 0) \<and>
    vmod_state h d N fuel w'"
proof -
  let ?t = "call_timeout (dbs w d) timeout" and ?r = "call_retries (dbs w d) retries" and ?a = "call_argv name args"
  have one: "\<forall>e. fst (h_ws_alloc h 1 e)" using assms(4) by (simp add: ws_room_def PLAN_SIZE_def)
  obtain e where easy: "\<forall>f. vmod_db_easy_execute f fuel h d (Some name) args timeout retries master w =
      vmod_db_execute f fuel h d master (w\<lparr>net := e, task := call_task d ?t ?r ?a (task w)\<rparr>)"
    using easy_execute_built [OF assms(2) one] by blast
  define v where "v = w\<lparr>net := e, task := call_task d ?t ?r ?a (task w)\<rparr>"
  have tv: "task v = call_task d ?t ?r ?a (task w)" "dbs v = dbs w" by (simp_all add: v_def)
  have st: "vmod_state h d N fuel v" unfolding v_def
    using vmod_state_task [of "call_task d ?t ?r ?a (task w)" w h d N fuel e] assms(1) by (simp add: call_task_def)
  have "\<exists>m. forced_master (dbs w d) ?a master = Some m"
    by (auto simp: forced_master_def call_argv_def cong: if_cong)
  then obtain m where m: "forced_master (dbs w d) ?a master = Some m" by blast
  have av: "argv_ok ?a" using assms(2) by (simp add: call_ok_def)
  have env: "vmod_env h d v" using assms(3) by (simp add: vmod_env_def tv)
  obtain F r argv' w1 where run: "\<And>f. F \<le> f \<Longrightarrow> execute_command f fuel h d ?t ?r ?a m v = Some (r, argv', w1)"
    and st1: "vmod_state h d N fuel w1" and cmd: "cmd_part (task w1) = cmd_part (task v)"
    and red: "cluster_enabled (dbs w d) \<longrightarrow> redirection_of r = None"
    using execute_command_ok [OF st av assms(4,5,6) env, of ?t m] by (auto simp: tv)
  define w2 where "w2 = w1\<lparr>task := (task w1)\<lparr>cmd_argv := argv', cmd_reply := r\<rparr>\<rparr>"
  have st2: "vmod_state h d N fuel w2"
    using vmod_state_task [of "(task w1)\<lparr>cmd_argv := argv', cmd_reply := r\<rparr>" w1 h d N fuel "net w1"] st1 by (simp add: w2_def)
  define w' where "w' = (if is_error r
    then upd_stats d (\<lambda>st. st\<lparr>st_commands_error := st_commands_error st + 1\<rparr>) w2 else w2)"
  have "vmod_db_execute f fuel h d master v = Some w'" if "F \<le> f" for f
    using run [OF that] m vmod_state_held [OF st2]
    by (simp add: vmod_db_execute_def get_task_state_def tv call_task_def validate_command_state_def call_argv_def
        w'_def w2_def with_db_eq [OF lock_free_upd(3)])
  moreover have "vmod_state h d N fuel w'" using st2 by (simp add: w'_def vmod_state_stats)
  moreover have "cmd_reply (task w') = r" "cmd_argv (task w') = argv'" "cmd_db (task w') = cmd_db (task w1)"
    by (simp_all add: w'_def w2_def upd_stats_def upd_db_def)
  moreover have "cmd_db (task w1) = Some d" using cmd by (simp add: cmd_part_def tv call_task_def)
  moreover have "st_commands_error (db_stats (dbs w' d)) = st_commands_error (db_stats (dbs w1 d)) + (if is_error r then 1 else 0)"
    by (simp add: w'_def w2_def upd_stats_def upd_db_def)
  ultimately show ?thesis
    using run m red easy by (intro exI [of _ F] exI [of _ e] exI [of _ m] exI [of _ w1] exI [of _ w']) (simp add: v_def)
qed

text \<open>On a cluster with shared connections whose servers answer everything with a redirection.\<close>

theorem easy_execute_returns_witness:
  "\<exists>F w'.
    (\<forall>f \<ge> F. vmod_db_easy_execute f 2 (lab_shared ''MOVED 7 b:2'') 0 (Some ''GET'') [Some (Some ''k''), None, Some None]
      (Some 250) None True (lab_one True True) = Some w') \<and>
    cmd_db (task w') = Some 0 \<and> redirection_of (cmd_reply (task w')) = None \<and>
    vmod_state (lab_shared ''MOVED 7 b:2'') 0 0 2 w'"
proof -
  let ?h = "lab_shared ''MOVED 7 b:2''" and ?w = "lab_one True True"
  have ce: "cluster_enabled (dbs ?w 0)" "max_command_retries (dbs ?w 0) = 2" by (simp_all add: lab_defs)
  then have "vmod_state ?h 0 0 2 ?w" "vmod_env ?h 0 ?w" "call_retries (dbs ?w 0) None = 2"
    using cluster_state_shared lab_shared_env(1,2) by (simp_all add: vmod_state_def vmod_env_def call_retries_def)
  moreover have "call_ok ''GET'' [Some (Some ''k''), None, Some None]"
    by (auto simp: call_ok_def call_argv_def argv_ok_def MAX_REDIS_COMMAND_ARGS_def map_filter_simps)
  moreover have "ws_room ?h 0" "ws_room ?h (Suc (unat (2 :: uint)))" "(2 :: uint) + 1 \<noteq> 0"
    by (simp_all add: lab_shared_env(3))
  ultimately show ?thesis
    using easy_execute_returns [of ?h 0 0 2 ?w "''GET''" "[Some (Some ''k''), None, Some None]" None] ce(1) by metis
qed

end
