(* ===== verification/Vmod_Database.thy ===== *)
theory Vmod_Database
  imports Vmod_Calls
begin

text \<open>
  The creation of a database (\<open>src/vmod_redis.c\<close>: \<open>vmod_db__init\<close>, \<open>.add_server()\<close>, \<open>type2role\<close>,
  \<open>parse_protocol\<close>; \<open>src/core.c\<close>: \<open>new_vmod_redis_db\<close>). The address of the new object is an argument, and
  so is \<open>redisCreateSSLContext\<close>, a function of the five names of its files that returns a context or
  \<open>NULL\<close>. The numbers of VCL are signed 64-bit integers, converted to \<open>unsigned\<close>.
\<close>

section \<open>The code\<close>

datatype server_type = Type_Master | Type_Slave | Type_Auto | Type_Cluster

fun type2role :: "server_type \<Rightarrow> role" where
  "type2role Type_Master = MASTER"
| "type2role Type_Slave = SLAVE"
| "type2role Type_Auto = TBD"
| "type2role Type_Cluster = TBD"

datatype protocol_name = Name_Default | Name_RESP2 | Name_RESP3

fun parse_protocol :: "protocol_name \<Rightarrow> protocol" where
  "parse_protocol Name_Default = PROTO_DEFAULT"
| "parse_protocol Name_RESP2 = PROTO_RESP2"
| "parse_protocol Name_RESP3 = PROTO_RESP3"

text \<open>The arguments of the constructor; \<open>a_tls_names\<close> are \<open>tls_cafile\<close> to \<open>tls_sni\<close>.\<close>

record db_args =
  a_location :: "string option"
  a_type :: server_type
  a_connection_timeout :: int
  a_connection_ttl :: int
  a_command_timeout :: int
  a_max_command_retries :: int
  a_shared_connections :: bool
  a_max_connections :: int
  a_protocol :: protocol_name
  a_tls :: bool
  a_tls_names :: "string option list"
  a_user :: "string option"
  a_password :: "string option"
  a_sickness_ttl :: int
  a_ignore_slaves :: bool
  a_debug :: bool
  a_max_cluster_hops :: int

definition args_ok :: "db_args \<Rightarrow> bool" where
  "args_ok a \<longleftrightarrow>
     a_connection_timeout a \<ge> 0 \<and> a_connection_ttl a \<ge> 0 \<and> a_command_timeout a \<ge> 0 \<and>
     a_max_command_retries a \<ge> 0 \<and> a_max_connections a \<ge> 0 \<and> None \<notin> set (a_tls_names a) \<and>
     a_user a \<noteq> None \<and> a_password a \<noteq> None \<and> a_sickness_ttl a \<ge> 0 \<and> a_max_cluster_hops a \<ge> 0"

definition given_string :: "string option \<Rightarrow> string option" where
  "given_string s = (if s = Some [] then None else s)"

definition new_vmod_redis_db :: "string \<Rightarrow> db_args \<Rightarrow> nat option \<Rightarrow> vmod_redis_db" where
  "new_vmod_redis_db name a ssl_ctx =
     \<lparr>db_name = name, connection_timeout = timeval_ms (a_connection_timeout a),
      connection_ttl = word_of_int (a_connection_ttl a), command_timeout = timeval_ms (a_command_timeout a),
      max_command_retries = word_of_int (a_max_command_retries a),
      shared_connections = a_shared_connections a, max_connections = word_of_int (a_max_connections a),
      db_protocol = parse_protocol (a_protocol a), tls_ssl_ctx = ssl_ctx,
      db_user = given_string (a_user a), db_password = given_string (a_password a),
      sickness_ttl = uint (word_of_int (a_sickness_ttl a) :: uint), ignore_slaves = a_ignore_slaves a,
      db_debug = a_debug a, servers = (\<lambda>weight role. []), cluster_enabled = (a_type a = Type_Cluster),
      max_hops = word_of_int (a_max_cluster_hops a), db_stats =
        \<lparr>st_servers_total = 0, st_servers_failed = 0, st_connections_total = 0, st_connections_failed = 0,
         st_dropped_error = 0, st_dropped_hung_up = 0, st_dropped_overflow = 0, st_dropped_ttl = 0,
         st_dropped_version = 0, st_dropped_sick = 0, st_workers_blocked = 0, st_commands_total = 0,
         st_commands_failed = 0, st_commands_retried = 0, st_commands_error = 0, st_commands_noscript = 0,
         st_discoveries_total = 0, st_discoveries_failed = 0, st_replies_moved = 0, st_replies_ask = 0\<rparr>\<rparr>"

text \<open>A server is added under both mutexes; \<open>AN(server)\<close> panics with them held.\<close>

definition add_locked ::
  "'e hiredis \<Rightarrow> db_ptr \<Rightarrow> string \<Rightarrow> server_type \<Rightarrow> 'e world \<Rightarrow> ((server_ptr \<times> stats) \<times> 'e world) option" where
  "add_locked h d location type w = do {
     w \<leftarrow> Lck_Lock Config_Mutex w;
     w \<leftarrow> Lck_Lock (Db_Mutex d) w;
     (server, w) \<leftarrow> unsafe_add_redis_server h d location (type2role type) w;
     server \<leftarrow> server;
     let seen = db_stats (dbs w d);
     w \<leftarrow> Lck_Unlock (Db_Mutex d) w;
     w \<leftarrow> Lck_Unlock Config_Mutex w;
     Some ((server, seen), w)
   }"

definition vmod_db_init ::
  "nat \<Rightarrow> 'e hiredis \<Rightarrow> (string option list \<Rightarrow> nat option) \<Rightarrow> db_ptr \<Rightarrow> string \<Rightarrow> db_args \<Rightarrow> 'e world \<Rightarrow>
   (db_ptr option \<times> 'e world) option" where
  "vmod_db_init fuel h create_ssl d vcl_name a w =
     (if \<not> args_ok a then Some (None, VRT_fail w)
      else
        (let ssl_ctx = (if a_tls a then create_ssl (map given_string (a_tls_names a)) else None)
         in if a_tls a \<and> ssl_ctx = None then Some (None, w)
            else do {
              let w = w\<lparr>dbs := (dbs w)(d := new_vmod_redis_db vcl_name a ssl_ctx)\<rparr>;
              w \<leftarrow> (case a_location a of
                     Some (c # cs) \<Rightarrow> do {
                       ((server, seen), w) \<leftarrow> add_locked h d (c # cs) (a_type a) w;
                       if cluster_enabled (dbs w d) then discover_cluster_slots fuel h d server w else Some w
                     }
                   | _ \<Rightarrow> Some w);
              w \<leftarrow> Lck_Lock Config_Mutex w;
              let w = w\<lparr>config := (config w)\<lparr>vcl_dbs := tailq_insert_tail (vcl_dbs (config w)) d\<rparr>\<rparr>;
              w \<leftarrow> Lck_Unlock Config_Mutex w;
              Some (Some d, w)
            }))"

definition vmod_db_add_server ::
  "nat \<Rightarrow> 'e hiredis \<Rightarrow> db_ptr \<Rightarrow> string option \<Rightarrow> server_type \<Rightarrow> 'e world \<Rightarrow> 'e world option" where
  "vmod_db_add_server fuel h d location type w =
     (case location of
        Some (c # cs) \<Rightarrow>
          (if \<not> cluster_enabled (dbs w d) \<or> type = Type_Cluster
           then do {
             ((server, seen), w) \<leftarrow> add_locked h d (c # cs) type w;
             if cluster_enabled (dbs w d) \<and> st_discoveries_total seen = 0
             then discover_cluster_slots fuel h d server w else Some w
           }
           else Some w)
      | _ \<Rightarrow> Some w)"

section \<open>A database that is ready\<close>

text \<open>What holds of a database between the calls on it, whatever the task has.\<close>

definition db_ready :: "'e hiredis \<Rightarrow> db_ptr \<Rightarrow> 'e world \<Rightarrow> bool" where
  "db_ready h d w \<longleftrightarrow>
     connects h \<and> reg_ok d w \<and> rules_ok w \<and> held w = [] \<and> servers_exist w \<and> pools_in_order d w"

text \<open>What the creation keeps.\<close>

definition ready_frame :: "db_ptr \<Rightarrow> 'e world \<Rightarrow> 'e world \<Rightarrow> bool" where
  "ready_frame d w w' \<longleftrightarrow>
     same_conf w w' \<and> config w' = config w \<and> task w' = task w \<and> registered w d \<subseteq> registered w' d \<and>
     (\<forall>s \<in> registered w d. sv_raw (srvs w' s) = sv_raw (srvs w s)) \<and>
     (\<forall>x. x \<noteq> d \<longrightarrow> registered w' x = registered w x)"

lemma ready_frame_refl [simp]: "ready_frame d w w"
  by (simp add: ready_frame_def)

lemma ready_frame_trans: "ready_frame d w w' \<Longrightarrow> ready_frame d w' w'' \<Longrightarrow> ready_frame d w w''"
  unfolding ready_frame_def using same_conf_trans by (smt (verit) subset_iff)

lemma ready_locked:
  assumes "db_ready h d w"
  shows "dir_ok h d (w\<lparr>held := [Db_Mutex d, Config_Mutex]\<rparr>)"
  using assms by (simp add: db_ready_def dir_ok_def locks_held_def registry_held)

lemma ready_locks:
  assumes "db_ready h d w"
  shows "Lck_Lock Config_Mutex w = Some (w\<lparr>held := [Config_Mutex]\<rparr>)"
    "Lck_Lock (Db_Mutex d) (w\<lparr>held := [Config_Mutex]\<rparr>) = Some (w\<lparr>held := [Db_Mutex d, Config_Mutex]\<rparr>)"
  using assms by (simp_all add: db_ready_def Lck_Lock_def)

lemma ready_unlocked:
  assumes ready: "db_ready h d w"
    and v: "reg_ok d v" "config v = config w" "same_conf w v"
      "add_frame d (w\<lparr>held := [Db_Mutex d, Config_Mutex]\<rparr>) v" "registered w d \<subseteq> registered v d"
      "\<forall>x \<in> registered w d. sv_raw (srvs v x) = sv_raw (srvs w x)"
  shows "db_ready h d (v\<lparr>held := []\<rparr>)" and "ready_frame d w (v\<lparr>held := []\<rparr>)"
proof -
  have fr: "task v = task w" "\<And>x. x \<noteq> d \<Longrightarrow> registered v x = registered w x"
    using v(4) by (simp_all add: add_frame_def registered_def)
  have reg: "reg_ok d (v\<lparr>held := []\<rparr>)" using v(1) by (simp add: registry_held)
  have frame: "add_frame d w (v\<lparr>held := []\<rparr>)" using v(4) by (simp add: add_frame_def registered_def)
  have "servers_exist (v\<lparr>held := []\<rparr>)"
    using servers_exist_added [OF frame reg] ready by (simp add: db_ready_def)
  moreover have "pools_in_order d (v\<lparr>held := []\<rparr>)"
  proof (rule pools_frame [OF frame])
    show "max_connections (dbs (v\<lparr>held := []\<rparr>) d) = max_connections (dbs w d)"
      using same_conf_fields(4) [OF v(3), of d] by simp
    show "pools_in_order d w" using ready by (simp add: db_ready_def)
    show "\<forall>s \<in> registered (v\<lparr>held := []\<rparr>) d. s < next_srv (v\<lparr>held := []\<rparr>)"
      using reg by (auto simp: registered_def reg_ok_def filed_ok_def)
  qed
  ultimately show "db_ready h d (v\<lparr>held := []\<rparr>)"
    using ready v(2) reg by (simp add: db_ready_def rules_ok_def)
  have "same_conf w (v\<lparr>held := []\<rparr>)" using v(3) by (simp add: same_conf_def)
  then show "ready_frame d w (v\<lparr>held := []\<rparr>)"
    using v(2,5,6) fr by (simp add: ready_frame_def registry_held)
qed

lemma add_locked_ok:
  assumes ready: "db_ready h d w" and valid: "valid_location d w location"
  shows "\<exists>s seen w'. add_locked h d location type w = Some ((s, seen), w') \<and> db_ready h d w' \<and>
    ready_frame d w w' \<and> s \<in> registered w' d \<and> sv_raw (srvs w' s) = location"
proof -
  let ?v = "w\<lparr>held := [Db_Mutex d, Config_Mutex]\<rparr>"
  have ok: "reg_ok d ?v" "connects h" "locks_held d ?v" "rules_ok ?v"
    using ready_locked [OF ready] by (simp_all add: dir_ok_def)
  have "\<exists>s v. unsafe_add_redis_server h d location (type2role type) ?v = Some (Some s, v) \<and> reg_ok d v \<and>
    registered v d = insert s (registered ?v d) \<and> sv_raw (srvs v s) = location \<and>
    (\<forall>x \<in> registered ?v d. sv_raw (srvs v x) = sv_raw (srvs ?v x)) \<and> held v = held ?v \<and> config v = config ?v"
  proof (cases "\<exists>s \<in> registered ?v d. sv_raw (srvs ?v s) = location")
    case True
    then obtain s where s: "s \<in> registered ?v d" "sv_raw (srvs ?v s) = location" by blast
    show ?thesis
      by (rule add_existing [OF ok(1-3) s, of "type2role type"]) (use s in \<open>auto simp: insert_absorb\<close>)
  next
    case False
    have new: "\<forall>s \<in> registered ?v d. sv_raw (srvs ?v s) \<noteq> location" using False by blast
    have valid': "is_host (parse_location location)" if "cluster_enabled (dbs ?v d)"
      using that valid by (simp add: valid_location_def)
    have fresh: "next_srv ?v \<notin> registered ?v d" using reg_ok_alloc(3) [OF ok(1)] .
    show ?thesis
    proof (rule add_new [OF ok new valid', where role = "type2role type"], goal_cases)
      case (2 r v)
      have "sv_raw (srvs v x) = sv_raw (srvs ?v x)" if "x \<in> registered ?v d" for x
        using that fresh srv_core_fields(2) [OF 2(6), of x] by metis
      moreover have "sv_raw (srvs v (next_srv ?v)) = location" using srv_core_fields(2) [OF 2(4)] by simp
      ultimately show ?case using 2(1-3,8,9) by (intro exI [of _ "next_srv ?v"] exI [of _ v]) simp
    qed
  qed
  then obtain s v where a: "unsafe_add_redis_server h d location (type2role type) ?v = Some (Some s, v)" "reg_ok d v"
    "registered v d = insert s (registered ?v d)" "sv_raw (srvs v s) = location"
    "\<forall>x \<in> registered ?v d. sv_raw (srvs v x) = sv_raw (srvs ?v x)" "held v = held ?v" "config v = config ?v"
    by blast
  have conf: "same_conf w v" using add_conf [OF a(1)] by (simp add: same_conf_def)
  have run: "add_locked h d location type w = Some ((s, db_stats (dbs v d)), v\<lparr>held := []\<rparr>)"
    by (simp add: add_locked_def ready_locks [OF ready] a(1,6) Lck_Unlock_def)
  have sub: "registered w d \<subseteq> registered v d" using a(3) by (auto simp: registry_held)
  have raw: "\<forall>x \<in> registered w d. sv_raw (srvs v x) = sv_raw (srvs w x)" using a(5) by (simp add: registry_held)
  have cfg: "config v = config w" using a(7) by simp
  note after = ready_unlocked [OF ready a(2) cfg conf unsafe_add_frame [OF a(1)] sub raw]
  show ?thesis using after run a(3,4) by (intro exI [of _ s] exI) (auto simp: registry_held)
qed

lemma discover_ready:
  assumes ready: "db_ready h d w" and c: "cluster_enabled (dbs w d)" "whole_topologies h" and s: "s \<in> registered w d"
  shows "\<exists>F w'. (\<forall>f \<ge> F. discover_cluster_slots f h d s w = Some w') \<and> db_ready h d w' \<and> ready_frame d w w'"
proof -
  let ?v = "w\<lparr>held := [Db_Mutex d, Config_Mutex]\<rparr>"
  have ok: "cluster_ok h d ?v" and sv: "s \<in> registered ?v d"
    using ready_locked [OF ready] c(1) s by (simp_all add: cluster_ok_def registry_held)
  show ?thesis
  proof (rule discover_some [OF ok sv c(2)], goal_cases)
    case (1 F v)
    have held: "held v = [Db_Mutex d, Config_Mutex]" and cfg: "config v = config w" and conf: "same_conf w v"
      using 1(3) by (simp_all add: same_frame_def same_conf_def)
    have reg: "reg_ok d v" using 1(2) by (simp add: cluster_ok_def dir_ok_def)
    have sub: "registered w d \<subseteq> registered v d" "\<forall>x \<in> registered w d. sv_raw (srvs v x) = sv_raw (srvs w x)"
      using 1(4,5) by (simp_all add: registry_held)
    have "discover_cluster_slots f h d s w = Some (v\<lparr>held := []\<rparr>)" if "F \<le> f" for f
      using 1(1) [OF that] by (simp add: discover_cluster_slots_def ready_locks [OF ready] held Lck_Unlock_def)
    then show ?case
      using ready_unlocked [OF ready reg cfg conf discover_frame [OF 1(1) [OF order_refl]] sub] by blast
  qed
qed

section \<open>A database is created\<close>

text \<open>A location that the code uses, and one that does not bring it down.\<close>

definition used :: "bool \<Rightarrow> string option \<times> server_type \<Rightarrow> bool" where
  "used clustered c \<longleftrightarrow> fst c \<noteq> None \<and> fst c \<noteq> Some [] \<and> (\<not> clustered \<or> snd c = Type_Cluster)"

definition fits :: "bool \<Rightarrow> string option \<times> server_type \<Rightarrow> bool" where
  "fits clustered c \<longleftrightarrow> (clustered \<and> used clustered c \<longrightarrow> is_host (parse_location (the (fst c))))"

definition has_server :: "db_ptr \<Rightarrow> 'e world \<Rightarrow> string \<Rightarrow> bool" where
  "has_server d w location \<longleftrightarrow> (\<exists>s \<in> registered w d. sv_raw (srvs w s) = location)"

lemma has_server_frame: "ready_frame d w w' \<Longrightarrow> has_server d w l \<Longrightarrow> has_server d w' l"
  unfolding ready_frame_def has_server_def by (metis subset_iff)

lemma ready_frame_cluster: "ready_frame d w w' \<Longrightarrow> cluster_enabled (dbs w' x) = cluster_enabled (dbs w x)"
  by (simp add: ready_frame_def same_conf_fields)

text \<open>A server is added, and the topology discovered when the code asks for it.\<close>

lemma add_and_discover:
  assumes ready: "db_ready h d w" and loc: "fits (cluster_enabled (dbs w d)) (Some location, type)"
    and u: "used (cluster_enabled (dbs w d)) (Some location, type)"
    and h: "cluster_enabled (dbs w d) \<Longrightarrow> whole_topologies h"
  shows "\<exists>F w'. (\<forall>f \<ge> F. add_locked h d location type w \<bind> (\<lambda>((server, seen), w).
      if cluster_enabled (dbs w d) \<and> P seen then discover_cluster_slots f h d server w else Some w) = Some w') \<and>
    db_ready h d w' \<and> ready_frame d w w' \<and> has_server d w' location"
proof -
  have "valid_location d w location" using loc u by (simp add: fits_def used_def valid_location_def)
  then obtain s seen w1 where a: "add_locked h d location type w = Some ((s, seen), w1)" "db_ready h d w1"
    "ready_frame d w w1" "s \<in> registered w1 d" "sv_raw (srvs w1 s) = location"
    using add_locked_ok [OF ready] by blast
  have server: "has_server d w1 location" using a(4,5) by (auto simp: has_server_def)
  show ?thesis
  proof (cases "cluster_enabled (dbs w1 d) \<and> P seen")
    case False
    then have "add_locked h d location type w \<bind> (\<lambda>((server, seen), w).
      if cluster_enabled (dbs w d) \<and> P seen then discover_cluster_slots f h d server w else Some w) = Some w1" for f
      by (auto simp: a(1))
    then show ?thesis using a(2,3) server by blast
  next
    case True
    then have "whole_topologies h" using h a(3) by (simp add: ready_frame_cluster)
    then obtain F w2 where d: "\<forall>f \<ge> F. discover_cluster_slots f h d s w1 = Some w2" "db_ready h d w2" "ready_frame d w1 w2"
      using discover_ready [OF a(2) conjunct1 [OF True] _ a(4)] by blast
    have "\<forall>f \<ge> F. add_locked h d location type w \<bind> (\<lambda>((server, seen), w).
      if cluster_enabled (dbs w d) \<and> P seen then discover_cluster_slots f h d server w else Some w) = Some w2"
      using d(1) True by (simp add: a(1))
    then show ?thesis using d(2) ready_frame_trans [OF a(3) d(3)] has_server_frame [OF d(3) server] by blast
  qed
qed

lemma add_server_ready:
  assumes ready: "db_ready h d w" and c: "fits (cluster_enabled (dbs w d)) (location, type)"
    and h: "cluster_enabled (dbs w d) \<Longrightarrow> whole_topologies h"
  shows "\<exists>F w'. (\<forall>f \<ge> F. vmod_db_add_server f h d location type w = Some w') \<and> db_ready h d w' \<and> ready_frame d w w' \<and>
    (used (cluster_enabled (dbs w d)) (location, type) \<longrightarrow> has_server d w' (the location))"
proof (cases "used (cluster_enabled (dbs w d)) (location, type)")
  case False
  then have "vmod_db_add_server f h d location type w = Some w" for f
    by (auto simp: vmod_db_add_server_def used_def split: option.splits list.splits)
  then show ?thesis using ready False by (intro exI [of _ 0] exI [of _ w]) simp
next
  case True
  then obtain x xs where l: "location = Some (x # xs)" by (cases location; cases "the location") (auto simp: used_def)
  obtain F w' where "\<forall>f \<ge> F. add_locked h d (x # xs) type w \<bind> (\<lambda>((server, seen), w).
      if cluster_enabled (dbs w d) \<and> st_discoveries_total seen = 0 then discover_cluster_slots f h d server w else Some w) = Some w'"
    "db_ready h d w'" "ready_frame d w w'" "has_server d w' (x # xs)"
    using add_and_discover [OF ready, of "x # xs" type "\<lambda>seen. st_discoveries_total seen = 0"] c True h by (auto simp: l)
  then show ?thesis
    using True by (intro exI [of _ F] exI [of _ w']) (auto simp: vmod_db_add_server_def used_def l)
qed

text \<open>The subroutine \<open>vcl_init\<close>: the object is created, and servers are added.\<close>

fun add_servers :: "nat \<Rightarrow> 'e hiredis \<Rightarrow> db_ptr \<Rightarrow> (string option \<times> server_type) list \<Rightarrow> 'e world \<Rightarrow> 'e world option" where
  "add_servers fuel h d [] w = Some w"
| "add_servers fuel h d ((location, type) # cs) w =
     vmod_db_add_server fuel h d location type w \<bind> add_servers fuel h d cs"

lemma add_servers_ready:
  assumes "db_ready h d w" and "\<forall>c \<in> set cs. fits (cluster_enabled (dbs w d)) c"
    and "cluster_enabled (dbs w d) \<Longrightarrow> whole_topologies h"
  shows "\<exists>F w'. (\<forall>f \<ge> F. add_servers f h d cs w = Some w') \<and> db_ready h d w' \<and> ready_frame d w w' \<and>
    (\<forall>c \<in> set cs. used (cluster_enabled (dbs w d)) c \<longrightarrow> has_server d w' (the (fst c)))"
  using assms
proof (induction cs arbitrary: w)
  case Nil
  then show ?case by (intro exI [of _ 0] exI [of _ w]) simp
next
  case (Cons c cs)
  obtain l t where c: "c = (l, t)" by fastforce
  obtain F w1 where f: "\<forall>f \<ge> F. vmod_db_add_server f h d l t w = Some w1" "db_ready h d w1" "ready_frame d w w1"
    "used (cluster_enabled (dbs w d)) c \<longrightarrow> has_server d w1 (the l)"
    using add_server_ready [OF Cons.prems(1), of l t] Cons.prems(2,3) by (auto simp: c)
  note ce = ready_frame_cluster [OF f(3)]
  obtain G w2 where g: "\<forall>f \<ge> G. add_servers f h d cs w1 = Some w2" "db_ready h d w2" "ready_frame d w1 w2"
    "\<forall>c \<in> set cs. used (cluster_enabled (dbs w d)) c \<longrightarrow> has_server d w2 (the (fst c))"
    using Cons.IH [OF f(2)] Cons.prems(2,3) by (auto simp: ce)
  have "\<forall>f \<ge> max F G. add_servers f h d (c # cs) w = Some w2" using f(1) g(1) by (simp add: c)
  moreover have "has_server d w2 (the (fst c))" if "used (cluster_enabled (dbs w d)) c"
    using that f(4) has_server_frame [OF g(3)] by (simp add: c)
  ultimately show ?case using g(2,4) ready_frame_trans [OF f(3) g(3)] by (intro exI [of _ "max F G"] exI [of _ w2]) auto
qed

definition ssl_context :: "(string option list \<Rightarrow> nat option) \<Rightarrow> db_args \<Rightarrow> nat option" where
  "ssl_context create_ssl a = (if a_tls a then create_ssl (map given_string (a_tls_names a)) else None)"

lemma new_db_ready:
  assumes "connects h" and "rules_ok w" and "held w = []" and "\<forall>x. \<forall>s \<in> registered w x. s < next_srv w"
  shows "db_ready h d (w\<lparr>dbs := (dbs w)(d := new_vmod_redis_db name a ssl)\<rparr>)"
  using assms by (simp add: db_ready_def reg_ok_def registered_def rules_ok_def new_vmod_redis_db_def servers_exist_def
      pools_in_order_def)

lemma init_ready:
  assumes base: "connects h" "rules_ok w" "held w = []" "\<forall>x. \<forall>s \<in> registered w x. s < next_srv w"
    and a: "args_ok a" "a_tls a \<longrightarrow> ssl_context create_ssl a \<noteq> None"
    and c: "fits (a_type a = Type_Cluster) (a_location a, a_type a)" "a_type a = Type_Cluster \<Longrightarrow> whole_topologies h"
  shows "\<exists>F v w'. (\<forall>f \<ge> F. vmod_db_init f h create_ssl d name a w = Some (Some d, w')) \<and>
    ready_frame d (w\<lparr>dbs := (dbs w)(d := new_vmod_redis_db name a (ssl_context create_ssl a))\<rparr>) v \<and>
    w' = v\<lparr>config := (config v)\<lparr>vcl_dbs := vcl_dbs (config w) @ [d]\<rparr>\<rparr> \<and> db_ready h d w' \<and>
    (used (a_type a = Type_Cluster) (a_location a, a_type a) \<longrightarrow> has_server d w' (the (a_location a)))"
proof -
  let ?v = "w\<lparr>dbs := (dbs w)(d := new_vmod_redis_db name a (ssl_context create_ssl a))\<rparr>"
  have ready: "db_ready h d ?v" using base by (rule new_db_ready)
  have ce: "cluster_enabled (new_vmod_redis_db name a ssl) = (a_type a = Type_Cluster)" for ssl by (simp add: new_vmod_redis_db_def)
  have finish: ?thesis
    if run: "\<forall>f \<ge> F. (case a_location a of
          Some (c # cs) \<Rightarrow> add_locked h d (c # cs) (a_type a) ?v \<bind> (\<lambda>((server, seen), w).
            if cluster_enabled (dbs w d) then discover_cluster_slots f h d server w else Some w)
        | _ \<Rightarrow> Some ?v) = Some v"
      and v: "db_ready h d v" "ready_frame d ?v v"
        "used (a_type a = Type_Cluster) (a_location a, a_type a) \<longrightarrow> has_server d v (the (a_location a))" for F v
  proof -
    let ?w = "v\<lparr>config := (config v)\<lparr>vcl_dbs := vcl_dbs (config w) @ [d]\<rparr>\<rparr>"
    have held: "held v = []" and cfg: "config v = config w" using v(1,2) by (simp_all add: db_ready_def ready_frame_def)
    have "vmod_db_init f h create_ssl d name a w = Some (Some d, ?w)" if "F \<le> f" for f
      using that run a
      by (auto simp: vmod_db_init_def Let_def ssl_context_def [symmetric] Lck_Lock_def Lck_Unlock_def held cfg tailq_insert_tail_def)
    moreover have "db_ready h d ?w" "used (a_type a = Type_Cluster) (a_location a, a_type a) \<longrightarrow> has_server d ?w (the (a_location a))"
      using v(1,3) by (simp_all add: db_ready_def reg_ok_def filed_ok_def rules_ok_def registered_def has_server_def
          servers_exist_def pools_in_order_def)
    ultimately show ?thesis using v(2) by blast
  qed
  show ?thesis
  proof (cases "used (a_type a = Type_Cluster) (a_location a, a_type a)")
    case True
    then obtain x xs where l: "a_location a = Some (x # xs)"
      by (cases "a_location a"; cases "the (a_location a)") (auto simp: used_def)
    have "\<exists>F v. (\<forall>f \<ge> F. add_locked h d (x # xs) (a_type a) ?v \<bind> (\<lambda>((server, seen), w).
        if cluster_enabled (dbs w d) \<and> True then discover_cluster_slots f h d server w else Some w) = Some v) \<and>
      db_ready h d v \<and> ready_frame d ?v v \<and> has_server d v (x # xs)"
      by (rule add_and_discover [OF ready]) (use c True in \<open>simp_all add: ce l\<close>)
    then show ?thesis using finish unfolding l by (simp add: l) blast
  next
    case False
    then have "a_location a = None \<or> a_location a = Some []" by (auto simp: used_def)
    then show ?thesis using False finish [of 0 ?v] ready by auto
  qed
qed

text \<open>With a fresh task, the state of the calls of \<open>.easy_execute()\<close>.\<close>

definition limits_ok :: "'e hiredis \<Rightarrow> db_ptr \<Rightarrow> nat \<Rightarrow> nat \<Rightarrow> bool \<Rightarrow> int \<Rightarrow> bool" where
  "limits_ok h d N fuel shared limit \<longleftrightarrow> 0 < limit \<and> limit < 2 ^ 32 \<and>
     (if shared then others_ok h d N fuel \<and> others_within (exec_grow d) h d N else limit \<le> int N \<and> N < 2 ^ 32)"

lemma ready_vmod_state:
  assumes "db_ready h d w" and "ts_contexts (task w) = []" and "ts_ncontexts (task w) = 0"
    and lim: "limits_ok h d N fuel (shared_connections (dbs w d)) (uint (max_connections (dbs w d)))"
  shows "vmod_state h d N fuel w"
proof -
  have ok: "task_ok d w" and pools: "pools_in_order d w" and base: "connects h" "held w = []"
    using assms(1-3) by (simp_all add: task_ok_def private_ok_def db_ready_def)
  have m: "max_connections (dbs w d) \<noteq> 0" using lim by (auto simp: limits_ok_def)
  have "exec_state h d N fuel w"
  proof (cases "shared_connections (dbs w d)")
    case True
    then have others: "others_ok h d N fuel" "others_within (exec_grow d) h d N" using lim by (simp_all add: limits_ok_def)
    have "task_ok d (w\<lparr>held := []\<rparr>)" using ok base(2) by (cases w) simp
    then have "shared_core d N w" using True m pools assms(2) by (simp add: shared_core_def)
    then show ?thesis using others base by (simp add: exec_state_def shared_state_def)
  next
    case False
    then have "uint (max_connections (dbs w d)) \<le> int N" "N < 2 ^ 32" using lim by (simp_all add: limits_ok_def)
    moreover from this(1) have "unat (max_connections (dbs w d)) \<le> N" by (simp only: unat_eq_nat_uint nat_le_iff)
    ultimately have "private_state h d N w" using False m ok base(1) assms(2) by (simp add: private_state_def)
    then show ?thesis by (simp add: exec_state_def)
  qed
  then show ?thesis using assms(1) by (simp add: vmod_state_def cluster_state_def db_ready_def)
qed

lemma ready_frame_fields:
  assumes "ready_frame d w w'"
  shows "shared_connections (dbs w' x) = shared_connections (dbs w x)" "max_connections (dbs w' x) = max_connections (dbs w x)"
    "task w' = task w" "config w' = config w" "x \<noteq> d \<Longrightarrow> registered w' x = registered w x"
  using assms same_conf_fields(4,5) [of w w' x] by (simp_all add: ready_frame_def)

text \<open>
  C35. A database is created and servers are added to it, as \<open>vcl_init\<close> does. With arguments that are
  accepted (and a TLS context that could be made, if one is asked for), in a configuration in order, all the
  calls return; for a cluster, under two conditions: no socket is the location of a server,
  and the topologies that the servers report name slots or no server at all (\<open>whole_topologies\<close>; a discovery
  may not end otherwise). The database is registered in the configuration, after those that are there; every
  location that is used has its server; the registry and the pools are in order, no mutex is left held, the
  task and the servers of the other databases are as they were. It is then ready for the commands of a task
  that has no connections yet, if its limit of connections is not zero and fits its type; with shared
  connections, which are the default, it is assumed of the other threads what \<open>.easy_execute()\<close> assumes of them.
\<close>

theorem database_created:
  assumes "connects h" and "rules_ok w" and "held w = []" and "\<forall>x. \<forall>s \<in> registered w x. s < next_srv w"
    and "args_ok a" and "a_tls a \<longrightarrow> ssl_context create_ssl a \<noteq> None"
    and "\<forall>c \<in> set ((a_location a, a_type a) # cs). fits (a_type a = Type_Cluster) c"
    and "a_type a = Type_Cluster \<longrightarrow> whole_topologies h"
  shows "\<exists>F w'. (\<forall>f \<ge> F. vmod_db_init f h create_ssl d name a w \<bind> (\<lambda>(r, w). add_servers f h d cs w \<bind> (\<lambda>w. Some (r, w))) =
      Some (Some d, w')) \<and>
    config w' = (config w)\<lparr>vcl_dbs := vcl_dbs (config w) @ [d]\<rparr> \<and> db_ready h d w' \<and> task w' = task w \<and>
    (\<forall>x. x \<noteq> d \<longrightarrow> registered w' x = registered w x) \<and>
    (\<forall>c \<in> set ((a_location a, a_type a) # cs). used (a_type a = Type_Cluster) c \<longrightarrow> has_server d w' (the (fst c))) \<and>
    (limits_ok h d N fuel (a_shared_connections a) (a_max_connections a) \<and>
      ts_contexts (task w) = [] \<and> ts_ncontexts (task w) = 0 \<longrightarrow> vmod_state h d N fuel w')"
proof -
  let ?v = "w\<lparr>dbs := (dbs w)(d := new_vmod_redis_db name a (ssl_context create_ssl a))\<rparr>"
  have ce: "cluster_enabled (new_vmod_redis_db name a ssl) = (a_type a = Type_Cluster)" for ssl
    by (simp add: new_vmod_redis_db_def)
  obtain F v w1 where i: "\<forall>f \<ge> F. vmod_db_init f h create_ssl d name a w = Some (Some d, w1)" "ready_frame d ?v v"
    "w1 = v\<lparr>config := (config v)\<lparr>vcl_dbs := vcl_dbs (config w) @ [d]\<rparr>\<rparr>" "db_ready h d w1"
    "used (a_type a = Type_Cluster) (a_location a, a_type a) \<longrightarrow> has_server d w1 (the (a_location a))"
    using init_ready [OF assms(1-6), of d name] assms(7,8) by auto
  note f1 = ready_frame_fields [OF i(2)]
  have ce1: "cluster_enabled (dbs w1 d) = (a_type a = Type_Cluster)"
    using ready_frame_cluster [OF i(2)] by (simp add: i(3) ce)
  obtain G w2 where g: "\<forall>f \<ge> G. add_servers f h d cs w1 = Some w2" "db_ready h d w2" "ready_frame d w1 w2"
    "\<forall>c \<in> set cs. used (a_type a = Type_Cluster) c \<longrightarrow> has_server d w2 (the (fst c))"
    using add_servers_ready [OF i(4), of cs] assms(7,8) by (auto simp: ce1)
  note f2 = ready_frame_fields [OF g(3)]
  have same: "config w2 = (config w)\<lparr>vcl_dbs := vcl_dbs (config w) @ [d]\<rparr>" "task w2 = task w"
    "\<And>x. x \<noteq> d \<Longrightarrow> registered w2 x = registered w x" "shared_connections (dbs w2 d) = a_shared_connections a"
    "max_connections (dbs w2 d) = word_of_int (a_max_connections a)"
    using f1 f2 by (simp_all add: i(3) registered_def new_vmod_redis_db_def)
  have "vmod_state h d N fuel w2"
    if lim: "limits_ok h d N fuel (a_shared_connections a) (a_max_connections a)"
      and t: "ts_contexts (task w) = []" "ts_ncontexts (task w) = 0"
  proof -
    have "uint (word_of_int (a_max_connections a) :: uint) = a_max_connections a"
      using lim by (simp add: limits_ok_def unsigned_of_int take_bit_int_eq_self)
    then show ?thesis
      using ready_vmod_state [OF g(2)] t lim by (simp add: same)
  qed
  moreover have "has_server d w2 (the (fst c))"
    if "c \<in> set ((a_location a, a_type a) # cs)" "used (a_type a = Type_Cluster) c" for c
    using that i(5) g(4) has_server_frame [OF g(3)] by auto
  moreover have "\<forall>f \<ge> max F G. vmod_db_init f h create_ssl d name a w \<bind>
      (\<lambda>(r, w). add_servers f h d cs w \<bind> (\<lambda>w. Some (r, w))) = Some (Some d, w2)"
    using i(1) g(1) by simp
  ultimately show ?thesis using g(2) same(1-3) by (intro exI [of _ "max F G"] exI [of _ w2]) simp
qed

definition lab_args :: db_args where
  "lab_args =
     \<lparr>a_location = Some ''a:1'', a_type = Type_Cluster, a_connection_timeout = 500, a_connection_ttl = 0,
      a_command_timeout = 0, a_max_command_retries = 1, a_shared_connections = False, a_max_connections = 2,
      a_protocol = Name_Default, a_tls = False, a_tls_names = replicate 5 (Some []), a_user = Some [], a_password = Some [],
      a_sickness_ttl = 60, a_ignore_slaves = False, a_debug = False, a_max_cluster_hops = 8\<rparr>"

theorem database_created_witness:
  "\<exists>F w'. (\<forall>f \<ge> F. vmod_db_init f (lab lab_cluster 64) (\<lambda>x. None) 1 ''db'' lab_args (lab_empty True False) \<bind>
      (\<lambda>(r, w). add_servers f (lab lab_cluster 64) 1 [(Some ''b:2'', Type_Cluster), (Some ''/tmp/s'', Type_Master)] w \<bind>
        (\<lambda>w. Some (r, w))) = Some (Some 1, w')) \<and>
    vcl_dbs (config w') = [0, 1] \<and> has_server 1 w' ''a:1'' \<and> has_server 1 w' ''b:2'' \<and>
    vmod_state (lab lab_cluster 64) 1 2 0 w'"
proof -
  have "is_host (parse_location ''a:1'')" "is_host (parse_location ''b:2'')" by code_simp+
  then have fit: "\<forall>c \<in> set ((a_location lab_args, a_type lab_args) # [(Some ''b:2'', Type_Cluster), (Some ''/tmp/s'', Type_Master)]).
      fits (a_type lab_args = Type_Cluster) c"
    by (simp add: lab_args_def fits_def used_def)
  have base: "connects (lab lab_cluster 64)" "rules_ok (lab_empty True False)" "held (lab_empty True False) = []"
    "\<forall>x. \<forall>s \<in> registered (lab_empty True False) x. s < next_srv (lab_empty True False)"
    and conf: "vcl_dbs (config (lab_empty True False)) = [0]" "ts_contexts (task (lab_empty True False)) = []"
    "ts_ncontexts (task (lab_empty True False)) = 0"
    by (simp_all add: connects_def rules_ok_def lab_defs registered_def NREDIS_SERVER_WEIGHTS_def)
  have args: "args_ok lab_args" "a_tls lab_args \<longrightarrow> ssl_context (\<lambda>x. None) lab_args \<noteq> None"
    and a: "a_type lab_args = Type_Cluster" "a_location lab_args = Some ''a:1''" "\<not> a_shared_connections lab_args"
      "a_max_connections lab_args = 2"
    by (simp_all add: lab_args_def args_ok_def)
  have lim: "limits_ok (lab lab_cluster 64) 1 2 0 False 2" by (simp add: limits_ok_def)
  have u: "used True (Some ''a:1'', Type_Cluster)" "used True (Some ''b:2'', Type_Cluster)" by (simp_all add: used_def)
  have cluster: "a_type lab_args = Type_Cluster \<longrightarrow> whole_topologies (lab lab_cluster 64)" using lab_whole by blast
  show ?thesis
    using database_created [OF base args fit cluster, of 1 "''db''" 2 0] conf a u lim by (elim exE) (intro exI conjI, auto)
qed

end
