(* ===== verification/Vmod_Lifecycle.thy ===== *)
theory Vmod_Lifecycle
  imports Vmod_Database
begin

text \<open>
  How connections and databases go away: \<open>free_redis_server\<close>, \<open>free_vmod_redis_db\<close>,
  \<open>free_task_state\<close> (\<open>src/core.c\<close>), \<open>vmod_db__fini\<close> and the release of the pools when a VCL gets cold,
  in \<open>handle_vcl_cold_event\<close> (\<open>src/vmod_redis.c\<close>). The release of memory has no effect on the state;
  what is left of a freed object is what the code writes to it before. Closing a connection is
  \<open>h_free\<close>.
\<close>

section \<open>The code\<close>

text \<open>\<open>while (!VTAILQ_EMPTY(l)) { c = VTAILQ_FIRST(l); VTAILQ_REMOVE(l, c); free_redis_context(c); }\<close>\<close>

fun drain :: "'e hiredis \<Rightarrow> redis_context list \<Rightarrow> 'e world \<Rightarrow> 'e world" where
  "drain h [] w = w"
| "drain h (c # cs) w = drain h cs (free_redis_context h c w)"

text \<open>The pool of a server, emptied.\<close>

definition release_pool :: "'e hiredis \<Rightarrow> server_ptr \<Rightarrow> 'e world \<Rightarrow> 'e world" where
  "release_pool h s w =
     (let p = sv_pool (srvs w s);
          w = upd_srv s (\<lambda>sv. sv\<lparr>sv_pool := p\<lparr>ncontexts := 0\<rparr>\<rparr>) w;
          w = drain h (free_contexts p) (upd_srv s (\<lambda>sv. sv\<lparr>sv_pool := (sv_pool sv)\<lparr>free_contexts := []\<rparr>\<rparr>) w)
      in drain h (busy_contexts p) (upd_srv s (\<lambda>sv. sv\<lparr>sv_pool := (sv_pool sv)\<lparr>busy_contexts := []\<rparr>\<rparr>) w))"

definition free_redis_server :: "'e hiredis \<Rightarrow> server_ptr \<Rightarrow> 'e world \<Rightarrow> 'e world" where
  "free_redis_server h s w =
     (let w = upd_srv s (\<lambda>sv. sv\<lparr>sv_role := TBD, sv_weight := 0\<rparr>) w;
          w = release_pool h s w
      in upd_srv s (\<lambda>sv. sv\<lparr>sv_slots := (\<lambda>i. if i < NREDIS_CLUSTER_SLOTS then False else sv_slots sv i),
                            sick_tst := 0, sick_exp := 0\<rparr>) w)"

fun free_servers :: "'e hiredis \<Rightarrow> db_ptr \<Rightarrow> nat \<times> role \<Rightarrow> server_ptr list \<Rightarrow> 'e world \<Rightarrow> 'e world" where
  "free_servers h d c [] w = w"
| "free_servers h d c (s # ss) w =
     free_servers h d c ss (free_redis_server h s (upd_servers d (fst c) (snd c) (\<lambda>l. tailq_remove l s) w))"

text \<open>The counters, options and names that are reset are of an object that nothing refers to any more.\<close>

definition free_vmod_redis_db :: "'e hiredis \<Rightarrow> db_ptr \<Rightarrow> 'e world \<Rightarrow> 'e world" where
  "free_vmod_redis_db h d w = fold (\<lambda>c w. free_servers h d c (servers (dbs w d) (fst c) (snd c)) w) cells w"

definition vmod_db_fini :: "'e hiredis \<Rightarrow> db_ptr \<Rightarrow> 'e world \<Rightarrow> 'e world option" where
  "vmod_db_fini h d w = do {
     w \<leftarrow> Lck_Lock Config_Mutex w;
     let w = (case List.find (\<lambda>x. x = d) (vcl_dbs (config w)) of
                Some x \<Rightarrow>
                  free_vmod_redis_db h x (w\<lparr>config := (config w)\<lparr>vcl_dbs := tailq_remove (vcl_dbs (config w)) x\<rparr>\<rparr>)
              | None \<Rightarrow> w);
     Lck_Unlock Config_Mutex w
   }"

definition free_task_state :: "'e hiredis \<Rightarrow> 'e world \<Rightarrow> 'e world" where
  "free_task_state h w =
     (let t = task w;
          w = w\<lparr>task := t\<lparr>ts_ncontexts := 0, ts_contexts := []\<rparr>\<rparr>;
          w = drain h (ts_contexts t) w
      in w\<lparr>task := flush_task_state ((task w)\<lparr>ts_db := None\<rparr>)\<rparr>)"

text \<open>\<open>handle_vcl_cold_event\<close>, after the Sentinel thread has been stopped.\<close>

fun release_dbs :: "'e hiredis \<Rightarrow> db_ptr list \<Rightarrow> 'e world \<Rightarrow> 'e world option" where
  "release_dbs h [] w = Some w"
| "release_dbs h (d # ds) w = do {
     w \<leftarrow> Lck_Lock (Db_Mutex d) w;
     let w = fold (\<lambda>c w. fold (release_pool h) (servers (dbs w d) (fst c) (snd c)) w) cells w;
     w \<leftarrow> Lck_Unlock (Db_Mutex d) w;
     release_dbs h ds w
   }"

definition release_pools :: "'e hiredis \<Rightarrow> 'e world \<Rightarrow> 'e world option" where
  "release_pools h w = do {
     w \<leftarrow> Lck_Lock Config_Mutex w;
     w \<leftarrow> release_dbs h (vcl_dbs (config w)) w;
     Lck_Unlock Config_Mutex w
   }"

section \<open>Pools\<close>

definition pooled :: "'e world \<Rightarrow> server_ptr \<Rightarrow> redis_context list" where
  "pooled w s = free_contexts (sv_pool (srvs w s)) @ busy_contexts (sv_pool (srvs w s))"

definition closed :: "'e hiredis \<Rightarrow> redis_context list \<Rightarrow> 'e \<Rightarrow> 'e" where
  "closed h cs e = fold (\<lambda>c. h_free h (cx_rcontext c)) cs e"

lemma closed_simps [simp]: "closed h [] e = e" "closed h (xs @ ys) e = closed h ys (closed h xs e)"
  by (simp_all add: closed_def)

lemma drain_eq: "drain h cs w = w\<lparr>net := closed h cs (net w)\<rparr>"
  by (induction cs arbitrary: w) (simp_all add: free_redis_context_def net_do_def closed_def)

lemma release_pool_eq:
  "release_pool h s w =
     w\<lparr>net := closed h (pooled w s) (net w), srvs := (srvs w)(s := (srvs w s)\<lparr>sv_pool := empty_pool\<rparr>)\<rparr>"
  by (cases w; cases "sv_pool (srvs w s)") (simp add: release_pool_def Let_def drain_eq upd_srv_def pooled_def empty_pool_def)

text \<open>The servers of a database, in the order in which the code visits them.\<close>

definition visited :: "'e world \<Rightarrow> db_ptr \<Rightarrow> server_ptr list" where
  "visited w d = concat (map (\<lambda>c. servers (dbs w d) (fst c) (snd c)) cells)"

lemma fold_release:
  assumes "distinct ss"
  shows "fold (release_pool h) ss w =
    w\<lparr>net := closed h (concat (map (pooled w) ss)) (net w),
      srvs := (\<lambda>s. if s \<in> set ss then (srvs w s)\<lparr>sv_pool := empty_pool\<rparr> else srvs w s)\<rparr>"
  using assms
proof (induction ss arbitrary: w)
  case Nil
  show ?case by simp
next
  case (Cons s ss)
  let ?w = "release_pool h s w"
  have p: "map (pooled ?w) ss = map (pooled w) ss"
    using Cons.prems by (auto simp: release_pool_eq pooled_def)
  have f: "net ?w = closed h (pooled w s) (net w)" "srvs ?w = (srvs w)(s := (srvs w s)\<lparr>sv_pool := empty_pool\<rparr>)"
    "\<And>e f. ?w\<lparr>net := e, srvs := f\<rparr> = w\<lparr>net := e, srvs := f\<rparr>"
    by (simp_all add: release_pool_eq)
  have "(\<lambda>x. if x \<in> set ss then (srvs ?w x)\<lparr>sv_pool := empty_pool\<rparr> else srvs ?w x) =
      (\<lambda>x. if x \<in> set (s # ss) then (srvs w x)\<lparr>sv_pool := empty_pool\<rparr> else srvs w x)"
    by (simp add: fun_eq_iff f(2))
  then show ?case
    using Cons.IH [of ?w] Cons.prems by (simp add: p f(1,3))
qed

lemma fold_cells:
  "fold (\<lambda>c w. fold (release_pool h) (servers (dbs w d) (fst c) (snd c)) w) cs w =
   fold (release_pool h) (concat (map (\<lambda>c. servers (dbs w d) (fst c) (snd c)) cs)) w"
proof (induction cs arbitrary: w)
  case Nil
  show ?case by simp
next
  case (Cons c cs)
  have same: "dbs (fold (release_pool h) ss v) = dbs v" for ss v
    by (induction ss arbitrary: v) (simp_all add: release_pool_eq)
  show ?case by (simp add: Cons.IH same)
qed

lemma distinct_concat_map:
  assumes "distinct cs" and "\<And>c. c \<in> set cs \<Longrightarrow> distinct (f c)"
    and "\<And>c c'. c \<in> set cs \<Longrightarrow> c' \<in> set cs \<Longrightarrow> c \<noteq> c' \<Longrightarrow> set (f c) \<inter> set (f c') = {}"
  shows "distinct (concat (map f cs))"
  using assms
proof (induction cs)
  case Nil
  show ?case by simp
next
  case (Cons c cs)
  have "set (f c) \<inter> set (f c') = {}" if "c' \<in> set cs" for c'
    using that Cons.prems(1) by (intro Cons.prems(3)) auto
  moreover have "distinct (concat (map f cs))" using Cons.prems by (intro Cons.IH) auto
  ultimately show ?case using Cons.prems(2) by (auto simp: disjoint_iff)
qed

lemma cells_distinct: "distinct cells"
  by (simp add: cells_def roles_def distinct_product)

lemma visited_registered:
  assumes "reg_ok d w"
  shows "set (visited w d) = registered w d" and "distinct (visited w d)"
proof -
  have filed: "filed_ok w d wt r s" if "s \<in> set (servers (dbs w d) wt r)" for s wt r
    using reg_ok_filed [OF assms that] .
  have "c \<in> set cells" if "s \<in> set (servers (dbs w d) (fst c) (snd c))" for c s
    using filed [OF that] by (cases c; cases "snd c") (auto simp: filed_ok_def cells_def roles_def)
  then show "set (visited w d) = registered w d" by (force simp: visited_def registered_def)
  show "distinct (visited w d)" unfolding visited_def
  proof (rule distinct_concat_map [OF cells_distinct])
    show "distinct (servers (dbs w d) (fst c) (snd c))" for c using assms by (rule reg_ok_distinct)
    show "set (servers (dbs w d) (fst c) (snd c)) \<inter> set (servers (dbs w d) (fst c') (snd c')) = {}" if "c \<noteq> c'" for c c'
      using filed that unfolding filed_ok_def by (metis disjoint_iff prod.expand)
  qed
qed

section \<open>The pools when a VCL gets cold\<close>

lemma release_held: "release_pool h s (w\<lparr>held := l\<rparr>) = (release_pool h s w)\<lparr>held := l\<rparr>"
  by (simp add: release_pool_eq pooled_def)

lemma fold_release_held: "fold (release_pool h) ss (w\<lparr>held := l\<rparr>) = (fold (release_pool h) ss w)\<lparr>held := l\<rparr>"
  by (induction ss arbitrary: w) (simp_all add: release_held)

lemma fold_release_same:
  "dbs (fold (release_pool h) ss w) = dbs w" "held (fold (release_pool h) ss w) = held w"
  by (induction ss arbitrary: w) (simp_all add: release_pool_eq)

lemma release_dbs_eq:
  assumes "\<forall>d \<in> set ds. Db_Mutex d \<notin> set (held w)"
  shows "release_dbs h ds w = Some (fold (release_pool h) (concat (map (visited w) ds)) w)"
  using assms
proof (induction ds arbitrary: w)
  case Nil
  show ?case by simp
next
  case (Cons d ds)
  let ?w = "fold (release_pool h) (visited w d) w"
  have unheld: "?w\<lparr>held := held w\<rparr> = ?w" by (simp add: fold_release_held [symmetric])
  have vis: "visited (w\<lparr>held := l\<rparr>) d = visited w d" for l by (simp add: visited_def)
  have "map (visited ?w) ds = map (visited w) ds" by (simp add: visited_def fold_release_same)
  then have "release_dbs h ds ?w = Some (fold (release_pool h) (concat (map (visited w) ds)) ?w)"
    using Cons.IH [of ?w] Cons.prems by (simp only: fold_release_same list.set_intros ball_simps set_simps) simp
  then show ?case
    using Cons.prems
    by (simp add: Lck_Lock_def Lck_Unlock_def fold_cells visited_def [symmetric] fold_release_held fold_release_same vis unheld)
qed

lemma release_pools_eq:
  assumes "held w = []"
  shows "release_pools h w = Some (fold (release_pool h) (concat (map (visited w) (vcl_dbs (config w)))) w)"
proof -
  let ?L = "concat (map (visited w) (vcl_dbs (config w)))"
  have vis: "visited (w\<lparr>held := l\<rparr>) = visited w" for l by (simp add: visited_def fun_eq_iff)
  have unheld: "(fold (release_pool h) ?L w)\<lparr>held := []\<rparr> = fold (release_pool h) ?L w"
  proof -
    have "w\<lparr>held := []\<rparr> = w" using assms by (cases w) simp
    then show ?thesis using fold_release_held [of h ?L "[]" w] by simp
  qed
  show ?thesis
    using assms release_dbs_eq [of "vcl_dbs (config w)" "w\<lparr>held := [Config_Mutex]\<rparr>" h]
    by (simp add: release_pools_def Lck_Lock_def Lck_Unlock_def vis fold_release_held unheld)
qed

text \<open>No server is in two databases.\<close>

lemma all_visited:
  assumes "distinct ds" and "\<forall>d \<in> set ds. reg_ok d w"
  shows "distinct (concat (map (visited w) ds))" and "set (concat (map (visited w) ds)) = (\<Union>d \<in> set ds. registered w d)"
proof -
  have db: "sv_db (srvs w s) = d" if "s \<in> set (visited w d)" "d \<in> set ds" for s d
  proof -
    have ok: "reg_ok d w" using that(2) assms(2) by blast
    then have "s \<in> registered w d" using that(1) visited_registered(1) by blast
    then obtain wt r where "s \<in> set (servers (dbs w d) wt r)" by (auto simp: registered_def)
    then show ?thesis using reg_ok_filed [OF ok] by (simp add: filed_ok_def)
  qed
  show "distinct (concat (map (visited w) ds))"
  proof (rule distinct_concat_map [OF assms(1)])
    show "distinct (visited w d)" if "d \<in> set ds" for d using that assms(2) visited_registered(2) by blast
    show "set (visited w d) \<inter> set (visited w d') = {}" if "d \<in> set ds" "d' \<in> set ds" "d \<noteq> d'" for d d'
      using that db by (metis disjoint_iff)
  qed
  show "set (concat (map (visited w) ds)) = (\<Union>d \<in> set ds. registered w d)"
    using assms(2) by (simp add: visited_registered(1))
qed

section \<open>The end of a database\<close>

lemma free_redis_server_eq:
  "net (free_redis_server h s w) = closed h (pooled w s) (net w)"
  "dbs (free_redis_server h s w) = dbs w" "config (free_redis_server h s w) = config w"
  "task (free_redis_server h s w) = task w" "held (free_redis_server h s w) = held w"
  "x \<noteq> s \<Longrightarrow> srvs (free_redis_server h s w) x = srvs w x"
  by (simp_all add: free_redis_server_def Let_def release_pool_eq upd_srv_def pooled_def)

lemma free_servers_eq:
  assumes "servers (dbs w d) (fst c) (snd c) = ss" and "distinct ss"
  shows "net (free_servers h d c ss w) = closed h (concat (map (pooled w) ss)) (net w) \<and>
    (\<forall>wt r. servers (dbs (free_servers h d c ss w) d) wt r = (if (wt, r) = c then [] else servers (dbs w d) wt r)) \<and>
    (\<forall>x. x \<noteq> d \<longrightarrow> dbs (free_servers h d c ss w) x = dbs w x) \<and>
    config (free_servers h d c ss w) = config w \<and> task (free_servers h d c ss w) = task w \<and>
    held (free_servers h d c ss w) = held w \<and>
    (\<forall>x. x \<notin> set ss \<longrightarrow> srvs (free_servers h d c ss w) x = srvs w x)"
  using assms
proof (induction ss arbitrary: w)
  case Nil
  then show ?case by (auto simp: fun_eq_iff)
next
  case (Cons s ss)
  let ?v = "upd_servers d (fst c) (snd c) (\<lambda>l. tailq_remove l s) w"
  let ?w = "free_redis_server h s ?v"
  have sv: "servers (dbs ?w d) (fst c) (snd c) = ss"
    using Cons.prems(1) by (simp add: free_redis_server_eq upd_servers_db tailq_remove_def)
  have p: "map (pooled ?w) ss = map (pooled w) ss"
  proof (rule map_cong [OF refl])
    fix x assume "x \<in> set ss"
    then have "x \<noteq> s" using Cons.prems(2) by auto
    then show "pooled ?w x = pooled w x" by (simp add: pooled_def free_redis_server_eq(6) frame_simps)
  qed
  have v: "pooled ?v s = pooled w s" "net ?w = closed h (pooled ?v s) (net w)" "config ?w = config w" "task ?w = task w"
    "held ?w = held w" "\<And>x. x \<noteq> s \<Longrightarrow> srvs ?w x = srvs w x"
    by (simp_all add: pooled_def frame_simps free_redis_server_eq)
  have l: "servers (dbs ?w d) wt r = (if (wt, r) = c then ss else servers (dbs w d) wt r)" for wt r
    using sv by (auto simp: free_redis_server_eq upd_servers_db)
  have other: "dbs ?w x = dbs w x" if "x \<noteq> d" for x
    using that by (simp add: free_redis_server_eq upd_servers_def upd_db_def)
  have step: "free_servers h d c (s # ss) w = free_servers h d c ss ?w" by simp
  have "distinct ss" using Cons.prems(2) by simp
  note ih = Cons.IH [OF sv this, unfolded p]
  show ?case unfolding step using ih v l other by simp
qed

definition cell_servers :: "'e world \<Rightarrow> db_ptr \<Rightarrow> (nat \<times> role) list \<Rightarrow> server_ptr list" where
  "cell_servers w d cs = concat (map (\<lambda>c. servers (dbs w d) (fst c) (snd c)) cs)"

lemma free_cells:
  assumes "distinct cs" and "distinct (cell_servers w d cs)"
  shows "let w' = fold (\<lambda>c w. free_servers h d c (servers (dbs w d) (fst c) (snd c)) w) cs w in
    net w' = closed h (concat (map (pooled w) (cell_servers w d cs))) (net w) \<and>
    (\<forall>c. servers (dbs w' d) (fst c) (snd c) = (if c \<in> set cs then [] else servers (dbs w d) (fst c) (snd c))) \<and>
    (\<forall>x. x \<noteq> d \<longrightarrow> dbs w' x = dbs w x) \<and> config w' = config w \<and> task w' = task w \<and> held w' = held w \<and>
    (\<forall>x. x \<notin> set (cell_servers w d cs) \<longrightarrow> srvs w' x = srvs w x)"
  using assms
proof (induction cs arbitrary: w)
  case Nil
  then show ?case by (simp add: cell_servers_def)
next
  case (Cons c cs)
  let ?ss = "servers (dbs w d) (fst c) (snd c)"
  define w1 where "w1 = free_servers h d c ?ss w"
  have dis: "distinct ?ss" "distinct (cell_servers w d cs)" "set ?ss \<inter> set (cell_servers w d cs) = {}"
    using Cons.prems(2) by (auto simp: cell_servers_def)
  note f = free_servers_eq [OF refl dis(1), of h, folded w1_def]
  have other: "servers (dbs w1 d) (fst c') (snd c') = servers (dbs w d) (fst c') (snd c')" if "c' \<noteq> c" for c'
    using f that by (cases c') simp
  have cs1: "cell_servers w1 d cs = cell_servers w d cs"
    unfolding cell_servers_def using other Cons.prems(1) by (metis (mono_tags, lifting) distinct.simps(2) map_cong)
  have pool: "map (pooled w1) (cell_servers w d cs) = map (pooled w) (cell_servers w d cs)"
    using f dis(3) by (auto simp: pooled_def disjoint_iff)
  have split: "cell_servers w d (c # cs) = ?ss @ cell_servers w d cs" by (simp add: cell_servers_def)
  define w2 where "w2 = fold (\<lambda>c w. free_servers h d c (servers (dbs w d) (fst c) (snd c)) w) cs w1"
  have g: "net w2 = closed h (concat (map (pooled w) (cell_servers w d cs))) (net w1)"
    "\<forall>c'. servers (dbs w2 d) (fst c') (snd c') = (if c' \<in> set cs then [] else servers (dbs w1 d) (fst c') (snd c'))"
    "\<forall>x. x \<noteq> d \<longrightarrow> dbs w2 x = dbs w1 x" "config w2 = config w1" "task w2 = task w1" "held w2 = held w1"
    "\<forall>x. x \<notin> set (cell_servers w d cs) \<longrightarrow> srvs w2 x = srvs w1 x"
    using Cons.IH [of w1] Cons.prems(1) dis(2) by (simp_all add: cs1 pool Let_def w2_def)
  have "fold (\<lambda>c w. free_servers h d c (servers (dbs w d) (fst c) (snd c)) w) (c # cs) w = w2" by (simp add: w2_def w1_def)
  moreover have "servers (dbs w2 d) (fst c') (snd c') = (if c' \<in> set (c # cs) then [] else servers (dbs w d) (fst c') (snd c'))" for c'
    using g(2) other [of c'] f by auto
  ultimately show ?case using g f unfolding Let_def split by simp
qed

lemma find_eq: "d \<in> set xs \<Longrightarrow> List.find (\<lambda>x. x = d) xs = Some d"
  by (induction xs) auto

lemma fini_eq:
  assumes "held w = []" and "d \<in> set (vcl_dbs (config w))" and "reg_ok d w"
  shows "\<exists>w'. vmod_db_fini h d w = Some w' \<and> net w' = closed h (concat (map (pooled w) (visited w d))) (net w) \<and>
    registered w' d = {} \<and> config w' = (config w)\<lparr>vcl_dbs := remove1 d (vcl_dbs (config w))\<rparr> \<and> held w' = [] \<and>
    task w' = task w \<and> (\<forall>x. x \<noteq> d \<longrightarrow> dbs w' x = dbs w x) \<and> (\<forall>s. s \<notin> registered w d \<longrightarrow> srvs w' s = srvs w s)"
proof -
  define v where "v = w\<lparr>held := [Config_Mutex], config := (config w)\<lparr>vcl_dbs := remove1 d (vcl_dbs (config w))\<rparr>\<rparr>"
  have vis: "cell_servers v d cells = visited w d" "pooled v = pooled w"
    by (simp_all add: v_def cell_servers_def visited_def pooled_def fun_eq_iff)
  have in_cells: "servers (dbs w d) wt r = []" if "(wt, r) \<notin> set cells" for wt r
  proof (rule ccontr)
    assume "\<not> ?thesis"
    then obtain s where "s \<in> set (servers (dbs w d) wt r)" by (cases "servers (dbs w d) wt r") auto
    then have "wt < NREDIS_SERVER_WEIGHTS" using reg_ok_filed [OF assms(3)] by (simp add: filed_ok_def)
    then show False using that by (cases r) (auto simp: cells_def roles_def)
  qed
  define w1 where "w1 = free_vmod_redis_db h d v"
  have "distinct (cell_servers v d cells)" using visited_registered(2) [OF assms(3)] by (simp add: vis)
  from free_cells [OF cells_distinct this, of h]
  have f: "net w1 = closed h (concat (map (pooled w) (visited w d))) (net v)"
    "\<And>c. servers (dbs w1 d) (fst c) (snd c) = (if c \<in> set cells then [] else servers (dbs v d) (fst c) (snd c))"
    "\<And>x. x \<noteq> d \<Longrightarrow> dbs w1 x = dbs v x" "config w1 = config v" "task w1 = task v" "held w1 = held v"
    "\<And>x. x \<notin> set (visited w d) \<Longrightarrow> srvs w1 x = srvs v x"
    by (simp_all add: w1_def free_vmod_redis_db_def vis Let_def)
  have none: "servers (dbs w1 d) wt r = []" for wt r
    using f(2) [of "(wt, r)"] in_cells [of wt r] by (simp add: v_def)
  have "List.find (\<lambda>x. x = d) (vcl_dbs (config w)) = Some d"
    using assms(2) by (rule find_eq)
  then have "vmod_db_fini h d w = Some (w1\<lparr>held := []\<rparr>)"
    using assms(1) f(6) by (simp add: vmod_db_fini_def Lck_Lock_def Lck_Unlock_def v_def w1_def tailq_remove_def)
  moreover have "registered (w1\<lparr>held := []\<rparr>) d = {}" by (simp add: registered_def none)
  ultimately show ?thesis
    using f(1,3-5,7) visited_registered(1) [OF assms(3)] by (intro exI [of _ "w1\<lparr>held := []\<rparr>"]) (simp add: v_def)
qed

text \<open>
  C36. No connection leaks, and none is closed twice. When a VCL gets cold, the mutexes are taken in the
  order of the rest of the code, each pooled connection of each server of each database is closed once,
  the pools are empty and count zero, and nothing else changes, the connections of the tasks included.
  When a database ends, the connections in the pools of its servers are closed once, it is registered
  no more, and no server of another database is touched.
\<close>

theorem connections_closed:
  assumes "held w = []" and "distinct (vcl_dbs (config w))" and "\<forall>d \<in> set (vcl_dbs (config w)). reg_ok d w"
  shows "(\<exists>L. distinct L \<and> set L = (\<Union>d \<in> set (vcl_dbs (config w)). registered w d) \<and>
      release_pools h w = Some (w\<lparr>net := closed h (concat (map (pooled w) L)) (net w),
        srvs := (\<lambda>s. if s \<in> set L then (srvs w s)\<lparr>sv_pool := empty_pool\<rparr> else srvs w s)\<rparr>)) \<and>
    (\<forall>d \<in> set (vcl_dbs (config w)). \<exists>L w'. distinct L \<and> set L = registered w d \<and>
      vmod_db_fini h d w = Some w' \<and> net w' = closed h (concat (map (pooled w) L)) (net w) \<and> registered w' d = {} \<and>
      d \<notin> set (vcl_dbs (config w')) \<and> held w' = [] \<and> task w' = task w \<and>
      (\<forall>x. x \<noteq> d \<longrightarrow> dbs w' x = dbs w x) \<and> (\<forall>s. s \<notin> registered w d \<longrightarrow> srvs w' s = srvs w s))"
proof
  let ?L = "concat (map (visited w) (vcl_dbs (config w)))"
  note L = all_visited [OF assms(2,3)]
  show "\<exists>L. distinct L \<and> set L = (\<Union>d \<in> set (vcl_dbs (config w)). registered w d) \<and>
      release_pools h w = Some (w\<lparr>net := closed h (concat (map (pooled w) L)) (net w),
        srvs := (\<lambda>s. if s \<in> set L then (srvs w s)\<lparr>sv_pool := empty_pool\<rparr> else srvs w s)\<rparr>)"
    unfolding release_pools_eq [OF assms(1)] fold_release [OF L(1)] by (intro exI [of _ ?L] conjI L refl)
  show "\<forall>d \<in> set (vcl_dbs (config w)). \<exists>L w'. distinct L \<and> set L = registered w d \<and>
      vmod_db_fini h d w = Some w' \<and> net w' = closed h (concat (map (pooled w) L)) (net w) \<and> registered w' d = {} \<and>
      d \<notin> set (vcl_dbs (config w')) \<and> held w' = [] \<and> task w' = task w \<and>
      (\<forall>x. x \<noteq> d \<longrightarrow> dbs w' x = dbs w x) \<and> (\<forall>s. s \<notin> registered w d \<longrightarrow> srvs w' s = srvs w s)"
  proof
    fix d assume d: "d \<in> set (vcl_dbs (config w))"
    then have ok: "reg_ok d w" using assms(3) by blast
    obtain w' where "vmod_db_fini h d w = Some w'" "net w' = closed h (concat (map (pooled w) (visited w d))) (net w)"
      "registered w' d = {}" "config w' = (config w)\<lparr>vcl_dbs := remove1 d (vcl_dbs (config w))\<rparr>" "held w' = []"
      "task w' = task w" "\<forall>x. x \<noteq> d \<longrightarrow> dbs w' x = dbs w x" "\<forall>s. s \<notin> registered w d \<longrightarrow> srvs w' s = srvs w s"
      using fini_eq [OF assms(1) d ok] by blast
    then show "\<exists>L w'. distinct L \<and> set L = registered w d \<and>
      vmod_db_fini h d w = Some w' \<and> net w' = closed h (concat (map (pooled w) L)) (net w) \<and> registered w' d = {} \<and>
      d \<notin> set (vcl_dbs (config w')) \<and> held w' = [] \<and> task w' = task w \<and>
      (\<forall>x. x \<noteq> d \<longrightarrow> dbs w' x = dbs w x) \<and> (\<forall>s. s \<notin> registered w d \<longrightarrow> srvs w' s = srvs w s)"
      using visited_registered [OF ok] assms(2) by (intro exI [of _ "visited w d"] exI [of _ w']) simp
  qed
qed

lemma reg_ok_pool: "reg_ok d (upd_srv s (\<lambda>sv. sv\<lparr>sv_pool := p\<rparr>) w) \<longleftrightarrow> reg_ok d w"
proof -
  let ?w = "upd_srv s (\<lambda>sv. sv\<lparr>sv_pool := p\<rparr>) w"
  have "filed_ok ?w d wt r x \<longleftrightarrow> filed_ok w d wt r x" "sv_raw (srvs ?w x) = sv_raw (srvs w x)" for wt r x
    by (cases "x = s"; simp add: filed_ok_def upd_srv_def)+
  moreover have "servers (dbs ?w d) = servers (dbs w d)" by (simp add: upd_srv_def)
  ultimately show ?thesis by (simp only: reg_ok_def registered_upd_srv)
qed

text \<open>A database with one server that has a free connection and one in use.\<close>

definition lab_pool :: "int world" where
  "lab_pool = upd_srv 0 (\<lambda>sv. sv\<lparr>sv_pool :=
     \<lparr>ncontexts = 2,
      free_contexts = [\<lparr>cx_id = 0, cx_server = 0, cx_rcontext = 7, cx_version = 1, cx_tst = 100\<rparr>],
      busy_contexts = [\<lparr>cx_id = 1, cx_server = 0, cx_rcontext = 8, cx_version = 1, cx_tst = 100\<rparr>]\<rparr>\<rparr>)
     (lab_one True False)"

theorem connections_closed_witness:
  "\<exists>w'. release_pools (lab (\<lambda>c. None) 64) lab_pool = Some w' \<and> sv_pool (srvs w' 0) = empty_pool \<and>
    (\<exists>w2. vmod_db_fini (lab (\<lambda>c. None) 64) 0 lab_pool = Some w2 \<and> registered w2 0 = {})"
proof -
  have l: "held lab_pool = []" "vcl_dbs (config lab_pool) = [0]" by (simp_all add: lab_pool_def upd_srv_def lab_one_def lab_empty_def)
  have r: "registered lab_pool 0 = {0}" by (auto simp: lab_pool_def upd_srv_def registered_def lab_one_def)
  have "reg_ok 0 (lab_one True False)" using task_ok_lab [of True False] by (simp add: task_ok_def)
  then have "reg_ok 0 lab_pool" by (simp add: lab_pool_def reg_ok_pool)
  then show ?thesis
    using connections_closed [of lab_pool "lab (\<lambda>c. None) 64"] l r by auto
qed

end
