(* ===== verification/Vmod_Events.thy ===== *)
theory Vmod_Events
  imports Sentinel_Subscriptions Vmod_Lifecycle Vmod_Weights
begin

text \<open>
  \<open>redis.sentinels()\<close> and the events of VCL (\<open>src/vmod_redis.c\<close>), with \<open>new_vcl_state\<close> and
  \<open>free_vcl_state\<close> (\<open>src/core.c\<close>). Varnish loads a VCL, warms it up and cools it down any number of
  times, and discards it, and several VCLs are loaded at a time. They share \<open>vmod_state\<close>: the version
  (\<open>vmod_version\<close> of the world) and the classes of the mutexes. Events run one at a time; while the
  cold event waits for the Sentinel thread others run, so it is cut there.

  A handler works on the VCL it is called for: the world with the \<open>config\<close> of that VCL, whose mutex
  \<open>Config_Mutex\<close> then is. The configuration of logging and the initialization of OpenSSL, once per
  process, are left out.
\<close>

section \<open>State\<close>

text \<open>What Varnish has done to a VCL; it is \<open>Stopping\<close> while the cold event waits for the thread.\<close>

datatype phase = Cold | Warm | Stopping

record vcl =
  vc_state :: vcl_state
  vc_sentinels :: sentinels
  vc_phase :: phase

record locks =
  lk_refs :: uint
  lk_seg :: "nat option"
  lk_config :: "nat option"
  lk_db :: "nat option"

text \<open>The process: the world, \<open>vmod_state.locks\<close>, the VCLs that are loaded and the Sentinel threads.\<close>

record 'e vmod =
  vm_world :: "'e world"
  vm_locks :: locks
  vm_vcls :: "nat \<rightharpoonup> vcl"
  vm_threads :: "nat \<rightharpoonup> sentinel_thread"

definition at_vcl :: "'e vmod \<Rightarrow> vcl \<Rightarrow> 'e world" where
  "at_vcl m vcl = (vm_world m)\<lparr>config := vc_state vcl\<rparr>"

definition put_vcl :: "nat \<Rightarrow> vcl \<Rightarrow> 'e world \<Rightarrow> 'e vmod \<Rightarrow> 'e vmod" where
  "put_vcl v vcl w m = m\<lparr>vm_world := w, vm_vcls := (vm_vcls m)(v \<mapsto> vcl\<lparr>vc_state := config w\<rparr>)\<rparr>"

section \<open>Settings of Sentinel\<close>

record sentinel_args =
  sa_locations :: "string option"
  sa_period :: int
  sa_connection_timeout :: int
  sa_command_timeout :: int
  sa_protocol :: protocol_name
  sa_tls :: bool
  sa_tls_names :: "string option list"
  sa_password :: "string option"

text \<open>A setting that is not given keeps its value.\<close>

definition setting :: "string option \<Rightarrow> string option \<Rightarrow> string option" where
  "setting new old = (if given new then new else old)"

text \<open>\<open>env\<close> is \<open>getenv("VMOD_REDIS_SENTINELS")\<close>.\<close>

definition vmod_sentinels ::
  "string option \<Rightarrow> sentinel_args \<Rightarrow> sentinels \<Rightarrow> 'e world \<Rightarrow> (sentinels \<times> 'e world) option" where
  "vmod_sentinels env args se w = do {
     w \<leftarrow> Lck_Lock Config_Mutex w;
     let se =
       (if se_locations se = None \<and> sa_connection_timeout args \<ge> 0 \<and> sa_command_timeout args \<ge> 0
        then (let value = (if given (sa_locations args) then sa_locations args else env)
              in if given value
                 then se\<lparr>se_locations := value, se_period := word_of_int (sa_period args),
                         se_connection_timeout := timeval_ms (sa_connection_timeout args),
                         se_command_timeout := timeval_ms (sa_command_timeout args),
                         se_protocol := parse_protocol (sa_protocol args), se_tls := sa_tls args,
                         se_tls_names := map2 setting (sa_tls_names args) (se_tls_names se),
                         se_password := setting (sa_password args) (se_password se)\<rparr>
                 else se)
        else se);
     w \<leftarrow> Lck_Unlock Config_Mutex w;
     Some (se, w)
   }"

section \<open>Life of a VCL\<close>

text \<open>\<open>Lck_New\<close> makes the mutex of the configuration in its class.\<close>

definition new_vcl_state :: "locks \<Rightarrow> (vcl_state \<times> sentinels) option" where
  "new_vcl_state lk = do {
     _ \<leftarrow> lk_config lk;
     Some (\<lparr>weight_rules = [], vcl_dbs = []\<rparr>,
       \<lparr>se_locations = None, se_period = 0, se_connection_timeout = \<lparr>tv_sec = 0, tv_usec = 0\<rparr>,
        se_command_timeout = \<lparr>tv_sec = 0, tv_usec = 0\<rparr>, se_protocol = PROTO_DEFAULT, se_tls = False,
        se_tls_names = [None, None, None, None, None], se_password = None, se_thread = None,
        se_active = False, se_discovery = False\<rparr>)
   }"

fun free_databases :: "'e hiredis \<Rightarrow> db_ptr list \<Rightarrow> 'e world \<Rightarrow> 'e world" where
  "free_databases h [] w = w"
| "free_databases h (d # ds) w = free_databases h ds (free_vmod_redis_db h d w)"

text \<open>The rules and settings of a VCL go with the record that holds them.\<close>

definition free_vcl_state :: "'e hiredis \<Rightarrow> nat \<Rightarrow> 'e vmod \<Rightarrow> 'e vmod option" where
  "free_vcl_state h v m = do {
     vcl \<leftarrow> vm_vcls m v;
     Some (m\<lparr>vm_world := free_databases h (vcl_dbs (vc_state vcl)) (vm_world m), vm_vcls := (vm_vcls m)(v := None)\<rparr>)
   }"

text \<open>
  The answers of \<open>Lck_CreateClass\<close>, a class and the segment it is in, are arguments. Both calls write
  the segment to the same variable.
\<close>

type_synonym class_answer = "nat option \<times> nat option"

definition create_classes :: "class_answer \<Rightarrow> class_answer \<Rightarrow> locks \<Rightarrow> locks option" where
  "create_classes c1 c2 lk =
     (if lk_refs lk = 0
      then do {
        let lk = lk\<lparr>lk_config := fst c1, lk_seg := snd c1\<rparr>;
        _ \<leftarrow> lk_config lk;
        let lk = lk\<lparr>lk_db := fst c2, lk_seg := snd c2\<rparr>;
        _ \<leftarrow> lk_db lk;
        Some lk
      }
      else Some lk)"

definition handle_vcl_load_event :: "class_answer \<Rightarrow> class_answer \<Rightarrow> nat \<Rightarrow> 'e vmod \<Rightarrow> 'e vmod option" where
  "handle_vcl_load_event c1 c2 v m = do {
     lk \<leftarrow> create_classes c1 c2 (vm_locks m);
     let lk = lk\<lparr>lk_refs := lk_refs lk + 1\<rparr>;
     (config, se) \<leftarrow> new_vcl_state lk;
     Some (m\<lparr>vm_locks := lk,
             vm_vcls := (vm_vcls m)(v \<mapsto> \<lparr>vc_state = config, vc_sentinels = se, vc_phase = Cold\<rparr>)\<rparr>)
   }"

definition handle_vcl_warm_event ::
  "(string option list \<Rightarrow> nat option) \<Rightarrow> nat option \<Rightarrow> nat \<Rightarrow> 'e vmod \<Rightarrow> 'e vmod option" where
  "handle_vcl_warm_event create_ssl created v m = do {
     vcl \<leftarrow> vm_vcls m v;
     let w = at_vcl m vcl;
     let w = w\<lparr>vmod_version := vmod_version w + 1\<rparr>;
     let se = vc_sentinels vcl;
     w \<leftarrow> Lck_Lock Config_Mutex w;
     (se, new) \<leftarrow> (if se_locations se \<noteq> None \<and> \<not> se_active se
                  then unsafe_sentinel_start create_ssl created v w se else Some (se, None));
     w \<leftarrow> Lck_Unlock Config_Mutex w;
     let m = put_vcl v (vcl\<lparr>vc_sentinels := se, vc_phase := Warm\<rparr>) w m;
     Some (case new of None \<Rightarrow> m | Some (t, th) \<Rightarrow> m\<lparr>vm_threads := (vm_threads m)(t \<mapsto> th)\<rparr>)
   }"

text \<open>
  The cold event up to \<open>pthread_join\<close>, and from its return on: it returns when the thread has ended.
  \<open>release_vcl\<close> is the rest of the event.
\<close>

definition release_vcl :: "'e hiredis \<Rightarrow> nat \<Rightarrow> 'e vmod \<Rightarrow> 'e vmod option" where
  "release_vcl h v m = do {
     vcl \<leftarrow> vm_vcls m v;
     w \<leftarrow> release_pools h (at_vcl m vcl);
     Some (put_vcl v (vcl\<lparr>vc_phase := Cold\<rparr>) w m)
   }"

definition handle_vcl_cold_event :: "'e hiredis \<Rightarrow> nat \<Rightarrow> 'e vmod \<Rightarrow> 'e vmod option" where
  "handle_vcl_cold_event h v m = do {
     vcl \<leftarrow> vm_vcls m v;
     w \<leftarrow> Lck_Lock Config_Mutex (at_vcl m vcl);
     (if se_active (vc_sentinels vcl)
      then do {
        se \<leftarrow> unsafe_sentinel_stop w (vc_sentinels vcl);
        w \<leftarrow> Lck_Unlock Config_Mutex w;
        Some (put_vcl v (vcl\<lparr>vc_sentinels := se, vc_phase := Stopping\<rparr>) w m)
      }
      else do {
        w \<leftarrow> Lck_Unlock Config_Mutex w;
        release_vcl h v (put_vcl v vcl w m)
      })
   }"

definition cold_event_joined :: "'e hiredis \<Rightarrow> nat \<Rightarrow> 'e vmod \<Rightarrow> 'e vmod option" where
  "cold_event_joined h v m = do {
     vcl \<leftarrow> vm_vcls m v;
     t \<leftarrow> se_thread (vc_sentinels vcl);
     th \<leftarrow> vm_threads m t;
     _ \<leftarrow> assert_that (th_place th = Ended);
     let m = m\<lparr>vm_threads := (vm_threads m)(t := None),
               vm_vcls := (vm_vcls m)(v \<mapsto> vcl\<lparr>vc_sentinels := (vc_sentinels vcl)\<lparr>se_thread := None\<rparr>\<rparr>)\<rparr>;
     release_vcl h v m
   }"

text \<open>\<open>Lck_DestroyClass\<close> takes the segment.\<close>

definition handle_vcl_discard_event :: "nat \<Rightarrow> 'e vmod \<Rightarrow> 'e vmod option" where
  "handle_vcl_discard_event v m = do {
     _ \<leftarrow> vm_vcls m v;
     let lk = vm_locks m;
     _ \<leftarrow> assert_that (lk_refs lk > 0);
     let lk = lk\<lparr>lk_refs := lk_refs lk - 1\<rparr>;
     (if lk_refs lk = 0
      then do { _ \<leftarrow> lk_seg lk; Some (m\<lparr>vm_locks := lk\<lparr>lk_seg := None\<rparr>\<rparr>) }
      else Some (m\<lparr>vm_locks := lk\<rparr>))
   }"

datatype vcl_event =
    Event_Load class_answer class_answer
  | Event_Warm "nat option"
  | Event_Cold
  | Event_Discard

fun vmod_event_function ::
  "'e hiredis \<Rightarrow> (string option list \<Rightarrow> nat option) \<Rightarrow> nat \<Rightarrow> vcl_event \<Rightarrow> 'e vmod \<Rightarrow> 'e vmod option" where
  "vmod_event_function h create_ssl v (Event_Load c1 c2) m = handle_vcl_load_event c1 c2 v m"
| "vmod_event_function h create_ssl v (Event_Warm created) m = handle_vcl_warm_event create_ssl created v m"
| "vmod_event_function h create_ssl v Event_Cold m = handle_vcl_cold_event h v m"
| "vmod_event_function h create_ssl v Event_Discard m = handle_vcl_discard_event v m"

end
