(* ===== verification/Vmod_Machine.thy ===== *)
theory Vmod_Machine
  imports Vmod_Events Transition
begin

text \<open>
  The events of the VCLs, the calls of \<open>redis.sentinels()\<close> and the steps of the Sentinel threads, in any
  order that Varnish and the threads allow, as a step relation; the state \<open>None\<close> is a panic. The other
  threads of the process, the workers, may do to databases, servers and connections whatever keeps
  the registries well formed (what \<open>vmod_db_init\<close>, \<open>vmod_db_execute\<close> and \<open>vmod_db_fini\<close> do is
  the subject of \<open>Vmod_Database\<close>, \<open>Vmod_Calls\<close> and \<open>Vmod_Lifecycle\<close>), and to the outside what \<open>rely\<close> says.
\<close>

section \<open>The steps\<close>

definition call_sentinels :: "string option \<Rightarrow> sentinel_args \<Rightarrow> nat \<Rightarrow> 'e vmod \<Rightarrow> 'e vmod option" where
  "call_sentinels env args v m = do {
     vcl \<leftarrow> vm_vcls m v;
     (se, w) \<leftarrow> vmod_sentinels env args (vc_sentinels vcl) (at_vcl m vcl);
     Some (put_vcl v (vcl\<lparr>vc_sentinels := se\<rparr>) w m)
   }"

text \<open>A step of thread \<open>t\<close>, which works on the VCL it has a reference to.\<close>

definition run_thread :: "'e hiredis \<Rightarrow> 'e async \<Rightarrow> nat \<Rightarrow> 'e vmod \<Rightarrow> 'e vmod option" where
  "run_thread h a t m = do {
     th \<leftarrow> vm_threads m t;
     vcl \<leftarrow> vm_vcls m (th_config th);
     (se, th', w) \<leftarrow> thread_step h a (vc_sentinels vcl) th (at_vcl m vcl);
     Some ((put_vcl (th_config th) (vcl\<lparr>vc_sentinels := se\<rparr>) w m)\<lparr>vm_threads := (vm_threads m)(t \<mapsto> th')\<rparr>)
   }"

text \<open>Between the steps no mutex is held, and the databases of the VCLs are well formed and distinct.\<close>

definition databases :: "'e vmod \<Rightarrow> nat \<Rightarrow> db_ptr list" where
  "databases m v = (case vm_vcls m v of None \<Rightarrow> [] | Some vcl \<Rightarrow> vcl_dbs (vc_state vcl))"

definition rests :: "'e vmod \<Rightarrow> bool" where
  "rests m \<longleftrightarrow> held (vm_world m) = [] \<and>
     (\<forall>v. distinct (databases m v) \<and> (\<forall>d \<in> set (databases m v). reg_ok d (vm_world m))) \<and>
     (\<forall>v v'. v \<noteq> v' \<longrightarrow> set (databases m v) \<inter> set (databases m v') = {})"

definition in_phase :: "'e vmod \<Rightarrow> nat \<Rightarrow> phase \<Rightarrow> bool" where
  "in_phase m v p \<longleftrightarrow> (\<exists>vcl. vm_vcls m v = Some vcl \<and> vc_phase vcl = p)"

datatype label = Load nat | Settings nat | Warm_Up nat | Cool_Down nat | Joined nat | Discard nat | Thread nat | Others

text \<open>
  Varnish loads a VCL once, warms it up when it is cold, cools it down when it is warm and discards it
  when it is cold; fewer than \<open>2\<^sup>3\<^sup>2\<close> are loaded at a time. \<open>Lck_CreateClass\<close> and \<open>pthread_create\<close> succeed, and a
  new thread is not one that exists.
\<close>

inductive vmod_step ::
  "'e hiredis \<Rightarrow> 'e async \<Rightarrow> (string option list \<Rightarrow> nat option) \<Rightarrow> ('e \<Rightarrow> 'e \<Rightarrow> bool) \<Rightarrow> label \<Rightarrow>
   'e vmod option \<Rightarrow> 'e vmod option \<Rightarrow> bool"
  for h a create_ssl rely where
  load: "vm_vcls m v = None \<Longrightarrow> card (dom (vm_vcls m)) < 2 ^ 32 - 1 \<Longrightarrow>
    fst c1 \<noteq> None \<Longrightarrow> fst c2 \<noteq> None \<Longrightarrow> snd c2 \<noteq> None \<Longrightarrow>
    vmod_step h a create_ssl rely (Load v) (Some m) (vmod_event_function h create_ssl v (Event_Load c1 c2) m)"
| settings: "vm_vcls m v \<noteq> None \<Longrightarrow>
    vmod_step h a create_ssl rely (Settings v) (Some m) (call_sentinels env args v m)"
| warm: "in_phase m v Cold \<Longrightarrow> vm_threads m t = None \<Longrightarrow>
    vmod_step h a create_ssl rely (Warm_Up v) (Some m) (vmod_event_function h create_ssl v (Event_Warm (Some t)) m)"
| cold: "in_phase m v Warm \<Longrightarrow>
    vmod_step h a create_ssl rely (Cool_Down v) (Some m) (vmod_event_function h create_ssl v Event_Cold m)"
| joined: "in_phase m v Stopping \<Longrightarrow> vm_vcls m v = Some vcl \<Longrightarrow> se_thread (vc_sentinels vcl) = Some t \<Longrightarrow>
    (\<And>th. vm_threads m t = Some th \<Longrightarrow> th_place th = Ended) \<Longrightarrow>
    vmod_step h a create_ssl rely (Joined v) (Some m) (cold_event_joined h v m)"
| discard: "in_phase m v Cold \<Longrightarrow>
    vmod_step h a create_ssl rely (Discard v) (Some m)
      (Option.bind (vmod_event_function h create_ssl v Event_Discard m) (free_vcl_state h v))"
| thread: "vm_threads m t \<noteq> None \<Longrightarrow>
    vmod_step h a create_ssl rely (Thread t) (Some m) (run_thread h a t m)"
| others: "m' = m\<lparr>vm_world := w, vm_vcls := (\<lambda>v. map_option (\<lambda>vcl. vcl\<lparr>vc_state := st v\<rparr>) (vm_vcls m v))\<rparr> \<Longrightarrow>
    rests m' \<Longrightarrow> vmod_version w = vmod_version (vm_world m) \<Longrightarrow> rely (net (vm_world m)) (net w) \<Longrightarrow>
    vmod_step h a create_ssl rely Others (Some m) (Some m')"

definition vmod_start :: "'e vmod option \<Rightarrow> bool" where
  "vmod_start s \<longleftrightarrow> (\<exists>m. s = Some m \<and> held (vm_world m) = [] \<and> vm_vcls m = Map.empty \<and> vm_threads m = Map.empty \<and>
     lk_refs (vm_locks m) = 0 \<and> lk_seg (vm_locks m) = None)"

section \<open>The invariant\<close>

definition locks_ok :: "'e vmod \<Rightarrow> bool" where
  "locks_ok m \<longleftrightarrow>
     finite (dom (vm_vcls m)) \<and> card (dom (vm_vcls m)) < 2 ^ 32 \<and>
     lk_refs (vm_locks m) = word_of_nat (card (dom (vm_vcls m))) \<and>
     (dom (vm_vcls m) = {} \<longleftrightarrow> lk_seg (vm_locks m) = None) \<and>
     (dom (vm_vcls m) \<noteq> {} \<longrightarrow> lk_config (vm_locks m) \<noteq> None \<and> lk_db (vm_locks m) \<noteq> None)"

text \<open>The thread of a VCL: none, one that is to go on, or one that is to stop.\<close>

definition has_thread :: "'e vmod \<Rightarrow> nat \<Rightarrow> sentinels \<Rightarrow> bool" where
  "has_thread m v se \<longleftrightarrow> se_locations se \<noteq> None \<and>
     (\<exists>t th. se_thread se = Some t \<and> vm_threads m t = Some th \<and> th_config th = v \<and>
        (th_place th = Ended \<longrightarrow> \<not> se_active se))"

fun vcl_ok :: "'e vmod \<Rightarrow> nat \<Rightarrow> phase \<Rightarrow> sentinels \<Rightarrow> bool" where
  "vcl_ok m v Cold se = (\<not> se_active se \<and> se_thread se = None)"
| "vcl_ok m v Warm se = (if se_active se then has_thread m v se else se_thread se = None)"
| "vcl_ok m v Stopping se = (\<not> se_active se \<and> has_thread m v se)"

lemma vcl_ok_threads: "vm_threads m' = vm_threads m \<Longrightarrow> vcl_ok m' v p se = vcl_ok m v p se"
  by (cases p) (simp_all add: has_thread_def)

definition thread_ok :: "'e vmod \<Rightarrow> nat \<Rightarrow> sentinel_thread \<Rightarrow> bool" where
  "thread_ok m t th \<longleftrightarrow> thread_fits th \<and>
     (\<exists>vcl. vm_vcls m (th_config th) = Some vcl \<and> se_thread (vc_sentinels vcl) = Some t)"

definition vmod_ok :: "'e vmod \<Rightarrow> bool" where
  "vmod_ok m \<longleftrightarrow> rests m \<and> locks_ok m \<and>
     (\<forall>v vcl. vm_vcls m v = Some vcl \<longrightarrow> vcl_ok m v (vc_phase vcl) (vc_sentinels vcl)) \<and>
     (\<forall>t th. vm_threads m t = Some th \<longrightarrow> thread_ok m t th)"

definition vmod_inv :: "'e vmod option \<Rightarrow> bool" where
  "vmod_inv s \<longleftrightarrow> (\<exists>m. s = Some m \<and> vmod_ok m)"

lemma vmod_okD:
  assumes "vmod_ok m"
  shows "rests m" "locks_ok m" "\<And>v vcl. vm_vcls m v = Some vcl \<Longrightarrow> vcl_ok m v (vc_phase vcl) (vc_sentinels vcl)"
    "\<And>t th. vm_threads m t = Some th \<Longrightarrow> thread_ok m t th"
  using assms by (simp_all add: vmod_ok_def)

text \<open>A VCL that changes keeps its databases, and the world the registries of all.\<close>

lemma world_config: "reg_ok d (w\<lparr>config := c\<rparr>) = reg_ok d w" "registered (w\<lparr>config := c\<rparr>) d = registered w d"
  by (simp_all add: reg_ok_def filed_ok_def registered_def)

lemma rests_databases:
  assumes "rests m" and "databases m' = databases m" and "held (vm_world m') = []"
    and "\<And>d. reg_ok d (vm_world m) \<Longrightarrow> reg_ok d (vm_world m')"
  shows "rests m'"
  using assms by (simp add: rests_def)

lemma rests_put:
  assumes "rests m" and "vm_vcls m v = Some vcl" and "thread_frame (at_vcl m vcl) w"
    and "vm_vcls m' = (vm_vcls m)(v \<mapsto> vcl')" and "vc_state vcl' = config w" and "vm_world m' = w"
  shows "rests m'"
proof (rule rests_databases [OF assms(1)])
  have f: "held w = []" "config w = vc_state vcl" "\<And>d. reg_ok d (vm_world m) \<Longrightarrow> reg_ok d w"
    using assms(3) by (simp_all add: thread_frame_def at_vcl_def world_config)
  show "databases m' = databases m" using f(2) assms(2,4,5) by (simp add: databases_def fun_eq_iff)
  show "held (vm_world m') = []" "\<And>d. reg_ok d (vm_world m) \<Longrightarrow> reg_ok d (vm_world m')" using f assms(6) by simp_all
qed

lemma rests_at_vcl:
  assumes "rests m" and "vm_vcls m v = Some vcl"
  shows "world_rests (at_vcl m vcl)" "distinct (vcl_dbs (vc_state vcl))"
proof -
  have "databases m v = vcl_dbs (vc_state vcl)" using assms(2) by (simp add: databases_def)
  moreover have "distinct (databases m v)" "\<forall>d \<in> set (databases m v). reg_ok d (vm_world m)" "held (vm_world m) = []"
    using assms(1) unfolding rests_def by blast+
  ultimately show "world_rests (at_vcl m vcl)" "distinct (vcl_dbs (vc_state vcl))"
    by (simp_all add: world_rests_def at_vcl_def world_config)
qed

lemma locks_put:
  assumes "locks_ok m" and "vm_vcls m v = Some vcl" and "vm_vcls m' = (vm_vcls m)(v \<mapsto> vcl')" and "vm_locks m' = vm_locks m"
  shows "locks_ok m'"
proof -
  have "dom (vm_vcls m') = dom (vm_vcls m)" using assms(2,3) by auto
  then show ?thesis using assms(1,4) by (simp add: locks_ok_def)
qed

lemma at_vcl_frame: "held (vm_world m) = [] \<Longrightarrow> thread_frame (at_vcl m vcl) (at_vcl m vcl)"
  by (simp add: thread_frame_def at_vcl_def)

text \<open>A step that changes one VCL and one thread keeps the invariant when what it changes is in order.\<close>

lemma vmod_ok_put:
  assumes ok: "vmod_ok m" and v: "vm_vcls m v = Some vcl"
    and m': "vm_vcls m' = (vm_vcls m)(v \<mapsto> vcl')" "vm_locks m' = vm_locks m"
    and rests: "rests m'"
    and vcl': "vcl_ok m' v (vc_phase vcl') (vc_sentinels vcl')"
    and others: "\<And>t th. vm_threads m t = Some th \<Longrightarrow> th_config th \<noteq> v \<Longrightarrow> vm_threads m' t = Some th"
    and threads: "\<And>t th. vm_threads m' t = Some th \<Longrightarrow>
      vm_threads m t = Some th \<and> th_config th \<noteq> v \<or>
      th_config th = v \<and> se_thread (vc_sentinels vcl') = Some t \<and> thread_fits th"
  shows "vmod_ok m'"
proof -
  have vcls: "vcl_ok m' v1 (vc_phase vcl1) (vc_sentinels vcl1)" if "vm_vcls m' v1 = Some vcl1" for v1 vcl1
  proof (cases "v1 = v")
    case True
    then show ?thesis using that m'(1) vcl' by simp
  next
    case False
    have has: "has_thread m' v1 se" if "has_thread m v1 se" for se
      using that False others unfolding has_thread_def by metis
    have "vm_vcls m v1 = Some vcl1" using False that m'(1) by simp
    then have "vcl_ok m v1 (vc_phase vcl1) (vc_sentinels vcl1)" using vmod_okD(3) [OF ok] by blast
    then show ?thesis using has by (cases "vc_phase vcl1") (auto split: if_splits)
  qed
  have "thread_ok m' t th" if "vm_threads m' t = Some th" for t th
  proof -
    from threads [OF that] show ?thesis
    proof
      assume a: "vm_threads m t = Some th \<and> th_config th \<noteq> v"
      then have "thread_ok m t th" using vmod_okD(4) [OF ok] by blast
      then show ?thesis using a m'(1) by (simp add: thread_ok_def)
    next
      assume "th_config th = v \<and> se_thread (vc_sentinels vcl') = Some t \<and> thread_fits th"
      then show ?thesis using m'(1) by (simp add: thread_ok_def)
    qed
  qed
  then show ?thesis
    using rests vcls locks_put [OF vmod_okD(2) [OF ok] v m'] by (simp add: vmod_ok_def)
qed

section \<open>The Pub/Sub connections of all threads\<close>

definition subs :: "'e vmod \<Rightarrow> nat \<Rightarrow> nat list" where
  "subs m t = (case vm_threads m t of None \<Rightarrow> [] | Some th \<Rightarrow> recorded (th_contexts th))"

text \<open>What hiredis has open is what the threads have on record, each once.\<close>

definition subs_ok :: "('e \<Rightarrow> nat set) \<Rightarrow> 'e vmod \<Rightarrow> bool" where
  "subs_ok alive m \<longleftrightarrow>
     (\<forall>t. distinct (subs m t)) \<and> (\<forall>t t'. t \<noteq> t' \<longrightarrow> set (subs m t) \<inter> set (subs m t') = {}) \<and>
     alive (net (vm_world m)) = (\<Union>t. set (subs m t))"

definition keeps :: "'e hiredis \<Rightarrow> 'e async \<Rightarrow> 'e vmod \<Rightarrow> 'e vmod option \<Rightarrow> bool" where
  "keeps h a m r \<longleftrightarrow> (\<exists>m'. r = Some m' \<and> vmod_ok m' \<and>
     (\<forall>alive. quiet h alive \<and> ledger a alive \<and> subs_ok alive m \<longrightarrow> subs_ok alive m'))"

lemma keepsI:
  assumes "vmod_ok m'" and "subs m' = subs m"
    and "\<And>alive. quiet h alive \<Longrightarrow> alive (net (vm_world m')) = alive (net (vm_world m))"
  shows "keeps h a m (Some m')"
proof -
  have "subs_ok alive m'" if "quiet h alive" "subs_ok alive m" for alive
    using that(2) by (simp add: subs_ok_def assms(2) assms(3) [OF that(1)])
  then show ?thesis using assms(1) by (auto simp: keeps_def)
qed

section \<open>Each step keeps the invariant\<close>

lemma refs_zero: "locks_ok m \<Longrightarrow> lk_refs (vm_locks m) = 0 \<longleftrightarrow> dom (vm_vcls m) = {}"
proof -
  assume ok: "locks_ok m"
  then have "unat (lk_refs (vm_locks m)) = card (dom (vm_vcls m))"
    by (simp add: locks_ok_def unat_of_nat)
  then have "lk_refs (vm_locks m) = 0 \<longleftrightarrow> card (dom (vm_vcls m)) = 0" by (metis unat_eq_zero)
  then show ?thesis using ok by (simp add: locks_ok_def)
qed

lemma keeps_load:
  assumes ok: "vmod_ok m" and new: "vm_vcls m v = None" and few: "card (dom (vm_vcls m)) < 2 ^ 32 - 1"
    and c: "fst c1 \<noteq> None" "fst c2 \<noteq> None" "snd c2 \<noteq> None"
  shows "keeps h a m (handle_vcl_load_event c1 c2 v m)"
proof -
  note lk = vmod_okD(2) [OF ok]
  obtain x y z where xyz: "fst c1 = Some x" "fst c2 = Some y" "snd c2 = Some z" using c by blast
  obtain lk' where create: "create_classes c1 c2 (vm_locks m) = Some lk'" and
    lk': "lk_refs lk' = lk_refs (vm_locks m)" "lk_seg lk' \<noteq> None" "lk_config lk' \<noteq> None" "lk_db lk' \<noteq> None"
    using lk refs_zero [OF lk] by (cases "lk_refs (vm_locks m) = 0") (auto simp: create_classes_def xyz locks_ok_def)
  obtain cf se where n: "new_vcl_state (lk'\<lparr>lk_refs := lk_refs lk' + 1\<rparr>) = Some (cf, se)"
    "vcl_dbs cf = []" "\<not> se_active se" "se_thread se = None"
    using lk'(3) by (auto simp: new_vcl_state_def)
  define m' where "m' = m\<lparr>vm_locks := lk'\<lparr>lk_refs := lk_refs lk' + 1\<rparr>,
    vm_vcls := (vm_vcls m)(v \<mapsto> \<lparr>vc_state = cf, vc_sentinels = se, vc_phase = Cold\<rparr>)\<rparr>"
  have run: "handle_vcl_load_event c1 c2 v m = Some m'"
    by (simp add: handle_vcl_load_event_def create n(1) m'_def)
  obtain vcl where vcl: "vm_vcls m' = (vm_vcls m)(v \<mapsto> vcl)" "vcl_dbs (vc_state vcl) = []" "vc_phase vcl = Cold"
    "\<not> se_active (vc_sentinels vcl)" "se_thread (vc_sentinels vcl) = None"
    using n by (auto simp: m'_def)
  have f: "vm_world m' = vm_world m" "vm_threads m' = vm_threads m"
    "vm_locks m' = lk'\<lparr>lk_refs := lk_refs lk' + 1\<rparr>" by (simp_all add: m'_def)
  have "databases m' = databases m" using new vcl(1,2) by (auto simp: databases_def fun_eq_iff)
  then have "rests m'" using vmod_okD(1) [OF ok] f(1) by (simp add: rests_def)
  moreover have "locks_ok m'"
  proof -
    have dom: "dom (vm_vcls m') = insert v (dom (vm_vcls m))" using vcl(1) by simp
    have fin: "finite (dom (vm_vcls m))" using lk by (simp add: locks_ok_def)
    have "card (dom (vm_vcls m')) = Suc (card (dom (vm_vcls m)))" using new fin by (simp add: dom domIff)
    then show ?thesis using lk few fin lk' f(3) dom by (simp add: locks_ok_def)
  qed
  moreover have "vcl_ok m' v1 (vc_phase vcl1) (vc_sentinels vcl1)" if "vm_vcls m' v1 = Some vcl1" for v1 vcl1
  proof (cases "v1 = v")
    case True
    then show ?thesis using that vcl by simp
  next
    case False
    then have "vcl_ok m v1 (vc_phase vcl1) (vc_sentinels vcl1)" using that vcl(1) vmod_okD(3) [OF ok] by simp
    then show ?thesis using vcl_ok_threads [OF f(2)] by simp
  qed
  moreover have "thread_ok m' t th" if "vm_threads m' t = Some th" for t th
  proof -
    have "thread_ok m t th" using that f(2) vmod_okD(4) [OF ok] by simp
    then show ?thesis using vcl(1) new by (auto simp: thread_ok_def)
  qed
  ultimately have "vmod_ok m'" by (simp add: vmod_ok_def)
  then show ?thesis unfolding run by (rule keepsI) (simp_all add: f subs_def fun_eq_iff)
qed

lemma rests_held: "rests m \<Longrightarrow> held (vm_world m) = []"
  by (simp add: rests_def)

lemma at_vcl_locks:
  assumes "rests m"
  shows "Lck_Lock Config_Mutex (at_vcl m vcl) = Some ((at_vcl m vcl)\<lparr>held := [Config_Mutex]\<rparr>)"
    "(at_vcl m vcl)\<lparr>held := []\<rparr> = at_vcl m vcl" "held (at_vcl m vcl) = []"
  using assms by (simp_all add: rests_def at_vcl_def Lck_Lock_def)

lemma vcl_keeps:
  assumes ok: "vmod_ok m" and v: "vm_vcls m v = Some vcl"
    and w: "thread_frame (at_vcl m vcl) w" "\<And>alive. quiet h alive \<Longrightarrow> alive (net w) = alive (net (vm_world m))"
    and m': "m' = put_vcl v (vcl\<lparr>vc_sentinels := se, vc_phase := p\<rparr>) w m"
    and se: "se_thread se = se_thread (vc_sentinels vcl)" "vcl_ok m v p se"
  shows "keeps h a m (Some m')"
proof (rule keepsI)
  let ?vcl = "vcl\<lparr>vc_sentinels := se, vc_phase := p, vc_state := config w\<rparr>"
  have f: "vm_vcls m' = (vm_vcls m)(v \<mapsto> ?vcl)" "vm_locks m' = vm_locks m" "vm_threads m' = vm_threads m" "vm_world m' = w"
    by (simp_all add: m' put_vcl_def)
  show "vmod_ok m'"
  proof (rule vmod_ok_put [OF ok v f(1,2)])
    show "rests m'" using rests_put [OF vmod_okD(1) [OF ok] v w(1) f(1)] f(4) by simp
    show "vcl_ok m' v (vc_phase ?vcl) (vc_sentinels ?vcl)" using se(2) vcl_ok_threads [OF f(3)] by simp
    show "vm_threads m' t = Some th" if "vm_threads m t = Some th" "th_config th \<noteq> v" for t th
      using that f(3) by simp
    show "vm_threads m t = Some th \<and> th_config th \<noteq> v \<or>
        th_config th = v \<and> se_thread (vc_sentinels ?vcl) = Some t \<and> thread_fits th"
      if "vm_threads m' t = Some th" for t th
      using that f(3) v se(1) vmod_okD(4) [OF ok, of t th] by (auto simp: thread_ok_def)
  qed
  show "subs m' = subs m" by (simp add: subs_def f fun_eq_iff)
  show "alive (net (vm_world m')) = alive (net (vm_world m))" if "quiet h alive" for alive
    using w(2) [OF that] f(4) by simp
qed

lemma keeps_settings:
  assumes ok: "vmod_ok m" and v: "vm_vcls m v \<noteq> None"
  shows "keeps h a m (call_sentinels env args v m)"
proof -
  obtain vcl where vcl: "vm_vcls m v = Some vcl" using v by blast
  note locks = at_vcl_locks [OF vmod_okD(1) [OF ok], of vcl]
  obtain se where run: "vmod_sentinels env args (vc_sentinels vcl) (at_vcl m vcl) = Some (se, at_vcl m vcl)"
    and se: "se_thread se = se_thread (vc_sentinels vcl)" "se_active se = se_active (vc_sentinels vcl)"
      "se_locations (vc_sentinels vcl) \<noteq> None \<longrightarrow> se = vc_sentinels vcl"
    using locks by (auto simp: vmod_sentinels_def Lck_Unlock_def Let_def)
  have "vcl_ok m v (vc_phase vcl) se"
    using vmod_okD(3) [OF ok vcl] se by (cases "vc_phase vcl") (auto simp: has_thread_def split: if_splits)
  then have "keeps h a m (Some (put_vcl v (vcl\<lparr>vc_sentinels := se, vc_phase := vc_phase vcl\<rparr>) (at_vcl m vcl) m))"
    by (intro vcl_keeps [OF ok vcl _ _ refl se(1)] at_vcl_frame rests_held vmod_okD(1) ok)
      (simp_all add: at_vcl_def)
  then show ?thesis by (simp add: call_sentinels_def vcl run)
qed

lemma put_vcl_fields [simp]:
  "vm_threads (put_vcl v vcl w m) = vm_threads m" "vm_locks (put_vcl v vcl w m) = vm_locks m"
  "vm_world (put_vcl v vcl w m) = w"
  "vm_vcls (put_vcl v vcl w m) = (vm_vcls m)(v \<mapsto> vcl\<lparr>vc_state := config w\<rparr>)"
  by (simp_all add: put_vcl_def)

lemma start_cases:
  assumes "Config_Mutex \<in> set (held w)" and "se_locations se \<noteq> None" and "se_thread se = None" and "\<not> se_active se"
  shows "unsafe_sentinel_start create_ssl (Some t) v w se = Some (se, None) \<or>
    (\<exists>th. unsafe_sentinel_start create_ssl (Some t) v w se =
        Some (se\<lparr>se_thread := Some t, se_active := True, se_discovery := True\<rparr>, Some (t, th)) \<and>
      th_config th = v \<and> th_place th = At_Top \<and> thread_fits th \<and> recorded (th_contexts th) = [])"
proof -
  obtain y where y: "se_locations se = Some y" using assms(2) by blast
  define ssl where "ssl = (if se_tls se then create_ssl (se_tls_names se) else None)"
  define st where "st = (new_state (se_period se) (se_connection_timeout se) (se_command_timeout se) (se_protocol se)
    ssl (se_password se))\<lparr>ss_sentinels := unsafe_set_locations y\<rparr>"
  let ?th = "\<lparr>th_config = v, th_place = At_Top, th_state = st, th_contexts = replicate (length (ss_sentinels st)) None\<rparr>"
  have start: "unsafe_sentinel_start create_ssl (Some t) v w se =
      (if se_tls se \<and> ssl = None \<or> ss_sentinels st = [] then Some (se, None)
       else Some (se\<lparr>se_thread := Some t, se_active := True, se_discovery := True\<rparr>, Some (t, ?th)))"
    using assms y by (simp add: unsafe_sentinel_start_def Lck_AssertHeld_def assert_that_def Let_def ssl_def st_def)
  have "thread_fits ?th" "recorded (th_contexts ?th) = []" by (simp_all add: thread_fits_def)
  then show ?thesis unfolding start by (cases "se_tls se \<and> ssl = None \<or> ss_sentinels st = []") auto
qed

lemma version_frame: "held w = [] \<Longrightarrow> thread_frame w (w\<lparr>vmod_version := n\<rparr>)"
  by (simp add: thread_frame_def reg_ok_def filed_ok_def registered_def)

lemma keeps_warm:
  assumes ok: "vmod_ok m" and v: "in_phase m v Cold" and t: "vm_threads m t = None"
  shows "keeps h a m (handle_vcl_warm_event create_ssl (Some t) v m)"
proof -
  obtain vcl where vcl: "vm_vcls m v = Some vcl" "vc_phase vcl = Cold" using v by (auto simp: in_phase_def)
  let ?se = "vc_sentinels vcl"
  have cold: "\<not> se_active ?se" "se_thread ?se = None" using vmod_okD(3) [OF ok vcl(1)] vcl(2) by simp_all
  define w where "w = (at_vcl m vcl)\<lparr>vmod_version := vmod_version (at_vcl m vcl) + 1\<rparr>"
  have rest: "held (at_vcl m vcl) = []" using at_vcl_locks [OF vmod_okD(1) [OF ok]] by blast
  have w: "thread_frame (at_vcl m vcl) w" "net w = net (vm_world m)" "held w = []" "config w = vc_state vcl"
    using version_frame [OF rest] rest by (simp_all add: w_def at_vcl_def)
  have "w\<lparr>held := []\<rparr> = w" using w(3) by (cases w) simp
  then have locks: "Lck_Lock Config_Mutex w = Some (w\<lparr>held := [Config_Mutex]\<rparr>)"
    "Lck_Unlock Config_Mutex (w\<lparr>held := [Config_Mutex]\<rparr>) = Some w"
    using w(3) by (simp_all add: Lck_Lock_def Lck_Unlock_def)
  have same: "keeps h a m (Some (put_vcl v (vcl\<lparr>vc_sentinels := ?se, vc_phase := Warm\<rparr>) w m))"
    by (intro vcl_keeps [OF ok vcl(1) w(1) _ refl]) (simp_all add: w(2) cold)
  show ?thesis
  proof (cases "se_locations ?se = None")
    case True
    then have "handle_vcl_warm_event create_ssl (Some t) v m = Some (put_vcl v (vcl\<lparr>vc_sentinels := ?se, vc_phase := Warm\<rparr>) w m)"
      by (simp add: handle_vcl_warm_event_def vcl(1) w_def [symmetric] locks)
    then show ?thesis using same by simp
  next
    case False
    have "Config_Mutex \<in> set (held (w\<lparr>held := [Config_Mutex]\<rparr>))" by simp
    from start_cases [OF this False cold(2,1), of create_ssl t v] show ?thesis
    proof (elim disjE exE conjE)
      assume s: "unsafe_sentinel_start create_ssl (Some t) v (w\<lparr>held := [Config_Mutex]\<rparr>) ?se = Some (?se, None)"
      have "handle_vcl_warm_event create_ssl (Some t) v m = Some (put_vcl v (vcl\<lparr>vc_sentinels := ?se, vc_phase := Warm\<rparr>) w m)"
        using False cold s
        by (simp add: handle_vcl_warm_event_def vcl(1) w_def [symmetric] locks)
      then show ?thesis using same by simp
    next
      fix th
      let ?se' = "?se\<lparr>se_thread := Some t, se_active := True, se_discovery := True\<rparr>"
      assume s: "unsafe_sentinel_start create_ssl (Some t) v (w\<lparr>held := [Config_Mutex]\<rparr>) ?se = Some (?se', Some (t, th))"
        and th: "th_config th = v" "th_place th = At_Top" "thread_fits th" "recorded (th_contexts th) = []"
      define m' where "m' = (put_vcl v (vcl\<lparr>vc_sentinels := ?se', vc_phase := Warm\<rparr>) w m)\<lparr>vm_threads := (vm_threads m)(t \<mapsto> th)\<rparr>"
      have run: "handle_vcl_warm_event create_ssl (Some t) v m = Some m'"
        using False cold s
        by (simp add: handle_vcl_warm_event_def vcl(1) w_def [symmetric] locks m'_def Let_def)
      let ?vcl = "vcl\<lparr>vc_sentinels := ?se', vc_phase := Warm, vc_state := config w\<rparr>"
      have f: "vm_vcls m' = (vm_vcls m)(v \<mapsto> ?vcl)" "vm_locks m' = vm_locks m"
        "vm_threads m' = (vm_threads m)(t \<mapsto> th)" "vm_world m' = w"
        by (simp_all add: m'_def put_vcl_def)
      have none: "th_config th1 \<noteq> v" if "vm_threads m t1 = Some th1" for t1 th1
        using vmod_okD(4) [OF ok that] cold(2) vcl(1) by (auto simp: thread_ok_def)
      show ?thesis unfolding run
      proof (rule keepsI)
        show "vmod_ok m'"
        proof (rule vmod_ok_put [OF ok vcl(1) f(1,2)])
          show "rests m'" using rests_put [OF vmod_okD(1) [OF ok] vcl(1) w(1) f(1)] f(4) by simp
          show "vcl_ok m' v (vc_phase ?vcl) (vc_sentinels ?vcl)" using f(3) th False by (simp add: has_thread_def)
          show "vm_threads m' t1 = Some th1" if "vm_threads m t1 = Some th1" "th_config th1 \<noteq> v" for t1 th1
            using that f(3) t by auto
          show "vm_threads m t1 = Some th1 \<and> th_config th1 \<noteq> v \<or>
              th_config th1 = v \<and> se_thread (vc_sentinels ?vcl) = Some t1 \<and> thread_fits th1"
            if "vm_threads m' t1 = Some th1" for t1 th1
            using that f(3) th none by (auto split: if_splits)
        qed
        show "subs m' = subs m" using th(4) t by (auto simp: subs_def f(3) fun_eq_iff)
        show "alive (net (vm_world m')) = alive (net (vm_world m))" for alive using w(2) f(4) by simp
      qed
    qed
  qed
qed

lemma closed_alive: "quiet h alive \<Longrightarrow> alive (closed h cs e) = alive e"
  by (induction cs arbitrary: e) (simp_all add: closed_def quiet_simps)

lemma world_pools:
  "reg_ok d (w\<lparr>net := e, srvs := (\<lambda>s. if s \<in> A then (srvs w s)\<lparr>sv_pool := p\<rparr> else srvs w s)\<rparr>) = reg_ok d w"
  "registered (w\<lparr>net := e, srvs := f\<rparr>) d = registered w d"
proof -
  let ?w = "w\<lparr>net := e, srvs := (\<lambda>s. if s \<in> A then (srvs w s)\<lparr>sv_pool := p\<rparr> else srvs w s)\<rparr>"
  have "filed_ok ?w d wt r s = filed_ok w d wt r s" "sv_raw (srvs ?w s) = sv_raw (srvs w s)" for wt r s
    by (simp_all add: filed_ok_def)
  moreover show "registered (w\<lparr>net := e, srvs := f\<rparr>) d = registered w d" for f by (simp add: registered_def)
  ultimately show "reg_ok d ?w = reg_ok d w" by (simp only: reg_ok_def) simp
qed

lemma release_rests:
  assumes w: "world_rests w" and dis: "distinct (vcl_dbs (config w))"
  shows "\<exists>w'. release_pools h w = Some w' \<and> thread_frame w w' \<and> (\<forall>alive. quiet h alive \<longrightarrow> alive (net w') = alive (net w))"
proof -
  let ?L = "concat (map (visited w) (vcl_dbs (config w)))"
  have held: "held w = []" and reg: "\<forall>d \<in> set (vcl_dbs (config w)). reg_ok d w" using w by (simp_all add: world_rests_def)
  have "release_pools h w = Some (w\<lparr>net := closed h (concat (map (pooled w) ?L)) (net w),
      srvs := (\<lambda>s. if s \<in> set ?L then (srvs w s)\<lparr>sv_pool := empty_pool\<rparr> else srvs w s)\<rparr>)"
    unfolding release_pools_eq [OF held] fold_release [OF all_visited(1) [OF dis reg]] by (rule refl)
  then show ?thesis using held by (simp add: thread_frame_def world_pools closed_alive del: set_concat)
qed

lemma keeps_release:
  assumes ok: "vmod_ok m" and v: "vm_vcls m v = Some vcl" and cold: "vcl_ok m v Cold (vc_sentinels vcl)"
  shows "keeps h a m (release_vcl h v m)"
proof -
  note r = vmod_okD(1) [OF ok]
  obtain w where w: "release_pools h (at_vcl m vcl) = Some w" "thread_frame (at_vcl m vcl) w"
    "\<forall>alive. quiet h alive \<longrightarrow> alive (net w) = alive (net (at_vcl m vcl))"
    using release_rests [OF rests_at_vcl(1) [OF r v], of h] rests_at_vcl(2) [OF r v] by (auto simp: at_vcl_def)
  have "keeps h a m (Some (put_vcl v (vcl\<lparr>vc_sentinels := vc_sentinels vcl, vc_phase := Cold\<rparr>) w m))"
    using w(3) by (intro vcl_keeps [OF ok v w(2) _ refl refl cold]) (simp add: at_vcl_def)
  then show ?thesis by (simp add: release_vcl_def v w(1))
qed

lemma stop_eq:
  assumes "Config_Mutex \<in> set (held w)" and "se_locations se \<noteq> None" and "se_thread se = Some t" and "se_active se"
  shows "unsafe_sentinel_stop w se = Some (se\<lparr>se_active := False\<rparr>)"
  using assms by (auto simp: unsafe_sentinel_stop_def Lck_AssertHeld_def assert_that_def)

lemma keeps_cold:
  assumes ok: "vmod_ok m" and v: "in_phase m v Warm"
  shows "keeps h a m (handle_vcl_cold_event h v m)"
proof -
  obtain vcl where vcl: "vm_vcls m v = Some vcl" "vc_phase vcl = Warm" using v by (auto simp: in_phase_def)
  let ?se = "vc_sentinels vcl"
  note r = vmod_okD(1) [OF ok]
  note locks = at_vcl_locks [OF r, of vcl]
  have unlock: "Lck_Unlock Config_Mutex ((at_vcl m vcl)\<lparr>held := [Config_Mutex]\<rparr>) = Some (at_vcl m vcl)"
    using locks(2) by (simp add: Lck_Unlock_def)
  have warm: "vcl_ok m v Warm ?se" using vmod_okD(3) [OF ok vcl(1)] vcl(2) by simp
  show ?thesis
  proof (cases "se_active ?se")
    case True
    then have has: "has_thread m v ?se" using warm by simp
    then obtain t where t: "se_locations ?se \<noteq> None" "se_thread ?se = Some t" by (auto simp: has_thread_def)
    have "has_thread m v (?se\<lparr>se_active := False\<rparr>)" using has by (auto simp: has_thread_def)
    then have "keeps h a m (Some (put_vcl v (vcl\<lparr>vc_sentinels := ?se\<lparr>se_active := False\<rparr>, vc_phase := Stopping\<rparr>) (at_vcl m vcl) m))"
      by (intro vcl_keeps [OF ok vcl(1) at_vcl_frame [OF rests_held [OF r]] _ refl]) (simp_all add: at_vcl_def)
    then show ?thesis
      using True stop_eq [OF _ t True, of "(at_vcl m vcl)\<lparr>held := [Config_Mutex]\<rparr>"]
      by (simp add: handle_vcl_cold_event_def vcl(1) locks(1) unlock)
  next
    case False
    have "put_vcl v vcl (at_vcl m vcl) m = m\<lparr>vm_world := at_vcl m vcl\<rparr>"
      using vcl(1) by (auto simp: put_vcl_def at_vcl_def fun_upd_idem)
    moreover have "release_vcl h v (m\<lparr>vm_world := at_vcl m vcl\<rparr>) = release_vcl h v m"
      by (simp add: release_vcl_def vcl(1) at_vcl_def put_vcl_def)
    ultimately have "handle_vcl_cold_event h v m = release_vcl h v m"
      using False by (simp add: handle_vcl_cold_event_def vcl(1) locks(1) unlock)
    then show ?thesis using keeps_release [OF ok vcl(1)] warm False by simp
  qed
qed

lemma keeps_same:
  assumes "keeps h a m1 r" and "subs m1 = subs m" and "vm_world m1 = vm_world m"
  shows "keeps h a m r"
  using assms by (simp add: keeps_def subs_ok_def)

lemma keeps_joined:
  assumes ok: "vmod_ok m" and v: "vm_vcls m v = Some vcl" "vc_phase vcl = Stopping"
    and t: "se_thread (vc_sentinels vcl) = Some t" and ended: "\<And>th. vm_threads m t = Some th \<Longrightarrow> th_place th = Ended"
  shows "keeps h a m (cold_event_joined h v m)"
proof -
  have stopping: "\<not> se_active (vc_sentinels vcl)" "has_thread m v (vc_sentinels vcl)" using vmod_okD(3) [OF ok v(1)] v(2) by simp_all
  then obtain th where th: "vm_threads m t = Some th" "th_config th = v" using t by (auto simp: has_thread_def)
  have fits: "thread_fits th" using vmod_okD(4) [OF ok th(1)] by (simp add: thread_ok_def)
  let ?se = "(vc_sentinels vcl)\<lparr>se_thread := None\<rparr>"
  let ?m1 = "m\<lparr>vm_threads := (vm_threads m)(t := None), vm_vcls := (vm_vcls m)(v \<mapsto> vcl\<lparr>vc_sentinels := ?se\<rparr>)\<rparr>"
  let ?vcl = "vcl\<lparr>vc_sentinels := ?se, vc_phase := Cold\<rparr>"
  let ?m2 = "m\<lparr>vm_threads := (vm_threads m)(t := None), vm_vcls := (vm_vcls m)(v \<mapsto> ?vcl)\<rparr>"
  have "cold_event_joined h v m = release_vcl h v ?m1"
    by (simp add: cold_event_joined_def v(1) t th(1) ended [OF th(1)] assert_that_def Let_def)
  also have "\<dots> = release_vcl h v ?m2"
    by (cases "release_pools h (at_vcl m vcl)") (simp_all add: release_vcl_def at_vcl_def put_vcl_def)
  finally have run: "cold_event_joined h v m = release_vcl h v ?m2" .
  have mine: "t1 = t" if "vm_threads m t1 = Some th1" "th_config th1 = v" for t1 th1
    using vmod_okD(4) [OF ok that(1)] that(2) v(1) t by (simp add: thread_ok_def)
  have f: "vm_vcls ?m2 = (vm_vcls m)(v \<mapsto> ?vcl)" "vm_locks ?m2 = vm_locks m" by simp_all
  have "vmod_ok ?m2"
  proof (rule vmod_ok_put [OF ok v(1) f])
    show "rests ?m2"
    proof (rule rests_databases [OF vmod_okD(1) [OF ok]])
      show "databases ?m2 = databases m" by (simp add: databases_def fun_eq_iff v(1))
    qed (use rests_held [OF vmod_okD(1) [OF ok]] in simp_all)
    show "vcl_ok ?m2 v (vc_phase ?vcl) (vc_sentinels ?vcl)" using stopping(1) by simp
    show "vm_threads ?m2 t1 = Some th1" if "vm_threads m t1 = Some th1" "th_config th1 \<noteq> v" for t1 th1
      using that th by auto
    show "vm_threads m t1 = Some th1 \<and> th_config th1 \<noteq> v \<or>
        th_config th1 = v \<and> se_thread (vc_sentinels ?vcl) = Some t1 \<and> thread_fits th1"
      if "vm_threads ?m2 t1 = Some th1" for t1 th1
      using that mine by (auto split: if_splits)
  qed
  then have k: "keeps h a ?m2 (release_vcl h v ?m2)" by (rule keeps_release [where vcl = ?vcl]) (simp_all add: stopping(1))
  have s: "subs ?m2 = subs m"
    using fits ended [OF th(1)] th(1) by (auto simp: subs_def thread_fits_def fun_eq_iff)
  show ?thesis unfolding run by (rule keeps_same [OF k s]) simp
qed

lemma UN_split: "(\<Union>x. f x) = (\<Union>x \<in> - {y}. f x) \<union> f y"
  by auto

lemma keeps_thread:
  assumes ok: "vmod_ok m" and t: "vm_threads m t \<noteq> None"
  shows "keeps h a m (run_thread h a t m)"
proof -
  obtain th where th: "vm_threads m t = Some th" using t by blast
  obtain vcl where vcl: "vm_vcls m (th_config th) = Some vcl" "se_thread (vc_sentinels vcl) = Some t" and fits: "thread_fits th"
    using vmod_okD(4) [OF ok th] by (auto simp: thread_ok_def)
  let ?v = "th_config th" and ?se = "vc_sentinels vcl"
  note r = vmod_okD(1) [OF ok]
  obtain se' th' w' where step: "thread_step h a ?se th (at_vcl m vcl) = Some (se', th', w')"
    and sok: "step_ok h a ?se th (at_vcl m vcl) (se', th', w')"
    using thread_step_ok [OF rests_at_vcl(1) [OF r vcl(1)] fits, of h a ?se] by (metis surj_pair)
  have se': "se_thread se' = Some t" "se_active se' = se_active ?se" "se_locations se' = se_locations ?se"
    and th': "th_config th' = ?v" "thread_fits th'" "th_place th' = Ended \<Longrightarrow> th_place th = Ended \<or> \<not> se_active ?se"
    using sok vcl(2) by (auto simp: step_ok_def) (metis sentinels.select_convs(1,9,10) sentinels.surjective sentinels.update_convs(11))+
  have frame: "thread_frame (at_vcl m vcl) w'" using sok by (simp add: step_ok_def)
  define m' where "m' = (put_vcl ?v (vcl\<lparr>vc_sentinels := se'\<rparr>) w' m)\<lparr>vm_threads := (vm_threads m)(t \<mapsto> th')\<rparr>"
  let ?vcl = "vcl\<lparr>vc_sentinels := se', vc_state := config w'\<rparr>"
  have run: "run_thread h a t m = Some m'" by (simp add: run_thread_def th vcl(1) step m'_def)
  have f: "vm_vcls m' = (vm_vcls m)(?v \<mapsto> ?vcl)" "vm_locks m' = vm_locks m" "vm_threads m' = (vm_threads m)(t \<mapsto> th')"
    "vm_world m' = w'" by (simp_all add: m'_def)
  have vok: "vcl_ok m ?v (vc_phase vcl) ?se" by (rule vmod_okD(3) [OF ok vcl(1)])
  have mine: "t1 = t" if "vm_threads m t1 = Some th1" "th_config th1 = ?v" for t1 th1
    using vmod_okD(4) [OF ok that(1)] that(2) vcl by (simp add: thread_ok_def)
  have "vmod_ok m'"
  proof (rule vmod_ok_put [OF ok vcl(1) f(1,2)])
    show "rests m'" using rests_put [OF r vcl(1) frame f(1)] f(4) by simp
    have has: "has_thread m' ?v se'" if "has_thread m ?v ?se"
      using that se' th' f(3) th vcl(2) by (auto simp: has_thread_def)
    show "vcl_ok m' ?v (vc_phase ?vcl) (vc_sentinels ?vcl)"
      using vok has se' vcl(2) by (cases "vc_phase vcl") (auto split: if_splits)
    show "vm_threads m' t1 = Some th1" if "vm_threads m t1 = Some th1" "th_config th1 \<noteq> ?v" for t1 th1
      using that th f(3) by auto
    show "vm_threads m t1 = Some th1 \<and> th_config th1 \<noteq> ?v \<or>
        th_config th1 = ?v \<and> se_thread (vc_sentinels ?vcl) = Some t1 \<and> thread_fits th1"
      if "vm_threads m' t1 = Some th1" for t1 th1
      using that mine f(3) th' se'(1) by (auto split: if_splits)
  qed
  moreover have "subs_ok alive m'" if q: "quiet h alive" "ledger a alive" and s: "subs_ok alive m" for alive
  proof -
    let ?F = "\<Union>t1 \<in> - {t}. set (subs m t1)"
    have mine: "subs m t = recorded (th_contexts th)" "subs m' t = recorded (th_contexts th')"
      "\<And>t1. t1 \<noteq> t \<Longrightarrow> subs m' t1 = subs m t1"
      by (simp_all add: subs_def th f(3))
    have whole: "(\<Union>t1. set (subs m t1)) = ?F \<union> set (recorded (th_contexts th))"
      unfolding UN_split [of _ t] mine(1) by (rule refl)
    have dis: "set (subs m t1) \<inter> set (subs m t2) = {}" if "t1 \<noteq> t2" for t1 t2
      using s that by (simp add: subs_ok_def)
    have "?F \<inter> set (subs m t) = {}" using dis [of _ t] by blast
    moreover have "distinct (subs m t)" "alive (net (vm_world m)) = (\<Union>t1. set (subs m t1))"
      using s by (simp_all add: subs_ok_def)
    ultimately have "accounted alive ?F (th_contexts th) (net (at_vcl m vcl))"
      unfolding accounted_def whole mine(1) by (simp add: at_vcl_def)
    then have acc: "accounted alive ?F (th_contexts th') (net w')"
      using sok q unfolding step_ok_def by simp
    show ?thesis unfolding subs_ok_def
    proof (intro conjI allI impI)
      show "distinct (subs m' t1)" for t1
        using acc s mine by (cases "t1 = t") (simp_all add: accounted_def subs_ok_def)
      show "set (subs m' t1) \<inter> set (subs m' t2) = {}" if "t1 \<noteq> t2" for t1 t2
      proof -
        have e: "set (subs m x) \<inter> set (subs m' t) = {}" if "x \<noteq> t" for x
        proof -
          have "set (subs m x) \<subseteq> ?F" using that by blast
          then show ?thesis using acc mine(2) by (auto simp: accounted_def)
        qed
        show ?thesis
          using dis [OF that] e [of t1] e [of t2] mine(3) [of t1] mine(3) [of t2] that
          by (cases "t1 = t"; cases "t2 = t") (simp_all add: Int_commute)
      qed
      have "(\<Union>t1 \<in> - {t}. set (subs m' t1)) = ?F" by (rule SUP_cong) (simp_all add: mine(3))
      then have "(\<Union>t1. set (subs m' t1)) = ?F \<union> set (recorded (th_contexts th'))"
        unfolding UN_split [of _ t] mine(2) by simp
      then show "alive (net (vm_world m')) = (\<Union>t1. set (subs m' t1))" using acc f(4) by (simp add: accounted_def)
    qed
  qed
  ultimately show ?thesis unfolding run keeps_def by blast
qed

text \<open>The databases of a VCL that is discarded.\<close>

lemma free_next_srv: "next_srv (free_vmod_redis_db h d w) = next_srv w"
proof -
  have s: "next_srv (free_servers h d c ss w) = next_srv w" for c ss w
    by (induction ss arbitrary: w) (simp_all add: free_redis_server_def release_pool_eq Let_def frame_simps)
  have "next_srv (fold (\<lambda>c w. free_servers h d c (servers (dbs w d) (fst c) (snd c)) w) cs w) = next_srv w" for cs
    by (induction cs arbitrary: w) (simp_all add: s)
  then show ?thesis by (simp add: free_vmod_redis_db_def)
qed

lemma free_db_rests:
  assumes ok: "reg_ok d w" and w': "w' = free_vmod_redis_db h d w"
  shows "held w' = held w" "\<And>x. x \<noteq> d \<Longrightarrow> reg_ok x w \<Longrightarrow> reg_ok x w'" "quiet h alive \<Longrightarrow> alive (net w') = alive (net w)"
proof -
  have vis: "cell_servers w d cells = visited w d" by (simp add: cell_servers_def visited_def)
  have "distinct (cell_servers w d cells)" using visited_registered(2) [OF ok] by (simp add: vis)
  from free_cells [OF cells_distinct this, of h]
  have f: "net w' = closed h (concat (map (pooled w) (visited w d))) (net w)" "\<And>x. x \<noteq> d \<Longrightarrow> dbs w' x = dbs w x"
    "held w' = held w" "\<And>s. s \<notin> registered w d \<Longrightarrow> srvs w' s = srvs w s"
    using visited_registered(1) [OF ok] by (simp_all add: w' free_vmod_redis_db_def vis Let_def)
  show "held w' = held w" by (rule f(3))
  show "quiet h alive \<Longrightarrow> alive (net w') = alive (net w)" by (simp add: f(1) closed_alive)
  show "reg_ok x w'" if x: "x \<noteq> d" "reg_ok x w" for x
  proof (rule reg_okI)
    have same: "srvs w' s = srvs w s" if "s \<in> registered w x" for s
      using f(4) [of s] registered_db [OF ok] registered_db [OF x(2) that] x(1) by blast
    have reg: "registered w' x = registered w x" by (simp add: registered_def f(2) [OF x(1)])
    show "distinct (servers (dbs w' x) wt r)" for wt r using reg_ok_distinct [OF x(2)] by (simp add: f(2) [OF x(1)])
    show "filed_ok w' x wt r s" if "s \<in> set (servers (dbs w' x) wt r)" for wt r s
    proof -
      have "s \<in> registered w x" using that f(2) [OF x(1)] by (auto simp: registered_def)
      then show ?thesis
        using reg_ok_filed [OF x(2)] that same f(2) [OF x(1)] free_next_srv [of h d w] by (simp add: filed_ok_def w')
    qed
    show "s = s'" if "s \<in> registered w' x" "s' \<in> registered w' x" "sv_raw (srvs w' s) = sv_raw (srvs w' s')" for s s'
      using reg_ok_inj [OF x(2)] that same reg by simp
  qed
qed

lemma free_databases_rests:
  assumes "distinct ds" and "\<forall>d \<in> set ds. reg_ok d w"
  shows "held (free_databases h ds w) = held w \<and>
    (\<forall>x. x \<notin> set ds \<longrightarrow> reg_ok x w \<longrightarrow> reg_ok x (free_databases h ds w)) \<and>
    (\<forall>alive. quiet h alive \<longrightarrow> alive (net (free_databases h ds w)) = alive (net w))"
  using assms
proof (induction ds arbitrary: w)
  case Nil
  then show ?case by simp
next
  case (Cons d ds)
  note f = free_db_rests [OF _ refl, where d = d and w = w and h = h]
  have "\<forall>x \<in> set ds. reg_ok x (free_vmod_redis_db h d w)"
    using Cons.prems f(2) by (metis distinct.simps(2) list.set_intros(1,2))
  with Cons.IH [of "free_vmod_redis_db h d w"] Cons.prems(1)
  have ih: "held (free_databases h (d # ds) w) = held (free_vmod_redis_db h d w)"
    "\<And>x. x \<notin> set ds \<Longrightarrow> reg_ok x (free_vmod_redis_db h d w) \<Longrightarrow> reg_ok x (free_databases h (d # ds) w)"
    "\<And>alive. quiet h alive \<Longrightarrow> alive (net (free_databases h (d # ds) w)) = alive (net (free_vmod_redis_db h d w))"
    by simp_all
  have ok: "reg_ok d w" using Cons.prems(2) by simp
  have "alive (net (free_databases h (d # ds) w)) = alive (net w)" if "quiet h alive" for alive
    using ih(3) [OF that] f(3) [OF ok that] by simp
  moreover have "reg_ok x (free_databases h (d # ds) w)" if "x \<notin> set (d # ds)" "reg_ok x w" for x
    using that ih(2) [of x] f(2) [OF ok, of x] by simp
  moreover have "held (free_databases h (d # ds) w) = held w" using ih(1) f(1) [OF ok] by simp
  ultimately show ?case by blast
qed

lemma word_small_zero: "k < 2 ^ 32 \<Longrightarrow> (word_of_nat k :: uint) = 0 \<longleftrightarrow> k = 0"
  by (auto simp: word_of_nat_eq_0_iff dest: nat_dvd_not_less [rotated])

lemma keeps_discard:
  assumes ok: "vmod_ok m" and v: "in_phase m v Cold"
  shows "keeps h a m (Option.bind (handle_vcl_discard_event v m) (free_vcl_state h v))"
proof -
  obtain vcl where vcl: "vm_vcls m v = Some vcl" "vc_phase vcl = Cold" using v by (auto simp: in_phase_def)
  have cold: "se_thread (vc_sentinels vcl) = None" using vmod_okD(3) [OF ok vcl(1)] vcl(2) by simp
  note lk = vmod_okD(2) [OF ok] and r = vmod_okD(1) [OF ok]
  have dom: "v \<in> dom (vm_vcls m)" using vcl(1) by blast
  have fin: "finite (dom (vm_vcls m))" "card (dom (vm_vcls m)) < 2 ^ 32" using lk by (simp_all add: locks_ok_def)
  let ?n = "card (dom (vm_vcls m))"
  have pos: "0 < ?n" using dom fin(1) by (auto simp: card_gt_0_iff)
  have refs: "lk_refs (vm_locks m) = word_of_nat ?n" "lk_seg (vm_locks m) \<noteq> None"
    "lk_config (vm_locks m) \<noteq> None" "lk_db (vm_locks m) \<noteq> None"
    using lk dom by (auto simp: locks_ok_def)
  have nonzero: "lk_refs (vm_locks m) > 0" using refs_zero [OF lk] dom by (auto simp: word_gt_0)
  have minus: "lk_refs (vm_locks m) - 1 = word_of_nat (?n - 1)" using pos by (simp add: refs(1))
  have last: "lk_refs (vm_locks m) - 1 = 0 \<longleftrightarrow> ?n = 1"
    using fin(2) pos word_small_zero [of "?n - 1"] unfolding minus by linarith
  define lk1 where "lk1 = (vm_locks m)\<lparr>lk_refs := lk_refs (vm_locks m) - 1\<rparr>"
  define lk' where "lk' = (if ?n = 1 then lk1\<lparr>lk_seg := None\<rparr> else lk1)"
  have event: "handle_vcl_discard_event v m = Some (m\<lparr>vm_locks := lk'\<rparr>)"
    using nonzero last refs(2) by (cases "?n = 1") (auto simp: handle_vcl_discard_event_def vcl(1) assert_that_def Let_def lk1_def lk'_def)
  have lk': "lk_refs lk' = word_of_nat (?n - 1)" "?n = 1 \<longleftrightarrow> lk_seg lk' = None" "lk_config lk' \<noteq> None" "lk_db lk' \<noteq> None"
    using refs minus by (simp_all add: lk'_def lk1_def)
  let ?m1 = "m\<lparr>vm_locks := lk'\<rparr>"
  let ?ds = "vcl_dbs (vc_state vcl)"
  define m' where "m' = ?m1\<lparr>vm_world := free_databases h ?ds (vm_world m), vm_vcls := (vm_vcls m)(v := None)\<rparr>"
  have run: "Option.bind (handle_vcl_discard_event v m) (free_vcl_state h v) = Some m'"
    by (simp add: event free_vcl_state_def vcl(1) m'_def)
  have f: "vm_vcls m' = (vm_vcls m)(v := None)" "vm_locks m' = lk'" "vm_threads m' = vm_threads m"
    "vm_world m' = free_databases h ?ds (vm_world m)" by (simp_all add: m'_def)
  have "\<forall>d \<in> set ?ds. reg_ok d (vm_world m)"
    using rests_at_vcl(1) [OF r vcl(1)] by (simp add: world_rests_def at_vcl_def world_config)
  note free = free_databases_rests [OF rests_at_vcl(2) [OF r vcl(1)] this, of h]
  have db: "databases m' x = (if x = v then [] else databases m x)" for x by (simp add: databases_def f(1))
  have "rests m'"
    unfolding rests_def
  proof (intro conjI allI ballI impI)
    have mine: "databases m v = ?ds" by (simp add: databases_def vcl(1))
    show "held (vm_world m') = []" using free rests_held [OF r] f(4) by simp
    show "distinct (databases m' x)" for x using r by (simp add: db rests_def)
    show "reg_ok d (vm_world m')" if "d \<in> set (databases m' x)" for x d
    proof -
      have x: "x \<noteq> v" "d \<in> set (databases m x)" using that by (auto simp: db split: if_splits)
      then have "d \<notin> set ?ds" "reg_ok d (vm_world m)" using r mine unfolding rests_def by (metis disjoint_iff)+
      then show ?thesis using free f(4) by simp
    qed
    show "set (databases m' x) \<inter> set (databases m' y) = {}" if "x \<noteq> y" for x y
      using r that by (simp add: db rests_def)
  qed
  moreover have "locks_ok m'"
  proof -
    have d: "dom (vm_vcls m') = dom (vm_vcls m) - {v}" by (auto simp: f(1))
    have c: "card (dom (vm_vcls m')) = ?n - 1" using fin(1) dom by (simp add: d)
    have "dom (vm_vcls m') = {} \<longleftrightarrow> ?n - 1 = 0" using c fin(1) d by (metis card_eq_0_iff finite_Diff)
    moreover have "?n - 1 = 0 \<longleftrightarrow> ?n = 1" using pos by linarith
    ultimately show ?thesis using fin lk' f(2) c d by (simp add: locks_ok_def)
  qed
  moreover have "vcl_ok m' x (vc_phase y) (vc_sentinels y)" if "vm_vcls m' x = Some y" for x y
    using that vmod_okD(3) [OF ok, of x y] vcl_ok_threads [OF f(3)] f(1) by (simp split: if_splits)
  moreover have "thread_ok m' t th" if "vm_threads m' t = Some th" for t th
    using that vmod_okD(4) [OF ok, of t th] f(1,3) vcl(1) cold by (auto simp: thread_ok_def)
  ultimately have "vmod_ok m'" by (simp add: vmod_ok_def)
  then show ?thesis unfolding run
  proof (rule keepsI)
    show "subs m' = subs m" by (simp add: subs_def f(3) fun_eq_iff)
    show "alive (net (vm_world m')) = alive (net (vm_world m))" if "quiet h alive" for alive
      using free that f(4) by simp
  qed
qed

text \<open>What the workers do.\<close>

lemma others_ok:
  assumes ok: "vmod_ok m" and m': "m' = m\<lparr>vm_world := w, vm_vcls := (\<lambda>v. map_option (\<lambda>vcl. vcl\<lparr>vc_state := st v\<rparr>) (vm_vcls m v))\<rparr>"
    and rests: "rests m'"
  shows "vmod_ok m'" "subs m' = subs m"
proof -
  have f: "vm_threads m' = vm_threads m" "vm_locks m' = vm_locks m"
    "\<And>v. vm_vcls m' v = map_option (\<lambda>vcl. vcl\<lparr>vc_state := st v\<rparr>) (vm_vcls m v)" by (simp_all add: m')
  have "dom (vm_vcls m') = dom (vm_vcls m)" by (auto simp: f(3))
  then have "locks_ok m'" using vmod_okD(2) [OF ok] f(2) by (simp add: locks_ok_def)
  moreover have "vcl_ok m' v (vc_phase vcl) (vc_sentinels vcl)" if "vm_vcls m' v = Some vcl" for v vcl
    using that vmod_okD(3) [OF ok, of v] vcl_ok_threads [OF f(1)] by (auto simp: f(3))
  moreover have "thread_ok m' t th" if "vm_threads m' t = Some th" for t th
    using that vmod_okD(4) [OF ok, of t th] by (auto simp: thread_ok_def f)
  ultimately show "vmod_ok m'" using rests by (simp add: vmod_ok_def)
  show "subs m' = subs m" by (simp add: subs_def f(1) fun_eq_iff)
qed

lemma step_ok_keeps:
  assumes "vmod_step h a create_ssl rely l s s'" and "s = Some m" and "vmod_ok m"
  shows "\<exists>m'. s' = Some m' \<and> vmod_ok m' \<and>
    (\<forall>alive. quiet h alive \<and> ledger a alive \<and> (\<forall>e e'. rely e e' \<longrightarrow> alive e' = alive e) \<and> subs_ok alive m \<longrightarrow> subs_ok alive m')"
  using assms
proof (induction rule: vmod_step.induct)
  case (others m2 st m1 w)
  then have o: "vmod_ok m1" "m1 = m" by simp_all
  note k = others_ok [OF o(1) others(1,2)]
  have "net (vm_world m2) = net w" using others(1) by simp
  then have "subs_ok alive m2" if "\<forall>e e'. rely e e' \<longrightarrow> alive e' = alive e" "subs_ok alive m" for alive
    using that others(4) k(2) o(2) by (simp add: subs_ok_def)
  then show ?case using k(1) by blast
next
  case (load m1 v c1 c2)
  then show ?case using keeps_load [of m v c1 c2 h a] unfolding keeps_def by auto
next
  case (settings m1 v env args)
  then show ?case using keeps_settings [of m v h a env args] unfolding keeps_def by auto
next
  case (warm m1 v t)
  then show ?case using keeps_warm [of m v t h a create_ssl] unfolding keeps_def by auto
next
  case (cold m1 v)
  then show ?case using keeps_cold [of m v h a] unfolding keeps_def by auto
next
  case (joined m1 v vcl t)
  then have "vc_phase vcl = Stopping" by (simp add: in_phase_def)
  with joined show ?case using keeps_joined [of m v vcl t h a] unfolding keeps_def by auto
next
  case (discard m1 v)
  then show ?case using keeps_discard [of m v h a] unfolding keeps_def by auto
next
  case (thread m1 t)
  then show ?case using keeps_thread [of m t h a] unfolding keeps_def by auto
qed

lemma step_from_Some: "vmod_step h a create_ssl rely l s s' \<Longrightarrow> s \<noteq> None"
  by (induction rule: vmod_step.induct) auto

lemma vmod_start_ok: "vmod_start (Some m) \<Longrightarrow> vmod_ok m"
  by (auto simp: vmod_start_def vmod_ok_def rests_def databases_def locks_ok_def)

interpretation vm: transition_system vmod_start "\<lambda>s s'. \<exists>l. vmod_step h a create_ssl rely l s s'" vmod_inv
  for h :: "'e hiredis" and a create_ssl rely
proof
  show "vmod_inv s" if "vmod_start s" for s :: "'e vmod option"
    using that vmod_start_ok by (auto simp: vmod_inv_def vmod_start_def)
  show "vmod_inv s'" if "vmod_inv s" "\<exists>l. vmod_step h a create_ssl rely l s s'" for s s' :: "'e vmod option"
    using that step_ok_keeps unfolding vmod_inv_def by blast
qed

end
