(* ===== verification/Vmod_Runs.thy ===== *)
theory Vmod_Runs
  imports Vmod_Machine
begin

text \<open>
  Runs of the process: whatever the order of events and threads, no assertion fails and no reference
  dangles, a VCL that cools down gets rid of its Sentinel thread, and no Pub/Sub connection leaks.
\<close>

inductive vmod_run ::
  "'e hiredis \<Rightarrow> 'e async \<Rightarrow> (string option list \<Rightarrow> nat option) \<Rightarrow> ('e \<Rightarrow> 'e \<Rightarrow> bool) \<Rightarrow> label list \<Rightarrow>
   'e vmod option \<Rightarrow> 'e vmod option \<Rightarrow> bool"
  for h a create_ssl rely where
  stays: "vmod_run h a create_ssl rely [] s s"
| more: "vmod_step h a create_ssl rely l s s' \<Longrightarrow> vmod_run h a create_ssl rely ls s' s'' \<Longrightarrow>
    vmod_run h a create_ssl rely (l # ls) s s''"

inductive_cases run_nil: "vmod_run h a create_ssl rely [] s s'"
inductive_cases run_cons: "vmod_run h a create_ssl rely (l # ls) s s'"

lemma run_steps: "vmod_run h a create_ssl rely ls s s' \<Longrightarrow> (\<lambda>s s'. \<exists>l. vmod_step h a create_ssl rely l s s')\<^sup>*\<^sup>* s s'"
  by (induction rule: vmod_run.induct) (auto intro: converse_rtranclp_into_rtranclp)

lemma run_ok:
  assumes "vmod_run h a create_ssl rely ls s0 s" and "vmod_start s0"
  shows "\<exists>m. s = Some m \<and> vmod_ok m"
  using vm.inv_steps [OF run_steps [OF assms(1)] vm.inv_initial [OF assms(2)]] by (simp add: vmod_inv_def)

lemma run_subs:
  assumes "vmod_run h a create_ssl rely ls s s'" and "s = Some m" and "vmod_ok m"
    and "quiet h alive" and "ledger a alive" and "\<forall>e e'. rely e e' \<longrightarrow> alive e' = alive e" and "subs_ok alive m"
  shows "\<exists>m'. s' = Some m' \<and> vmod_ok m' \<and> subs_ok alive m'"
  using assms
proof (induction arbitrary: m rule: vmod_run.induct)
  case (stays s)
  then show ?case by simp
next
  case (more l s s1 ls s2)
  obtain m1 where "s1 = Some m1" "vmod_ok m1" "subs_ok alive m1"
    using step_ok_keeps [OF more.hyps(1) more.prems(1,2)] more.prems(3-6) by blast
  then show ?case using more.IH more.prems(3-5) by blast
qed

section \<open>Events do not fail\<close>

text \<open>
  C29. Whatever the order of the events of the VCLs, of calls of \<open>redis.sentinels()\<close>, of the steps of
  the Sentinel threads and of the workers: no assertion fails, no mutex stays locked, the classes of the
  mutexes exist exactly while a VCL is loaded and are counted right; a Sentinel thread belongs to exactly
  one VCL, which is loaded, and a VCL has at most one thread; a cold VCL has none, and only a warm
  one has a thread that is to go on.
\<close>

theorem vcl_events_safe:
  assumes "vmod_start s0" and "vmod_run h a create_ssl rely ls s0 s"
  shows "\<exists>m. s = Some m \<and> held (vm_world m) = [] \<and>
    finite (dom (vm_vcls m)) \<and> unat (lk_refs (vm_locks m)) = card (dom (vm_vcls m)) \<and>
    (lk_seg (vm_locks m) \<noteq> None \<longleftrightarrow> dom (vm_vcls m) \<noteq> {}) \<and>
    (\<forall>v. \<forall>d \<in> set (databases m v). reg_ok d (vm_world m)) \<and>
    (\<forall>v vcl. vm_vcls m v = Some vcl \<longrightarrow>
      (se_active (vc_sentinels vcl) \<longrightarrow> vc_phase vcl = Warm \<and> se_thread (vc_sentinels vcl) \<noteq> None) \<and>
      (vc_phase vcl = Cold \<longrightarrow> se_thread (vc_sentinels vcl) = None) \<and>
      (\<forall>t. se_thread (vc_sentinels vcl) = Some t \<longrightarrow> (\<exists>th. vm_threads m t = Some th \<and> th_config th = v \<and>
        (th_place th = Ended \<longrightarrow> \<not> se_active (vc_sentinels vcl))))) \<and>
    (\<forall>t th. vm_threads m t = Some th \<longrightarrow>
      (\<exists>vcl. vm_vcls m (th_config th) = Some vcl \<and> se_thread (vc_sentinels vcl) = Some t))"
proof -
  obtain m where m: "s = Some m" "vmod_ok m" using run_ok [OF assms(2,1)] by blast
  note ok = vmod_okD [OF m(2)]
  have "unat (lk_refs (vm_locks m)) = card (dom (vm_vcls m))" using ok(2) by (simp add: locks_ok_def unat_of_nat)
  moreover have "(se_active (vc_sentinels vcl) \<longrightarrow> vc_phase vcl = Warm \<and> se_thread (vc_sentinels vcl) \<noteq> None) \<and>
      (vc_phase vcl = Cold \<longrightarrow> se_thread (vc_sentinels vcl) = None) \<and>
      (\<forall>t. se_thread (vc_sentinels vcl) = Some t \<longrightarrow> (\<exists>th. vm_threads m t = Some th \<and> th_config th = v \<and>
        (th_place th = Ended \<longrightarrow> \<not> se_active (vc_sentinels vcl))))"
    if "vm_vcls m v = Some vcl" for v vcl
    using ok(3) [OF that] by (cases "vc_phase vcl") (auto simp: has_thread_def split: if_splits)
  moreover have "\<exists>vcl. vm_vcls m (th_config th) = Some vcl \<and> se_thread (vc_sentinels vcl) = Some t"
    if "vm_threads m t = Some th" for t th
    using ok(4) [OF that] by (simp add: thread_ok_def)
  ultimately show ?thesis
    using m(1) ok(1,2) by (intro exI [of _ m]) (simp add: rests_def locks_ok_def)
qed

section \<open>The cold event returns\<close>

text \<open>The cold event of VCL \<open>v\<close> waits for its thread.\<close>

definition waits_for :: "'e vmod \<Rightarrow> nat \<Rightarrow> nat \<Rightarrow> sentinel_thread \<Rightarrow> bool" where
  "waits_for m v t th \<longleftrightarrow> vm_threads m t = Some th \<and>
     (\<exists>vcl. vm_vcls m v = Some vcl \<and> vc_phase vcl = Stopping \<and> se_thread (vc_sentinels vcl) = Some t)"

lemma waits_same:
  "waits_for m v t th \<Longrightarrow> vm_vcls m' v = vm_vcls m v \<Longrightarrow> vm_threads m' t = vm_threads m t \<Longrightarrow> waits_for m' v t th"
  by (simp add: waits_for_def)

lemma release_frame:
  assumes "release_vcl h v1 m = Some m'"
  shows "vm_threads m' = vm_threads m \<and> (\<forall>x. x \<noteq> v1 \<longrightarrow> vm_vcls m' x = vm_vcls m x)"
  using assms by (auto simp: release_vcl_def bind_Some)

lemma cold_frame:
  assumes "handle_vcl_cold_event h v1 m = Some m'"
  shows "vm_threads m' = vm_threads m \<and> (\<forall>x. x \<noteq> v1 \<longrightarrow> vm_vcls m' x = vm_vcls m x)"
  using assms by (auto simp: handle_vcl_cold_event_def bind_Some split: if_splits dest!: release_frame)

lemma start_thread:
  assumes "unsafe_sentinel_start create_ssl (Some t1) v w se = Some (se', Some (t', th))"
  shows "t' = t1"
  using assms unfolding unsafe_sentinel_start_def Let_def
  by (cases "se_locations se") (auto simp: bind_Some split: if_split_asm)

lemma warm_frame:
  assumes run: "handle_vcl_warm_event create_ssl (Some t1) v1 m = Some m'"
  shows "t \<noteq> t1 \<Longrightarrow> vm_threads m' t = vm_threads m t" "x \<noteq> v1 \<Longrightarrow> vm_vcls m' x = vm_vcls m x"
proof -
  obtain vcl where vcl: "vm_vcls m v1 = Some vcl" using run by (auto simp: handle_vcl_warm_event_def bind_Some)
  obtain w where w: "Lck_Lock Config_Mutex ((at_vcl m vcl)\<lparr>vmod_version := vmod_version (at_vcl m vcl) + 1\<rparr>) = Some w"
    using run by (auto simp: handle_vcl_warm_event_def vcl bind_Some Let_def)
  let ?start = "if se_locations (vc_sentinels vcl) \<noteq> None \<and> \<not> se_active (vc_sentinels vcl)
      then unsafe_sentinel_start create_ssl (Some t1) v1 w (vc_sentinels vcl) else Some (vc_sentinels vcl, None)"
  obtain r where r: "?start = Some r"
    using run by (cases ?start) (auto simp: handle_vcl_warm_event_def vcl w Let_def)
  obtain se new where s: "?start = Some (se, new)" using r by (cases r) simp
  obtain w' where m': "m' = (let m = put_vcl v1 (vcl\<lparr>vc_sentinels := se, vc_phase := Warm\<rparr>) w' m
      in case new of None \<Rightarrow> m | Some (t, th) \<Rightarrow> m\<lparr>vm_threads := (vm_threads m)(t \<mapsto> th)\<rparr>)"
    using run unfolding handle_vcl_warm_event_def vcl Let_def by (simp only: w s bind_Some bind.bind_lunit prod.case) auto
  have "t' = t1" if "new = Some (t', th)" for t' th
    using s that start_thread by (auto split: if_split_asm)
  then show "t \<noteq> t1 \<Longrightarrow> vm_threads m' t = vm_threads m t" "x \<noteq> v1 \<Longrightarrow> vm_vcls m' x = vm_vcls m x"
    by (cases new; auto simp: m' Let_def)+
qed

lemma joined_frame:
  assumes "cold_event_joined h v1 m = Some m'" and "vm_vcls m v1 = Some vcl" and "se_thread (vc_sentinels vcl) = Some t1"
  shows "t \<noteq> t1 \<Longrightarrow> vm_threads m' t = vm_threads m t" "x \<noteq> v1 \<Longrightarrow> vm_vcls m' x = vm_vcls m x"
  using assms by (auto simp: cold_event_joined_def bind_Some Let_def dest!: release_frame)

lemma discard_frame:
  assumes "Option.bind (handle_vcl_discard_event v1 m) (free_vcl_state h v1) = Some m'"
  shows "vm_threads m' = vm_threads m" "x \<noteq> v1 \<Longrightarrow> vm_vcls m' x = vm_vcls m x"
  using assms by (auto simp: handle_vcl_discard_event_def free_vcl_state_def bind_Some Let_def split: if_splits)

lemma settings_frame:
  assumes "call_sentinels env args v1 m = Some m'"
  shows "vm_threads m' = vm_threads m" "x \<noteq> v1 \<Longrightarrow> vm_vcls m' x = vm_vcls m x"
    "vm_vcls m v1 = Some vcl \<Longrightarrow> \<exists>vcl'. vm_vcls m' v1 = Some vcl' \<and> vc_phase vcl' = vc_phase vcl \<and>
      se_thread (vc_sentinels vcl') = se_thread (vc_sentinels vcl)"
  using assms by (auto simp: call_sentinels_def vmod_sentinels_def bind_Some Let_def)

lemma waits_thread:
  assumes ok: "vmod_ok m" and w: "waits_for m v t th" and run: "run_thread h a t1 m = Some m'"
  shows "\<exists>th'. waits_for m' v t th' \<and>
    (if t1 = t then steps_left (th_place th') = steps_left (th_place th) - 1 else th' = th)"
proof -
  obtain vcl where vcl: "vm_vcls m v = Some vcl" "vc_phase vcl = Stopping" "se_thread (vc_sentinels vcl) = Some t"
    "vm_threads m t = Some th" using w by (auto simp: waits_for_def)
  obtain th1 where th1: "vm_threads m t1 = Some th1" using run by (auto simp: run_thread_def bind_Some)
  obtain vcl1 where vcl1: "vm_vcls m (th_config th1) = Some vcl1" "se_thread (vc_sentinels vcl1) = Some t1" and fits: "thread_fits th1"
    using vmod_okD(4) [OF ok th1] by (auto simp: thread_ok_def)
  obtain se' th' w' where step: "thread_step h a (vc_sentinels vcl1) th1 (at_vcl m vcl1) = Some (se', th', w')"
    and sok: "step_ok h a (vc_sentinels vcl1) th1 (at_vcl m vcl1) (se', th', w')"
    using thread_step_ok [OF rests_at_vcl(1) [OF vmod_okD(1) [OF ok] vcl1(1)] fits, of h a "vc_sentinels vcl1"]
    by (metis surj_pair)
  have m': "m' = (put_vcl (th_config th1) (vcl1\<lparr>vc_sentinels := se'\<rparr>) w' m)\<lparr>vm_threads := (vm_threads m)(t1 \<mapsto> th')\<rparr>"
    using run by (simp add: run_thread_def th1 vcl1(1) step)
  show ?thesis
  proof (cases "t1 = t")
    case False
    then have "th_config th1 \<noteq> v" using vcl1 vcl(1,3) by auto
    then have "vm_vcls m' v = vm_vcls m v" "vm_threads m' t = vm_threads m t" using False by (simp_all add: m')
    then show ?thesis using waits_same [OF w] False by (intro exI [of _ th]) simp
  next
    case True
    have "th_config th = v"
      using vmod_okD(3) [OF ok vcl(1)] vcl by (auto simp: has_thread_def)
    then have same: "th1 = th" "vcl1 = vcl" using th1 vcl1 vcl True by simp_all
    have inactive: "\<not> se_active (vc_sentinels vcl)" using vmod_okD(3) [OF ok vcl(1)] vcl(2) by simp
    obtain b where "se' = (vc_sentinels vcl)\<lparr>se_discovery := b\<rparr>" using sok same(2) unfolding step_ok_def by blast
    then have se': "se_thread se' = Some t" using vcl(3) by simp
    have "waits_for m' v t th'"
      using se' vcl(2) True same \<open>th_config th = v\<close> by (simp add: waits_for_def m')
    moreover have "steps_left (th_place th') = steps_left (th_place th) - 1"
      using sok inactive same by (simp add: step_ok_def)
    ultimately show ?thesis using True by (intro exI [of _ th']) simp
  qed
qed

lemma waits_step:
  assumes "vmod_step h a create_ssl rely l s s'" and "s = Some m" and "s' = Some m'" and "vmod_ok m"
    and "waits_for m v t th" and "l \<noteq> Joined v"
  shows "\<exists>th'. waits_for m' v t th' \<and>
    (if l = Thread t then steps_left (th_place th') = steps_left (th_place th) - 1 else th' = th)"
proof -
  note ok = assms(4) and w = assms(5)
  obtain vcl where vcl: "vm_vcls m v = Some vcl" "vc_phase vcl = Stopping" "se_thread (vc_sentinels vcl) = Some t"
    "vm_threads m t = Some th" using w by (auto simp: waits_for_def)
  have other: "v1 \<noteq> v" if "in_phase m v1 p" "p \<noteq> Stopping" for v1 p
    using that vcl by (auto simp: in_phase_def)
  have same: ?thesis if "l \<noteq> Thread t" "vm_vcls m' v = vm_vcls m v" "vm_threads m' t = vm_threads m t"
    using waits_same [OF w that(2,3)] that(1) by auto
  show ?thesis using assms(1-3,6)
  proof (cases rule: vmod_step.cases)
    case (load m1 v1 c1 c2)
    then have "v1 \<noteq> v" "handle_vcl_load_event c1 c2 v1 m = Some m'" using assms(2,3) vcl(1) by auto
    then have "vm_vcls m' v = vm_vcls m v" "vm_threads m' t = vm_threads m t"
      by (auto simp: handle_vcl_load_event_def bind_Some Let_def)
    then show ?thesis using same load by simp
  next
    case (settings m1 v1 env args)
    then have r: "call_sentinels env args v1 m = Some m'" using assms(2,3) by simp
    show ?thesis
    proof (cases "v1 = v")
      case True
      then have "waits_for m' v t th"
        using settings_frame(1) [OF r] settings_frame(3) [OF r] vcl by (auto simp: waits_for_def)
      then show ?thesis using settings by auto
    next
      case False
      then show ?thesis using same settings settings_frame(1,2) [OF r] by simp
    qed
  next
    case (warm m1 v1 t1)
    then have r: "handle_vcl_warm_event create_ssl (Some t1) v1 m = Some m'" "v1 \<noteq> v" "t1 \<noteq> t"
      using assms(2,3) other [of v1 Cold] vcl(4) by auto
    then show ?thesis using same warm warm_frame [OF r(1)] by simp
  next
    case (cold m1 v1)
    then have r: "handle_vcl_cold_event h v1 m = Some m'" "v1 \<noteq> v" using assms(2,3) other [of v1 Warm] by auto
    then show ?thesis using same cold cold_frame [OF r(1)] by simp
  next
    case (joined m1 v1 vcl1 t1)
    then have r: "cold_event_joined h v1 m = Some m'" "v1 \<noteq> v" "vm_vcls m v1 = Some vcl1" "se_thread (vc_sentinels vcl1) = Some t1"
      using assms(2,3,6) by auto
    have "t1 \<noteq> t"
    proof
      assume "t1 = t"
      moreover have "vc_phase vcl1 = Stopping" using joined assms(2) r(3) by (auto simp: in_phase_def)
      then have "th_config th = v1" if "t1 = t" using vmod_okD(3) [OF ok r(3)] r(4) vcl(4) that by (auto simp: has_thread_def)
      moreover have "th_config th = v" using vmod_okD(3) [OF ok vcl(1)] vcl by (auto simp: has_thread_def)
      ultimately show False using r(2) by simp
    qed
    then show ?thesis using same joined joined_frame [OF r(1,3,4)] r(2) by simp
  next
    case (discard m1 v1)
    then have r: "Option.bind (handle_vcl_discard_event v1 m) (free_vcl_state h v1) = Some m'" "v1 \<noteq> v"
      using assms(2,3) other [of v1 Cold] by auto
    then show ?thesis using same discard discard_frame [OF r(1)] by simp
  next
    case (thread m1 t1)
    then show ?thesis using waits_thread [OF ok w, of h a t1 m'] assms(2,3) by auto
  next
    case (others m2 m1 w1 st)
    then have "waits_for m' v t th" using assms(2,3) vcl by (auto simp: waits_for_def)
    then show ?thesis using others by auto
  qed
qed

lemma waits_run:
  assumes "vmod_run h a create_ssl rely ls s s'" and "s = Some m" and "vmod_ok m" and "waits_for m v t th"
    and "Joined v \<notin> set ls"
  shows "\<exists>m' th'. s' = Some m' \<and> vmod_ok m' \<and> waits_for m' v t th' \<and>
    steps_left (th_place th') \<le> steps_left (th_place th) - count_list ls (Thread t)"
  using assms
proof (induction arbitrary: m th rule: vmod_run.induct)
  case (stays s)
  then show ?case by auto
next
  case (more l s s1 ls s2)
  obtain m1 where m1: "s1 = Some m1" "vmod_ok m1" using step_ok_keeps [OF more.hyps(1) more.prems(1,2)] by blast
  have l: "l \<noteq> Joined v" and ls: "Joined v \<notin> set ls" using more.prems(4) by auto
  obtain th1 where th1: "waits_for m1 v t th1"
    "if l = Thread t then steps_left (th_place th1) = steps_left (th_place th) - 1 else th1 = th"
    using waits_step [OF more.hyps(1) more.prems(1) m1(1) more.prems(2,3) l] by blast
  obtain m' th' where ih: "s2 = Some m'" "vmod_ok m'" "waits_for m' v t th'"
    "steps_left (th_place th') \<le> steps_left (th_place th1) - count_list ls (Thread t)"
    using more.IH [OF m1 th1(1) ls] by blast
  then show ?case using th1(2) by (intro exI [of _ m'] exI [of _ th']) (auto split: if_splits)
qed

lemma steps_left_bound: "steps_left p \<le> 3"
  by (cases p) simp_all

lemma steps_left_zero: "steps_left p = 0 \<longleftrightarrow> p = Ended"
  by (cases p) simp_all

lemma joined_effect:
  assumes "cold_event_joined h v m = Some m'" and "waits_for m v t th"
  shows "in_phase m' v Cold" "vm_threads m' t = None"
  using assms by (auto simp: cold_event_joined_def release_vcl_def waits_for_def in_phase_def bind_Some Let_def)

text \<open>
  C30. The cold event ends: once it has asked the Sentinel thread to stop and waits for it, three steps
  of that thread, whatever else happens before, after and in between, take the thread out of its
  loop; then the event goes on, without a panic, to the state in which the VCL is cold and the thread
  is gone.
\<close>

theorem cold_event_returns:
  assumes start: "vmod_start s0" and run0: "vmod_run h a create_ssl rely ls0 s0 (Some m)"
    and stopping: "vm_vcls m v = Some vcl" "vc_phase vcl = Stopping" "se_thread (vc_sentinels vcl) = Some t"
    and run: "vmod_run h a create_ssl rely ls (Some m) s'"
    and waiting: "Joined v \<notin> set ls" and fair: "3 \<le> count_list ls (Thread t)"
  shows "\<exists>m' m''. s' = Some m' \<and> vmod_step h a create_ssl rely (Joined v) (Some m') (Some m'') \<and>
    in_phase m'' v Cold \<and> vm_threads m'' t = None"
proof -
  have ok: "vmod_ok m" using run_ok [OF run0 start] by simp
  obtain th where w: "waits_for m v t th"
    using vmod_okD(3) [OF ok stopping(1)] stopping by (auto simp: has_thread_def waits_for_def)
  obtain m' th' where m': "s' = Some m'" "vmod_ok m'" "waits_for m' v t th'"
    "steps_left (th_place th') \<le> steps_left (th_place th) - count_list ls (Thread t)"
    using waits_run [OF run refl ok w waiting] by blast
  have ended: "th_place th' = Ended" using m'(4) fair steps_left_bound [of "th_place th"] steps_left_zero by fastforce
  obtain vcl' where vcl': "vm_vcls m' v = Some vcl'" "vc_phase vcl' = Stopping" "se_thread (vc_sentinels vcl') = Some t"
    "vm_threads m' t = Some th'" using m'(3) by (auto simp: waits_for_def)
  have e: "th_place x = Ended" if "vm_threads m' t = Some x" for x using that vcl'(4) ended by simp
  obtain m'' where j: "cold_event_joined h v m' = Some m''"
    using keeps_joined [OF m'(2) vcl'(1-3) e, of h a] by (auto simp: keeps_def)
  have "vmod_step h a create_ssl rely (Joined v) (Some m') (cold_event_joined h v m')"
    using vcl' e by (intro vmod_step.joined) (auto simp: in_phase_def)
  then show ?thesis using m'(1) j joined_effect [OF j m'(3)] by auto
qed

section \<open>No Pub/Sub connection leaks\<close>

text \<open>
  C31. The Pub/Sub connections that hiredis has open are at any time those that the Sentinel threads
  have on record, each of them once, so none is lost, none is used after its end and none is freed
  twice; a thread that has ended has none, and when no VCL has a thread none is open.
\<close>

theorem subscriptions_accounted:
  assumes start: "vmod_start s0" and run: "vmod_run h a create_ssl rely ls s0 s"
    and q: "quiet h alive" and l: "ledger a alive" and rely: "\<forall>e e'. rely e e' \<longrightarrow> alive e' = alive e"
    and none: "alive (net (vm_world (the s0))) = {}"
  shows "\<exists>m. s = Some m \<and> alive (net (vm_world m)) = (\<Union>t. set (subs m t)) \<and>
    (\<forall>t. distinct (subs m t)) \<and> (\<forall>t t'. t \<noteq> t' \<longrightarrow> set (subs m t) \<inter> set (subs m t') = {}) \<and>
    (\<forall>t th. vm_threads m t = Some th \<and> th_place th = Ended \<longrightarrow> subs m t = []) \<and>
    ((\<forall>v vcl. vm_vcls m v = Some vcl \<longrightarrow> se_thread (vc_sentinels vcl) = None) \<longrightarrow> alive (net (vm_world m)) = {})"
proof -
  obtain m0 where m0: "s0 = Some m0" "vm_threads m0 = Map.empty" using start by (auto simp: vmod_start_def)
  have "subs m0 t = []" for t using m0(2) by (simp add: subs_def)
  then have "subs_ok alive m0" using none m0(1) by (simp add: subs_ok_def)
  moreover have "vmod_ok m0" using start m0(1) vmod_start_ok by blast
  ultimately obtain m where m: "s = Some m" "vmod_ok m" "subs_ok alive m"
    using run_subs [OF run m0(1) _ q l rely] by blast
  have "subs m t = []" if "vm_threads m t = Some th" "th_place th = Ended" for t th
    using vmod_okD(4) [OF m(2) that(1)] that by (simp add: subs_def thread_ok_def thread_fits_def)
  moreover have "alive (net (vm_world m)) = {}" if "\<forall>v vcl. vm_vcls m v = Some vcl \<longrightarrow> se_thread (vc_sentinels vcl) = None"
  proof -
    have "vm_threads m t = None" for t
    proof (cases "vm_threads m t")
      case (Some th)
      then show ?thesis using vmod_okD(4) [OF m(2) Some] that by (auto simp: thread_ok_def)
    qed
    then show ?thesis using m(3) by (simp add: subs_ok_def subs_def)
  qed
  ultimately show ?thesis using m(1,3) by (intro exI [of _ m]) (simp add: subs_ok_def)
qed

section \<open>A process with one VCL\<close>

text \<open>
  The outside is the next number of a connection and those that are open. No command is answered, and
  every subscription succeeds.
\<close>

type_synonym ports = "nat \<times> nat set"

definition ports_h :: "ports hiredis" where
  "ports_h =
     \<lparr>h_time = (\<lambda>e. (100, e)), h_connect = (\<lambda>loc t e. (None, e)), h_err = (\<lambda>rc e. False),
      h_set_timeout = (\<lambda>rc t e. (True, e)), h_tls = (\<lambda>rc ssl e. (True, e)), h_command = (\<lambda>rc args e. (None, e)),
      h_append = (\<lambda>rc args e. e), h_get_reply = (\<lambda>rc e. (None, e)), h_free = (\<lambda>rc e. e),
      h_keepalive = (\<lambda>rc e. (True, e)), h_poll = (\<lambda>rc e. (True, e)), h_re_match = (\<lambda>raw vre. False),
      h_ws_alloc = (\<lambda>n e. (True, e)), h_ws_reserve_all = (\<lambda>e. (64, e)), h_ws_release = (\<lambda>n e. e),
      h_wait = (\<lambda>s w. w)\<rparr>"

definition ports_a :: "ports async" where
  "ports_a =
     \<lparr>a_connect = (\<lambda>host port (n, S). (Some n, (Suc n, insert n S))), a_err = (\<lambda>c e. False),
      a_tls = (\<lambda>c ssl e. (True, e)), a_keepalive = (\<lambda>c e. (True, e)), a_attach = (\<lambda>c e. e),
      a_command = (\<lambda>c args e. (True, e)), a_free = (\<lambda>c (n, S). (n, S - {c})), a_events = (\<lambda>cs e. ([], e))\<rparr>"

definition ports_open :: "ports \<Rightarrow> nat set" where
  "ports_open = (\<lambda>(n, S). {c \<in> S. c < n})"

lemma ports_quiet: "quiet ports_h ports_open"
  by (simp add: quiet_def ports_h_def)

lemma ports_ledger: "ledger ports_a ports_open"
  by (auto simp: ledger_def ports_a_def ports_open_def gone_def)

definition vm0 :: "ports vmod" where
  "vm0 = \<lparr>vm_world = \<lparr>net = (0, {}), srvs = (\<lambda>s. lab_server '''' (Socket '''') TBD), next_srv = 0, next_ctx = 0,
       dbs = (\<lambda>d. lab_db False False), task = lab_task, config = \<lparr>weight_rules = [], vcl_dbs = []\<rparr>,
       vmod_version = 0, held = [], vrt_failed = False\<rparr>,
     vm_locks = \<lparr>lk_refs = 0, lk_seg = None, lk_config = None, lk_db = None\<rparr>,
     vm_vcls = Map.empty, vm_threads = Map.empty\<rparr>"

definition vm_args :: sentinel_args where
  "vm_args = \<lparr>sa_locations = Some ''s:1'', sa_period = 60, sa_connection_timeout = 500, sa_command_timeout = 0,
     sa_protocol = Name_Default, sa_tls = False, sa_tls_names = [None, None, None, None, None], sa_password = None\<rparr>"

abbreviation no_ssl :: "string option list \<Rightarrow> nat option" where
  "no_ssl \<equiv> (\<lambda>names. None)"

definition vm1 :: "ports vmod" where
  "vm1 = the (vmod_event_function ports_h no_ssl 0 (Event_Load (Some 1, Some 1) (Some 2, Some 2)) vm0)"
definition vm2 :: "ports vmod" where "vm2 = the (call_sentinels None vm_args 0 vm1)"
definition vm3 :: "ports vmod" where "vm3 = the (vmod_event_function ports_h no_ssl 0 (Event_Warm (Some 7)) vm2)"

fun play :: "nat \<Rightarrow> ports vmod \<Rightarrow> ports vmod" where
  "play 0 m = m"
| "play (Suc n) m = play n (the (run_thread ports_h ports_a 7 m))"

lemma vm_start: "vmod_start (Some vm0)"
  by (simp add: vmod_start_def vm0_def)

lemma vm1_run:
  "vmod_event_function ports_h no_ssl 0 (Event_Load (Some 1, Some 1) (Some 2, Some 2)) vm0 = Some vm1"
  "vm_vcls vm1 0 \<noteq> None" "vm_threads vm1 = Map.empty"
  by (simp_all add: vm1_def vm0_def handle_vcl_load_event_def create_classes_def new_vcl_state_def)

lemma vm2_run: "call_sentinels None vm_args 0 vm1 = Some vm2" "in_phase vm2 0 Cold" "vm_threads vm2 = Map.empty"
  by (simp_all add: vm2_def vm1_def vm0_def handle_vcl_load_event_def create_classes_def new_vcl_state_def
      call_sentinels_def vmod_sentinels_def at_vcl_def Lck_Lock_def Lck_Unlock_def put_vcl_def Let_def in_phase_def)

lemma vm_locations: "unsafe_set_locations ''s:1'' = [(''s'', 1)]"
  by code_simp

lemmas vm_simps = vm3_def vm2_def vm1_def vm0_def handle_vcl_load_event_def create_classes_def new_vcl_state_def
      call_sentinels_def vmod_sentinels_def at_vcl_def Lck_Lock_def Lck_Unlock_def put_vcl_def Let_def in_phase_def
  handle_vcl_warm_event_def vm_args_def unsafe_sentinel_start_def Lck_AssertHeld_def assert_that_def vm_locations

lemma vm3_run: "vmod_event_function ports_h no_ssl 0 (Event_Warm (Some 7)) vm2 = Some vm3" "in_phase vm3 0 Warm"
  "vm_threads vm3 7 \<noteq> None" "lk_refs (vm_locks vm3) = 1" "dom (vm_vcls vm3) = {0}"
  by (simp_all add: vm_simps)

lemma vm3_reached: "vmod_run ports_h ports_a no_ssl (=) [Load 0, Settings 0, Warm_Up 0] (Some vm0) (Some vm3)"
proof -
  have "vmod_step ports_h ports_a no_ssl (=) (Load 0) (Some vm0) (Some vm1)"
    unfolding vm1_run(1) [symmetric] by (rule vmod_step.load) (simp_all add: vm0_def)
  moreover have "vmod_step ports_h ports_a no_ssl (=) (Settings 0) (Some vm1) (Some vm2)"
    unfolding vm2_run(1) [symmetric] by (rule vmod_step.settings) (rule vm1_run(2))
  moreover have "vmod_step ports_h ports_a no_ssl (=) (Warm_Up 0) (Some vm2) (Some vm3)"
    unfolding vm3_run(1) [symmetric] by (rule vmod_step.warm) (simp_all add: vm2_run)
  ultimately show ?thesis by (meson vmod_run.intros)
qed

lemma vm3_ok: "vmod_ok vm3"
  using run_ok [OF vm3_reached vm_start] by simp

lemma thread_runs:
  assumes "vmod_ok m" and "vm_threads m 7 \<noteq> None"
  shows "vmod_run ports_h ports_a no_ssl (=) (replicate n (Thread 7)) (Some m) (Some (play n m))"
  using assms
proof (induction n arbitrary: m)
  case 0
  show ?case by (simp add: vmod_run.stays)
next
  case (Suc n)
  obtain m1 where m1: "run_thread ports_h ports_a 7 m = Some m1" "vmod_ok m1"
    using keeps_thread [OF Suc.prems, of ports_h ports_a] by (auto simp: keeps_def)
  have step: "vmod_step ports_h ports_a no_ssl (=) (Thread 7) (Some m) (Some m1)"
    unfolding m1(1) [symmetric] by (rule vmod_step.thread) (rule Suc.prems(2))
  have "vm_threads m1 7 \<noteq> None" using m1(1) by (auto simp: run_thread_def bind_Some)
  from vmod_run.more [OF step Suc.IH [OF m1(2) this]] show ?case by (simp add: m1(1))
qed

lemma run_append:
  assumes "vmod_run h a create_ssl rely ls s s'" and "vmod_run h a create_ssl rely ls' s' s''"
  shows "vmod_run h a create_ssl rely (ls @ ls') s s''"
  using assms by (induction rule: vmod_run.induct) (auto intro: vmod_run.more)

lemma play_subs: "subs (play 4 vm3) 7 = [0]"
proof -
  have "play 4 = play (Suc (Suc (Suc (Suc 0))))" by (simp add: eval_nat_numeral)
  then show ?thesis
    by (simp add: vm_simps setting_def run_thread_def thread_step_def subs_def ports_h_def ports_a_def net_call_def
        new_state_def discover_servers_def ask_sentinel_def connect_sentinel_def listen_def open_subscription_def if_open_def
        secure_subscription_def attach_subscription_def hello_subscription_def enqueue_def net_do_def)
qed

theorem vcl_events_safe_witness:
  "unat (lk_refs (vm_locks vm3)) = card (dom (vm_vcls vm3)) \<and> lk_seg (vm_locks vm3) \<noteq> None \<and>
   (\<exists>vcl. vm_vcls vm3 0 = Some vcl \<and> vc_phase vcl = Warm)"
  using vcl_events_safe [OF vm_start vm3_reached] vm3_run(2,5) by (auto simp: in_phase_def)

theorem subscriptions_accounted_witness:
  "\<exists>m. vmod_run ports_h ports_a no_ssl (=) ([Load 0, Settings 0, Warm_Up 0] @ replicate 4 (Thread 7)) (Some vm0) (Some m) \<and>
    subs m 7 = [0] \<and> 0 \<in> ports_open (net (vm_world m))"
proof -
  let ?ls = "[Load 0, Settings 0, Warm_Up 0] @ replicate 4 (Thread 7)"
  have run: "vmod_run ports_h ports_a no_ssl (=) ?ls (Some vm0) (Some (play 4 vm3))"
    by (rule run_append [OF vm3_reached thread_runs [OF vm3_ok vm3_run(3)]])
  have "ports_open (net (vm_world (the (Some vm0)))) = {}" by (simp add: ports_open_def vm0_def)
  then have "ports_open (net (vm_world (play 4 vm3))) = (\<Union>t. set (subs (play 4 vm3) t))"
    using subscriptions_accounted [OF vm_start run ports_quiet ports_ledger] by auto
  moreover have "0 \<in> set (subs (play 4 vm3) 7)" by (simp add: play_subs)
  ultimately have "0 \<in> ports_open (net (vm_world (play 4 vm3)))" by blast
  then show ?thesis using run play_subs by blast
qed

theorem cold_event_returns_witness:
  "\<exists>m m' m''. vmod_run ports_h ports_a no_ssl (=) [Load 0, Settings 0, Warm_Up 0, Cool_Down 0] (Some vm0) (Some m) \<and>
    vmod_run ports_h ports_a no_ssl (=) (replicate 3 (Thread 7)) (Some m) (Some m') \<and>
    vmod_step ports_h ports_a no_ssl (=) (Joined 0) (Some m') (Some m'') \<and> in_phase m'' 0 Cold"
proof -
  obtain vcl where vcl: "vm_vcls vm3 0 = Some vcl" "vc_phase vcl = Warm" "se_active (vc_sentinels vcl)"
    "se_thread (vc_sentinels vcl) = Some 7" by (simp add: vm_simps)
  obtain m where m: "vmod_event_function ports_h no_ssl 0 Event_Cold vm3 = Some m" "vmod_ok m"
    using keeps_cold [OF vm3_ok vm3_run(2), of ports_h ports_a] by (auto simp: keeps_def)
  have step: "vmod_step ports_h ports_a no_ssl (=) (Cool_Down 0) (Some vm3) (Some m)"
    unfolding m(1) [symmetric] by (rule vmod_step.cold) (rule vm3_run(2))
  have run0: "vmod_run ports_h ports_a no_ssl (=) ([Load 0, Settings 0, Warm_Up 0] @ [Cool_Down 0]) (Some vm0) (Some m)"
    by (intro run_append [OF vm3_reached] vmod_run.more [OF step] vmod_run.stays)
  have "handle_vcl_cold_event ports_h 0 vm3 = Some m" using m(1) by simp
  then obtain vcl' where vcl': "vm_vcls m 0 = Some vcl'" "vc_phase vcl' = Stopping" "se_thread (vc_sentinels vcl') = Some 7"
    using vcl by (auto simp: handle_vcl_cold_event_def bind_Some unsafe_sentinel_stop_def)
  have "vm_threads m 7 \<noteq> None"
    using vmod_okD(3) [OF m(2) vcl'(1)] vcl' by (auto simp: has_thread_def)
  then have run: "vmod_run ports_h ports_a no_ssl (=) (replicate 3 (Thread 7)) (Some m) (Some (play 3 m))"
    by (rule thread_runs [OF m(2)])
  have "3 \<le> count_list (replicate 3 (Thread 7)) (Thread 7)" by (simp add: eval_nat_numeral)
  then show ?thesis
    using cold_event_returns [OF vm_start run0 vcl' run] run0 run by auto
qed

end
