(* ===== verification/Vmod_Reply.thy ===== *)
theory Vmod_Reply
  imports Vmod_Command
begin

text \<open>
  The functions of the VCL interface that read the reply of the last command (\<open>src/vmod_redis.c\<close>):
  \<open>.replied()\<close>, \<open>.reply_is_*()\<close>, \<open>.get_reply()\<close>, \<open>.get_*_reply()\<close>, and those that read the elements of
  an array by their index. An index of VCL is a signed 64-bit integer that the code compares with an
  unsigned \<open>size_t\<close>; reading an element out of bounds is \<open>None\<close>. A \<open>NULL\<close> string for VCL is \<open>None\<close>
  inside the result.
\<close>

section \<open>The code\<close>

text \<open>The suffixes of the functions.\<close>

datatype kind =
  Kind_Error | Kind_Nil | Kind_Status | Kind_Integer | Kind_Boolean | Kind_Double | Kind_String | Kind_Array

text \<open>The \<open>condition\<close> of the macros, in their order.\<close>

definition kind_is :: "kind \<Rightarrow> redisReply \<Rightarrow> bool" where
  "kind_is k r =
     (case k of
        Kind_Error \<Rightarrow> (case r of Reply_Error s \<Rightarrow> True | _ \<Rightarrow> False)
      | Kind_Nil \<Rightarrow> (case r of Reply_Nil \<Rightarrow> True | _ \<Rightarrow> False)
      | Kind_Status \<Rightarrow> (case r of Reply_Status s \<Rightarrow> True | _ \<Rightarrow> False)
      | Kind_Integer \<Rightarrow> (case r of Reply_Integer i \<Rightarrow> True | _ \<Rightarrow> False)
      | Kind_Boolean \<Rightarrow> (case r of Reply_Bool b \<Rightarrow> True | _ \<Rightarrow> False)
      | Kind_Double \<Rightarrow> (case r of Reply_Double s \<Rightarrow> True | _ \<Rightarrow> False)
      | Kind_String \<Rightarrow> (case r of Reply_String s \<Rightarrow> True | Reply_Verb v s \<Rightarrow> True | _ \<Rightarrow> False)
      | Kind_Array \<Rightarrow>
          (case r of Reply_Array es \<Rightarrow> True | Reply_Map es \<Rightarrow> True | Reply_Set es \<Rightarrow> True | _ \<Rightarrow> False))"

text \<open>\<open>reply->integer\<close> and \<open>reply->str\<close>, of the types that have one.\<close>

fun reply_integer :: "redisReply \<Rightarrow> int" where
  "reply_integer (Reply_Integer i) = i"
| "reply_integer (Reply_Bool b) = (if b then 1 else 0)"
| "reply_integer r = 0"

fun reply_str :: "redisReply \<Rightarrow> string" where
  "reply_str (Reply_Error s) = s"
| "reply_str (Reply_Status s) = s"
| "reply_str (Reply_String s) = s"
| "reply_str (Reply_Verb v s) = s"
| "reply_str (Reply_Double s) = s"
| "reply_str r = []"

text \<open>The reply of the last command, when this database ran it.\<close>

definition own_reply :: "db_ptr \<Rightarrow> 'e world \<Rightarrow> redisReply option" where
  "own_reply d w =
     (let t = task (get_task_state False w) in if cmd_db t = Some d then cmd_reply t else None)"

definition vmod_db_replied :: "db_ptr \<Rightarrow> 'e world \<Rightarrow> bool" where
  "vmod_db_replied d w =
     (let t = task (get_task_state False w) in cmd_db t = Some d \<and> cmd_reply t \<noteq> None)"

definition vmod_db_reply_is :: "kind \<Rightarrow> db_ptr \<Rightarrow> 'e world \<Rightarrow> bool" where
  "vmod_db_reply_is k d w = (case own_reply d w of None \<Rightarrow> False | Some r \<Rightarrow> kind_is k r)"

text \<open>A string for VCL: a copy in the workspace, or the failure of the task (\<open>REDIS_FAIL_WS\<close>).\<close>

definition ws_string :: "'e hiredis \<Rightarrow> string \<Rightarrow> 'e world \<Rightarrow> string option \<times> 'e world" where
  "ws_string h s w =
     (case WS_Copy h s w of (None, w) \<Rightarrow> (None, VRT_fail w) | (Some s, w) \<Rightarrow> (Some s, w))"

text \<open>
  \<open>WS_Printf\<close> with \<open>"%lld"\<close> takes the length of the number and its NUL from the workspace, as
  \<open>WS_Copy\<close> of the number would.
\<close>

fun get_reply :: "'e hiredis \<Rightarrow> redisReply \<Rightarrow> 'e world \<Rightarrow> string option \<times> 'e world" where
  "get_reply h (Reply_Error s) w = ws_string h s w"
| "get_reply h (Reply_Status s) w = ws_string h s w"
| "get_reply h (Reply_String s) w = ws_string h s w"
| "get_reply h (Reply_Verb v s) w = ws_string h s w"
| "get_reply h (Reply_Double s) w = ws_string h s w"
| "get_reply h (Reply_Integer i) w = ws_string h (string_of_int i) w"
| "get_reply h (Reply_Bool b) w = ws_string h (string_of_int (if b then 1 else 0)) w"
| "get_reply h r w = (None, w)"

definition vmod_db_get_reply :: "'e hiredis \<Rightarrow> db_ptr \<Rightarrow> 'e world \<Rightarrow> string option \<times> 'e world" where
  "vmod_db_get_reply h d w = (case own_reply d w of None \<Rightarrow> (None, w) | Some r \<Rightarrow> get_reply h r w)"

text \<open>\<open>.get_integer_reply()\<close> and \<open>.get_boolean_reply()\<close>.\<close>

definition vmod_db_get_number_reply :: "kind \<Rightarrow> db_ptr \<Rightarrow> 'e world \<Rightarrow> int" where
  "vmod_db_get_number_reply k d w =
     (case own_reply d w of None \<Rightarrow> 0 | Some r \<Rightarrow> (if kind_is k r then reply_integer r else 0))"

text \<open>\<open>.get_double_reply()\<close>; \<open>dval\<close> is \<open>reply->dval\<close>, a number of hiredis.\<close>

definition vmod_db_get_double_reply :: "(redisReply \<Rightarrow> 'r::zero) \<Rightarrow> db_ptr \<Rightarrow> 'e world \<Rightarrow> 'r" where
  "vmod_db_get_double_reply dval d w =
     (case own_reply d w of None \<Rightarrow> 0 | Some r \<Rightarrow> (if kind_is Kind_Double r then dval r else 0))"

text \<open>\<open>.get_error_reply()\<close>, \<open>.get_status_reply()\<close> and \<open>.get_string_reply()\<close>.\<close>

definition vmod_db_get_string_reply ::
  "'e hiredis \<Rightarrow> kind \<Rightarrow> db_ptr \<Rightarrow> 'e world \<Rightarrow> string option \<times> 'e world" where
  "vmod_db_get_string_reply h k d w =
     (case own_reply d w of
        None \<Rightarrow> (None, w)
      | Some r \<Rightarrow> (if kind_is k r then ws_string h (reply_str r) w else (None, w)))"

definition vmod_db_get_array_reply_length :: "db_ptr \<Rightarrow> 'e world \<Rightarrow> nat" where
  "vmod_db_get_array_reply_length d w =
     (case own_reply d w of None \<Rightarrow> 0 | Some r \<Rightarrow> (if kind_is Kind_Array r then length (elements r) else 0))"

text \<open>The comparison converts the index to an unsigned integer; the access does not.\<close>

definition below :: "int \<Rightarrow> 'a list \<Rightarrow> bool" where
  "below i es \<longleftrightarrow> (word_of_int i :: 64 word) < word_of_nat (length es)"

definition element_at :: "'a list \<Rightarrow> int \<Rightarrow> 'a option" where
  "element_at es i = (if 0 \<le> i \<and> i < int (length es) then Some (es ! nat i) else None)"

definition vmod_db_array_reply_is :: "kind \<Rightarrow> db_ptr \<Rightarrow> int \<Rightarrow> 'e world \<Rightarrow> bool option" where
  "vmod_db_array_reply_is k d i w =
     (case own_reply d w of
        None \<Rightarrow> Some False
      | Some r \<Rightarrow> (if is_array r \<and> below i (elements r)
                   then map_option (kind_is k) (element_at (elements r) i) else Some False))"

definition vmod_db_get_array_reply_value ::
  "'e hiredis \<Rightarrow> db_ptr \<Rightarrow> int \<Rightarrow> 'e world \<Rightarrow> (string option \<times> 'e world) option" where
  "vmod_db_get_array_reply_value h d i w =
     (case own_reply d w of
        None \<Rightarrow> Some (None, w)
      | Some r \<Rightarrow> (if kind_is Kind_Array r \<and> below i (elements r)
                   then map_option (\<lambda>x. get_reply h x w) (element_at (elements r) i) else Some (None, w)))"

section \<open>Kinds of reply\<close>

lemma kind_unique: "kind_is k r \<Longrightarrow> kind_is k' r \<Longrightarrow> k = k'"
  by (cases r; cases k; cases k') (simp_all add: kind_is_def)

lemma get_reply_None:
  "get_reply h r w = (None, w') \<Longrightarrow> w' \<noteq> w \<Longrightarrow> vrt_failed w'"
  by (cases r) (auto simp: ws_string_def VRT_fail_def split: option.splits prod.splits)

lemma below_iff:
  assumes "length es < 2 ^ 63" and "- (2 ^ 63) \<le> i" and "i < 2 ^ 63"
  shows "below i es \<longleftrightarrow> 0 \<le> i \<and> i < int (length es)"
proof -
  have len: "uint (word_of_nat (length es) :: 64 word) = int (length es)"
    using assms(1) by (simp add: unsigned_of_nat take_bit_nat_eq_self)
  show ?thesis
  proof (cases "0 \<le> i")
    case True
    then have "uint (word_of_int i :: 64 word) = i"
      using assms(3) by (simp add: unsigned_of_int take_bit_int_eq_self)
    then show ?thesis using True len by (simp add: below_def word_less_def)
  next
    case False
    have "i mod 2 ^ 64 = (i + 2 ^ 64) mod 2 ^ 64" by simp
    also have "\<dots> = i + 2 ^ 64" by (rule mod_pos_pos_trivial) (use False assms(2) in simp_all)
    finally have "i mod 2 ^ 64 = i + 2 ^ 64" .
    then have "uint (word_of_int i :: 64 word) = i + 2 ^ 64"
      by (simp add: uint_word_of_int)
    then show ?thesis using False assms(1,2) len by (simp add: below_def word_less_def)
  qed
qed

lemma own_reply_eq: "own_reply d w = (if cmd_db (task w) = Some d then cmd_reply (task w) else None)"
  by (simp add: own_reply_def get_task_state_def Let_def)

lemma element_at_below:
  assumes "length es < 2 ^ 63" and "- (2 ^ 63) \<le> i" and "i < 2 ^ 63" and "below i es"
  shows "element_at es i = Some (es ! nat i)"
  using assms(4) by (simp add: below_iff [OF assms(1-3)] element_at_def)

lemma string_getter: "kind_is k r \<Longrightarrow> k \<in> {Kind_Error, Kind_Status, Kind_String} \<Longrightarrow> get_reply h r w = ws_string h (reply_str r) w"
  by (cases r) (auto simp: kind_is_def)

lemma number_getter:
  "kind_is k r \<Longrightarrow> k \<in> {Kind_Integer, Kind_Boolean} \<Longrightarrow> get_reply h r w = ws_string h (string_of_int (reply_integer r)) w"
  by (cases r) (auto simp: kind_is_def)

text \<open>
  C34. Reading replies. For every index of VCL, negative ones included, the functions on arrays never
  read outside the elements: the value is that of the element when the index is below the length that
  is reported, and \<open>NULL\<close> otherwise; the tests of elements are exact on arrays, and false on maps and
  sets, whose elements can still be read. At most one of \<open>.reply_is_*()\<close> holds of a reply, and where it
  does the typed functions give what \<open>.get_reply()\<close> gives. No other database sees the reply.
\<close>

theorem replies_read:
  assumes "cmd_db (task w) = Some d" and "cmd_reply (task w) = Some r"
    and "length (elements r) < 2 ^ 63" and "- (2 ^ 63) \<le> i" and "i < 2 ^ 63"
  shows "vmod_db_get_array_reply_value h d i w =
      Some (if 0 \<le> i \<and> i < int (vmod_db_get_array_reply_length d w) then get_reply h (elements r ! nat i) w else (None, w)) \<and>
    vmod_db_array_reply_is k d i w =
      Some (is_array r \<and> 0 \<le> i \<and> i < int (vmod_db_get_array_reply_length d w) \<and> kind_is k (elements r ! nat i)) \<and>
    (vmod_db_reply_is k d w \<and> vmod_db_reply_is k' d w \<longrightarrow> k = k') \<and>
    (vmod_db_reply_is k d w \<and> k \<in> {Kind_Error, Kind_Status, Kind_String} \<longrightarrow>
      vmod_db_get_string_reply h k d w = vmod_db_get_reply h d w) \<and>
    (vmod_db_reply_is k d w \<and> k \<in> {Kind_Integer, Kind_Boolean} \<longrightarrow>
      vmod_db_get_reply h d w = ws_string h (string_of_int (vmod_db_get_number_reply k d w)) w) \<and>
    (d' \<noteq> d \<longrightarrow> \<not> vmod_db_replied d' w \<and> \<not> vmod_db_reply_is k d' w \<and>
      vmod_db_get_reply h d' w = (None, w) \<and> vmod_db_get_array_reply_value h d' i w = Some (None, w))"
proof (intro conjI impI)
  have own: "own_reply d w = Some r" using assms(1,2) by (simp add: own_reply_eq)
  note in_bounds = below_iff [OF assms(3-5)] and elem = element_at_below [OF assms(3-5)]
  have arr: "is_array r \<Longrightarrow> kind_is Kind_Array r" by (cases r) (simp_all add: kind_is_def)
  show "vmod_db_get_array_reply_value h d i w =
      Some (if 0 \<le> i \<and> i < int (vmod_db_get_array_reply_length d w) then get_reply h (elements r ! nat i) w else (None, w))"
    using elem by (auto simp: vmod_db_get_array_reply_value_def vmod_db_get_array_reply_length_def own in_bounds)
  show "vmod_db_array_reply_is k d i w =
      Some (is_array r \<and> 0 \<le> i \<and> i < int (vmod_db_get_array_reply_length d w) \<and> kind_is k (elements r ! nat i))"
    using elem arr by (auto simp: vmod_db_array_reply_is_def vmod_db_get_array_reply_length_def own in_bounds)
  show "k = k'" if "vmod_db_reply_is k d w \<and> vmod_db_reply_is k' d w"
    using that kind_unique by (auto simp: vmod_db_reply_is_def own)
  show "vmod_db_get_string_reply h k d w = vmod_db_get_reply h d w"
    if "vmod_db_reply_is k d w \<and> k \<in> {Kind_Error, Kind_Status, Kind_String}"
    using that string_getter [of k r h w]
    by (simp add: vmod_db_reply_is_def vmod_db_get_string_reply_def vmod_db_get_reply_def own)
  show "vmod_db_get_reply h d w = ws_string h (string_of_int (vmod_db_get_number_reply k d w)) w"
    if "vmod_db_reply_is k d w \<and> k \<in> {Kind_Integer, Kind_Boolean}"
    using that number_getter by (auto simp: vmod_db_reply_is_def vmod_db_get_number_reply_def vmod_db_get_reply_def own)
  assume "d' \<noteq> d"
  then have other: "own_reply d' w = None" using assms(1) by (simp add: own_reply_eq)
  then show "vmod_db_get_reply h d' w = (None, w)" "vmod_db_get_array_reply_value h d' i w = Some (None, w)"
    "\<not> vmod_db_reply_is k d' w"
    by (simp_all add: vmod_db_get_reply_def vmod_db_get_array_reply_value_def vmod_db_reply_is_def)
  show "\<not> vmod_db_replied d' w"
    using other assms(2) by (simp add: vmod_db_replied_def get_task_state_def own_reply_eq Let_def split: if_splits)
qed

text \<open>An array of two elements, read by the database \<open>0\<close>.\<close>

definition lab_read :: "redisReply \<Rightarrow> int world" where
  "lab_read r = (lab_one False False)\<lparr>task := lab_task\<lparr>cmd_db := Some 0, cmd_reply := Some r\<rparr>\<rparr>"

theorem replies_read_witness:
  "vmod_db_get_array_reply_value (lab (\<lambda>c. None) 64) 0 (- 1) (lab_read (Reply_Map [Reply_Integer 7, Reply_Nil])) =
     Some (None, lab_read (Reply_Map [Reply_Integer 7, Reply_Nil])) \<and>
   vmod_db_array_reply_is Kind_Integer 0 0 (lab_read (Reply_Map [Reply_Integer 7, Reply_Nil])) = Some False \<and>
   vmod_db_array_reply_is Kind_Integer 0 0 (lab_read (Reply_Array [Reply_Integer 7, Reply_Nil])) = Some True \<and>
   fst (the (vmod_db_get_array_reply_value (lab (\<lambda>c. None) 64) 0 0 (lab_read (Reply_Map [Reply_Integer 7, Reply_Nil])))) = Some ''7''"
proof -
  let ?es = "[Reply_Integer 7, Reply_Nil]" and ?h = "lab (\<lambda>c. None) 64"
  have m: "cmd_db (task (lab_read r)) = Some 0" "cmd_reply (task (lab_read r)) = Some r" for r by (simp_all add: lab_read_def)
  note read = replies_read [OF m]
  have "length (elements (Reply_Map ?es)) < 2 ^ 63" "length (elements (Reply_Array ?es)) < 2 ^ 63" by simp_all
  note r1 = read [OF this(1), of "- 1" ?h Kind_Integer Kind_Integer 1] read [OF this(1), of 0 ?h Kind_Integer Kind_Integer 1]
    and r2 = read [OF this(2), of 0 ?h Kind_Integer Kind_Integer 1]
  have len: "vmod_db_get_array_reply_length 0 (lab_read (Reply_Map ?es)) = 2" "vmod_db_get_array_reply_length 0 (lab_read (Reply_Array ?es)) = 2"
    by (simp_all add: vmod_db_get_array_reply_length_def own_reply_eq m kind_is_def)
  have c: "(char_of (55 :: nat) :: char) = CHR ''7''" by code_simp
  have "fst (get_reply ?h (Reply_Integer 7) (lab_read (Reply_Map ?es))) = Some ''7''"
    by (simp add: ws_string_def WS_Copy_def net_call_def string_of_int_def string_of_nat.simps c lab_read_def lab_defs)
  then show ?thesis using r1 r2 by (simp add: len kind_is_def)
qed

end
