(* ===== verification/Reply_Json.thy ===== *)
theory Reply_Json
  imports Redis_Reply
begin

text \<open>
  The text that a reply is printed as (\<open>src/core.c\<close>: \<open>serialize_redis_reply\<close>), and what makes it a
  text of JSON. \<open>quote\<close> is \<open>VSB_quote\<close> with \<open>VSB_QUOTE_JSON\<close>, and \<open>dval\<close> is \<open>reply->dval\<close> as \<open>printf\<close> writes
  it with \<open>"%.17g"\<close>.
\<close>

section \<open>The code\<close>

definition quoted :: "string \<Rightarrow> string" where
  "quoted s = [CHR 0x22] @ s @ [CHR 0x22]"

fun serialize :: "(string \<Rightarrow> string) \<Rightarrow> (redisReply \<Rightarrow> string) \<Rightarrow> redisReply \<Rightarrow> string"
  and serialize_elements ::
    "(string \<Rightarrow> string) \<Rightarrow> (redisReply \<Rightarrow> string) \<Rightarrow> bool \<Rightarrow> nat \<Rightarrow> redisReply list \<Rightarrow> string" where
  "serialize quote dval (Reply_Status s) = quoted (''(status) '' @ quote s)"
| "serialize quote dval (Reply_Error s) = quoted (''(error) '' @ quote s)"
| "serialize quote dval (Reply_Integer i) = quoted (''(integer) '' @ string_of_int i)"
| "serialize quote dval Reply_Nil = quoted ''(nil)''"
| "serialize quote dval (Reply_String s) = quoted (quote s)"
| "serialize quote dval (Reply_Double s) =
     quoted (''(double) '' @ (if length s > 0 then s else dval (Reply_Double s)))"
| "serialize quote dval (Reply_Bool b) = quoted (if b then ''(bool) true'' else ''(bool) false'')"
| "serialize quote dval (Reply_Verb vtype s) = quoted (''(verbatim '' @ take 3 vtype @ '') '' @ quote s)"
| "serialize quote dval (Reply_Bignum s) = quoted (''(bignum) '' @ s)"
| "serialize quote dval (Reply_Array es) = ''['' @ serialize_elements quote dval False 0 es @ '']''"
| "serialize quote dval (Reply_Set es) =
     ''{'' @ quoted ''(set)'' @ '': '' @ ''['' @ serialize_elements quote dval False 0 es @ '']'' @ ''}''"
| "serialize quote dval (Reply_Push es) =
     ''{'' @ quoted ''(push)'' @ '': '' @ ''['' @ serialize_elements quote dval False 0 es @ '']'' @ ''}''"
| "serialize quote dval (Reply_Map es) = ''{'' @ serialize_elements quote dval True 0 es @ ''}''"
| "serialize quote dval (Reply_Attr es) =
     ''{'' @ quoted ''(attr)'' @ '': '' @ ''{'' @ serialize_elements quote dval True 0 es @ ''}'' @ ''}''"
| "serialize quote dval (Reply_Unknown type) = quoted (''(unknown type '' @ string_of_int type @ '')'')"
| "serialize_elements quote dval pairs i [] = []"
| "serialize_elements quote dval pairs i (e # es) =
     (if i > 0 then (if pairs \<and> i mod 2 = 1 then '': '' else '', '') else []) @
     serialize quote dval e @ serialize_elements quote dval pairs (Suc i) es"

definition serialize_redis_reply :: "(string \<Rightarrow> string) \<Rightarrow> (redisReply \<Rightarrow> string) \<Rightarrow> redisReply option \<Rightarrow> string" where
  "serialize_redis_reply quote dval reply =
     (case reply of None \<Rightarrow> quoted ''(null)'' | Some r \<Rightarrow> serialize quote dval r)"

section \<open>JSON\<close>

text \<open>What may stand between the quotes of a string.\<close>

definition is_hex :: "char \<Rightarrow> bool" where
  "is_hex c \<longleftrightarrow> is_digit c \<or> c \<in> set ''abcdefABCDEF''"

fun json_chars :: "string \<Rightarrow> bool" where
  "json_chars [] = True"
| "json_chars (c # cs) =
     (if c = CHR 0x5C
      then (case cs of
              [] \<Rightarrow> False
            | e # ds \<Rightarrow>
                if e = CHR ''u'' then length (take 4 ds) = 4 \<and> (\<forall>x \<in> set (take 4 ds). is_hex x) \<and> json_chars (drop 4 ds)
                else e \<in> set [CHR 0x22, CHR 0x5C, CHR ''/'', CHR ''b'', CHR ''f'', CHR ''n'', CHR ''r'', CHR ''t''] \<and>
                  json_chars ds)
      else c \<noteq> CHR 0x22 \<and> code c \<ge> 32 \<and> json_chars cs)"

fun joined :: "string list \<Rightarrow> string" where
  "joined [] = []"
| "joined [v] = v"
| "joined (v # u # vs) = v @ '', '' @ joined (u # vs)"

text \<open>The texts of strings, arrays and objects (RFC 8259), with one blank after a comma or a colon.\<close>

inductive json :: "string \<Rightarrow> bool" where
  json_string: "json_chars s \<Longrightarrow> json (quoted s)"
| json_array: "\<forall>v \<in> set vs. json v \<Longrightarrow> json (''['' @ joined vs @ '']'')"
| json_object: "\<forall>(k, v) \<in> set kvs. json_chars k \<and> json v \<Longrightarrow>
    json (''{'' @ joined (map (\<lambda>(k, v). quoted k @ '': '' @ v) kvs) @ ''}'')"

inductive_cases json_brace: "json (CHR ''{'' # s)"

lemma json_chars_append: "json_chars s \<Longrightarrow> json_chars t \<Longrightarrow> json_chars (s @ t)"
proof (induction s rule: json_chars.induct)
  case 1
  then show ?case by simp
next
  case (2 c cs)
  show ?case
  proof (cases "c = CHR 0x5C")
    case False
    then show ?thesis using 2 by simp
  next
    case True
    obtain e ds where cs: "cs = e # ds" using "2.prems"(1) True by (cases cs) simp_all
    show ?thesis
    proof (cases "e = CHR ''u''")
      case u: True
      then have len: "4 \<le> length ds" using "2.prems"(1) True by (auto simp: cs min_def split: if_splits)
      then show ?thesis using 2 True u by (simp add: cs min_def)
    next
      case False
      then show ?thesis using 2 True by (simp add: cs)
    qed
  qed
qed

lemma json_chars_plain:
  "\<forall>c \<in> set s. c \<noteq> CHR 0x5C \<and> c \<noteq> CHR 0x22 \<and> code c \<ge> 32 \<Longrightarrow> json_chars s"
  by (induction s) auto

lemma json_chars_int: "json_chars (string_of_int i)"
proof -
  have "c \<noteq> CHR 0x5C \<and> c \<noteq> CHR 0x22 \<and> code c \<ge> 32" if "is_digit c" for c
    using that by (auto simp: is_digit_def code_def)
  then show ?thesis
    using digits_string_of_nat
    by (auto simp: string_of_int_def code_def intro!: json_chars_plain)
qed

section \<open>Replies\<close>

fun is_scalar :: "redisReply \<Rightarrow> bool" where
  "is_scalar (Reply_Array es) = False"
| "is_scalar (Reply_Set es) = False"
| "is_scalar (Reply_Push es) = False"
| "is_scalar (Reply_Map es) = False"
| "is_scalar (Reply_Attr es) = False"
| "is_scalar r = True"

text \<open>Keys and values, as they alternate in the elements.\<close>

fun entries :: "'a list \<Rightarrow> ('a \<times> 'a) list" where
  "entries (k # v # es) = (k, v) # entries es"
| "entries es = []"

text \<open>
  What hiredis delivers: the elements of a map come in pairs, and the texts that are printed as they are
  (numbers, and the type of a verbatim string) have no quotes.
\<close>

fun reply_plain :: "redisReply \<Rightarrow> bool" where
  "reply_plain (Reply_Double s) = json_chars s"
| "reply_plain (Reply_Bignum s) = json_chars s"
| "reply_plain (Reply_Verb vtype s) = json_chars (take 3 vtype)"
| "reply_plain (Reply_Array es) = (\<forall>e \<in> set es. reply_plain e)"
| "reply_plain (Reply_Set es) = (\<forall>e \<in> set es. reply_plain e)"
| "reply_plain (Reply_Push es) = (\<forall>e \<in> set es. reply_plain e)"
| "reply_plain (Reply_Map es) = (even (length es) \<and> (\<forall>e \<in> set es. reply_plain e))"
| "reply_plain (Reply_Attr es) = (even (length es) \<and> (\<forall>e \<in> set es. reply_plain e))"
| "reply_plain r = True"

text \<open>The keys of all maps in a reply, at any depth, are scalars.\<close>

fun scalar_keys :: "redisReply \<Rightarrow> bool" where
  "scalar_keys (Reply_Array es) = (\<forall>e \<in> set es. scalar_keys e)"
| "scalar_keys (Reply_Set es) = (\<forall>e \<in> set es. scalar_keys e)"
| "scalar_keys (Reply_Push es) = (\<forall>e \<in> set es. scalar_keys e)"
| "scalar_keys (Reply_Map es) = ((\<forall>(k, v) \<in> set (entries es). is_scalar k) \<and> (\<forall>e \<in> set es. scalar_keys e))"
| "scalar_keys (Reply_Attr es) = ((\<forall>(k, v) \<in> set (entries es). is_scalar k) \<and> (\<forall>e \<in> set es. scalar_keys e))"
| "scalar_keys r = True"

lemma entries_set: "(k, v) \<in> set (entries es) \<Longrightarrow> k \<in> set es \<and> v \<in> set es"
  by (induction es rule: entries.induct) auto

lemma set_entries: "even (length es) \<Longrightarrow> set es = (\<Union>(k, v) \<in> set (entries es). {k, v})"
  by (induction es rule: entries.induct) auto

lemma joined_Cons: "joined (v # vs) = v @ (if vs = [] then [] else '', '' @ joined vs)"
  by (cases vs) simp_all

lemma serialize_list:
  "serialize_elements quote dval False i es =
     (if i > 0 \<and> es \<noteq> [] then '', '' else []) @ joined (map (serialize quote dval) es)"
  by (induction es arbitrary: i) (simp_all add: joined_Cons)

lemma serialize_entries:
  assumes "even (length es)" and "even i"
  shows "serialize_elements quote dval True i es =
     (if i > 0 \<and> es \<noteq> [] then '', '' else []) @
     joined (map (\<lambda>(k, v). serialize quote dval k @ '': '' @ serialize quote dval v) (entries es))"
  using assms
proof (induction es arbitrary: i rule: entries.induct)
  case (1 k v es)
  have "(entries es = []) = (es = [])" using "1.prems"(1) by (cases es rule: entries.cases) simp_all
  moreover have "Suc i mod 2 = 1" "i mod 2 = 0" using "1.prems"(2) by presburger+
  ultimately show ?case using 1 by (simp add: joined_Cons)
qed simp_all

text \<open>A scalar is a string.\<close>

lemma serialize_scalar:
  assumes "\<forall>s. json_chars (quote s)" and "\<forall>r. json_chars (dval r)" and "is_scalar r" and "reply_plain r"
  shows "\<exists>s. serialize quote dval r = quoted s \<and> json_chars s"
proof -
  have fixed: "json_chars ''(status) ''" "json_chars ''(error) ''" "json_chars ''(integer) ''" "json_chars ''(double) ''"
    "json_chars ''(verbatim ''" "json_chars '') ''" "json_chars ''(bignum) ''" "json_chars ''(nil)''"
    "json_chars ''(bool) true''" "json_chars ''(bool) false''" "json_chars ''(unknown type ''" "json_chars '')''"
    by code_simp+
  note parts = json_chars_append assms(1,2) [rule_format] json_chars_int fixed
  show ?thesis using assms(3,4)
    by (cases r) (auto simp del: append_Cons append.simps json_chars.simps intro!: exI parts split: if_splits)
qed

section \<open>Texts of JSON are read in one way\<close>

text \<open>
  \<open>settles J v\<close>: a text that begins with \<open>v\<close> begins with no other text of \<open>J\<close>, whether or not \<open>v\<close> itself
  is in \<open>J\<close>.
\<close>

definition settles :: "(string \<Rightarrow> bool) \<Rightarrow> string \<Rightarrow> bool" where
  "settles J v \<longleftrightarrow> (\<forall>v' r r'. J v' \<longrightarrow> v @ r = v' @ r' \<longrightarrow> v' = v)"

lemma settlesD: "settles J v \<Longrightarrow> J v' \<Longrightarrow> v @ r = v' @ r' \<Longrightarrow> v' = v \<and> r' = r"
  unfolding settles_def by (metis same_append_eq)

lemma chars_step:
  "c \<noteq> CHR 0x5C \<Longrightarrow> json_chars (c # cs) \<longleftrightarrow> c \<noteq> CHR 0x22 \<and> code c \<ge> 32 \<and> json_chars cs"
  "json_chars (CHR 0x5C # CHR ''u'' # cs) \<longleftrightarrow>
     length (take 4 cs) = 4 \<and> (\<forall>x \<in> set (take 4 cs). is_hex x) \<and> json_chars (drop 4 cs)"
  "e \<noteq> CHR ''u'' \<Longrightarrow> json_chars (CHR 0x5C # e # cs) \<Longrightarrow> json_chars cs"
  "\<not> json_chars [CHR 0x5C]"
  by simp_all

lemma chars_settle:
  "json_chars s \<Longrightarrow> json_chars t \<Longrightarrow> s @ CHR 0x22 # r = t @ CHR 0x22 # r' \<Longrightarrow> t = s"
proof (induction s arbitrary: t rule: json_chars.induct)
  case 1
  then show ?case by (cases t) (auto split: if_splits)
next
  case (2 c cs)
  have "c \<noteq> CHR 0x22" using "2.prems"(1) by (cases "c = CHR 0x5C") (simp_all add: chars_step del: json_chars.simps(2))
  then obtain ds where t: "t = c # ds" and eq: "cs @ CHR 0x22 # r = ds @ CHR 0x22 # r'"
    using "2.prems"(3) by (cases t) simp_all
  show ?case
  proof (cases "c = CHR 0x5C")
    case False
    then have "json_chars cs" "json_chars ds" using "2.prems"(1,2) t chars_step(1) by blast+
    then show ?thesis using "2.IH"(3) [OF False _ _ eq] t by simp
  next
    case True
    obtain e es where cs: "cs = e # es" using "2.prems"(1) True chars_step(4) by (cases cs) simp_all
    obtain fs where ds: "ds = e # fs" and eq': "es @ CHR 0x22 # r = fs @ CHR 0x22 # r'"
      using eq "2.prems"(2) True t cs chars_step(4) by (cases ds) (simp_all del: json_chars.simps(2))
    show ?thesis
    proof (cases "e = CHR ''u''")
      case False
      then have "json_chars es" "json_chars fs" using "2.prems"(1,2) t True cs ds chars_step(3) by blast+
      then show ?thesis using "2.IH"(2) [OF True cs False _ _ eq'] t cs ds by simp
    next
      case u: True
      have len: "length (take 4 es) = 4" "length (take 4 fs) = 4" and "json_chars (drop 4 es)" "json_chars (drop 4 fs)"
        using "2.prems"(1,2) t True cs ds u chars_step(2) by blast+
      moreover have "take 4 es = take 4 fs" "drop 4 es @ CHR 0x22 # r = drop 4 fs @ CHR 0x22 # r'"
        using arg_cong [OF eq', of "take 4"] arg_cong [OF eq', of "drop 4"] len by (simp_all add: min_def split: if_splits)
      ultimately have "drop 4 fs = drop 4 es" "take 4 fs = take 4 es"
        using "2.IH"(1) [OF True cs u, of "drop 4 fs"] by simp_all
      then show ?thesis unfolding t cs ds by (metis append_take_drop_id)
    qed
  qed
qed

lemma quoted_settles: "json_chars s \<Longrightarrow> json_chars t \<Longrightarrow> quoted s @ r = quoted t @ r' \<Longrightarrow> t = s"
  using chars_settle by (simp add: quoted_def)

inductive_cases json_quote: "json (CHR 0x22 # s)"

inductive_cases json_bracket: "json (CHR ''['' # s)"

inductive_cases json_any: "json v"

lemma json_head: "json v \<Longrightarrow> v \<noteq> [] \<and> hd v \<in> {CHR 0x22, CHR ''['', CHR ''{''}"
  by (cases rule: json.cases) (auto simp: quoted_def)

lemma json_string_settles: "json_chars s \<Longrightarrow> settles json (quoted s)"
  unfolding settles_def
proof (intro allI impI)
  fix v r r'
  assume s: "json_chars s" and v: "json v" and eq: "quoted s @ r = v @ r'"
  obtain x where "v = CHR 0x22 # x" using eq json_head [OF v] by (cases v) (auto simp: quoted_def)
  then obtain t where "v = quoted t" "json_chars t" using v by (auto simp: quoted_def elim!: json_quote)
  then show "v = quoted s" using quoted_settles [OF s] eq by blast
qed

text \<open>Lists of texts between a bracket and another.\<close>

lemma joined_settles:
  assumes "\<forall>v \<in> set vs. settles J v" and "\<forall>v \<in> set vs'. J v"
    and "\<forall>v \<in> set vs \<union> set vs'. v \<noteq> [] \<and> hd v \<noteq> close" and "close \<noteq> CHR '',''"
    and "joined vs @ close # r = joined vs' @ close # r'"
  shows "vs' = vs \<and> r' = r"
  using assms(1-3,5)
proof (induction vs arbitrary: vs')
  case Nil
  then show ?case by (cases vs') (auto simp: joined_Cons neq_Nil_conv)
next
  case (Cons v vs)
  obtain u us where vs': "vs' = u # us" using Cons.prems by (cases vs') (auto simp: joined_Cons neq_Nil_conv)
  let ?tail = "\<lambda>vs r. if vs = [] then close # r else '', '' @ joined vs @ close # r"
  have "v @ ?tail vs r = u @ ?tail us r'" using Cons.prems(4) by (simp add: vs' joined_Cons split: if_splits)
  then have "u = v" "?tail us r' = ?tail vs r"
    using settlesD [of J v u "?tail vs r" "?tail us r'"] Cons.prems(1,2) by (auto simp: vs')
  then show ?case
    using Cons.IH [of us] Cons.prems assms(4) by (auto simp: vs' split: if_splits)
qed

lemma array_settles:
  assumes "\<forall>v \<in> set vs. settles json v \<and> v \<noteq> [] \<and> hd v \<noteq> CHR '']''"
  shows "settles json (''['' @ joined vs @ '']'')" and "json (''['' @ joined vs @ '']'') \<longleftrightarrow> (\<forall>v \<in> set vs. json v)"
proof -
  have read: "vs' = vs \<and> r' = r"
    if "\<forall>v \<in> set vs'. json v" "joined vs @ CHR '']'' # r = joined vs' @ CHR '']'' # r'" for vs' r r'
    using joined_settles [of vs json vs' "CHR '']''" r r'] assms that json_head by fastforce
  show "settles json (''['' @ joined vs @ '']'')"
    unfolding settles_def
  proof (intro allI impI)
    fix v r r'
    assume v: "json v" and eq: "(''['' @ joined vs @ '']'') @ r = v @ r'"
    obtain x where "v = CHR ''['' # x" using eq json_head [OF v] by (cases v) auto
    then obtain vs' where "v = ''['' @ joined vs' @ '']''" "\<forall>v \<in> set vs'. json v"
      using v by (auto simp: quoted_def elim!: json_bracket)
    then show "v = ''['' @ joined vs @ '']''" using read [of vs' r r'] eq by simp
  qed
  show "json (''['' @ joined vs @ '']'') \<longleftrightarrow> (\<forall>v \<in> set vs. json v)"
    using read [where r = "[]" and r' = "[]"] json_array [of vs] by (fastforce elim!: json_bracket simp: quoted_def)
qed

text \<open>An entry of an object.\<close>

definition json_entry :: "string \<Rightarrow> bool" where
  "json_entry i \<longleftrightarrow> (\<exists>k v. i = quoted k @ '': '' @ v \<and> json_chars k \<and> json v)"

lemma json_entries: "(\<forall>i \<in> set items. json_entry i) \<longrightarrow> json (''{'' @ joined items @ ''}'')"
proof
  assume "\<forall>i \<in> set items. json_entry i"
  then have "\<exists>kvs. items = map (\<lambda>(k, v). quoted k @ '': '' @ v) kvs \<and> (\<forall>(k, v) \<in> set kvs. json_chars k \<and> json v)"
  proof (induction items)
    case Nil
    then show ?case by simp
  next
    case (Cons i items)
    then obtain kvs where "items = map (\<lambda>(k, v). quoted k @ '': '' @ v) kvs" "\<forall>(k, v) \<in> set kvs. json_chars k \<and> json v"
      by auto
    moreover obtain k v where "i = quoted k @ '': '' @ v" "json_chars k" "json v" using Cons.prems by (auto simp: json_entry_def)
    ultimately show ?case by (intro exI [of _ "(k, v) # kvs"]) simp
  qed
  then show "json (''{'' @ joined items @ ''}'')" using json_object by blast
qed

lemma json_brace_entries:
  assumes "json (CHR ''{'' # s)"
  shows "\<exists>items. s = joined items @ ''}'' \<and> (\<forall>i \<in> set items. json_entry i)"
proof -
  have entries: "\<forall>i \<in> set (map (\<lambda>(k, v). quoted k @ '': '' @ v) kvs). json_entry i"
    if "\<forall>(k, v) \<in> set kvs. json_chars k \<and> json v" for kvs
    unfolding json_entry_def using that by fastforce
  obtain kvs where kvs: "\<forall>(k, v) \<in> set kvs. json_chars k \<and> json v"
    "s = joined (map (\<lambda>(k, v). quoted k @ '': '' @ v) kvs) @ ''}''"
    using assms by (auto simp: quoted_def elim!: json_brace)
  show ?thesis using entries [OF kvs(1)] kvs(2) by blast
qed

lemma entry_head: "json_entry i \<Longrightarrow> i \<noteq> [] \<and> hd i = CHR 0x22"
  by (auto simp: json_entry_def quoted_def)

lemma entry_settles:
  assumes k: "settles json k" and v: "settles json v"
  shows "settles json_entry (k @ '': '' @ v)"
    and "json_entry (k @ '': '' @ v) \<longleftrightarrow> (\<exists>s. k = quoted s \<and> json_chars s) \<and> json v"
proof -
  have read: "k = quoted s \<and> v = u"
    if "json_chars s" "json u" "(k @ '': '' @ v) @ r = (quoted s @ '': '' @ u) @ r'" for s u r r'
  proof -
    have "quoted s = k \<and> '': '' @ u @ r' = '': '' @ v @ r"
      using settlesD [OF k json_string [OF that(1)], of "'': '' @ v @ r" "'': '' @ u @ r'"] that(3) by simp
    then show ?thesis using settlesD [OF v that(2), of r r'] by simp
  qed
  show "settles json_entry (k @ '': '' @ v)"
    unfolding settles_def json_entry_def using read by blast
  show "json_entry (k @ '': '' @ v) \<longleftrightarrow> (\<exists>s. k = quoted s \<and> json_chars s) \<and> json v"
  proof
    assume "json_entry (k @ '': '' @ v)"
    then obtain s u where su: "k @ '': '' @ v = quoted s @ '': '' @ u" "json_chars s" "json u"
      unfolding json_entry_def by blast
    then show "(\<exists>s. k = quoted s \<and> json_chars s) \<and> json v" using read [of s u "[]" "[]"] by blast
  qed (auto simp: json_entry_def)
qed

lemma object_settles:
  assumes "\<forall>i \<in> set items. settles json_entry i \<and> i \<noteq> [] \<and> hd i \<noteq> CHR ''}''"
  shows "settles json (''{'' @ joined items @ ''}'')"
    and "json (''{'' @ joined items @ ''}'') \<longleftrightarrow> (\<forall>i \<in> set items. json_entry i)"
proof -
  have read: "is = items \<and> r' = r"
    if "\<forall>i \<in> set is. json_entry i" "joined items @ CHR ''}'' # r = joined is @ CHR ''}'' # r'" for "is" r r'
    using joined_settles [of items json_entry "is" "CHR ''}''" r r'] assms that entry_head by fastforce
  show "settles json (''{'' @ joined items @ ''}'')"
    unfolding settles_def
  proof (intro allI impI)
    fix v r r'
    assume v: "json v" and eq: "(''{'' @ joined items @ ''}'') @ r = v @ r'"
    obtain x where x: "v = CHR ''{'' # x" using eq json_head [OF v] by (cases v) auto
    then obtain "is" where "x = joined is @ ''}''" "\<forall>i \<in> set is. json_entry i"
      using v json_brace_entries by blast
    then show "v = ''{'' @ joined items @ ''}''" using read [of "is" r r'] eq x by simp
  qed
  show "json (''{'' @ joined items @ ''}'') \<longleftrightarrow> (\<forall>i \<in> set items. json_entry i)"
    using read [where r = "[]" and r' = "[]"] json_brace_entries [of "joined items @ ''}''"] json_entries [of items]
    by fastforce
qed

text \<open>The objects of one entry that sets, pushes and attributes are wrapped in.\<close>

lemma wrap_settles:
  assumes "json_chars t" and "settles json v"
  shows "settles json (''{'' @ quoted t @ '': '' @ v @ ''}'')"
    and "json (''{'' @ quoted t @ '': '' @ v @ ''}'') \<longleftrightarrow> json v"
proof -
  note entry = entry_settles [OF json_string_settles [OF assms(1)] assms(2)]
  have "json_entry (quoted t @ '': '' @ v) \<longleftrightarrow> json v" using entry(2) assms(1) by blast
  moreover have "\<forall>i \<in> set [quoted t @ '': '' @ v]. settles json_entry i \<and> i \<noteq> [] \<and> hd i \<noteq> CHR ''}''"
    using entry(1) by (simp add: quoted_def)
  from object_settles [OF this]
  show "settles json (''{'' @ quoted t @ '': '' @ v @ ''}'')"
    and "json (''{'' @ quoted t @ '': '' @ v @ ''}'') \<longleftrightarrow> json v"
    using calculation by simp_all
qed

section \<open>Replies and JSON\<close>

lemma serialize_head:
  "serialize quote dval r \<noteq> []"
  "hd (serialize quote dval r) \<noteq> CHR '']''" "hd (serialize quote dval r) \<noteq> CHR ''}''"
  by (cases r; simp add: quoted_def)+

lemma not_scalar_head: "\<not> is_scalar r \<Longrightarrow> serialize quote dval r \<noteq> quoted s"
  by (cases r) (auto simp: quoted_def)

text \<open>A reply, and that its text is one of JSON exactly if its keys are scalars.\<close>

definition printed :: "(string \<Rightarrow> string) \<Rightarrow> (redisReply \<Rightarrow> string) \<Rightarrow> redisReply \<Rightarrow> bool" where
  "printed quote dval r \<longleftrightarrow>
     settles json (serialize quote dval r) \<and> (json (serialize quote dval r) \<longleftrightarrow> scalar_keys r)"

lemma list_printed:
  assumes "\<forall>e \<in> set es. printed quote dval e"
  shows "settles json (''['' @ serialize_elements quote dval False 0 es @ '']'')"
    and "json (''['' @ serialize_elements quote dval False 0 es @ '']'') \<longleftrightarrow> (\<forall>e \<in> set es. scalar_keys e)"
proof -
  have "\<forall>v \<in> set (map (serialize quote dval) es). settles json v \<and> v \<noteq> [] \<and> hd v \<noteq> CHR '']''"
    using assms by (simp add: printed_def serialize_head)
  note array = array_settles [OF this]
  show "settles json (''['' @ serialize_elements quote dval False 0 es @ '']'')"
    using array(1) by (simp add: serialize_list)
  show "json (''['' @ serialize_elements quote dval False 0 es @ '']'') \<longleftrightarrow> (\<forall>e \<in> set es. scalar_keys e)"
    using array(2) assms by (simp add: serialize_list printed_def)
qed

lemma entry_printed:
  assumes "\<forall>s. json_chars (quote s)" and "\<forall>r. json_chars (dval r)" and "reply_plain k"
    and "printed quote dval k" and "printed quote dval v"
  shows "settles json_entry (serialize quote dval k @ '': '' @ serialize quote dval v)"
    and "json_entry (serialize quote dval k @ '': '' @ serialize quote dval v) \<longleftrightarrow> is_scalar k \<and> scalar_keys v"
proof -
  note entry = entry_settles [of "serialize quote dval k" "serialize quote dval v"]
  show "settles json_entry (serialize quote dval k @ '': '' @ serialize quote dval v)"
    using entry(1) assms(4,5) by (simp add: printed_def)
  have "(\<exists>s. serialize quote dval k = quoted s \<and> json_chars s) \<longleftrightarrow> is_scalar k"
    using serialize_scalar [OF assms(1,2) _ assms(3)] not_scalar_head by blast
  then show "json_entry (serialize quote dval k @ '': '' @ serialize quote dval v) \<longleftrightarrow> is_scalar k \<and> scalar_keys v"
    using entry(2) assms(4,5) by (simp add: printed_def)
qed

lemma scalar_key_ok: "is_scalar k \<Longrightarrow> scalar_keys k"
  by (cases k) simp_all

lemma map_printed:
  assumes "\<forall>s. json_chars (quote s)" and "\<forall>r. json_chars (dval r)" and "even (length es)"
    and "\<forall>e \<in> set es. reply_plain e \<and> printed quote dval e"
  shows "settles json (''{'' @ serialize_elements quote dval True 0 es @ ''}'')"
    and "json (''{'' @ serialize_elements quote dval True 0 es @ ''}'') \<longleftrightarrow> scalar_keys (Reply_Map es)"
proof -
  let ?items = "map (\<lambda>(k, v). serialize quote dval k @ '': '' @ serialize quote dval v) (entries es)"
  have entry: "settles json_entry (serialize quote dval k @ '': '' @ serialize quote dval v)"
    "json_entry (serialize quote dval k @ '': '' @ serialize quote dval v) \<longleftrightarrow> is_scalar k \<and> scalar_keys v"
    if "(k, v) \<in> set (entries es)" for k v
    using entry_printed [OF assms(1,2)] entries_set [OF that] assms(4) by blast+
  have "\<forall>i \<in> set ?items. settles json_entry i \<and> i \<noteq> [] \<and> hd i \<noteq> CHR ''}''"
    using entry(1) by (auto simp: serialize_head)
  note object = object_settles [OF this]
  have items: "serialize_elements quote dval True 0 es = joined ?items"
    using serialize_entries [OF assms(3), of 0 quote dval] by simp
  show "settles json (''{'' @ serialize_elements quote dval True 0 es @ ''}'')"
    using object(1) by (simp add: items)
  have "(\<forall>i \<in> set ?items. json_entry i) \<longleftrightarrow> (\<forall>(k, v) \<in> set (entries es). is_scalar k \<and> scalar_keys v)"
    using entry(2) by fastforce
  also have "\<dots> \<longleftrightarrow> scalar_keys (Reply_Map es)"
    using set_entries [OF assms(3)] scalar_key_ok by fastforce
  finally show "json (''{'' @ serialize_elements quote dval True 0 es @ ''}'') \<longleftrightarrow> scalar_keys (Reply_Map es)"
    using object(2) by (simp add: items)
qed

lemma scalar_printed:
  assumes "\<forall>s. json_chars (quote s)" and "\<forall>r. json_chars (dval r)" and "is_scalar r" and "reply_plain r"
  shows "printed quote dval r"
proof -
  obtain s where "serialize quote dval r = quoted s" "json_chars s" using serialize_scalar [OF assms] by blast
  then show ?thesis using json_string_settles json_string scalar_key_ok [OF assms(3)] by (simp add: printed_def)
qed

lemma reply_is_printed:
  assumes "\<forall>s. json_chars (quote s)" and "\<forall>r. json_chars (dval r)"
  shows "reply_plain r \<Longrightarrow> printed quote dval r"
proof (induction r)
  note [simp del] = append_Cons append.simps
  have tags: "json_chars ''(set)''" "json_chars ''(push)''" "json_chars ''(attr)''" by code_simp+
  {
    case (Reply_Array es)
    then show ?case using list_printed [of es quote dval] by (simp add: printed_def)
  next
    case (Reply_Set es)
    then have "\<forall>e \<in> set es. printed quote dval e" by simp
    note list = list_printed [OF this]
    show ?case using wrap_settles [OF tags(1) list(1)] list(2) by (simp add: printed_def)
  next
    case (Reply_Push es)
    then have "\<forall>e \<in> set es. printed quote dval e" by simp
    note list = list_printed [OF this]
    show ?case using wrap_settles [OF tags(2) list(1)] list(2) by (simp add: printed_def)
  next
    case (Reply_Map es)
    then show ?case using map_printed [OF assms, of es] by (simp add: printed_def)
  next
    case (Reply_Attr es)
    then have "even (length es)" "\<forall>e \<in> set es. reply_plain e \<and> printed quote dval e" by simp_all
    note pairs = map_printed [OF assms this]
    show ?case using wrap_settles [OF tags(3) pairs(1)] pairs(2) by (simp add: printed_def)
  }
qed (rule scalar_printed [OF assms]; simp)+

text \<open>
  C37. A reply, as hiredis delivers it, is printed as a text of JSON, whatever its strings are, if the keys
  of the maps and attributes in it, at any depth, are scalars; and whenever one of them is not, which RESP3
  allows, its text is not JSON.
\<close>

theorem reply_printed_as_json:
  assumes "\<forall>s. json_chars (quote s)" and "\<forall>r. json_chars (dval r)" and "\<forall>r. reply = Some r \<longrightarrow> reply_plain r"
  shows "json (serialize_redis_reply quote dval reply) \<longleftrightarrow> (\<forall>r. reply = Some r \<longrightarrow> scalar_keys r)"
proof (cases reply)
  case None
  have "json_chars ''(null)''" by code_simp
  then show ?thesis using None json_string by (simp add: serialize_redis_reply_def)
next
  case (Some r)
  then have "printed quote dval r" using assms(3) reply_is_printed [OF assms(1,2)] by simp
  then show ?thesis using Some by (simp add: serialize_redis_reply_def printed_def)
qed

text \<open>Two replies with all strings left out: a set below a key, and an array as a key of a map in an array.\<close>

theorem reply_printed_as_json_witness:
  "json (serialize_redis_reply (\<lambda>s. []) (\<lambda>r. ''0'')
      (Some (Reply_Map [Reply_String ''k'', Reply_Set [Reply_Integer (- 3), Reply_Double ''1.5'']]))) \<and>
    \<not> json (serialize_redis_reply (\<lambda>s. []) (\<lambda>r. ''0'')
      (Some (Reply_Array [Reply_Map [Reply_Array [Reply_String ''k''], Reply_Nil]])))"
proof -
  have "reply_plain (Reply_Map [Reply_String ''k'', Reply_Set [Reply_Integer (- 3), Reply_Double ''1.5'']])"
    "scalar_keys (Reply_Map [Reply_String ''k'', Reply_Set [Reply_Integer (- 3), Reply_Double ''1.5'']])"
    "reply_plain (Reply_Array [Reply_Map [Reply_Array [Reply_String ''k''], Reply_Nil]])"
    "\<not> scalar_keys (Reply_Array [Reply_Map [Reply_Array [Reply_String ''k''], Reply_Nil]])"
    "json_chars ''0''" by code_simp+
  then show ?thesis using reply_printed_as_json [of "\<lambda>s. []" "\<lambda>r. ''0''"] by simp
qed

end
