(* ===== verification/Vmod_Counters.thy ===== *)
theory Vmod_Counters
  imports Execute Reply_Json Scenario
begin

text \<open>
  The counters of a database, as VCL gets them (\<open>src/vmod_redis.c\<close>: \<open>.stats()\<close> in its two formats and
  \<open>.counter()\<close>; \<open>src/core.c\<close>: \<open>append_synth_response_body\<close>). The buffers (\<open>VSB\<close>) are the texts they hold.
  A string that is returned is the bytes that were copied to the workspace, and what VCL reads of it goes on to
  the first NUL in memory.
\<close>

section \<open>The code\<close>

definition u64 :: "uint64 \<Rightarrow> string" where
  "u64 n = string_of_nat (unat n)"

definition member :: "string \<Rightarrow> string \<Rightarrow> string" where
  "member name text = quoted name @ '': '' @ text"

definition stats_json :: "stats \<Rightarrow> string" where
  "stats_json st =
     ''{'' @
       member ''servers'' (''{'' @
         member ''total'' (u64 (st_servers_total st)) @ '','' @
         member ''failed'' (u64 (st_servers_failed st)) @
       ''}'') @ '','' @
       member ''connections'' (''{'' @
         member ''total'' (u64 (st_connections_total st)) @ '','' @
         member ''failed'' (u64 (st_connections_failed st)) @ '','' @
         member ''dropped'' (''{'' @
           member ''error'' (u64 (st_dropped_error st)) @ '','' @
           member ''hung_up'' (u64 (st_dropped_hung_up st)) @ '','' @
           member ''overflow'' (u64 (st_dropped_overflow st)) @ '','' @
           member ''ttl'' (u64 (st_dropped_ttl st)) @ '','' @
           member ''version'' (u64 (st_dropped_version st)) @ '','' @
           member ''sick'' (u64 (st_dropped_sick st)) @
         ''}'') @
       ''}'') @ '','' @
       member ''workers'' (''{'' @
         member ''blocked'' (u64 (st_workers_blocked st)) @
       ''}'') @ '','' @
       member ''commands'' (''{'' @
         member ''total'' (u64 (st_commands_total st)) @ '','' @
         member ''failed'' (u64 (st_commands_failed st)) @ '','' @
         member ''retried'' (u64 (st_commands_retried st)) @ '','' @
         member ''error'' (u64 (st_commands_error st)) @ '','' @
         member ''noscript'' (u64 (st_commands_noscript st)) @
       ''}'') @ '','' @
       member ''cluster'' (''{'' @
         member ''discoveries'' (''{'' @
           member ''total'' (u64 (st_discoveries_total st)) @ '','' @
           member ''failed'' (u64 (st_discoveries_failed st)) @
         ''}'') @ '','' @
         member ''replies'' (''{'' @
           member ''moved'' (u64 (st_replies_moved st)) @ '','' @
           member ''ask'' (u64 (st_replies_ask st)) @
         ''}'') @
       ''}'') @
     ''}''"

text \<open>The format of Prometheus.\<close>

definition type_line :: "string \<Rightarrow> string \<Rightarrow> string" where
  "type_line prefix name = ''# TYPE '' @ prefix @ name @ '' counter'' @ [CHR 0x0A]"

definition sample_line :: "string \<Rightarrow> string \<Rightarrow> string \<Rightarrow> uint64 \<Rightarrow> string" where
  "sample_line prefix name labels n = prefix @ name @ ''{'' @ labels @ ''} '' @ u64 n @ [CHR 0x0A]"

definition stats_prefix :: "string option \<Rightarrow> string" where
  "stats_prefix prefix = (case prefix of Some (c # cs) \<Rightarrow> c # cs | _ \<Rightarrow> ''vmod_redis_'')"

definition stats_labels :: "string \<Rightarrow> bool \<Rightarrow> string option \<Rightarrow> string" where
  "stats_labels name default_labels extra =
     (let extra = (case extra of None \<Rightarrow> [] | Some s \<Rightarrow> s)
      in extra @ (if extra \<noteq> [] \<and> default_labels then '','' else []) @
         (if default_labels then ''name='' @ quoted name else []))"

definition stats_prometheus :: "string \<Rightarrow> string \<Rightarrow> stats \<Rightarrow> string" where
  "stats_prometheus prefix labels st =
     (let separator = (if labels \<noteq> [] then '','' else [])
      in type_line prefix ''servers_total'' @
         sample_line prefix ''servers_total'' labels (st_servers_total st) @
         type_line prefix ''servers_failed'' @
         sample_line prefix ''servers_failed'' labels (st_servers_failed st) @
         type_line prefix ''connections_total'' @
         sample_line prefix ''connections_total'' labels (st_connections_total st) @
         type_line prefix ''connections_failed'' @
         sample_line prefix ''connections_failed'' labels (st_connections_failed st) @
         type_line prefix ''connections_dropped'' @
         sample_line prefix ''connections_dropped'' (labels @ separator @ ''reason='' @ quoted ''error'') (st_dropped_error st) @
         sample_line prefix ''connections_dropped'' (labels @ separator @ ''reason='' @ quoted ''hung_up'') (st_dropped_hung_up st) @
         sample_line prefix ''connections_dropped'' (labels @ separator @ ''reason='' @ quoted ''overflow'') (st_dropped_overflow st) @
         sample_line prefix ''connections_dropped'' (labels @ separator @ ''reason='' @ quoted ''ttl'') (st_dropped_ttl st) @
         sample_line prefix ''connections_dropped'' (labels @ separator @ ''reason='' @ quoted ''version'') (st_dropped_version st) @
         sample_line prefix ''connections_dropped'' (labels @ separator @ ''reason='' @ quoted ''sick'') (st_dropped_sick st) @
         type_line prefix ''workers_blocked'' @
         sample_line prefix ''workers_blocked'' labels (st_workers_blocked st) @
         type_line prefix ''commands_total'' @
         sample_line prefix ''commands_total'' labels (st_commands_total st) @
         type_line prefix ''commands_failed'' @
         sample_line prefix ''commands_failed'' labels (st_commands_failed st) @
         type_line prefix ''commands_retried'' @
         sample_line prefix ''commands_retried'' labels (st_commands_retried st) @
         type_line prefix ''commands_error'' @
         sample_line prefix ''commands_error'' labels (st_commands_error st) @
         type_line prefix ''commands_noscript'' @
         sample_line prefix ''commands_noscript'' labels (st_commands_noscript st) @
         type_line prefix ''cluster_discoveries_total'' @
         sample_line prefix ''cluster_discoveries_total'' labels (st_discoveries_total st) @
         type_line prefix ''cluster_discoveries_failed'' @
         sample_line prefix ''cluster_discoveries_failed'' labels (st_discoveries_failed st) @
         type_line prefix ''cluster_replies_moved'' @
         sample_line prefix ''cluster_replies_moved'' labels (st_replies_moved st) @
         type_line prefix ''cluster_replies_ask'' @
         sample_line prefix ''cluster_replies_ask'' labels (st_replies_ask st))"

datatype stats_format = Format_Json | Format_Prometheus

datatype vcl_method = Met_Synth | Met_Backend_Error | Met_Other

text \<open>
  The buffers. \<open>live\<close> has the \<open>VSB\<close>s that were created and not destroyed, and \<open>privs\<close> the private pointers that
  the task keeps (\<open>VRT_priv_task\<close>), by their keys; all of them have the methods \<open>task_synth_vsb_priv_methods\<close>.
  \<open>alloc\<close> is the address that \<open>VSB_new_auto\<close> gets, given those in use. A \<open>VSB\<close> that is used after its end, or
  destroyed twice, is \<open>None\<close>. The operations on a \<open>VSB\<close> itself are those that Varnish documents.
\<close>

record buffers =
  live :: "(nat \<times> string) list"
  privs :: "(nat \<times> nat) list"

definition VSB_new_auto :: "(nat list \<Rightarrow> nat) \<Rightarrow> buffers \<Rightarrow> nat \<times> buffers" where
  "VSB_new_auto alloc b = (let v = alloc (map fst (live b)) in (v, b\<lparr>live := (v, []) # live b\<rparr>))"

definition VSB_data :: "nat \<Rightarrow> buffers \<Rightarrow> string option" where
  "VSB_data v b = map_of (live b) v"

definition VSB_printf :: "nat \<Rightarrow> string \<Rightarrow> buffers \<Rightarrow> buffers option" where
  "VSB_printf v text b = do {
     old \<leftarrow> VSB_data v b;
     Some (b\<lparr>live := map (\<lambda>(u, s). (u, if u = v then old @ text else s)) (live b)\<rparr>)
   }"

definition VSB_destroy :: "nat \<Rightarrow> buffers \<Rightarrow> buffers option" where
  "VSB_destroy v b = do { _ \<leftarrow> VSB_data v b; Some (b\<lparr>live := filter (\<lambda>(u, s). u \<noteq> v) (live b)\<rparr>) }"

definition new_task_synth_vsb :: "(nat list \<Rightarrow> nat) \<Rightarrow> buffers \<Rightarrow> (nat \<times> buffers) option" where
  "new_task_synth_vsb alloc b =
     (let (v, b) = VSB_new_auto alloc b
      in do { _ \<leftarrow> assert_that (map_of (privs b) v = None); Some (v, b\<lparr>privs := (v, v) # privs b\<rparr>) })"

text \<open>\<open>fini_task_synth_vsb\<close>, which Varnish calls for every private pointer when the task ends.\<close>

definition fini_task_synth_vsb :: "nat \<Rightarrow> buffers \<Rightarrow> buffers option" where
  "fini_task_synth_vsb v b = VSB_destroy v b"

fun end_of_task :: "(nat \<times> nat) list \<Rightarrow> buffers \<Rightarrow> buffers option" where
  "end_of_task [] b = Some (b\<lparr>privs := []\<rparr>)"
| "end_of_task ((key, v) # ps) b = do { b \<leftarrow> fini_task_synth_vsb v b; end_of_task ps b }"

text \<open>
  \<open>set_body backend text\<close> is \<open>VRT_l_beresp_body\<close> or \<open>VRT_l_resp_body\<close> with \<open>LBODY_ADD_STRING\<close>.
\<close>

definition append_synth_response_body ::
  "(bool \<Rightarrow> string \<Rightarrow> 'e \<Rightarrow> 'e) \<Rightarrow> vcl_method \<Rightarrow> nat \<Rightarrow> buffers \<Rightarrow> 'e world \<Rightarrow> 'e world option" where
  "append_synth_response_body set_body met v b w = do {
     priv \<leftarrow> map_of (privs b) v;
     _ \<leftarrow> assert_that (priv = v);
     text \<leftarrow> VSB_data v b;
     (if met = Met_Backend_Error then Some (net_do (set_body True text) w)
      else do { _ \<leftarrow> assert_that (met = Met_Synth); Some (net_do (set_body False text) w) })
   }"

text \<open>\<open>WS_Copy\<close> of the first bytes of a text, as many as it is told to.\<close>

definition WS_Copy_bytes :: "'e hiredis \<Rightarrow> string \<Rightarrow> 'e world \<Rightarrow> string option \<times> 'e world" where
  "WS_Copy_bytes h bytes w =
     (let (ok, w) = net_call (h_ws_alloc h (length bytes)) w in (if ok then Some bytes else None, w))"

definition vmod_db_stats ::
  "'e hiredis \<Rightarrow> (nat list \<Rightarrow> nat) \<Rightarrow> (bool \<Rightarrow> string \<Rightarrow> 'e \<Rightarrow> 'e) \<Rightarrow> vcl_method \<Rightarrow> db_ptr \<Rightarrow> stats_format \<Rightarrow> bool \<Rightarrow>
   string option \<Rightarrow> bool \<Rightarrow> string option \<Rightarrow> buffers \<Rightarrow> 'e world \<Rightarrow> (string option \<times> buffers \<times> 'e world) option" where
  "vmod_db_stats h alloc set_body met d format stream prefix default_labels extra b w =
     (let stream = (stream \<and> (met = Met_Synth \<or> met = Met_Backend_Error)) in
      do {
        (v, b) \<leftarrow> (if stream then new_task_synth_vsb alloc b else Some (VSB_new_auto alloc b));
        w \<leftarrow> Lck_Lock (Db_Mutex d) w;
        let st = db_stats (dbs w d);
        (printed, b, w) \<leftarrow>
          (case format of
             Format_Json \<Rightarrow> map_option (\<lambda>b. (True, b, w)) (VSB_printf v (stats_json st) b)
           | Format_Prometheus \<Rightarrow>
               (let labels = stats_labels (db_name (dbs w d)) default_labels extra;
                    (ok, w) = net_call (h_ws_alloc h (length labels + 1)) w
                in (if ok
                    then map_option (\<lambda>b. (True, b, w)) (VSB_printf v (stats_prometheus (stats_prefix prefix) labels st) b)
                    else map_option (\<lambda>b. (False, b, w)) (if stream then Some b else VSB_destroy v b))));
        w \<leftarrow> Lck_Unlock (Db_Mutex d) w;
        (if \<not> printed then Some (None, b, VRT_fail w)
         else do {
           (result, b, w) \<leftarrow>
             (if stream
              then do {
                w \<leftarrow> append_synth_response_body set_body met v b w;
                let (result, w) = WS_Copy_bytes h [CHR 0x00] w;
                Some (result, b, w)
              }
              else do {
                text \<leftarrow> VSB_data v b;
                let (result, w) = WS_Copy_bytes h text w;
                b \<leftarrow> VSB_destroy v b;
                Some (result, b, w)
              });
           Some (result, b, if result = None then VRT_fail w else w)
         })
      })"

text \<open>The name is compared with \<open>strcmp\<close>, which \<open>NULL\<close> does not survive; the counter becomes a signed number.\<close>

definition vmod_db_counter :: "db_ptr \<Rightarrow> string option \<Rightarrow> 'e world \<Rightarrow> int option" where
  "vmod_db_counter d name w = do {
     name \<leftarrow> name;
     let st = db_stats (dbs w d);
     Some
     (if name = ''servers.total'' then sint (st_servers_total st)
      else if name = ''servers.failed'' then sint (st_servers_failed st)
      else if name = ''connections.total'' then sint (st_connections_total st)
      else if name = ''connections.failed'' then sint (st_connections_failed st)
      else if name = ''connections.dropped.error'' then sint (st_dropped_error st)
      else if name = ''connections.dropped.hung_up'' then sint (st_dropped_hung_up st)
      else if name = ''connections.dropped.overflow'' then sint (st_dropped_overflow st)
      else if name = ''connections.dropped.ttl'' then sint (st_dropped_ttl st)
      else if name = ''connections.dropped.version'' then sint (st_dropped_version st)
      else if name = ''connections.dropped.sick'' then sint (st_dropped_sick st)
      else if name = ''workers.blocked'' then sint (st_workers_blocked st)
      else if name = ''commands.total'' then sint (st_commands_total st)
      else if name = ''commands.failed'' then sint (st_commands_failed st)
      else if name = ''commands.retried'' then sint (st_commands_retried st)
      else if name = ''commands.error'' then sint (st_commands_error st)
      else if name = ''commands.noscript'' then sint (st_commands_noscript st)
      else if name = ''cluster.discoveries.total'' then sint (st_discoveries_total st)
      else if name = ''cluster.discoveries.failed'' then sint (st_discoveries_failed st)
      else if name = ''cluster.replies.moved'' then sint (st_replies_moved st)
      else if name = ''cluster.replies.ask'' then sint (st_replies_ask st)
      else 0)
   }"

section \<open>The counters as a tree\<close>

datatype counter_tree = Leaf uint64 | Node "(string \<times> counter_tree) list"

definition stats_tree :: "stats \<Rightarrow> counter_tree" where
  "stats_tree st = Node
     [(''servers'', Node [(''total'', Leaf (st_servers_total st)), (''failed'', Leaf (st_servers_failed st))]),
      (''connections'', Node
        [(''total'', Leaf (st_connections_total st)), (''failed'', Leaf (st_connections_failed st)),
         (''dropped'', Node
           [(''error'', Leaf (st_dropped_error st)), (''hung_up'', Leaf (st_dropped_hung_up st)),
            (''overflow'', Leaf (st_dropped_overflow st)), (''ttl'', Leaf (st_dropped_ttl st)),
            (''version'', Leaf (st_dropped_version st)), (''sick'', Leaf (st_dropped_sick st))])]),
      (''workers'', Node [(''blocked'', Leaf (st_workers_blocked st))]),
      (''commands'', Node
        [(''total'', Leaf (st_commands_total st)), (''failed'', Leaf (st_commands_failed st)),
         (''retried'', Leaf (st_commands_retried st)), (''error'', Leaf (st_commands_error st)),
         (''noscript'', Leaf (st_commands_noscript st))]),
      (''cluster'', Node
        [(''discoveries'', Node [(''total'', Leaf (st_discoveries_total st)), (''failed'', Leaf (st_discoveries_failed st))]),
         (''replies'', Node [(''moved'', Leaf (st_replies_moved st)), (''ask'', Leaf (st_replies_ask st))])])]"

fun separated :: "string \<Rightarrow> string list \<Rightarrow> string" where
  "separated by [] = []"
| "separated by [v] = v"
| "separated by (v # u # vs) = v @ by @ separated by (u # vs)"

text \<open>A tree as a JSON object, and its leaves with their paths.\<close>

fun render :: "counter_tree \<Rightarrow> string" where
  "render (Leaf n) = string_of_nat (unat n)"
| "render (Node ts) = ''{'' @ separated '','' (map (\<lambda>(name, t). quoted name @ '': '' @ render t) ts) @ ''}''"

fun leaves :: "counter_tree \<Rightarrow> (string list \<times> uint64) list" where
  "leaves (Leaf n) = [([], n)]"
| "leaves (Node ts) = concat (map (\<lambda>(name, t). map (\<lambda>(path, n). (name # path, n)) (leaves t)) ts)"

text \<open>
  The metric of a counter: the parts of its path, but for the reason why a connection was dropped, which
  is a label. The type of a metric is told before its first sample.
\<close>

fun metric :: "string list \<Rightarrow> string \<times> string option" where
  "metric [a, b, c] = (if a = ''connections'' \<and> b = ''dropped'' then (a @ ''_'' @ b, Some c) else (a @ ''_'' @ b @ ''_'' @ c, None))"
| "metric path = (separated ''_'' path, None)"

fun sample :: "string \<Rightarrow> string \<Rightarrow> string \<times> string option \<Rightarrow> uint64 \<Rightarrow> string" where
  "sample prefix labels (name, None) n = prefix @ name @ ''{'' @ labels @ ''} '' @ string_of_nat (unat n) @ [CHR 0x0A]"
| "sample prefix labels (name, Some reason) n =
     prefix @ name @ ''{'' @ separated '','' (filter (\<lambda>l. l \<noteq> []) [labels, ''reason='' @ quoted reason]) @ ''} '' @
     string_of_nat (unat n) @ [CHR 0x0A]"

fun samples :: "string \<Rightarrow> string \<Rightarrow> string \<Rightarrow> (string list \<times> uint64) list \<Rightarrow> string" where
  "samples prefix labels told [] = []"
| "samples prefix labels told ((path, n) # ls) =
     (if fst (metric path) = told then [] else ''# TYPE '' @ prefix @ fst (metric path) @ '' counter'' @ [CHR 0x0A]) @
     sample prefix labels (metric path) n @ samples prefix labels (fst (metric path)) ls"

lemma stats_json_render: "stats_json st = render (stats_tree st)"
  by (simp add: stats_json_def stats_tree_def member_def u64_def)

lemma stats_prometheus_samples: "stats_prometheus prefix labels st = samples prefix labels [] (leaves (stats_tree st))"
proof -
  have s: "sample prefix labels (name, Some reason) n =
      sample_line prefix name (labels @ (if labels \<noteq> [] then '','' else []) @ ''reason='' @ quoted reason) n" for name reason n
    by (simp add: sample_line_def u64_def)
  have t: "sample prefix labels (name, None) n = sample_line prefix name labels n" for name n
    by (simp add: sample_line_def u64_def)
  show ?thesis
    by (simp add: stats_prometheus_def stats_tree_def s t type_line_def Let_def del: sample.simps)
qed

lemma counter_leaves:
  "vmod_db_counter d (Some name) w =
     Some (case map_of (map (\<lambda>(path, n). (separated ''.'' path, n)) (leaves (stats_tree (db_stats (dbs w d))))) name of
             None \<Rightarrow> 0 | Some n \<Rightarrow> sint n)"
  by (simp add: vmod_db_counter_def stats_tree_def Let_def)

text \<open>
  C38. The three ways to get the counters agree: \<open>.stats()\<close> prints, as JSON or for Prometheus, the same twenty
  counters in the same order, each once, and \<open>.counter()\<close> of the path of a counter, its parts joined
  with dots, is that number as a signed one; of any other name it is 0.
\<close>

theorem counters_agree:
  "let st = db_stats (dbs w d); t = stats_tree st;
       counters = map_of (map (\<lambda>(path, n). (separated ''.'' path, n)) (leaves t))
   in length (leaves t) = 20 \<and> distinct (map (\<lambda>(path, n). separated ''.'' path) (leaves t)) \<and>
     stats_json st = render t \<and> (\<forall>prefix labels. stats_prometheus prefix labels st = samples prefix labels [] (leaves t)) \<and>
     (\<forall>name. vmod_db_counter d (Some name) w = Some (case counters name of None \<Rightarrow> 0 | Some n \<Rightarrow> sint n))"
proof -
  have "length (leaves (stats_tree st)) = 20" "distinct (map (\<lambda>(path, n). separated ''.'' path) (leaves (stats_tree st)))" for st
    by (simp_all add: stats_tree_def)
  then show ?thesis unfolding Let_def using stats_json_render stats_prometheus_samples counter_leaves by blast
qed

section \<open>What VCL reads\<close>

text \<open>A string of C: the bytes, and what follows them in memory, up to the first NUL.\<close>

definition C_string :: "string \<Rightarrow> string \<Rightarrow> string" where
  "C_string bytes beyond = takeWhile (\<lambda>c. c \<noteq> CHR 0x00) (bytes @ beyond)"

lemma no_NUL_number: "CHR 0x00 \<notin> set (string_of_nat n)"
  using digits_string_of_nat [of "CHR 0x00" n] by (auto simp: is_digit_def code_def)

lemma no_NUL_json: "CHR 0x00 \<notin> set (stats_json st)"
  by (simp add: stats_json_def member_def quoted_def u64_def no_NUL_number)

lemma C_string_open:
  assumes "CHR 0x00 \<notin> set bytes"
  shows "C_string bytes beyond = bytes @ takeWhile (\<lambda>c. c \<noteq> CHR 0x00) beyond"
  using assms by (induction bytes) (auto simp: C_string_def)

text \<open>The \<open>VSB\<close>s that are alive are those that the task will destroy, each of them once.\<close>

definition buffers_ok :: "buffers \<Rightarrow> bool" where
  "buffers_ok b \<longleftrightarrow> distinct (map fst (live b)) \<and> distinct (map fst (privs b)) \<and>
     set (map fst (live b)) = set (map fst (privs b)) \<and> (\<forall>(key, v) \<in> set (privs b). key = v)"

text \<open>The text of a format, when there is room for its labels, and the state after the labels were printed.\<close>

definition printed_text ::
  "'e hiredis \<Rightarrow> db_ptr \<Rightarrow> stats_format \<Rightarrow> string option \<Rightarrow> bool \<Rightarrow> string option \<Rightarrow> 'e world \<Rightarrow> string option \<times> 'e" where
  "printed_text h d format prefix default_labels extra w =
     (case format of
        Format_Json \<Rightarrow> (Some (stats_json (db_stats (dbs w d))), net w)
      | Format_Prometheus \<Rightarrow>
          (let labels = stats_labels (db_name (dbs w d)) default_labels extra;
               (ok, e) = h_ws_alloc h (length labels + 1) (net w)
           in (if ok then Some (stats_prometheus (stats_prefix prefix) labels (db_stats (dbs w d))) else None, e)))"

lemma map_of_new [simp]: "v \<notin> set (map fst l) \<Longrightarrow> map_of l v = None"
  by (simp add: map_of_eq_None_iff)

lemma printf_new [simp]:
  "v \<notin> fst ` set l \<Longrightarrow> map (\<lambda>(u, s). (u, if u = v then t else s)) l = l"
  by (induction l) auto

lemma destroy_new [simp]: "v \<notin> fst ` set l \<Longrightarrow> filter (\<lambda>(u, s). u \<noteq> v) l = l"
  by (induction l) auto

text \<open>A call without a stream: the temporary buffer leaves no trace.\<close>

lemma stats_copied:
  assumes fresh: "alloc (map fst (live b)) \<notin> set (map fst (live b))" and held: "held w = []"
    and m: "met = Met_Other \<or> \<not> stream" and p: "printed_text h d format prefix default_labels extra w = (text, e)"
  shows "vmod_db_stats h alloc set_body met d format stream prefix default_labels extra b w =
     Some (case text of
             None \<Rightarrow> (None, b, VRT_fail (w\<lparr>net := e\<rparr>))
           | Some t \<Rightarrow>
               let (ok, e) = h_ws_alloc h (length t) e
               in (if ok then (Some t, b, w\<lparr>net := e\<rparr>) else (None, b, VRT_fail (w\<lparr>net := e\<rparr>))))"
proof -
  have unheld: "w\<lparr>held := []\<rparr> = w" "w\<lparr>held := [], net := e\<rparr> = w\<lparr>net := e\<rparr>"
    "w\<lparr>net := e, held := []\<rparr> = w\<lparr>net := e\<rparr>" for e using held by (cases w, simp)+
  have ns: "(stream \<and> (met = Met_Synth \<or> met = Met_Backend_Error)) = False" using m by auto
  show ?thesis
    using fresh held p
    by (cases format)
      (auto simp: vmod_db_stats_def ns VSB_new_auto_def VSB_printf_def VSB_data_def VSB_destroy_def Let_def unheld
        printed_text_def Lck_Lock_def Lck_Unlock_def WS_Copy_bytes_def net_call_def split: prod.splits if_splits)
qed

text \<open>A call with a stream: the buffer stays with the task.\<close>

lemma stats_streamed:
  assumes ok: "buffers_ok b" and fresh: "alloc (map fst (live b)) \<notin> set (map fst (live b))" and held: "held w = []"
    and m: "met = Met_Synth \<or> met = Met_Backend_Error"
    and p: "printed_text h d format prefix default_labels extra w = (text, e)"
  defines "v \<equiv> alloc (map fst (live b))"
  defines "kept \<equiv> \<lambda>t. b\<lparr>live := (v, t) # live b, privs := (v, v) # privs b\<rparr>"
  shows "vmod_db_stats h alloc set_body met d format True prefix default_labels extra b w =
     Some (case text of
             None \<Rightarrow> (None, kept [], VRT_fail (w\<lparr>net := e\<rparr>))
           | Some t \<Rightarrow>
               let (ok, e) = h_ws_alloc h 1 (set_body (met = Met_Backend_Error) t e)
               in (if ok then (Some [CHR 0x00], kept t, w\<lparr>net := e\<rparr>) else (None, kept t, VRT_fail (w\<lparr>net := e\<rparr>))))"
proof -
  have unheld: "w\<lparr>held := []\<rparr> = w" "w\<lparr>held := [], net := e\<rparr> = w\<lparr>net := e\<rparr>"
    "w\<lparr>net := e, held := []\<rparr> = w\<lparr>net := e\<rparr>" for e using held by (cases w, simp)+
  have s: "(True \<and> (met = Met_Synth \<or> met = Met_Backend_Error)) = True" using m by simp
  have "v \<notin> set (map fst (privs b))" using ok fresh by (simp add: buffers_ok_def v_def)
  then show ?thesis
    using fresh held p m unfolding kept_def
    by (cases format; cases "met = Met_Backend_Error")
      (auto simp: vmod_db_stats_def s VSB_new_auto_def VSB_printf_def VSB_data_def VSB_destroy_def Let_def unheld
        new_task_synth_vsb_def append_synth_response_body_def assert_that_def v_def [symmetric]
        printed_text_def Lck_Lock_def Lck_Unlock_def WS_Copy_bytes_def net_call_def net_do_def split: prod.splits if_splits)
qed

lemma end_of_task_all:
  "distinct (map fst ps) \<Longrightarrow> \<forall>(key, v) \<in> set ps. key = v \<Longrightarrow> set (map fst (live b)) = set (map fst ps) \<Longrightarrow>
     end_of_task ps b = Some (b\<lparr>live := [], privs := []\<rparr>)"
proof (induction ps arbitrary: b)
  case Nil
  then show ?case by simp
next
  case (Cons p ps)
  obtain v where p: "p = (v, v)" using Cons.prems(2) by (cases p) auto
  then have "v \<in> fst ` set (live b)" using Cons.prems(3) by auto
  then obtain t where t: "map_of (live b) v = Some t" by (meson map_of_eq_None_iff not_None_eq)
  let ?b = "b\<lparr>live := filter (\<lambda>(u, s). u \<noteq> v) (live b)\<rparr>"
  have "set (map fst (live ?b)) = set (map fst (live b)) - {v}" by force
  also have "\<dots> = set (map fst ps)" using Cons.prems(1,3) p by auto
  finally have "end_of_task ps ?b = Some (?b\<lparr>live := [], privs := []\<rparr>)"
    using Cons.prems(1,2) by (intro Cons.IH) auto
  then show ?case by (simp add: p fini_task_synth_vsb_def VSB_destroy_def VSB_data_def t)
qed

text \<open>
  The buffers of \<open>.stats()\<close>. In either format, with or without room in the workspace, the call ends with the
  mutex free. Without a stream its buffer is destroyed; with a stream it stays with the task, next to those
  of earlier calls, which the response still refers to and which keep their texts. When the task ends,
  every buffer is destroyed, none of them twice.
\<close>

theorem stats_buffers:
  assumes "buffers_ok b" and "\<forall>l. alloc l \<notin> set l" and "held w = []"
  shows "\<exists>result b' w'. vmod_db_stats h alloc set_body met d format stream prefix default_labels extra b w = Some (result, b', w') \<and>
    held w' = [] \<and> (result = None \<longrightarrow> vrt_failed w') \<and> buffers_ok b' \<and>
    (met = Met_Other \<or> \<not> stream \<longrightarrow> b' = b) \<and>
    (\<forall>u t. VSB_data u b = Some t \<longrightarrow> VSB_data u b' = Some t) \<and>
    (\<exists>b''. end_of_task (privs b') b' = Some b'' \<and> live b'' = [] \<and> privs b'' = [])"
proof -
  obtain t e where p: "printed_text h d format prefix default_labels extra w = (t, e)" by fastforce
  have fresh: "alloc (map fst (live b)) \<notin> set (map fst (live b))" using assms(2) by blast
  let ?v = "alloc (map fst (live b))"
  have kept: "buffers_ok (b\<lparr>live := (?v, t) # live b, privs := (?v, ?v) # privs b\<rparr>)" for t
    using assms(1) fresh by (auto simp: buffers_ok_def)
  have old: "VSB_data u (b\<lparr>live := (?v, t) # live b, privs := (?v, ?v) # privs b\<rparr>) = Some s" if "VSB_data u b = Some s" for u s t
    using that fresh by (auto simp: VSB_data_def dest: map_of_SomeD)
  have ends: "\<exists>b''. end_of_task (privs b') b' = Some b'' \<and> live b'' = [] \<and> privs b'' = []" if "buffers_ok b'" for b'
    using end_of_task_all [of "privs b'" b'] that by (simp add: buffers_ok_def)
  show ?thesis
  proof (cases "met = Met_Other \<or> \<not> stream")
    case True
    show ?thesis
      using stats_copied [of alloc b w met stream h d format prefix default_labels extra t e set_body, OF fresh assms(3) True p]
        assms(1,3) ends [OF assms(1)]
      by (auto simp: Let_def VRT_fail_def split: option.splits prod.splits if_splits)
  next
    case False
    then have m: "met = Met_Synth \<or> met = Met_Backend_Error" and st: "stream" by (cases met; simp)+
    show ?thesis
      using stats_streamed [of b alloc w met h d format prefix default_labels extra t e set_body, OF assms(1) fresh assms(3) m p]
        assms(3) kept ends [OF kept] old False st
      by (auto simp: Let_def VRT_fail_def split: option.splits prod.splits if_splits)
  qed
qed

text \<open>
  C39. \<open>.stats()\<close> as JSON. In \<open>vcl_synth\<close> and \<open>vcl_backend_error\<close>, in stream mode, the text is appended to
  the body of the response, however small the workspace is, and the result is empty. Otherwise the text is
  copied to the workspace without its terminator (the length that is copied does not count it): VCL reads
  the text followed by whatever the workspace has behind it, and reads the right text only when that
  begins with a NUL. Without room in the workspace the task is failed. The mutex is free in the end.
\<close>

theorem stats_text:
  assumes "held w = []" and "\<forall>e. fst (h_ws_alloc h 1 e)" and "buffers_ok b" and "\<forall>l. alloc l \<notin> set l"
  shows "(\<forall>met. met = Met_Synth \<or> met = Met_Backend_Error \<longrightarrow>
      (\<exists>bytes b' w'. vmod_db_stats h alloc set_body met d Format_Json True prefix default_labels extra b w = Some (Some bytes, b', w') \<and>
        net w' = snd (h_ws_alloc h 1 (set_body (met = Met_Backend_Error) (stats_json (db_stats (dbs w d))) (net w))) \<and>
        w' = w\<lparr>net := net w'\<rparr> \<and> (\<forall>beyond. C_string bytes beyond = []))) \<and>
    (\<forall>met stream. met = Met_Other \<or> \<not> stream \<longrightarrow>
      (let json = stats_json (db_stats (dbs w d)); room = fst (h_ws_alloc h (length json) (net w));
           r = vmod_db_stats h alloc set_body met d Format_Json stream prefix default_labels extra b w
       in (\<not> room \<longrightarrow> (\<exists>w'. r = Some (None, b, w') \<and> vrt_failed w' \<and> held w' = [])) \<and>
          (room \<longrightarrow> (\<exists>bytes w'. r = Some (Some bytes, b, w') \<and> w' = w\<lparr>net := net w'\<rparr> \<and>
            (\<forall>beyond. C_string bytes beyond = json @ takeWhile (\<lambda>c. c \<noteq> CHR 0x00) beyond) \<and>
            (\<forall>beyond. C_string bytes beyond = json \<longleftrightarrow> beyond = [] \<or> hd beyond = CHR 0x00)))))"
    (is "?streamed \<and> ?copied")
proof
  let ?json = "stats_json (db_stats (dbs w d))"
  have fresh: "alloc (map fst (live b)) \<notin> set (map fst (live b))" using assms(4) by blast
  have p: "printed_text h d Format_Json prefix default_labels extra w = (Some ?json, net w)" by (simp add: printed_text_def)
  show ?streamed
  proof (intro allI impI)
    fix met
    assume m: "met = Met_Synth \<or> met = Met_Backend_Error"
    show "\<exists>bytes b' w'. vmod_db_stats h alloc set_body met d Format_Json True prefix default_labels extra b w = Some (Some bytes, b', w') \<and>
        net w' = snd (h_ws_alloc h 1 (set_body (met = Met_Backend_Error) ?json (net w))) \<and>
        w' = w\<lparr>net := net w'\<rparr> \<and> (\<forall>beyond. C_string bytes beyond = [])"
      using stats_streamed [where b = b and alloc = alloc and set_body = set_body, OF assms(3) fresh assms(1) m p] assms(2)
      by (auto simp: Let_def C_string_def prod.case_eq_if)
  qed
  show ?copied
  proof (intro allI impI)
    fix met stream
    assume m: "met = Met_Other \<or> \<not> stream"
    obtain ok e where a: "h_ws_alloc h (length ?json) (net w) = (ok, e)" by fastforce
    have r: "vmod_db_stats h alloc set_body met d Format_Json stream prefix default_labels extra b w =
        Some (if ok then (Some ?json, b, w\<lparr>net := e\<rparr>) else (None, b, VRT_fail (w\<lparr>net := e\<rparr>)))"
      using stats_copied [where b = b and alloc = alloc, OF fresh assms(1) m p] a by (simp add: Let_def)
    have exact: "C_string ?json beyond = ?json \<longleftrightarrow> beyond = [] \<or> hd beyond = CHR 0x00" for beyond
      by (cases beyond) (simp_all add: C_string_open [OF no_NUL_json])
    show "let json = ?json; room = fst (h_ws_alloc h (length json) (net w));
           r = vmod_db_stats h alloc set_body met d Format_Json stream prefix default_labels extra b w
       in (\<not> room \<longrightarrow> (\<exists>w'. r = Some (None, b, w') \<and> vrt_failed w' \<and> held w' = [])) \<and>
          (room \<longrightarrow> (\<exists>bytes w'. r = Some (Some bytes, b, w') \<and> w' = w\<lparr>net := net w'\<rparr> \<and>
            (\<forall>beyond. C_string bytes beyond = json @ takeWhile (\<lambda>c. c \<noteq> CHR 0x00) beyond) \<and>
            (\<forall>beyond. C_string bytes beyond = json \<longleftrightarrow> beyond = [] \<or> hd beyond = CHR 0x00)))"
      unfolding Let_def r
      by (cases ok) (simp_all add: a exact VRT_fail_def assms(1), simp add: C_string_open [OF no_NUL_json])
  qed
qed

text \<open>A task without buffers, and addresses above all that are in use.\<close>

definition no_buffers :: buffers where
  "no_buffers = \<lparr>live = [], privs = []\<rparr>"

definition next_address :: "nat list \<Rightarrow> nat" where
  "next_address used = Suc (sum_list used)"

lemma next_address_free: "\<forall>l. next_address l \<notin> set l"
  using member_le_sum_list by (fastforce simp: next_address_def)

lemma no_buffers_ok: "buffers_ok no_buffers"
  by (simp add: buffers_ok_def no_buffers_def)

theorem stats_text_witness:
  "\<exists>bytes w'. vmod_db_stats (lab (\<lambda>c. None) 4096) next_address (\<lambda>b t e. e) Met_Other 0 Format_Json False None True None
      no_buffers (lab_empty False False) = Some (Some bytes, no_buffers, w') \<and> C_string bytes ''x'' = stats_json no_stats @ ''x''"
proof -
  let ?h = "lab (\<lambda>c. None) 4096" and ?w = "lab_empty False False"
  have st: "db_stats (dbs ?w 0) = no_stats" by (simp add: lab_empty_def lab_db_def)
  have "length (stats_json no_stats) \<le> 4096"
    by (simp add: stats_json_def no_stats_def member_def quoted_def u64_def string_of_nat.simps)
  then have room: "fst (h_ws_alloc ?h (length (stats_json no_stats)) (net ?w))" by (simp add: lab_def)
  have "held ?w = []" "\<forall>e. fst (h_ws_alloc ?h 1 e)" by (simp_all add: lab_empty_def lab_def)
  from stats_text [OF this no_buffers_ok next_address_free, of "\<lambda>b t e. e" 0 None True None, THEN conjunct2, rule_format,
      of Met_Other False, unfolded Let_def st]
  obtain bytes w' where
    "vmod_db_stats ?h next_address (\<lambda>b t e. e) Met_Other 0 Format_Json False None True None no_buffers ?w =
       Some (Some bytes, no_buffers, w')"
    "\<forall>beyond. C_string bytes beyond = stats_json no_stats @ takeWhile (\<lambda>c. c \<noteq> CHR 0x00) beyond"
    using room by auto
  then show ?thesis by (intro exI [of _ bytes] exI [of _ w']) simp
qed

theorem stats_buffers_witness:
  "\<exists>result b' w' b''. vmod_db_stats (lab (\<lambda>c. None) 0) next_address (\<lambda>b t e. e) Met_Synth 0 Format_Prometheus True None True None
      no_buffers (lab_empty False False) = Some (result, b', w') \<and> end_of_task (privs b') b' = Some b'' \<and> live b'' = []"
  using stats_buffers [OF no_buffers_ok next_address_free, of "lab_empty False False" "lab (\<lambda>c. None) 0" "\<lambda>b t e. e" Met_Synth 0
      Format_Prometheus True None True None]
  by (auto simp: lab_empty_def)

end
