(* ===== verification/Vmod_Proxy.thy ===== *)
theory Vmod_Proxy
  imports Vmod_Calls Vmod_Reply Vmod_Database Vmod_Counters
begin

text \<open>
  The functions of the module that stand for the methods of a database (\<open>src/vmod_redis.c\<close>, the uses of
  \<open>VMOD_PROXIED_METHOD\<close>): the last argument \<open>db\<close> is the name of the database, and without it the one that
  \<open>redis.use()\<close> has chosen is taken. The families of functions that differ in the kind of reply they are
  about are one definition each, with the kind as an argument.
\<close>

section \<open>The code\<close>

definition vmod_add_server ::
  "nat \<Rightarrow> 'e hiredis \<Rightarrow> string option \<Rightarrow> server_type \<Rightarrow> string option \<Rightarrow> 'e world \<Rightarrow> 'e world option" where
  "vmod_add_server fuel h location type db w =
     map_option snd (proxied db () (\<lambda>d w. map_option (Pair ()) (vmod_db_add_server fuel h d location type w)) w)"

definition vmod_command :: "string option \<Rightarrow> string option \<Rightarrow> 'e world \<Rightarrow> 'e world option" where
  "vmod_command name db w = map_option snd (proxied db () (\<lambda>d w. Some ((), vmod_db_command d name w)) w)"

definition vmod_timeout :: "int \<Rightarrow> string option \<Rightarrow> 'e world \<Rightarrow> 'e world option" where
  "vmod_timeout ms db w = map_option snd (proxied db () (\<lambda>d w. Some ((), vmod_db_timeout d ms w)) w)"

definition vmod_retries :: "int \<Rightarrow> string option \<Rightarrow> 'e world \<Rightarrow> 'e world option" where
  "vmod_retries n db w = map_option snd (proxied db () (\<lambda>d w. Some ((), vmod_db_retries d n w)) w)"

definition vmod_push :: "'e hiredis \<Rightarrow> string option \<Rightarrow> string option \<Rightarrow> 'e world \<Rightarrow> 'e world option" where
  "vmod_push h arg db w = map_option snd (proxied db () (\<lambda>d w. Some ((), vmod_db_push h d arg w)) w)"

definition vmod_execute :: "nat \<Rightarrow> nat \<Rightarrow> 'e hiredis \<Rightarrow> bool \<Rightarrow> string option \<Rightarrow> 'e world \<Rightarrow> 'e world option" where
  "vmod_execute dfuel fuel h master db w =
     map_option snd (proxied db () (\<lambda>d w. map_option (Pair ()) (vmod_db_execute dfuel fuel h d master w)) w)"

definition vmod_replied :: "string option \<Rightarrow> 'e world \<Rightarrow> (bool \<times> 'e world) option" where
  "vmod_replied db = proxied db False (\<lambda>d w. Some (vmod_db_replied d w, w))"

definition vmod_reply_is :: "kind \<Rightarrow> string option \<Rightarrow> 'e world \<Rightarrow> (bool \<times> 'e world) option" where
  "vmod_reply_is k db = proxied db False (\<lambda>d w. Some (vmod_db_reply_is k d w, w))"

definition vmod_get_reply :: "'e hiredis \<Rightarrow> string option \<Rightarrow> 'e world \<Rightarrow> (string option \<times> 'e world) option" where
  "vmod_get_reply h db = proxied db None (\<lambda>d w. Some (vmod_db_get_reply h d w))"

definition vmod_get_string_reply ::
  "'e hiredis \<Rightarrow> kind \<Rightarrow> string option \<Rightarrow> 'e world \<Rightarrow> (string option \<times> 'e world) option" where
  "vmod_get_string_reply h k db = proxied db None (\<lambda>d w. Some (vmod_db_get_string_reply h k d w))"

definition vmod_get_number_reply :: "kind \<Rightarrow> string option \<Rightarrow> 'e world \<Rightarrow> (int \<times> 'e world) option" where
  "vmod_get_number_reply k db = proxied db 0 (\<lambda>d w. Some (vmod_db_get_number_reply k d w, w))"

definition vmod_get_double_reply ::
  "(redisReply \<Rightarrow> 'r::zero) \<Rightarrow> string option \<Rightarrow> 'e world \<Rightarrow> ('r \<times> 'e world) option" where
  "vmod_get_double_reply dval db = proxied db 0 (\<lambda>d w. Some (vmod_db_get_double_reply dval d w, w))"

definition vmod_get_array_reply_length :: "string option \<Rightarrow> 'e world \<Rightarrow> (nat \<times> 'e world) option" where
  "vmod_get_array_reply_length db = proxied db 0 (\<lambda>d w. Some (vmod_db_get_array_reply_length d w, w))"

definition vmod_array_reply_is :: "kind \<Rightarrow> int \<Rightarrow> string option \<Rightarrow> 'e world \<Rightarrow> (bool \<times> 'e world) option" where
  "vmod_array_reply_is k i db = proxied db False (\<lambda>d w. map_option (\<lambda>r. (r, w)) (vmod_db_array_reply_is k d i w))"

definition vmod_get_array_reply_value ::
  "'e hiredis \<Rightarrow> int \<Rightarrow> string option \<Rightarrow> 'e world \<Rightarrow> (string option \<times> 'e world) option" where
  "vmod_get_array_reply_value h i db = proxied db None (\<lambda>d w. vmod_db_get_array_reply_value h d i w)"

definition vmod_free :: "string option \<Rightarrow> 'e world \<Rightarrow> 'e world option" where
  "vmod_free db w = map_option snd (proxied db () (\<lambda>d w. Some ((), vmod_db_free w)) w)"

definition vmod_stats ::
  "'e hiredis \<Rightarrow> (nat list \<Rightarrow> nat) \<Rightarrow> (bool \<Rightarrow> string \<Rightarrow> 'e \<Rightarrow> 'e) \<Rightarrow> vcl_method \<Rightarrow> stats_format \<Rightarrow> bool \<Rightarrow>
   string option \<Rightarrow> bool \<Rightarrow> string option \<Rightarrow> string option \<Rightarrow> buffers \<Rightarrow> 'e world \<Rightarrow>
   ((string option \<times> buffers) \<times> 'e world) option" where
  "vmod_stats h alloc set_body method format stream prefix default_labels extra db b =
     proxied db (None, b)
       (\<lambda>d w. map_option (\<lambda>(result, b, w). ((result, b), w))
          (vmod_db_stats h alloc set_body method d format stream prefix default_labels extra b w))"

definition vmod_counter :: "string option \<Rightarrow> string option \<Rightarrow> 'e world \<Rightarrow> (int \<times> 'e world) option" where
  "vmod_counter name db = proxied db 0 (\<lambda>d w. map_option (\<lambda>n. (n, w)) (vmod_db_counter d name w))"

section \<open>The database of a call\<close>

text \<open>The database that a name stands for: the first one of the VCL that has it.\<close>

definition db_named :: "string \<Rightarrow> 'e world \<Rightarrow> db_ptr option" where
  "db_named name w = List.find (\<lambda>d. db_name (dbs w d) = name) (vcl_dbs (config w))"

lemma get_db_instance_named:
  "held w = [] \<Longrightarrow> get_db_instance name w = Some (db_named name w, w)"
  by (cases w) (simp add: get_db_instance_def Lck_Lock_def Lck_Unlock_def db_named_def)

lemma proxied_in_use [simp]:
  "proxied None fallback method w = (case ts_db (task w) of None \<Rightarrow> Some (fallback, w) | Some d \<Rightarrow> method d w)"
  by (simp add: proxied_def get_task_state_def)

lemma proxied_named:
  "held w = [] \<Longrightarrow> name \<noteq> [] \<Longrightarrow>
     proxied (Some name) fallback method w = (case db_named name w of None \<Rightarrow> Some (fallback, w) | Some d \<Rightarrow> method d w)"
  by (cases name) (simp_all add: proxied_def get_db_instance_named)

lemma vmod_use_named:
  "held w = [] \<Longrightarrow> name \<noteq> [] \<Longrightarrow>
     vmod_use (Some name) w = Some (w\<lparr>task := (flush_task_state (task w))\<lparr>ts_db := db_named name w\<rparr>\<rparr>)"
  by (cases name)
    (simp_all add: vmod_use_def get_task_state_def Let_def get_db_instance_named, simp add: db_named_def)

text \<open>What the functions that build a command leave alone.\<close>

lemma push_keeps_db: "ts_db (task (vmod_db_push h d arg w)) = ts_db (task w)"
  by (auto simp: vmod_db_push_def get_task_state_def WS_Copy_def net_call_def VRT_fail_def Let_def
      split: option.splits prod.splits)

lemma command_keeps_db: "ts_db (task (vmod_db_command d name w)) = ts_db (task w)"
  by (auto simp: vmod_db_command_def get_task_state_def flush_task_state_def Let_def split: option.splits list.splits)

lemma timeout_keeps_db: "ts_db (task (vmod_db_timeout d ms w)) = ts_db (task w)"
  by (simp add: vmod_db_timeout_def get_task_state_def Let_def)

lemma retries_keeps_db: "ts_db (task (vmod_db_retries d n w)) = ts_db (task w)"
  by (simp add: vmod_db_retries_def get_task_state_def Let_def)

text \<open>The calls of \<open>redis.push()\<close> for the arguments that are given.\<close>

fun pushes :: "'e hiredis \<Rightarrow> string option option list \<Rightarrow> 'e world \<Rightarrow> 'e world option" where
  "pushes h [] w = Some w"
| "pushes h (None # args) w = pushes h args w"
| "pushes h (Some arg # args) w = do { w \<leftarrow> vmod_push h arg None w; pushes h args w }"

lemma pushes_handle_args:
  "ts_db (task w) = Some d \<Longrightarrow>
     pushes h args w = Some (handle_args h d args w) \<and> ts_db (task (handle_args h d args w)) = Some d"
proof (induction args arbitrary: w)
  case Nil
  then show ?case by simp
next
  case (Cons arg args)
  then show ?case by (cases arg) (simp_all add: vmod_push_def push_keeps_db)
qed

text \<open>A command, one function after the other.\<close>

definition step_by_step ::
  "nat \<Rightarrow> nat \<Rightarrow> 'e hiredis \<Rightarrow> string \<Rightarrow> string \<Rightarrow> string option option list \<Rightarrow> int option \<Rightarrow> int option \<Rightarrow> bool \<Rightarrow>
   'e world \<Rightarrow> 'e world option" where
  "step_by_step dfuel fuel h name command args timeout retries master w = do {
     w \<leftarrow> vmod_use (Some name) w;
     w \<leftarrow> vmod_command (Some command) None w;
     w \<leftarrow> pushes h args w;
     w \<leftarrow> (case timeout of Some ms \<Rightarrow> vmod_timeout ms None w | None \<Rightarrow> Some w);
     w \<leftarrow> (case retries of Some n \<Rightarrow> vmod_retries n None w | None \<Rightarrow> Some w);
     vmod_execute dfuel fuel h master None w
   }"

lemma command_twice:
  "command \<noteq> [] \<Longrightarrow> vmod_db_command d (Some command) (w\<lparr>task := (flush_task_state (task w))\<lparr>ts_db := u\<rparr>\<rparr>) =
     vmod_db_command d (Some command) (w\<lparr>task := (task w)\<lparr>ts_db := u\<rparr>\<rparr>)"
  by (cases command) (simp_all add: vmod_db_command_def get_task_state_def flush_task_state_def Let_def)

lemma pushes_nowhere: "ts_db (task w) = None \<Longrightarrow> pushes h args w = Some w"
proof (induction args)
  case Nil
  then show ?case by simp
next
  case (Cons arg args)
  then show ?case by (cases arg) (simp_all add: vmod_push_def)
qed

text \<open>
  C40. One function after the other. \<open>redis.use()\<close>, \<open>redis.command()\<close>, a \<open>redis.push()\<close> for every argument that
  is given, \<open>redis.timeout()\<close>, \<open>redis.retries()\<close> and \<open>redis.execute()\<close> do to a database, with the name taken
  once, what \<open>.easy_execute()\<close> of that database does when it is the one in use, and \<open>redis.easy_execute()\<close>
  with its name does the same to the first database of that name without taking it in use. A name that
  no database has changes nothing but the task: it has no database and no command then, and
  \<open>redis.easy_execute()\<close> leaves even that alone.
\<close>

theorem step_by_step_agrees:
  assumes "held w = []" and "name \<noteq> []" and "command \<noteq> []"
  shows "(\<forall>d. db_named name w = Some d \<longrightarrow>
      step_by_step dfuel fuel h name command args timeout retries master w =
        vmod_db_easy_execute dfuel fuel h d (Some command) args timeout retries master
          (w\<lparr>task := (task w)\<lparr>ts_db := Some d\<rparr>\<rparr>) \<and>
      vmod_easy_execute dfuel fuel h (Some name) (Some command) args timeout retries master w =
        vmod_db_easy_execute dfuel fuel h d (Some command) args timeout retries master w) \<and>
    (db_named name w = None \<longrightarrow>
      step_by_step dfuel fuel h name command args timeout retries master w =
        Some (w\<lparr>task := (flush_task_state (task w))\<lparr>ts_db := None\<rparr>\<rparr>) \<and>
      vmod_easy_execute dfuel fuel h (Some name) (Some command) args timeout retries master w = Some w)"
proof (intro conjI allI impI)
  note use = vmod_use_named [OF assms(1,2)] and named = proxied_named [OF assms(1,2)]
  have unit: "map_option snd (map_option (Pair ()) x) = x" for x :: "'a world option" by (cases x) simp_all
  have easy: "vmod_db_easy_execute dfuel fuel h d (Some command) args timeout retries master v =
      vmod_db_execute dfuel fuel h d master
        (case retries of
           None \<Rightarrow> (case timeout of None \<Rightarrow> handle_args h d args (vmod_db_command d (Some command) v)
                    | Some ms \<Rightarrow> vmod_db_timeout d ms (handle_args h d args (vmod_db_command d (Some command) v)))
         | Some n \<Rightarrow> vmod_db_retries d n
             (case timeout of None \<Rightarrow> handle_args h d args (vmod_db_command d (Some command) v)
              | Some ms \<Rightarrow> vmod_db_timeout d ms (handle_args h d args (vmod_db_command d (Some command) v))))" for d v
    using assms(3) by (cases command) (simp_all add: vmod_db_easy_execute_def Let_def split: option.splits)
  fix d
  assume d: "db_named name w = Some d"
  show "vmod_easy_execute dfuel fuel h (Some name) (Some command) args timeout retries master w =
      vmod_db_easy_execute dfuel fuel h d (Some command) args timeout retries master w"
    by (simp add: vmod_easy_execute_def named d unit)
  let ?w = "w\<lparr>task := (flush_task_state (task w))\<lparr>ts_db := Some d\<rparr>\<rparr>"
  let ?c = "vmod_db_command d (Some command) (w\<lparr>task := (task w)\<lparr>ts_db := Some d\<rparr>\<rparr>)"
  have c: "vmod_command (Some command) None ?w = Some ?c" "ts_db (task ?c) = Some d"
    by (simp_all add: vmod_command_def command_twice [OF assms(3)] command_keeps_db)
  note p = pushes_handle_args [OF c(2), of h args]
  have t: "(case timeout of Some ms \<Rightarrow> vmod_timeout ms None v | None \<Rightarrow> Some v) =
      Some (case timeout of Some ms \<Rightarrow> vmod_db_timeout d ms v | None \<Rightarrow> v)"
    "ts_db (task (case timeout of Some ms \<Rightarrow> vmod_db_timeout d ms v | None \<Rightarrow> v)) = Some d"
    if "ts_db (task v) = Some d" for v :: "'a world"
    using that by (cases timeout; simp add: vmod_timeout_def timeout_keeps_db)+
  have r: "(case retries of Some n \<Rightarrow> vmod_retries n None v | None \<Rightarrow> Some v) =
      Some (case retries of Some n \<Rightarrow> vmod_db_retries d n v | None \<Rightarrow> v)"
    "ts_db (task (case retries of Some n \<Rightarrow> vmod_db_retries d n v | None \<Rightarrow> v)) = Some d"
    if "ts_db (task v) = Some d" for v :: "'a world"
    using that by (cases retries; simp add: vmod_retries_def retries_keeps_db)+
  show "step_by_step dfuel fuel h name command args timeout retries master w =
      vmod_db_easy_execute dfuel fuel h d (Some command) args timeout retries master
        (w\<lparr>task := (task w)\<lparr>ts_db := Some d\<rparr>\<rparr>)"
    using p
    by (simp add: step_by_step_def use d c t r vmod_execute_def unit easy)
next
  assume d: "db_named name w = None"
  show "vmod_easy_execute dfuel fuel h (Some name) (Some command) args timeout retries master w = Some w"
    by (simp add: vmod_easy_execute_def proxied_named [OF assms(1,2)] d)
  show "step_by_step dfuel fuel h name command args timeout retries master w =
      Some (w\<lparr>task := (flush_task_state (task w))\<lparr>ts_db := None\<rparr>\<rparr>)"
    by (cases timeout; cases retries)
      (simp_all add: step_by_step_def vmod_use_named [OF assms(1,2)] d vmod_command_def pushes_nowhere vmod_timeout_def
        vmod_retries_def vmod_execute_def)
qed

theorem step_by_step_agrees_witness:
  "step_by_step 0 0 (lab (\<lambda>c. None) 64) ''db'' ''GET'' [Some (Some ''k''), None] None (Some 1) True (lab_one False False) =
     vmod_db_easy_execute 0 0 (lab (\<lambda>c. None) 64) 0 (Some ''GET'') [Some (Some ''k''), None] None (Some 1) True
       ((lab_one False False)\<lparr>task := lab_task\<lparr>ts_db := Some 0\<rparr>\<rparr>) \<and>
   vmod_easy_execute 0 0 (lab (\<lambda>c. None) 64) (Some ''other'') (Some ''GET'') [] None None True (lab_one False False) =
     Some (lab_one False False)"
proof -
  have w: "held (lab_one False False) = []" "db_named ''db'' (lab_one False False) = Some 0"
    "db_named ''other'' (lab_one False False) = None" "task (lab_one False False) = lab_task"
    by (simp_all add: db_named_def lab_defs)
  show ?thesis
    using step_by_step_agrees [OF w(1), of "''db''" "''GET''"] step_by_step_agrees [OF w(1), of "''other''" "''GET''"]
    by (simp add: w)
qed

end
