(* ===== verification/Spec2Isabelle.thy ===== *)
theory Spec2Isabelle
  imports Execute_Protocol Cluster_Endless Sentinel_Agreement Vmod_Weights Vmod_Runs Vmod_Proxy
begin

text \<open>
  A verification library for libvmod-redis, the Varnish module that runs Redis commands from VCL. The
  module is linked with hiredis 1.x (RESP3 replies, TLS enabled) and runs in the worker threads of
  Varnish.

  \<^bold>\<open>The program.\<close> A VCL configuration has databases (\<open>struct vmod_redis_db\<close>). A database has a registry
  of servers, filed by weight and role, and counters; a server has a pool of shared connections and,
  in a cluster, the set of the slots it owns. A thread has a task state, with its private connections
  and the command being built. To execute a command, the code plans which connections and servers to
  try, takes a connection along the plan, sends the command down a pipeline, gives the connection back
  and retries. In a cluster the slot of the key chooses the servers, redirections are followed, and
  the topology is discovered again when it is out of date.

  \<^bold>\<open>The state.\<close> \<open>Redis_Model\<close> has the structures of \<open>src/core.h\<close> as records, in the state \<open>world\<close>: the
  stores of servers and databases, the task of the running thread, the configuration, the mutexes
  held, and the state \<open>net\<close> of everything outside. hiredis, the clock and the workspace of Varnish
  are the fields of the record \<open>hiredis\<close>, an argument of every definition that calls them; what the
  code relies on is stated as a hypothesis (\<open>connects\<close>, \<open>ws_room\<close>) where it is used. Operations
  return an option: \<open>None\<close> is a failed assertion, an access out of bounds, a mutex locked twice or a
  call that does not return. \<open>Redis_Reply\<close> has the replies, \<open>Libc\<close> the string functions, \<open>Scenario\<close>
  the concrete states of the witnesses.

  \<^bold>\<open>The theories and the code.\<close>
  \<^item> \<open>Crc16\<close> (\<open>src/crc16.c\<close>) and \<open>Sha1\<close>, \<open>Sha1_Stream\<close> (\<open>src/sha1.c\<close>, and \<open>sha1\<close> of \<open>src/core.c\<close>): the
    table driven checksum is the division of polynomials, the incremental digest is that of FIPS 180
    however the message is cut; both are instances of the locale of \<open>Streaming\<close>.
  \<^item> \<open>Registry\<close> (\<open>new_redis_server\<close>, \<open>unsafe_add_redis_server\<close>): the invariant \<open>reg_ok\<close> (every server in
    one list, once; locations unique; no socket in a cluster), and what adding a server does.
  \<^item> \<open>Connection\<close>, \<open>Connection_Health\<close> (\<open>new_rcontext\<close>, \<open>REDIS_BLESS_CONTEXT\<close>, role discovery,
    \<open>is_valid_redis_context\<close>): what is kept (\<open>same_core\<close>), when a connection is usable, sickness.
  \<^item> \<open>Plan\<close>, \<open>Plan_Properties\<close> (\<open>plan_execution\<close> and the functions it calls): refinement of an abstract
    specification of plans, and the order of their servers.
  \<^item> \<open>Pool\<close>, \<open>Pool_Threads\<close> (locking and unlocking connections): the pool that threads share as a step
    relation over critical sections, its invariants by rule induction (locale of \<open>Transition\<close>), and
    the refinement that ties the steps to the code.
  \<^item> \<open>Execute\<close> and the theories \<open>Execute_Properties\<close>, \<open>Execute_Private\<close>, \<open>Execute_Shared\<close>,
    \<open>Execute_State\<close>, \<open>Execute_Counts\<close>, \<open>Execute_Protocol\<close> (\<open>get_redis_repy\<close>, \<open>redis_execute\<close>): the loop of the
    attempts is proved in the locale \<open>connection_source\<close>, the contract of the functions that lock and unlock
    a connection, and interpreted on private connections, and on shared ones with a condition on the threads
    that share them (\<open>others_ok\<close>); what locking and unlocking keep is proved in the locale \<open>pool_frame\<close>, for
    any relation that the waits stay within (\<open>others_within\<close>). \<open>exec_state\<close> is the state of a database of
    either kind, which the theories of clusters and of VCL build on; then the counters, the pipelines,
    scripts and their digests.
  \<^item> \<open>Cluster_Keys\<close> (\<open>get_key_index\<close>, \<open>get_cluster_slot\<close>): key and slot of a command.
  \<^item> \<open>Cluster_Discovery\<close> and the theories \<open>Cluster_Topology\<close>, \<open>Cluster_Rediscovery\<close>, \<open>Cluster_Refresh\<close>,
    \<open>Cluster_Endless\<close> (\<open>discover_cluster_slots\<close> and the functions it calls): the topology of a reply is
    what the servers have after it has been registered; when a discovery ends, and when it does not.
  \<^item> \<open>Cluster_Execute\<close>, \<open>Cluster_Frame\<close>, \<open>Cluster_Redirections\<close> (\<open>cluster_execute\<close>): redirections are
    followed up to their limit and never reach the caller, under conditions on what servers answer
    (\<open>sound_redirections\<close>, \<open>whole_topologies\<close>); malformed ones panic.
  \<^item> \<open>Sentinel_Locations\<close>, \<open>Sentinel\<close>, \<open>Sentinel_Inventory\<close>, \<open>Sentinel_Update\<close>, \<open>Sentinel_Agreement\<close>
    (\<open>src/sentinel.c\<close>): the list of Sentinels is read back as written; the inventory of the thread is a
    map that notifications update as the events they carry; after an update the servers of the
    databases agree with it, although they move between the lists the loop is visiting.
  \<^item> \<open>Sentinel_Thread\<close>, \<open>Sentinel_Subscriptions\<close> (\<open>unsafe_sentinel_start\<close>, \<open>sentinel_loop\<close>, \<open>free_state\<close>):
    the loop of the thread, cut at its critical sections, and its Pub/Sub connections; what a step
    changes, and that the connections on record are those that are open.
  \<^item> \<open>Vmod_Events\<close>, \<open>Vmod_Machine\<close>, \<open>Vmod_Runs\<close> (\<open>vmod_event_function\<close> and its handlers, \<open>redis.sentinels()\<close>,
    \<open>new_vcl_state\<close>, \<open>free_vcl_state\<close>): the VCLs that Varnish loads, warms up, cools down and discards, and
    their Sentinel threads, as a step relation over any interleaving; its invariant (locale of
    \<open>Transition\<close>) says that no assertion fails and no reference dangles, the thread of a VCL that
    cools down ends, and no Pub/Sub connection leaks.
  \<^item> \<open>Vmod_Weights\<close>, \<open>Vmod_Database\<close>, \<open>Vmod_Command\<close>, \<open>Vmod_Calls\<close>, \<open>Vmod_Reply\<close>
    (\<open>src/vmod_redis.c\<close>): what VCL calls. The rules for weights, and the creation of databases,
    establish the invariants that the other theories assume; \<open>.easy_execute()\<close> then returns, and keeps
    them for the next call; its reply is only read within its bounds and with its type.
  \<^item> \<open>Vmod_Lifecycle\<close> (\<open>handle_vcl_cold_event\<close>, \<open>vmod_db__fini\<close> and the \<open>free_*\<close> functions of
    \<open>src/core.c\<close>): every pooled connection is closed exactly once. \<open>Reply_Json\<close>
    (\<open>serialize_redis_reply\<close>): the text of a reply is JSON exactly if the keys of its maps are scalars.
  \<^item> \<open>Vmod_Counters\<close> (\<open>.stats()\<close>, \<open>.counter()\<close>, \<open>new_task_synth_vsb\<close>, \<open>append_synth_response_body\<close>): both
    formats and \<open>.counter()\<close> are views of one tree of counters; what VCL reads of the text, and the
    buffers that the task keeps until it ends. \<open>Vmod_Proxy\<close> (\<open>VMOD_PROXIED_METHOD\<close>): the functions of
    the module, which find their database by name; called one after the other they are
    \<open>.easy_execute()\<close>.

  \<^bold>\<open>Bounds.\<close> \<open>fuel\<close> bounds how often a thread is woken up while it waits for a shared connection, and
  how many servers a discovery visits; a private connection needs none, and running out of it is \<open>None\<close>,
  so that a theorem that an operation returns is proved with fuel that is enough (for a discovery, the
  number of servers of the database). The attempts of a
  command and all other loops end by a measure. Integers that may wrap around are words; times are
  integers, since the clock does not overflow them.

  \<^bold>\<open>Not modelled.\<close> Logging (no effect on the state), the initialization of OpenSSL, and the reset of the
  fields of an object before its memory is released. The event loop of hiredis is a parameter: a pass
  over it gives the callbacks that are due. Numbers with a fraction are a parameter too. Within a command, the
  other threads act while this one waits for a shared connection and not between its critical sections (the
  interleaving of those is the step relation of \<open>Pool_Threads\<close>); a step of the Sentinel thread updates
  all databases at once, where the code locks them one by one, and the lock it takes for its first message in
  the log is left out.
\<close>

end
